(* ===== verification/Prelude.thy ===== *)
theory Prelude
  imports Main "HOL-Library.Sublist" "HOL-Library.Multiset"
begin

text \<open>
  Shared ground of the development: Python exceptions as values of an error type, the result type
  of fallible operations, the list operations of Python the sources use (slices with clamped
  bounds, \<open>insert\<close>, the index of the first match) and the generic lemmas on them.
  The collection \<open>result_simps\<close> unfolds the error plumbing; the collection
  \<open>slice_simps\<close> turns slices with bounds in range into \<open>take\<close> and \<open>drop\<close>.
\<close>

named_theorems result_simps
named_theorems slice_simps

section \<open>Errors and results\<close>

text \<open>The exception classes the modelled code raises or catches, without their messages.\<close>

datatype py_error =
    ValueError
  | KeyError
  | IndexError
  | AssertionError
  | RuntimeErr
  | TimeoutErr
  | FileNotFoundError
  | NoCondensationAvailable
  | ValidationError
  | JSONDecodeError
  | TypeErr
  | AttributeErr
  | RecursionErr
  | LLMAuthenticationError
  | FunctionCallValidationError
  | LLMContentPolicyViolationError
  | LLMMalformedConversationHistoryError
  | LLMContextWindowExceedError
  | ConversationRunError
  | OtherException

text \<open>What \<open>except ValueError\<close> catches: pydantic's and \<open>json\<close>'s errors are subclasses of it.\<close>

definition is_value_error :: "py_error \<Rightarrow> bool" where
  "is_value_error e \<longleftrightarrow> e \<in> {ValueError, ValidationError, JSONDecodeError}"

lemma is_value_error_simps [simp]:
  "is_value_error ValueError" "is_value_error ValidationError" "is_value_error JSONDecodeError"
  by (simp_all add: is_value_error_def)

type_synonym 'a result = "py_error + 'a"

definition bind_result :: "'a result \<Rightarrow> ('a \<Rightarrow> 'b result) \<Rightarrow> 'b result" where
  "bind_result m f = (case m of Inl e \<Rightarrow> Inl e | Inr x \<Rightarrow> f x)"

lemma bind_result_simps [simp, result_simps]:
  "bind_result (Inl e) f = Inl e"
  "bind_result (Inr x) f = f x"
  by (simp_all add: bind_result_def)

lemma bind_result_Inr_iff [result_simps]:
  "bind_result m f = Inr y \<longleftrightarrow> (\<exists>x. m = Inr x \<and> f x = Inr y)"
  by (cases m) auto

lemma bind_result_Inl_iff [result_simps]:
  "bind_result m f = Inl e \<longleftrightarrow> m = Inl e \<or> (\<exists>x. m = Inr x \<and> f x = Inl e)"
  by (cases m) auto

lemma bind_result_cong [fundef_cong]:
  "m = m' \<Longrightarrow> (\<And>x. m' = Inr x \<Longrightarrow> f x = g x) \<Longrightarrow> bind_result m f = bind_result m' g"
  by (cases m') auto

text \<open>An operation on an object returns a result with the object it leaves behind.\<close>

type_synonym ('a, 's) outcome = "'a result \<times> 's"

definition bind_op :: "('a, 's) outcome \<Rightarrow> ('a \<Rightarrow> 's \<Rightarrow> ('b, 's) outcome) \<Rightarrow> ('b, 's) outcome" where
  "bind_op m f = (case fst m of Inl e \<Rightarrow> (Inl e, snd m) | Inr x \<Rightarrow> f x (snd m))"

lemma bind_op_simps [simp, result_simps]:
  "bind_op (Inl e, s) f = (Inl e, s)"
  "bind_op (Inr x, s) f = f x s"
  by (simp_all add: bind_op_def)

lemma bind_op_Inr_iff [result_simps]:
  "bind_op m f = (Inr y, t) \<longleftrightarrow> (\<exists>x s. m = (Inr x, s) \<and> f x s = (Inr y, t))"
  by (cases m; cases "fst m") auto

section \<open>Python lists\<close>

text \<open>
  A slice bound as Python reads it: negative bounds count from the end, and both ends are
  clamped to the list (\<open>slice.indices\<close>).
\<close>

definition py_bound :: "nat \<Rightarrow> int \<Rightarrow> nat" where
  "py_bound n i = (if i < 0 then nat (max 0 (int n + i)) else min n (nat i))"

definition py_slice :: "'a list \<Rightarrow> int \<Rightarrow> int \<Rightarrow> 'a list" where
  "py_slice xs i j =
     (let a = py_bound (length xs) i; b = py_bound (length xs) j in take (b - a) (drop a xs))"

text \<open>\<open>list.insert(i, x)\<close> for \<open>i \<ge> 0\<close>; past the end it appends.\<close>

definition py_insert :: "nat \<Rightarrow> 'a \<Rightarrow> 'a list \<Rightarrow> 'a list" where
  "py_insert i x xs = take i xs @ x # drop i xs"

text \<open>\<open>next((i for i, x in enumerate(xs) if P(x)), None)\<close>.\<close>

fun first_index :: "('a \<Rightarrow> bool) \<Rightarrow> 'a list \<Rightarrow> nat option" where
  "first_index P [] = None"
| "first_index P (x # xs) = (if P x then Some 0 else map_option Suc (first_index P xs))"

text \<open>\<open>str.isspace\<close> below code point 256, and the strips without argument.\<close>

definition is_space :: "char \<Rightarrow> bool" where
  "is_space c \<longleftrightarrow> c \<in> {CHR 0x09, CHR 0x0A, CHR 0x0B, CHR 0x0C, CHR 0x0D, CHR 0x1C, CHR 0x1D, CHR 0x1E,
     CHR 0x1F, CHR 0x20, CHR 0x85, CHR 0xA0}"

definition lstrip :: "string \<Rightarrow> string" where
  "lstrip s = dropWhile is_space s"

definition rstrip :: "string \<Rightarrow> string" where
  "rstrip s = rev (dropWhile is_space (rev s))"

definition strip :: "string \<Rightarrow> string" where
  "strip s = rstrip (lstrip s)"

lemma py_bound_le [simp]: "py_bound n i \<le> n"
  by (auto simp: py_bound_def)

lemma py_bound_nat [simp, slice_simps]: "0 \<le> i \<Longrightarrow> i \<le> int n \<Longrightarrow> py_bound n i = nat i"
  by (auto simp: py_bound_def)

lemma py_slice_in_range [slice_simps]:
  assumes "0 \<le> i" "i \<le> int (length xs)" "0 \<le> j" "j \<le> int (length xs)"
  shows "py_slice xs i j = take (nat j - nat i) (drop (nat i) xs)"
  using assms by (simp add: py_slice_def Let_def)

lemma set_py_slice_subset: "set (py_slice xs i j) \<subseteq> set xs"
  by (auto simp: py_slice_def Let_def dest: in_set_takeD in_set_dropD)

lemma length_py_insert [simp]: "length (py_insert i x xs) = Suc (length xs)"
  by (simp add: py_insert_def)

lemma set_py_insert [simp]: "set (py_insert i x xs) = insert x (set xs)"
  unfolding py_insert_def by (metis append_take_drop_id list.simps(15) set_append Un_insert_right)

lemma filter_py_insert_drop: "\<not> P x \<Longrightarrow> filter P (py_insert i x xs) = filter P xs"
  unfolding py_insert_def by (simp, metis append_take_drop_id filter_append)

lemma first_index_Some_iff:
  "first_index P xs = Some i \<longleftrightarrow> i < length xs \<and> P (xs ! i) \<and> (\<forall>j<i. \<not> P (xs ! j))"
proof (induction xs arbitrary: i)
  case Nil
  then show ?case by simp
next
  case (Cons x xs)
  then show ?case
    by (cases i) (auto simp: less_Suc_eq_0_disj nth_Cons split: nat.splits)
qed

lemma first_index_None_iff: "first_index P xs = None \<longleftrightarrow> (\<forall>x \<in> set xs. \<not> P x)"
  by (induction xs) auto

section \<open>Lists\<close>

text \<open>The last \<open>n\<close> elements.\<close>

definition last_n :: "nat \<Rightarrow> 'a list \<Rightarrow> 'a list" where
  "last_n n xs = drop (length xs - n) xs"

lemma distinct_map_filter_eq_iff:
  assumes "distinct (map f xs)" "x \<in> set xs" "y \<in> set xs"
  shows "f x = f y \<longleftrightarrow> x = y"
  using assms by (auto simp: distinct_map inj_on_def)

lemma length_filter_less_if:
  "x \<in> set xs \<Longrightarrow> \<not> P x \<Longrightarrow> length (filter P xs) < length xs"
  by (rule length_filter_less)

text \<open>Cutting a range \<open>[i, j)\<close> out of a list.\<close>

definition cut_range :: "nat \<Rightarrow> nat \<Rightarrow> 'a list \<Rightarrow> 'a list" where
  "cut_range i j xs = take i xs @ drop j xs"

lemma in_set_cut_range_iff:
  assumes "i \<le> j"
  shows "x \<in> set (cut_range i j xs) \<longleftrightarrow> (\<exists>k < length xs. xs ! k = x \<and> (k < i \<or> j \<le> k))"
    (is "?l \<longleftrightarrow> ?r")
proof
  assume ?l
  then consider "x \<in> set (take i xs)" | "x \<in> set (drop j xs)"
    by (auto simp: cut_range_def)
  then show ?r
  proof cases
    case 1
    then show ?thesis by (auto simp: in_set_conv_nth)
  next
    case 2
    then obtain k where "k < length xs - j" "xs ! (j + k) = x"
      by (auto simp: in_set_conv_nth)
    then show ?thesis by (intro exI [of _ "j + k"]) auto
  qed
next
  assume ?r
  then obtain k where k: "k < length xs" "xs ! k = x" "k < i \<or> j \<le> k" by blast
  show ?l
  proof (cases "k < i")
    case True
    then have "x \<in> set (take i xs)" using k by (force simp: in_set_conv_nth)
    then show ?thesis by (simp add: cut_range_def)
  next
    case False
    then have "k - j < length (drop j xs)" "drop j xs ! (k - j) = x" using k by auto
    then have "x \<in> set (drop j xs)" by (metis nth_mem)
    then show ?thesis by (simp add: cut_range_def)
  qed
qed

lemma bex_set_nth: "(\<exists>x \<in> set xs. P x) \<longleftrightarrow> (\<exists>k < length xs. P (xs ! k))"
  by (metis in_set_conv_nth)

lemma bex_cut_range:
  assumes "i \<le> j"
  shows "(\<exists>x \<in> set (cut_range i j xs). P x) \<longleftrightarrow> (\<exists>k < length xs. P (xs ! k) \<and> (k < i \<or> j \<le> k))"
  unfolding Bex_def in_set_cut_range_iff [OF assms] by metis

lemma subseq_cut_range: "i \<le> j \<Longrightarrow> subseq (cut_range i j xs) xs"
proof -
  assume "i \<le> j"
  then have "xs = take i xs @ take (j - i) (drop i xs) @ drop j xs"
    by (metis append_take_drop_id drop_drop le_add_diff_inverse2)
  moreover have "subseq (take i xs @ drop j xs) (take i xs @ take (j - i) (drop i xs) @ drop j xs)"
    by (intro list_emb_append_mono list_emb_append2 subseq_order.refl)
  ultimately show ?thesis by (simp add: cut_range_def)
qed

end
