(* ===== verification/Security_Risk.thy ===== *)
theory Security_Risk
  imports Prelude
begin

text \<open>
  The security risk levels of \<open>security/risk.py\<close>: the enumeration, its partial order
  (comparisons with \<open>UNKNOWN\<close> raise \<open>ValueError\<close>) and the maximum Python's \<open>max()\<close>
  computes from \<open>__gt__\<close>.
\<close>

datatype SecurityRisk = UNKNOWN | LOW | MEDIUM | HIGH

text \<open>\<open>_RISK_ORDER\<close>: a dictionary without an entry for \<open>UNKNOWN\<close>.\<close>

fun RISK_ORDER :: "SecurityRisk \<Rightarrow> nat option" where
  "RISK_ORDER LOW = Some 1"
| "RISK_ORDER MEDIUM = Some 2"
| "RISK_ORDER HIGH = Some 3"
| "RISK_ORDER UNKNOWN = None"

definition risk_ord :: "SecurityRisk \<Rightarrow> nat result" where
  "risk_ord r = (case RISK_ORDER r of None \<Rightarrow> Inl KeyError | Some n \<Rightarrow> Inr n)"

definition is_riskier :: "SecurityRisk \<Rightarrow> SecurityRisk \<Rightarrow> bool \<Rightarrow> bool result" where
  "is_riskier self other reflexive =
     (if self = UNKNOWN \<or> other = UNKNOWN then Inl ValueError
      else bind_result (risk_ord self) (\<lambda>a.
           bind_result (risk_ord other) (\<lambda>b.
             Inr (a > b \<or> (reflexive \<and> self = other)))))"

text \<open>\<open>_check_comparable\<close> for an argument that is a \<open>SecurityRisk\<close>.\<close>

definition check_comparable :: "SecurityRisk \<Rightarrow> SecurityRisk \<Rightarrow> nat result" where
  "check_comparable self other =
     (if self = UNKNOWN \<or> other = UNKNOWN then Inl ValueError else risk_ord other)"

definition risk_cmp :: "(nat \<Rightarrow> nat \<Rightarrow> bool) \<Rightarrow> SecurityRisk \<Rightarrow> SecurityRisk \<Rightarrow> bool result" where
  "risk_cmp R self other =
     bind_result (check_comparable self other) (\<lambda>b.
     bind_result (risk_ord self) (\<lambda>a. Inr (R a b)))"

definition risk_lt :: "SecurityRisk \<Rightarrow> SecurityRisk \<Rightarrow> bool result" where
  "risk_lt = risk_cmp (<)"

definition risk_gt :: "SecurityRisk \<Rightarrow> SecurityRisk \<Rightarrow> bool result" where
  "risk_gt = risk_cmp (>)"

definition risk_le :: "SecurityRisk \<Rightarrow> SecurityRisk \<Rightarrow> bool result" where
  "risk_le = risk_cmp (\<le>)"

definition risk_ge :: "SecurityRisk \<Rightarrow> SecurityRisk \<Rightarrow> bool result" where
  "risk_ge = risk_cmp (\<ge>)"

lemmas risk_cmp_defs = risk_cmp_def check_comparable_def risk_ord_def is_riskier_def
  risk_lt_def risk_gt_def risk_le_def risk_ge_def

text \<open>
  \<open>max(rs)\<close>: the running maximum is replaced when the new element compares greater.
\<close>

fun risk_max_from :: "SecurityRisk \<Rightarrow> SecurityRisk list \<Rightarrow> SecurityRisk result" where
  "risk_max_from m [] = Inr m"
| "risk_max_from m (r # rs) =
     bind_result (risk_gt r m) (\<lambda>g. risk_max_from (if g then r else m) rs)"

definition risk_max :: "SecurityRisk list \<Rightarrow> SecurityRisk result" where
  "risk_max rs = (case rs of [] \<Rightarrow> Inl ValueError | r # rs' \<Rightarrow> risk_max_from r rs')"

text \<open>The intended total order on the concrete levels, for stating properties.\<close>

fun severity :: "SecurityRisk \<Rightarrow> nat" where
  "severity UNKNOWN = 0"
| "severity LOW = 1"
| "severity MEDIUM = 2"
| "severity HIGH = 3"

lemma risk_ord_concrete [simp]: "r \<noteq> UNKNOWN \<Longrightarrow> risk_ord r = Inr (severity r)"
  by (cases r) (simp_all add: risk_ord_def)

lemma severity_inj [simp]: "severity a = severity b \<longleftrightarrow> a = b"
  by (cases a; cases b) simp_all

lemma severity_pos [simp]: "0 < severity r \<longleftrightarrow> r \<noteq> UNKNOWN"
  by (cases r) simp_all

lemma risk_cmp_concrete [simp]:
  "a \<noteq> UNKNOWN \<Longrightarrow> b \<noteq> UNKNOWN \<Longrightarrow> risk_cmp R a b = Inr (R (severity a) (severity b))"
  by (simp add: risk_cmp_def check_comparable_def)

lemma is_riskier_concrete:
  "a \<noteq> UNKNOWN \<Longrightarrow> b \<noteq> UNKNOWN \<Longrightarrow>
   is_riskier a b reflexive = Inr (severity a > severity b \<or> (reflexive \<and> a = b))"
  by (simp add: is_riskier_def)

lemma is_riskier_reflexive_concrete:
  "a \<noteq> UNKNOWN \<Longrightarrow> b \<noteq> UNKNOWN \<Longrightarrow> is_riskier a b True = Inr (severity a \<ge> severity b)"
  by (auto simp: is_riskier_concrete le_less)

lemma risk_max_from_concrete:
  assumes "UNKNOWN \<notin> set (m # rs)"
  shows "\<exists>r \<in> set (m # rs). risk_max_from m rs = Inr r \<and> (\<forall>s \<in> set (m # rs). severity s \<le> severity r)"
  using assms
proof (induction rs arbitrary: m)
  case Nil
  then show ?case by simp
next
  case (Cons r rs)
  let ?m = "if severity m < severity r then r else m"
  from Cons.prems have "UNKNOWN \<notin> set (?m # rs)" by auto
  from Cons.IH [OF this] obtain x where x: "x \<in> set (?m # rs)"
    "risk_max_from ?m rs = Inr x" "\<forall>s \<in> set (?m # rs). severity s \<le> severity x"
    by blast
  from Cons.prems have "risk_max_from m (r # rs) = risk_max_from ?m rs"
    by (auto simp: risk_gt_def)
  moreover have "severity m \<le> severity x" "severity r \<le> severity x"
    using x(3) by (auto split: if_splits)
  ultimately show ?case using x by (auto split: if_splits)
qed

lemma risk_max_concrete:
  assumes "rs \<noteq> []" "UNKNOWN \<notin> set rs"
  shows "\<exists>r \<in> set rs. risk_max rs = Inr r \<and> (\<forall>s \<in> set rs. severity s \<le> severity r)"
  using assms risk_max_from_concrete [of "hd rs" "tl rs"]
  by (cases rs) (simp_all add: risk_max_def)

end
