(* ===== verification/Events.thy ===== *)
theory Events
  imports Security_Risk "HOL-Library.Finite_Map"
begin

text \<open>
  The event types of \<open>sdk/event\<close> and the LLM messages they convert to: one record per event
  class, one datatype for the union, \<open>to_llm_message\<close> of each class,
  \<open>LLMConvertibleEvent.events_to_messages\<close> with its multi-action batches, and
  \<open>Condensation.apply\<close>.

  JSON values are a datatype whose equality is Python's \<open>==\<close> on what \<open>json.loads\<close>
  returns: dictionaries are finite maps, and a scalar (null, boolean, number) is held in one
  canonical spelling. An instance of a pydantic model of a tool (an action, a tool definition)
  is its class name with its fields.
\<close>

section \<open>Data\<close>

datatype json =
    JScalar string
  | JStr string
  | JList "json list"
  | JDict "(string, json) fmap"

type_synonym py_model = "string \<times> json"

datatype content =
    TextContent string bool
  | ImageContent "string list" bool

datatype thinking_block =
    ThinkingBlock string "string option"
  | RedactedThinkingBlock string

datatype role = RoleUser | RoleSystem | RoleAssistant | RoleTool

datatype source_type = SourceAgent | SourceUser | SourceEnvironment | SourceHook

datatype call_origin = OriginCompletion | OriginResponses

record message_tool_call =
  tc_id :: string
  tc_responses_item_id :: "string option"
  tc_name :: string
  tc_arguments :: string
  tc_origin :: call_origin

record reasoning_item =
  ri_id :: "string option"
  ri_summary :: "string list"
  ri_content :: "string list option"
  ri_encrypted_content :: "string option"
  ri_status :: "string option"

record message =
  role :: role
  msg_content :: "content list"
  tool_calls :: "message_tool_call list option"
  msg_tool_call_id :: "string option"
  msg_name :: "string option"
  msg_reasoning_content :: "string option"
  msg_thinking_blocks :: "thinking_block list"
  msg_responses_reasoning_item :: "reasoning_item option"

text \<open>A message with every field but role and content at its default.\<close>

definition plain_message :: "role \<Rightarrow> content list \<Rightarrow> message" where
  "plain_message r c =
     \<lparr>role = r, msg_content = c, tool_calls = None, msg_tool_call_id = None, msg_name = None,
      msg_reasoning_content = None, msg_thinking_blocks = [],
      msg_responses_reasoning_item = None\<rparr>"

record event_base =
  event_id :: string
  timestamp :: string
  source :: source_type
  parent_id :: "string option"

record system_prompt_event = event_base +
  system_prompt :: content
  tools :: "py_model list"
  dynamic_context :: "content option"

record message_event = event_base +
  llm_message :: message
  me_llm_response_id :: "string option"
  activated_skills :: "string list"
  me_extended_content :: "content list"
  sender :: "string option"
  me_critic_result :: "py_model option"

record action_event = event_base +
  thought :: "content list"
  reasoning_content :: "string option"
  thinking_blocks :: "thinking_block list"
  responses_reasoning_item :: "reasoning_item option"
  action :: "py_model option"
  tool_name :: string
  tool_call_id :: string
  tool_call :: message_tool_call
  llm_response_id :: string
  security_risk :: SecurityRisk
  critic_result :: "py_model option"
  summary :: "string option"

text \<open>
  An observation with the value its \<open>to_llm_content\<close> property has (subclasses override it).
\<close>

record observation =
  obs_model :: py_model
  is_error :: bool
  to_llm_content :: "content list"

record observation_base_event = event_base +
  obs_tool_name :: string
  obs_tool_call_id :: string

record observation_event = observation_base_event +
  observation :: observation
  action_id :: string
  extended_content :: "content list"

datatype rejection_source = RejectedByUser | RejectedByHook

record user_reject_observation = observation_base_event +
  rejection_reason :: string
  rejection_source :: rejection_source
  rejected_action_id :: string

datatype loc_part = LocName string | LocIndex int

record tool_validation_error =
  err_type :: string
  loc :: "loc_part list"

datatype failure_kind =
    FK_AUTH | FK_QUOTA | FK_RATE_LIMIT | FK_CONFIG | FK_TRANSIENT
  | FK_AGENT_ACTION | FK_INTERNAL | FK_UNKNOWN

datatype failure_action = FA_none | FA_retry | FA_settings

record error_classification =
  kind :: failure_kind
  retryable :: bool
  user_action :: failure_action
  error_id :: "string option"

record agent_error_event = observation_base_event +
  error :: string
  classification :: "error_classification option"
  validation_errors :: "tool_validation_error list option"

record condensation_summary_event = event_base +
  summary_text :: string

record condensation = event_base +
  forgotten_event_ids :: "string set"
  cond_summary :: "string option"
  summary_offset :: "nat option"
  cond_llm_response_id :: string

text \<open>
  The union of the event classes. \<open>OtherEvent\<close> stands for the classes that are neither
  convertible to an LLM message nor related to condensation (pause, state update, token, hook
  execution and the like), with the class name.
\<close>

datatype event =
    SystemPromptEvent system_prompt_event
  | MessageEvent message_event
  | ActionEvent action_event
  | ObservationEvent observation_event
  | UserRejectObservation user_reject_observation
  | AgentErrorEvent agent_error_event
  | CondensationSummaryEvent condensation_summary_event
  | Condensation condensation
  | CondensationRequest event_base
  | OtherEvent string event_base

fun ev_id :: "event \<Rightarrow> string" where
  "ev_id (SystemPromptEvent e) = event_id e"
| "ev_id (MessageEvent e) = event_id e"
| "ev_id (ActionEvent e) = event_id e"
| "ev_id (ObservationEvent e) = event_id e"
| "ev_id (UserRejectObservation e) = event_id e"
| "ev_id (AgentErrorEvent e) = event_id e"
| "ev_id (CondensationSummaryEvent e) = event_id e"
| "ev_id (Condensation e) = event_id e"
| "ev_id (CondensationRequest e) = event_id e"
| "ev_id (OtherEvent _ e) = event_id e"

fun ev_parent_id :: "event \<Rightarrow> string option" where
  "ev_parent_id (SystemPromptEvent e) = parent_id e"
| "ev_parent_id (MessageEvent e) = parent_id e"
| "ev_parent_id (ActionEvent e) = parent_id e"
| "ev_parent_id (ObservationEvent e) = parent_id e"
| "ev_parent_id (UserRejectObservation e) = parent_id e"
| "ev_parent_id (AgentErrorEvent e) = parent_id e"
| "ev_parent_id (CondensationSummaryEvent e) = parent_id e"
| "ev_parent_id (Condensation e) = parent_id e"
| "ev_parent_id (CondensationRequest e) = parent_id e"
| "ev_parent_id (OtherEvent _ e) = parent_id e"

text \<open>The \<open>isinstance\<close> tests of the sources.\<close>

fun is_action :: "event \<Rightarrow> bool" where
  "is_action (ActionEvent _) = True"
| "is_action _ = False"

fun is_observation_base :: "event \<Rightarrow> bool" where
  "is_observation_base (ObservationEvent _) = True"
| "is_observation_base (UserRejectObservation _) = True"
| "is_observation_base (AgentErrorEvent _) = True"
| "is_observation_base _ = False"

fun is_llm_convertible :: "event \<Rightarrow> bool" where
  "is_llm_convertible (Condensation _) = False"
| "is_llm_convertible (CondensationRequest _) = False"
| "is_llm_convertible (OtherEvent _ _) = False"
| "is_llm_convertible _ = True"

text \<open>Fields read after a successful \<open>isinstance\<close> test.\<close>

fun observed_call :: "event \<Rightarrow> string option" where
  "observed_call (ObservationEvent e) = Some (obs_tool_call_id e)"
| "observed_call (UserRejectObservation e) = Some (obs_tool_call_id e)"
| "observed_call (AgentErrorEvent e) = Some (obs_tool_call_id e)"
| "observed_call _ = None"

fun acted_call :: "event \<Rightarrow> string option" where
  "acted_call (ActionEvent e) = Some (tool_call_id e)"
| "acted_call _ = None"

fun response_of :: "event \<Rightarrow> string option" where
  "response_of (ActionEvent e) = Some (llm_response_id e)"
| "response_of _ = None"

fun has_thinking :: "event \<Rightarrow> bool" where
  "has_thinking (ActionEvent e) = (thinking_blocks e \<noteq> [])"
| "has_thinking _ = False"

lemma observed_call_None_iff: "observed_call e = None \<longleftrightarrow> \<not> is_observation_base e"
  by (cases e) simp_all

lemma acted_call_None_iff: "acted_call e = None \<longleftrightarrow> \<not> is_action e"
  by (cases e) simp_all

lemma response_of_None_iff: "response_of e = None \<longleftrightarrow> \<not> is_action e"
  by (cases e) simp_all

lemma call_Some_kind [dest]:
  "observed_call e = Some c \<Longrightarrow> is_observation_base e"
  "acted_call e = Some c \<Longrightarrow> is_action e"
  "response_of e = Some r \<Longrightarrow> is_action e"
  by (cases e; simp)+

lemma action_not_observation: "is_action e \<Longrightarrow> \<not> is_observation_base e"
  by (cases e) simp_all

lemma acted_imp_not_observed [simp]: "acted_call e = Some c \<Longrightarrow> observed_call e = None"
  by (cases e) simp_all

lemma observed_imp_not_acted [simp]: "observed_call e = Some c \<Longrightarrow> acted_call e = None"
  by (cases e) simp_all

section \<open>Agent errors\<close>

text \<open>\<open>AgentErrorEvent.classify\<close>, the validator that fills in a missing classification.\<close>

definition classify :: "agent_error_event \<Rightarrow> agent_error_event" where
  "classify e =
     (case classification e of
        None \<Rightarrow> e\<lparr>classification := Some \<lparr>kind = FK_UNKNOWN, retryable = False, user_action = FA_none, error_id = None\<rparr>\<rparr>
      | Some _ \<Rightarrow> e)"

lemma classify_idem: "classify (classify e) = classify e"
  by (simp add: classify_def split: option.splits)

section \<open>Conversion to LLM messages\<close>

text \<open>\<open>to_llm_message\<close> of each event class, then the dispatch on the class.\<close>

definition system_prompt_to_llm_message :: "system_prompt_event \<Rightarrow> message" where
  "system_prompt_to_llm_message e =
     (case dynamic_context e of
        Some d \<Rightarrow> plain_message RoleSystem [system_prompt e, d]
      | None \<Rightarrow> plain_message RoleSystem [system_prompt e])"

definition message_to_llm_message :: "message_event \<Rightarrow> message" where
  "message_to_llm_message e =
     (llm_message e)\<lparr>msg_content := msg_content (llm_message e) @ me_extended_content e\<rparr>"

definition action_to_llm_message :: "action_event \<Rightarrow> message" where
  "action_to_llm_message e =
     (plain_message RoleAssistant (thought e))
       \<lparr>tool_calls := Some [tool_call e],
        msg_reasoning_content := reasoning_content e,
        msg_thinking_blocks := thinking_blocks e,
        msg_responses_reasoning_item := responses_reasoning_item e\<rparr>"

definition observation_to_llm_message :: "observation_event \<Rightarrow> message" where
  "observation_to_llm_message e =
     (plain_message RoleTool (to_llm_content (observation e) @ extended_content e))
       \<lparr>msg_name := Some (obs_tool_name e), msg_tool_call_id := Some (obs_tool_call_id e)\<rparr>"

definition user_reject_to_llm_message :: "user_reject_observation \<Rightarrow> message" where
  "user_reject_to_llm_message e =
     (plain_message RoleTool [TextContent (''Action rejected: '' @ rejection_reason e) False])
       \<lparr>msg_name := Some (obs_tool_name e), msg_tool_call_id := Some (obs_tool_call_id e)\<rparr>"

definition agent_error_to_llm_message :: "agent_error_event \<Rightarrow> message" where
  "agent_error_to_llm_message e =
     (plain_message RoleTool [TextContent (error e) False])
       \<lparr>msg_name := Some (obs_tool_name e), msg_tool_call_id := Some (obs_tool_call_id e)\<rparr>"

definition summary_to_llm_message :: "condensation_summary_event \<Rightarrow> message" where
  "summary_to_llm_message e = plain_message RoleUser [TextContent (summary_text e) False]"

lemmas to_llm_message_defs [simp] =
  system_prompt_to_llm_message_def message_to_llm_message_def action_to_llm_message_def
  observation_to_llm_message_def user_reject_to_llm_message_def agent_error_to_llm_message_def
  summary_to_llm_message_def

fun to_llm_message :: "event \<Rightarrow> message result" where
  "to_llm_message (SystemPromptEvent e) = Inr (system_prompt_to_llm_message e)"
| "to_llm_message (MessageEvent e) = Inr (message_to_llm_message e)"
| "to_llm_message (ActionEvent e) = Inr (action_to_llm_message e)"
| "to_llm_message (ObservationEvent e) = Inr (observation_to_llm_message e)"
| "to_llm_message (UserRejectObservation e) = Inr (user_reject_to_llm_message e)"
| "to_llm_message (AgentErrorEvent e) = Inr (agent_error_to_llm_message e)"
| "to_llm_message (CondensationSummaryEvent e) = Inr (summary_to_llm_message e)"
| "to_llm_message _ = Inl OtherException"

definition is_plain_user_message :: "message \<Rightarrow> bool" where
  "is_plain_user_message m \<longleftrightarrow>
     role m = RoleUser \<and> tool_calls m = None \<and> msg_tool_call_id m = None \<and> msg_name m = None"

definition can_merge_user_messages :: "message \<Rightarrow> message \<Rightarrow> bool" where
  "can_merge_user_messages previous current \<longleftrightarrow>
     is_plain_user_message previous \<and> is_plain_user_message current"

text \<open>\<open>_combine_action_events\<close>; the callers pass a non-empty batch.\<close>

definition combine_action_events :: "action_event list \<Rightarrow> message result" where
  "combine_action_events es =
     (case es of
        [] \<Rightarrow> Inl IndexError
      | e # rest \<Rightarrow>
          if rest = [] then to_llm_message (ActionEvent e)
          else if \<exists>x \<in> set rest. thought x \<noteq> [] then Inl AssertionError
          else Inr ((plain_message RoleAssistant (thought e))
                      \<lparr>tool_calls := Some (map tool_call es),
                       msg_reasoning_content := reasoning_content e,
                       msg_thinking_blocks := thinking_blocks e,
                       msg_responses_reasoning_item := responses_reasoning_item e\<rparr>))"

text \<open>The look-ahead of the loop: the further actions of the same response, and what follows.\<close>

fun collect_batch :: "string \<Rightarrow> event list \<Rightarrow> action_event list \<times> event list" where
  "collect_batch rid (ActionEvent a # es) =
     (if llm_response_id a \<noteq> rid then ([], ActionEvent a # es)
      else (let (b, rest) = collect_batch rid es in (a # b, rest)))"
| "collect_batch rid es = ([], es)"

text \<open>Appending a message, merging it into a preceding plain user message.\<close>

definition push_message :: "message list \<Rightarrow> message \<Rightarrow> message list" where
  "push_message msgs msg =
     (if msgs \<noteq> [] \<and> can_merge_user_messages (last msgs) msg
      then butlast msgs @ [(last msgs)\<lparr>msg_content := msg_content (last msgs) @ msg_content msg\<rparr>]
      else msgs @ [msg])"

lemma collect_batch_length: "length (snd (collect_batch rid es)) \<le> length es"
  by (induction rid es rule: collect_batch.induct) (auto split: prod.splits)

lemma collect_batch_split:
  "collect_batch rid es = (b, rest) \<Longrightarrow> es = map ActionEvent b @ rest"
  by (induction rid es arbitrary: b rest rule: collect_batch.induct)
     (auto split: prod.splits if_splits)

lemma collect_batch_same:
  "collect_batch rid es = (b, rest) \<Longrightarrow> a \<in> set b \<Longrightarrow> llm_response_id a = rid"
  by (induction rid es arbitrary: b rest rule: collect_batch.induct)
     (auto split: prod.splits if_splits)

function events_to_messages_loop :: "message list \<Rightarrow> event list \<Rightarrow> message list result" where
  "events_to_messages_loop msgs [] = Inr msgs"
| "events_to_messages_loop msgs (e # es) =
     (case e of
        ActionEvent a \<Rightarrow>
          (let br = collect_batch (llm_response_id a) es
           in bind_result (combine_action_events (a # fst br)) (\<lambda>msg.
                events_to_messages_loop (push_message msgs msg) (snd br)))
      | _ \<Rightarrow> bind_result (to_llm_message e) (\<lambda>msg. events_to_messages_loop (push_message msgs msg) es))"
  by pat_completeness auto
termination
  by (relation "measure (\<lambda>(msgs, es). length es)") (auto simp: less_Suc_eq_le collect_batch_length)

definition events_to_messages :: "event list \<Rightarrow> message list result" where
  "events_to_messages es = events_to_messages_loop [] es"

section \<open>Condensation\<close>

definition has_summary_metadata :: "condensation \<Rightarrow> bool" where
  "has_summary_metadata c \<longleftrightarrow> cond_summary c \<noteq> None \<and> summary_offset c \<noteq> None"

definition summary_id :: "string \<Rightarrow> string" where
  "summary_id cid = cid @ ''-summary''"

text \<open>
  The \<open>summary_event\<close> property. The new event gets a fresh timestamp and no parent; the
  timestamp is left empty, since nothing modelled reads it.
\<close>

definition summary_event :: "condensation \<Rightarrow> event result" where
  "summary_event c =
     (case cond_summary c of
        None \<Rightarrow> Inl ValueError
      | Some s \<Rightarrow> Inr (CondensationSummaryEvent
          \<lparr>event_id = summary_id (event_id c), timestamp = [], source = source c, parent_id = None,
           summary_text = s\<rparr>))"

definition apply_condensation :: "condensation \<Rightarrow> event list \<Rightarrow> event list result" where
  "apply_condensation c evs =
     (let output = filter (\<lambda>e. ev_id e \<notin> forgotten_event_ids c) evs
      in if has_summary_metadata c then
           (case summary_offset c of
              None \<Rightarrow> Inl AssertionError
            | Some off \<Rightarrow> bind_result (summary_event c) (\<lambda>se. Inr (py_insert off se output)))
         else Inr output)"

lemma apply_condensation_total:
  "apply_condensation c evs =
     Inr (let output = filter (\<lambda>e. ev_id e \<notin> forgotten_event_ids c) evs
          in case (cond_summary c, summary_offset c) of
               (Some s, Some off) \<Rightarrow> py_insert off (CondensationSummaryEvent
                 \<lparr>event_id = summary_id (event_id c), timestamp = [], source = source c,
                  parent_id = None, summary_text = s\<rparr>) output
             | _ \<Rightarrow> output)"
  by (auto simp: apply_condensation_def has_summary_metadata_def summary_event_def Let_def
      split: option.splits)

section \<open>What the message stream keeps of the events\<close>

definition message_calls :: "message \<Rightarrow> message_tool_call list" where
  "message_calls m = (case tool_calls m of None \<Rightarrow> [] | Some cs \<Rightarrow> cs)"

fun event_calls :: "event \<Rightarrow> message_tool_call list" where
  "event_calls (ActionEvent a) = [tool_call a]"
| "event_calls (MessageEvent m) = message_calls (llm_message m)"
| "event_calls _ = []"

text \<open>The tool calls a message answers: one identifier, for a tool result.\<close>

definition message_results :: "message \<Rightarrow> string list" where
  "message_results m = (case msg_tool_call_id m of None \<Rightarrow> [] | Some c \<Rightarrow> [c])"

fun event_results :: "event \<Rightarrow> string list" where
  "event_results (MessageEvent m) = message_results (llm_message m)"
| "event_results e = (case observed_call e of None \<Rightarrow> [] | Some c \<Rightarrow> [c])"

text \<open>No message of the list could still be merged with its predecessor.\<close>

definition coalesced :: "message list \<Rightarrow> bool" where
  "coalesced msgs \<longleftrightarrow> successively (\<lambda>a b. \<not> can_merge_user_messages a b) msgs"

text \<open>
  A batch is well formed when only its first action carries a thought, which is how the agent
  splits one LLM response into events.
\<close>

definition batch_thoughts_ok :: "event list \<Rightarrow> bool" where
  "batch_thoughts_ok es \<longleftrightarrow>
     successively (\<lambda>e f. response_of e = None \<or> response_of e \<noteq> response_of f \<or>
                         (case f of ActionEvent a \<Rightarrow> thought a = [] | _ \<Rightarrow> True)) es"

lemma message_calls_simps [simp]:
  "message_calls (plain_message r c) = []"
  "message_calls (m\<lparr>msg_content := x\<rparr>) = message_calls m"
  "message_calls (m\<lparr>tool_calls := Some cs\<rparr>) = cs"
  "message_calls (m\<lparr>msg_reasoning_content := y\<rparr>) = message_calls m"
  "message_calls (m\<lparr>msg_thinking_blocks := z\<rparr>) = message_calls m"
  "message_calls (m\<lparr>msg_responses_reasoning_item := w\<rparr>) = message_calls m"
  "message_calls (m\<lparr>msg_name := n\<rparr>) = message_calls m"
  "message_calls (m\<lparr>msg_tool_call_id := t\<rparr>) = message_calls m"
  by (simp_all add: message_calls_def plain_message_def)

lemma message_results_simps [simp]:
  "message_results (plain_message r c) = []"
  "message_results (m\<lparr>msg_content := x\<rparr>) = message_results m"
  "message_results (m\<lparr>tool_calls := cs\<rparr>) = message_results m"
  "message_results (m\<lparr>msg_reasoning_content := y\<rparr>) = message_results m"
  "message_results (m\<lparr>msg_thinking_blocks := z\<rparr>) = message_results m"
  "message_results (m\<lparr>msg_responses_reasoning_item := w\<rparr>) = message_results m"
  "message_results (m\<lparr>msg_name := n\<rparr>) = message_results m"
  "message_results (m\<lparr>msg_tool_call_id := Some t\<rparr>) = [t]"
  by (simp_all add: message_results_def plain_message_def)

lemma plain_user_no_calls:
  "is_plain_user_message m \<Longrightarrow> message_calls m = [] \<and> message_results m = []"
  by (simp add: is_plain_user_message_def message_calls_def message_results_def)

lemma to_llm_message_calls: "to_llm_message e = Inr m \<Longrightarrow> message_calls m = event_calls e"
  by (cases e) (auto split: option.splits)

lemma to_llm_message_results: "to_llm_message e = Inr m \<Longrightarrow> message_results m = event_results e"
  by (cases e) (auto split: option.splits)

lemma combine_action_events_calls:
  "combine_action_events as = Inr m \<Longrightarrow> message_calls m = map tool_call as"
  by (auto simp: combine_action_events_def split: list.splits if_splits)

lemma combine_action_events_results:
  "combine_action_events as = Inr m \<Longrightarrow> message_results m = []"
  by (auto simp: combine_action_events_def split: list.splits if_splits)

lemma push_message_calls:
  "concat (map message_calls (push_message msgs m)) =
   concat (map message_calls msgs) @ message_calls m"
proof (cases "msgs \<noteq> [] \<and> can_merge_user_messages (last msgs) m")
  case True
  then obtain ms l where msgs: "msgs = ms @ [l]" by (metis append_butlast_last_id)
  from True have "message_calls l = []" "message_calls m = []"
    by (auto simp: msgs can_merge_user_messages_def dest: plain_user_no_calls)
  with True show ?thesis by (simp add: push_message_def msgs)
next
  case False
  then show ?thesis by (auto simp: push_message_def)
qed

lemma push_message_results:
  "concat (map message_results (push_message msgs m)) =
   concat (map message_results msgs) @ message_results m"
proof (cases "msgs \<noteq> [] \<and> can_merge_user_messages (last msgs) m")
  case True
  then obtain ms l where msgs: "msgs = ms @ [l]" by (metis append_butlast_last_id)
  from True have "message_results l = []" "message_results m = []"
    by (auto simp: msgs can_merge_user_messages_def dest: plain_user_no_calls)
  with True show ?thesis by (simp add: push_message_def msgs)
next
  case False
  then show ?thesis by (auto simp: push_message_def)
qed

lemma is_plain_user_message_content [simp]:
  "is_plain_user_message (m\<lparr>msg_content := c\<rparr>) = is_plain_user_message m"
  by (simp add: is_plain_user_message_def)

lemma coalesced_push: "coalesced msgs \<Longrightarrow> coalesced (push_message msgs m)"
proof (cases "msgs \<noteq> [] \<and> can_merge_user_messages (last msgs) m")
  case True
  assume "coalesced msgs"
  with True show ?thesis
    by (cases msgs rule: rev_cases)
       (auto simp: coalesced_def push_message_def successively_append_iff
          can_merge_user_messages_def)
next
  case False
  assume "coalesced msgs"
  with False show ?thesis
    by (cases msgs rule: rev_cases)
       (auto simp: coalesced_def push_message_def successively_append_iff)
qed

lemma events_to_messages_loop_action:
  "events_to_messages_loop msgs (ActionEvent a # es) =
     (let br = collect_batch (llm_response_id a) es
      in bind_result (combine_action_events (a # fst br)) (\<lambda>msg.
           events_to_messages_loop (push_message msgs msg) (snd br)))"
  by simp

lemma events_to_messages_loop_other:
  "\<not> is_action e \<Longrightarrow> events_to_messages_loop msgs (e # es) =
     bind_result (to_llm_message e) (\<lambda>msg. events_to_messages_loop (push_message msgs msg) es)"
  by (cases e) simp_all

declare events_to_messages_loop.simps(2) [simp del]

lemma is_actionE [elim]:
  assumes "is_action e" obtains a where "e = ActionEvent a"
  using assms by (cases e) auto

text \<open>
  The loop's invariant: what has been pushed so far, followed by what the remaining events
  contribute.
\<close>

lemma events_to_messages_loop_spec:
  "events_to_messages_loop msgs es = Inr out \<Longrightarrow>
     concat (map message_calls out) = concat (map message_calls msgs) @ concat (map event_calls es) \<and>
     concat (map message_results out) =
       concat (map message_results msgs) @ concat (map event_results es) \<and>
     (coalesced msgs \<longrightarrow> coalesced out)"
proof (induction "length es" arbitrary: msgs es rule: less_induct)
  case less
  show ?case
  proof (cases es)
    case Nil
    with less.prems show ?thesis by simp
  next
    case (Cons e es')
    show ?thesis
    proof (cases "is_action e")
      case True
      then obtain a where e: "e = ActionEvent a" by blast
      let ?br = "collect_batch (llm_response_id a) es'"
      from less.prems obtain msg where msg: "combine_action_events (a # fst ?br) = Inr msg"
        and out: "events_to_messages_loop (push_message msgs msg) (snd ?br) = Inr out"
        by (auto simp: Cons e events_to_messages_loop_action Let_def bind_result_Inr_iff)
      have es': "es' = map ActionEvent (fst ?br) @ snd ?br"
        by (rule collect_batch_split) simp
      have batch: "concat (map event_calls es') =
          map tool_call (fst ?br) @ concat (map event_calls (snd ?br))"
        "concat (map event_results es') = concat (map event_results (snd ?br))"
        by (subst es', simp add: comp_def)+
      have "length (snd ?br) < length es"
        using collect_batch_length [of _ es'] by (simp add: Cons less_Suc_eq_le)
      from less.hyps [OF this out] show ?thesis
        using combine_action_events_calls [OF msg] combine_action_events_results [OF msg]
        by (simp add: Cons e push_message_calls push_message_results coalesced_push batch)
    next
      case False
      with less.prems obtain msg where msg: "to_llm_message e = Inr msg"
        and out: "events_to_messages_loop (push_message msgs msg) es' = Inr out"
        by (auto simp: Cons events_to_messages_loop_other bind_result_Inr_iff)
      have "length es' < length es" by (simp add: Cons)
      from less.hyps [OF this out] show ?thesis
        using to_llm_message_calls [OF msg] to_llm_message_results [OF msg]
        by (simp add: Cons push_message_calls push_message_results coalesced_push)
    qed
  qed
qed

text \<open>The loop returns when every event converts and the batches are well formed.\<close>

lemma batch_thoughts_ok_drop: "batch_thoughts_ok (xs @ ys) \<Longrightarrow> batch_thoughts_ok ys"
  by (auto simp: batch_thoughts_ok_def successively_append_iff)

lemma collect_batch_thoughts:
  "batch_thoughts_ok (ActionEvent a # es) \<Longrightarrow> llm_response_id a = rid \<Longrightarrow>
   \<forall>x \<in> set (fst (collect_batch rid es)). thought x = []"
proof (induction rid es arbitrary: a rule: collect_batch.induct)
  case (1 rid b es)
  show ?case
  proof (cases "llm_response_id b = rid")
    case True
    have "thought b = []" "batch_thoughts_ok (ActionEvent b # es)"
      using "1.prems" True by (simp_all add: batch_thoughts_ok_def)
    moreover have "\<forall>x \<in> set (fst (collect_batch rid es)). thought x = []"
      using "1.IH" [OF _ calculation(2) True] True by simp
    ultimately show ?thesis using True by (simp split: prod.splits)
  next
    case False
    then show ?thesis by simp
  qed
qed simp_all

lemma events_to_messages_loop_total:
  "\<forall>e \<in> set es. is_llm_convertible e \<Longrightarrow> batch_thoughts_ok es \<Longrightarrow>
   \<exists>out. events_to_messages_loop msgs es = Inr out"
proof (induction "length es" arbitrary: msgs es rule: less_induct)
  case less
  show ?case
  proof (cases es)
    case Nil
    then show ?thesis by simp
  next
    case (Cons e es')
    show ?thesis
    proof (cases "is_action e")
      case True
      then obtain a where e: "e = ActionEvent a" by blast
      let ?br = "collect_batch (llm_response_id a) es'"
      have es': "es' = map ActionEvent (fst ?br) @ snd ?br"
        by (rule collect_batch_split) simp
      have "es = (e # map ActionEvent (fst ?br)) @ snd ?br"
        using es' by (metis Cons append_Cons)
      then have ok: "batch_thoughts_ok (snd ?br)"
        using less.prems(2) batch_thoughts_ok_drop by metis
      have "set (snd ?br) \<subseteq> set es'"
        by (metis es' set_append sup.cobounded2)
      then have conv: "\<forall>x \<in> set (snd ?br). is_llm_convertible x"
        using less.prems(1) by (auto simp: Cons)
      have len: "length (snd ?br) < length es"
        using collect_batch_length [of _ es'] by (simp add: Cons less_Suc_eq_le)
      have "\<exists>msg. combine_action_events (a # fst ?br) = Inr msg"
        using collect_batch_thoughts [of a es'] less.prems(2)
        by (auto simp: Cons e combine_action_events_def)
      with less.hyps [OF len conv ok] show ?thesis
        by (auto simp: Cons e events_to_messages_loop_action Let_def)
    next
      case False
      have "batch_thoughts_ok es'"
        using less.prems(2) batch_thoughts_ok_drop [of "[e]" es'] by (simp add: Cons)
      moreover have "\<exists>msg. to_llm_message e = Inr msg"
        using less.prems(1) by (cases e) (auto simp: Cons)
      ultimately show ?thesis
        using less.hyps [of es'] less.prems(1) False
        by (auto simp: Cons events_to_messages_loop_other)
    qed
  qed
qed

section \<open>Sample events\<close>

text \<open>Concrete events the witnesses of this and later theories are built from.\<close>

definition sample_base :: "string \<Rightarrow> source_type \<Rightarrow> event_base" where
  "sample_base i src = \<lparr>event_id = i, timestamp = [], source = src, parent_id = None\<rparr>"

definition sample_action_event :: "string \<Rightarrow> string \<Rightarrow> string \<Rightarrow> thinking_block list \<Rightarrow> action_event" where
  "sample_action_event i call resp blocks =
     \<lparr>event_id = i, timestamp = [], source = SourceAgent, parent_id = None,
      thought = [], reasoning_content = None, thinking_blocks = blocks,
      responses_reasoning_item = None, action = Some (''ExecuteAction'', JScalar ''null''),
      tool_name = ''terminal'', tool_call_id = call,
      tool_call = \<lparr>tc_id = call, tc_responses_item_id = None, tc_name = ''terminal'',
                   tc_arguments = ''{}'', tc_origin = OriginCompletion\<rparr>,
      llm_response_id = resp, security_risk = LOW, critic_result = None, summary = None\<rparr>"

definition sample_action :: "string \<Rightarrow> string \<Rightarrow> string \<Rightarrow> event" where
  "sample_action i call resp = ActionEvent (sample_action_event i call resp [])"

definition sample_thinking :: "string \<Rightarrow> string \<Rightarrow> string \<Rightarrow> event" where
  "sample_thinking i call resp = ActionEvent (sample_action_event i call resp [RedactedThinkingBlock ''x''])"

definition sample_observation :: "string \<Rightarrow> string \<Rightarrow> event" where
  "sample_observation i call = ObservationEvent
     \<lparr>event_id = i, timestamp = [], source = SourceEnvironment, parent_id = None,
      obs_tool_name = ''terminal'', obs_tool_call_id = call,
      observation = \<lparr>obs_model = (''ExecuteObservation'', JScalar ''null''), is_error = False,
                     to_llm_content = [TextContent ''ok'' False]\<rparr>,
      action_id = ''a'', extended_content = []\<rparr>"

definition sample_error :: "string \<Rightarrow> string \<Rightarrow> string \<Rightarrow> event" where
  "sample_error i call text = AgentErrorEvent
     \<lparr>event_id = i, timestamp = [], source = SourceAgent, parent_id = None,
      obs_tool_name = ''terminal'', obs_tool_call_id = call, error = text,
      classification = None, validation_errors = None\<rparr>"

definition sample_message :: "string \<Rightarrow> source_type \<Rightarrow> string \<Rightarrow> event" where
  "sample_message i src text = MessageEvent
     \<lparr>event_id = i, timestamp = [], source = src, parent_id = None,
      llm_message = plain_message (if src = SourceAgent then RoleAssistant else RoleUser)
        [TextContent text False],
      me_llm_response_id = None, activated_skills = [], me_extended_content = [], sender = None, me_critic_result = None\<rparr>"

definition sample_system :: "string \<Rightarrow> event" where
  "sample_system i = SystemPromptEvent
     \<lparr>event_id = i, timestamp = [], source = SourceAgent, parent_id = None,
      system_prompt = TextContent ''You are an agent'' False, tools = [], dynamic_context = None\<rparr>"

lemmas sample_defs = sample_base_def sample_action_event_def sample_action_def sample_thinking_def
  sample_observation_def sample_error_def sample_message_def sample_system_def

section \<open>Properties\<close>

text \<open>C38: For convertible events whose batches carry a thought on their first action only, the
  conversion to LLM messages succeeds, and the message stream carries every tool call and every
  tool result of the events exactly once and in order, and never holds two plain user messages in
  a row: batching and merging lose nothing and reorder nothing.\<close>

theorem events_to_messages_faithful:
  assumes "\<forall>e \<in> set es. is_llm_convertible e" and "batch_thoughts_ok es"
  shows "\<exists>msgs. events_to_messages es = Inr msgs \<and>
           concat (map message_calls msgs) = concat (map event_calls es) \<and>
           concat (map message_results msgs) = concat (map event_results es) \<and>
           coalesced msgs"
proof -
  obtain msgs where "events_to_messages_loop [] es = Inr msgs"
    using events_to_messages_loop_total assms by blast
  with events_to_messages_loop_spec [OF this] show ?thesis
    by (simp add: events_to_messages_def coalesced_def)
qed

definition sample_batch_run :: "event list" where
  "sample_batch_run =
     [sample_system ''s'', sample_message ''u1'' SourceUser ''hi'', sample_message ''u2'' SourceUser ''go'',
      sample_action ''a1'' ''c1'' ''r1'', sample_action ''a2'' ''c2'' ''r1'',
      sample_observation ''o1'' ''c1'', sample_observation ''o2'' ''c2'']"

theorem events_to_messages_faithful_witness:
  "\<exists>msgs. events_to_messages sample_batch_run = Inr msgs \<and>
     concat (map message_results msgs) = [''c1'', ''c2''] \<and> coalesced msgs"
proof -
  have "\<forall>e \<in> set sample_batch_run. is_llm_convertible e" "batch_thoughts_ok sample_batch_run"
    by (simp_all add: sample_batch_run_def sample_defs batch_thoughts_ok_def)
  from events_to_messages_faithful [OF this] show ?thesis
    by (auto simp: sample_batch_run_def sample_defs message_results_def plain_message_def)
qed

end
