(* ===== verification/View_Properties.thy ===== *)
theory View_Properties
  imports Events
begin

text \<open>
  The four properties a view of the conversation must have (\<open>context/view/properties\<close>) and the
  manipulation indices (\<open>context/view/manipulation_indices.py\<close>). Each property has an
  enforcement, which names the events to drop, and a set of indices at which the view may be cut
  or extended. Index sets are sets of integers, as in the source; \<open>remove\<close> raises
  \<open>KeyError\<close> for an absent element, and the functions below carry that error.

  The locale \<open>view_property\<close> is the contract of \<open>ViewPropertyBase\<close>: enforcement only names
  events of the view, and the indices are computed without error, lie within the view and hold 0.
  Each of the four properties is an interpretation.
\<close>

named_theorems enforce_iff

section \<open>Manipulation indices\<close>

type_synonym index_set = "int set"

definition complete :: "event list \<Rightarrow> index_set" where
  "complete evs = insert (int (length evs)) (set (map int [0..<length evs]))"

definition find_next :: "index_set \<Rightarrow> int \<Rightarrow> int result" where
  "find_next S threshold =
     (let valid = {idx \<in> S. threshold \<le> idx}
      in if valid = {} then Inl ValueError else Inr (Min valid))"

text \<open>\<open>set.remove\<close>.\<close>

definition index_remove :: "index_set \<Rightarrow> int \<Rightarrow> index_set result" where
  "index_remove S i = (if i \<in> S then Inr (S - {i}) else Inl KeyError)"

lemma complete_eq: "complete evs = {0..int (length evs)}"
proof -
  have "x \<in> complete evs \<longleftrightarrow> x \<in> {0..int (length evs)}" for x
  proof -
    have "x \<in> int ` {0..<length evs} \<longleftrightarrow> 0 \<le> x \<and> x < int (length evs)"
      by (auto simp: image_iff intro!: bexI [of _ "nat x"])
    then show ?thesis by (auto simp: complete_def)
  qed
  then show ?thesis by blast
qed

lemma finite_complete [simp]: "finite (complete evs)"
  by (simp add: complete_def)

lemma find_next_spec:
  assumes "finite S" "find_next S t = Inr i"
  shows "i \<in> S" "t \<le> i" "\<And>k. k \<in> S \<Longrightarrow> t \<le> k \<Longrightarrow> i \<le> k"
proof -
  let ?V = "{idx \<in> S. t \<le> idx}"
  from assms have V: "finite ?V" "?V \<noteq> {}" and i: "i = Min ?V"
    by (auto simp: find_next_def Let_def split: if_splits)
  from Min_in [OF V] show "i \<in> S" "t \<le> i" by (auto simp: i)
  show "\<And>k. k \<in> S \<Longrightarrow> t \<le> k \<Longrightarrow> i \<le> k"
    using V by (auto simp: i intro: Min_le)
qed

lemma find_next_error_iff:
  "find_next S t = Inl e \<longleftrightarrow> e = ValueError \<and> (\<forall>k \<in> S. k < t)"
  by (auto simp: find_next_def Let_def not_le)

text \<open>
  The index loops remove a position computed from the head of the list and, shifted by one, the
  positions the recursive call removes.
\<close>

lemma removed_shift:
  assumes "\<And>k. P k \<longleftrightarrow> (k = d \<and> c) \<or> (\<exists>m. k = Suc m \<and> Q m)"
  shows "{index + int k | k. P k} =
    (if c then insert (index + int d) {index + 1 + int k | k. Q k} else {index + 1 + int k | k. Q k})"
    (is "?l = ?r")
proof (intro equalityI subsetI)
  fix x
  assume "x \<in> ?l"
  then obtain k where "x = index + int k" "(k = d \<and> c) \<or> (\<exists>m. k = Suc m \<and> Q m)"
    using assms by blast
  then show "x \<in> ?r" by force
next
  fix x
  assume "x \<in> ?r"
  then consider "c" "x = index + int d" | m where "x = index + 1 + int m" "Q m"
    by (auto split: if_splits)
  then show "x \<in> ?l"
  proof cases
    case 1
    with assms [of d] show ?thesis by blast
  next
    case 2
    with assms [of "Suc m"] show ?thesis by (force intro!: exI [of _ "Suc m"])
  qed
qed

lemma complete_minus:
  assumes "\<And>k. P k \<longleftrightarrow> k \<le> length cur \<and> \<not> Q k"
  shows "complete cur - {int k | k. Q k} = {int k | k. P k}"
proof (intro equalityI subsetI)
  fix x
  assume x: "x \<in> complete cur - {int k | k. Q k}"
  then have "x = int (nat x)" "nat x \<le> length cur" by (auto simp: complete_eq)
  moreover from x have "\<not> Q (nat x)" using calculation(1) by blast
  ultimately show "x \<in> {int k | k. P k}" using assms by blast
qed (auto simp: complete_eq assms)

section \<open>Observation uniqueness\<close>

fun ou_loop :: "string set \<Rightarrow> string set \<Rightarrow> event list \<Rightarrow> string set" where
  "ou_loop rm seen [] = rm"
| "ou_loop rm seen (e # es) =
     (case observed_call e of
        Some c \<Rightarrow> if c \<in> seen then ou_loop (insert (ev_id e) rm) seen es
                  else ou_loop rm (insert c seen) es
      | None \<Rightarrow> ou_loop rm seen es)"

definition ou_enforce :: "event list \<Rightarrow> event list \<Rightarrow> string set" where
  "ou_enforce cur all_events = ou_loop {} {} cur"

definition ou_indices :: "event list \<Rightarrow> index_set result" where
  "ou_indices cur = Inr (complete cur)"

definition observed_calls :: "event list \<Rightarrow> string list" where
  "observed_calls es = List.map_filter observed_call es"

definition acted_calls :: "event list \<Rightarrow> string list" where
  "acted_calls es = List.map_filter acted_call es"

lemma observed_calls_simps [simp]:
  "observed_calls [] = []"
  "observed_calls (e # es) =
     (case observed_call e of Some c \<Rightarrow> c # observed_calls es | None \<Rightarrow> observed_calls es)"
  "observed_calls (xs @ ys) = observed_calls xs @ observed_calls ys"
  by (simp_all add: observed_calls_def List.map_filter_def split: option.splits)

lemma acted_calls_simps [simp]:
  "acted_calls [] = []"
  "acted_calls (e # es) =
     (case acted_call e of Some c \<Rightarrow> c # acted_calls es | None \<Rightarrow> acted_calls es)"
  "acted_calls (xs @ ys) = acted_calls xs @ acted_calls ys"
  by (simp_all add: acted_calls_def List.map_filter_def split: option.splits)

lemma set_observed_calls: "c \<in> set (observed_calls es) \<longleftrightarrow> (\<exists>e \<in> set es. observed_call e = Some c)"
  by (induction es) (auto split: option.splits)

lemma acted_calls_subseq: "subseq xs ys \<Longrightarrow> subseq (acted_calls xs) (acted_calls ys)"
  by (induction rule: list_emb.induct) (auto split: option.splits)

lemma set_acted_calls: "c \<in> set (acted_calls es) \<longleftrightarrow> (\<exists>e \<in> set es. acted_call e = Some c)"
  by (induction es) (auto split: option.splits)

lemma ou_loop_mono: "rm \<subseteq> ou_loop rm seen es"
  by (induction rm seen es rule: ou_loop.induct) (auto split: option.splits)

lemma ou_loop_ids: "ou_loop rm seen es \<subseteq> rm \<union> ev_id ` set es"
proof (induction es arbitrary: rm seen)
  case Nil
  then show ?case by simp
next
  case (Cons e es)
  show ?case
  proof (cases "observed_call e")
    case None
    with Cons [of rm seen] show ?thesis by auto
  next
    case (Some c)
    with Cons [of "insert (ev_id e) rm" seen] Cons [of rm "insert c seen"] show ?thesis
      by (cases "c \<in> seen") auto
  qed
qed

lemma ou_loop_empty_iff:
  "ou_loop {} seen es = {} \<longleftrightarrow> distinct (observed_calls es) \<and> set (observed_calls es) \<inter> seen = {}"
proof (induction es arbitrary: seen)
  case Nil
  then show ?case by simp
next
  case (Cons e es)
  show ?case
  proof (cases "observed_call e")
    case None
    with Cons show ?thesis by simp
  next
    case (Some c)
    have "ou_loop {ev_id e} seen es \<noteq> {}"
      using ou_loop_mono [of "{ev_id e}" seen es] by blast
    with Some Cons show ?thesis by auto
  qed
qed

lemma ou_enforce_empty_iff [enforce_iff]:
  "ou_enforce cur all_events = {} \<longleftrightarrow> distinct (observed_calls cur)"
  by (simp add: ou_enforce_def ou_loop_empty_iff)

section \<open>Batch atomicity\<close>

text \<open>
  \<open>_build_batches\<close>: a dictionary from response identifiers to sets of event identifiers, as an
  association list in insertion order; the default dictionary reads a missing key as the
  empty set.
\<close>

type_synonym batches = "(string \<times> string set) list"

fun batch_add :: "string \<Rightarrow> string \<Rightarrow> batches \<Rightarrow> batches" where
  "batch_add r i [] = [(r, {i})]"
| "batch_add r i ((k, v) # bs) = (if k = r then (k, insert i v) # bs else (k, v) # batch_add r i bs)"

fun build_batches_loop :: "batches \<Rightarrow> event list \<Rightarrow> batches" where
  "build_batches_loop bs [] = bs"
| "build_batches_loop bs (e # es) =
     (case response_of e of
        Some r \<Rightarrow> build_batches_loop (batch_add r (ev_id e) bs) es
      | None \<Rightarrow> build_batches_loop bs es)"

definition build_batches :: "event list \<Rightarrow> batches" where
  "build_batches es = build_batches_loop [] es"

definition batch_get :: "batches \<Rightarrow> string \<Rightarrow> string set" where
  "batch_get bs r = (case map_of bs r of None \<Rightarrow> {} | Some s \<Rightarrow> s)"

fun ba_items :: "batches \<Rightarrow> batches \<Rightarrow> string set \<Rightarrow> string set" where
  "ba_items [] all_batches rm = rm"
| "ba_items ((r, ids) # bs) all_batches rm =
     ba_items bs all_batches (if ids \<noteq> batch_get all_batches r then rm \<union> ids else rm)"

definition ba_enforce :: "event list \<Rightarrow> event list \<Rightarrow> string set" where
  "ba_enforce cur all_events =
     (let all_batches = build_batches all_events
      in ba_items (build_batches cur) all_batches {})"

text \<open>The loop over \<open>enumerate(pairwise(events))\<close>.\<close>

fun ba_index_loop :: "int \<Rightarrow> event list \<Rightarrow> index_set \<Rightarrow> index_set result" where
  "ba_index_loop index (left # right # es) S =
     (if is_action left \<and> is_action right \<and> response_of left = response_of right
      then bind_result (index_remove S (index + 1)) (ba_index_loop (index + 1) (right # es))
      else ba_index_loop (index + 1) (right # es) S)"
| "ba_index_loop index es S = Inr S"

definition ba_indices :: "event list \<Rightarrow> index_set result" where
  "ba_indices cur = ba_index_loop 0 cur (complete cur)"

text \<open>The identifiers of the actions of one response.\<close>

definition batch_ids :: "event list \<Rightarrow> string \<Rightarrow> string set" where
  "batch_ids es r = ev_id ` {e \<in> set es. response_of e = Some r}"

lemma batch_ids_Cons [simp]:
  "batch_ids (e # es) r = (if response_of e = Some r then insert (ev_id e) (batch_ids es r) else batch_ids es r)"
  by (auto simp: batch_ids_def)

lemma batch_ids_Nil [simp]: "batch_ids [] r = {}"
  by (simp add: batch_ids_def)

lemma map_of_batch_add:
  "map_of (batch_add r i bs) = (map_of bs)(r \<mapsto> insert i (batch_get bs r))"
  by (induction r i bs rule: batch_add.induct) (auto simp: batch_get_def fun_eq_iff)

lemma batch_get_add: "batch_get (batch_add r i bs) k = (if k = r then insert i (batch_get bs r) else batch_get bs k)"
  by (simp add: batch_get_def map_of_batch_add)

lemma batch_get_build: "batch_get (build_batches_loop bs es) r = batch_get bs r \<union> batch_ids es r"
  by (induction bs es rule: build_batches_loop.induct) (auto simp: batch_get_add split: option.splits)

lemma batch_get_build_batches [simp]: "batch_get (build_batches es) r = batch_ids es r"
  by (simp add: build_batches_def batch_get_build) (simp add: batch_get_def)

lemma distinct_batch_add: "distinct (map fst bs) \<Longrightarrow> distinct (map fst (batch_add r i bs))"
proof (induction r i bs rule: batch_add.induct)
  case (2 r i k v bs)
  have "set (map fst (batch_add r i bs)) = insert r (set (map fst bs))"
    by (induction r i bs rule: batch_add.induct) auto
  with 2 show ?case by auto
qed simp

lemma distinct_build_batches: "distinct (map fst bs) \<Longrightarrow> distinct (map fst (build_batches_loop bs es))"
  by (induction bs es rule: build_batches_loop.induct) (auto simp: distinct_batch_add split: option.splits)

lemma build_batches_item:
  "(r, s) \<in> set (build_batches es) \<Longrightarrow> s = batch_ids es r"
proof -
  assume "(r, s) \<in> set (build_batches es)"
  moreover have "distinct (map fst (build_batches es))"
    by (simp add: build_batches_def distinct_build_batches)
  ultimately have "batch_get (build_batches es) r = s"
    by (simp add: batch_get_def)
  then show ?thesis by simp
qed

lemma build_batches_key: "batch_ids es r \<noteq> {} \<Longrightarrow> (r, batch_ids es r) \<in> set (build_batches es)"
  by (metis batch_get_build_batches batch_get_def map_of_SomeD option.case_eq_if option.collapse)

lemma ba_items_eq:
  "ba_items bs ab rm = rm \<union> \<Union> {ids. \<exists>r. (r, ids) \<in> set bs \<and> ids \<noteq> batch_get ab r}"
  by (induction bs ab rm rule: ba_items.induct) auto

lemma ba_enforce_eq:
  "ba_enforce cur all_events = \<Union> {batch_ids cur r | r. batch_ids cur r \<noteq> batch_ids all_events r}"
proof -
  have "(\<exists>r. (r, ids) \<in> set (build_batches cur) \<and> ids \<noteq> batch_ids all_events r) \<longleftrightarrow>
        (\<exists>r. (r, ids) \<in> set (build_batches cur) \<and> ids = batch_ids cur r \<and>
             batch_ids cur r \<noteq> batch_ids all_events r)" for ids
    by (metis build_batches_item)
  then have "ba_enforce cur all_events =
      \<Union> {ids. \<exists>r. (r, ids) \<in> set (build_batches cur) \<and> ids = batch_ids cur r \<and>
                  batch_ids cur r \<noteq> batch_ids all_events r}"
    by (simp add: ba_enforce_def Let_def ba_items_eq)
  also have "\<dots> = \<Union> {batch_ids cur r | r. batch_ids cur r \<noteq> batch_ids all_events r}"
    using build_batches_key by fast
  finally show ?thesis .
qed

lemma ba_enforce_empty_iff [enforce_iff]:
  "ba_enforce cur all_events = {} \<longleftrightarrow>
     (\<forall>r. batch_ids cur r = {} \<or> batch_ids cur r = batch_ids all_events r)"
  by (auto simp: ba_enforce_eq)

text \<open>A position strictly inside a run of actions of one response.\<close>

definition inside_batch :: "event list \<Rightarrow> nat \<Rightarrow> bool" where
  "inside_batch es k \<longleftrightarrow> 0 < k \<and> k < length es \<and>
     response_of (es ! (k - 1)) \<noteq> None \<and> response_of (es ! (k - 1)) = response_of (es ! k)"

lemma inside_batch_Cons_Suc:
  "inside_batch (e # f # es) (Suc k) \<longleftrightarrow>
     (if k = 0 then response_of e \<noteq> None \<and> response_of e = response_of f else inside_batch (f # es) k)"
  by (cases k) (auto simp: inside_batch_def)

lemma ba_index_loop_eq:
  "{index + 1..index + int (length es)} \<subseteq> S \<Longrightarrow>
   ba_index_loop index es S = Inr (S - {index + int k | k. inside_batch es k})"
proof (induction index es S rule: ba_index_loop.induct)
  case (1 index left right es S)
  let ?X = "{index + int k | k. inside_batch (left # right # es) k}"
  let ?Y = "{index + 1 + int k | k. inside_batch (right # es) k}"
  let ?b = "is_action left \<and> is_action right \<and> response_of left = response_of right"
  have b: "?b \<longleftrightarrow> response_of left \<noteq> None \<and> response_of left = response_of right"
    by (metis response_of_None_iff)
  have X: "?X = (if ?b then insert (index + 1) ?Y else ?Y)"
  proof -
    have "inside_batch (left # right # es) k \<longleftrightarrow>
        (k = 1 \<and> ?b) \<or> (\<exists>m. k = Suc m \<and> inside_batch (right # es) m)" for k
      unfolding b by (cases k) (auto simp: inside_batch_Cons_Suc inside_batch_def [of _ 0])
    from removed_shift [of _ _ _ _ index, OF this] show ?thesis by simp
  qed
  have sub: "{index + 1 + 1..index + 1 + int (length (right # es))} \<subseteq> S"
    using "1.prems" by auto
  show ?case
  proof (cases ?b)
    case True
    have "index + 1 \<in> S" using "1.prems" by auto
    moreover have "{index + 1 + 1..index + 1 + int (length (right # es))} \<subseteq> S - {index + 1}"
      using sub by auto
    ultimately show ?thesis
      using "1.IH"(1) [OF True] True by (simp add: index_remove_def X) blast
  next
    case False
    have "ba_index_loop index (left # right # es) S = ba_index_loop (index + 1) (right # es) S"
      using False by auto
    then show ?thesis using "1.IH"(2) [OF False sub] X [unfolded if_not_P [OF False]] by (simp only:)
  qed
qed (auto simp: inside_batch_def)

lemma ba_indices_eq:
  "ba_indices cur = Inr {int k | k. k \<le> length cur \<and> \<not> inside_batch cur k}"
proof -
  have "{0 + 1..0 + int (length cur)} \<subseteq> complete cur" by (auto simp: complete_eq)
  from ba_index_loop_eq [OF this]
  have "ba_indices cur = Inr (complete cur - {int k | k. inside_batch cur k})"
    by (simp add: ba_indices_def)
  also have "complete cur - {int k | k. inside_batch cur k} =
      {int k | k. k \<le> length cur \<and> \<not> inside_batch cur k}"
    by (rule complete_minus) simp
  finally show ?thesis .
qed

section \<open>Tool call matching\<close>

fun tm_collect :: "string set \<Rightarrow> string set \<Rightarrow> event list \<Rightarrow> string set \<times> string set" where
  "tm_collect acts obs [] = (acts, obs)"
| "tm_collect acts obs (e # es) =
     (case acted_call e of
        Some c \<Rightarrow> tm_collect (insert c acts) obs es
      | None \<Rightarrow> (case observed_call e of
                  Some c \<Rightarrow> tm_collect acts (insert c obs) es
                | None \<Rightarrow> tm_collect acts obs es))"

fun tm_remove :: "string set \<Rightarrow> string set \<Rightarrow> string set \<Rightarrow> event list \<Rightarrow> string set" where
  "tm_remove acts obs rm [] = rm"
| "tm_remove acts obs rm (e # es) =
     tm_remove acts obs
       (case acted_call e of
          Some c \<Rightarrow> if c \<notin> obs then insert (ev_id e) rm else rm
        | None \<Rightarrow> (case observed_call e of
                    Some c \<Rightarrow> if c \<notin> acts then insert (ev_id e) rm else rm
                  | None \<Rightarrow> rm)) es"

definition tm_enforce :: "event list \<Rightarrow> event list \<Rightarrow> string set" where
  "tm_enforce cur all_events =
     (let (acts, obs) = tm_collect {} {} cur in tm_remove acts obs {} cur)"

text \<open>The set of tool calls issued but not yet answered.\<close>

definition pending_step :: "string set \<Rightarrow> event \<Rightarrow> string set" where
  "pending_step P e =
     (case acted_call e of
        Some c \<Rightarrow> insert c P
      | None \<Rightarrow> (case observed_call e of Some c \<Rightarrow> P - {c} | None \<Rightarrow> P))"

fun tm_index_loop :: "int \<Rightarrow> string set \<Rightarrow> event list \<Rightarrow> index_set \<Rightarrow> index_set result" where
  "tm_index_loop index P [] S = Inr S"
| "tm_index_loop index P (e # es) S =
     (let P' = pending_step P e
      in if P' \<noteq> {} then bind_result (index_remove S (index + 1)) (tm_index_loop (index + 1) P' es)
         else tm_index_loop (index + 1) P' es S)"

definition tm_indices :: "event list \<Rightarrow> index_set result" where
  "tm_indices cur = tm_index_loop 0 {} cur (complete cur)"

lemma tm_collect_eq:
  "tm_collect acts obs es = (acts \<union> set (acted_calls es), obs \<union> set (observed_calls es))"
  by (induction acts obs es rule: tm_collect.induct) (auto split: option.splits)

lemma tm_remove_eq:
  "tm_remove acts obs rm es =
     rm \<union> ev_id ` {e \<in> set es. (\<exists>c. acted_call e = Some c \<and> c \<notin> obs) \<or>
                              (\<exists>c. observed_call e = Some c \<and> c \<notin> acts)}"
proof (induction es arbitrary: rm)
  case Nil
  then show ?case by simp
next
  case (Cons e es)
  show ?case
  proof (cases "acted_call e")
    case (Some c)
    then show ?thesis by (auto simp: Cons)
  next
    case None
    then show ?thesis by (cases "observed_call e") (auto simp: Cons)
  qed
qed

lemma tm_enforce_eq:
  "tm_enforce cur all_events =
     ev_id ` {e \<in> set cur. (\<exists>c. acted_call e = Some c \<and> c \<notin> set (observed_calls cur)) \<or>
                          (\<exists>c. observed_call e = Some c \<and> c \<notin> set (acted_calls cur))}"
  by (simp add: tm_enforce_def tm_collect_eq tm_remove_eq)

lemma tm_enforce_empty_iff [enforce_iff]:
  "tm_enforce cur all_events = {} \<longleftrightarrow> set (acted_calls cur) = set (observed_calls cur)"
  by (auto simp: tm_enforce_eq set_acted_calls set_observed_calls)

abbreviation pending :: "event list \<Rightarrow> string set" where
  "pending es \<equiv> foldl pending_step {} es"

lemma tm_index_loop_eq:
  "{index + 1..index + int (length es)} \<subseteq> S \<Longrightarrow>
   tm_index_loop index P es S =
     Inr (S - {index + int k | k. 0 < k \<and> k \<le> length es \<and> foldl pending_step P (take k es) \<noteq> {}})"
proof (induction index P es S rule: tm_index_loop.induct)
  case (1 index P S)
  then show ?case by auto
next
  case (2 index P e es S)
  let ?P = "pending_step P e"
  let ?X = "{index + int k | k. 0 < k \<and> k \<le> length (e # es) \<and>
      foldl pending_step P (take k (e # es)) \<noteq> {}}"
  let ?Y = "{index + 1 + int k | k. 0 < k \<and> k \<le> length es \<and> foldl pending_step ?P (take k es) \<noteq> {}}"
  have X: "?X = (if ?P \<noteq> {} then insert (index + 1) ?Y else ?Y)"
  proof -
    have "0 < k \<and> k \<le> length (e # es) \<and> foldl pending_step P (take k (e # es)) \<noteq> {} \<longleftrightarrow>
        (k = 1 \<and> ?P \<noteq> {}) \<or>
        (\<exists>m. k = Suc m \<and> 0 < m \<and> m \<le> length es \<and> foldl pending_step ?P (take m es) \<noteq> {})" for k
      by (cases k) auto
    from removed_shift [of _ _ _ _ index, OF this] show ?thesis by simp
  qed
  have sub: "{index + 1 + 1..index + 1 + int (length es)} \<subseteq> S"
    using "2.prems" by auto
  show ?case
  proof (cases "?P = {}")
    case True
    have "tm_index_loop index P (e # es) S = tm_index_loop (index + 1) ?P es S"
      using True by (simp add: Let_def)
    then show ?thesis
      using "2.IH"(2) [OF refl _ sub] X [unfolded if_not_P [OF not_not [THEN iffD2, OF True]]] True
      by (simp only:)
  next
    case False
    have "index + 1 \<in> S" using "2.prems" by auto
    moreover have "{index + 1 + 1..index + 1 + int (length es)} \<subseteq> S - {index + 1}"
      using sub by auto
    ultimately show ?thesis
      using "2.IH"(1) [OF refl False] False
      unfolding X if_P [OF False] by (simp add: index_remove_def Let_def) blast
  qed
qed

lemma tm_indices_eq:
  "tm_indices cur = Inr {int k | k. k \<le> length cur \<and> pending (take k cur) = {}}"
proof -
  have "{0 + 1..0 + int (length cur)} \<subseteq> complete cur" by (auto simp: complete_eq)
  from tm_index_loop_eq [OF this, of "{}"]
  have "tm_indices cur = Inr (complete cur -
      {int k | k. 0 < k \<and> k \<le> length cur \<and> pending (take k cur) \<noteq> {}})"
    by (simp add: tm_indices_def)
  also have "complete cur - {int k | k. 0 < k \<and> k \<le> length cur \<and> pending (take k cur) \<noteq> {}} =
      {int k | k. k \<le> length cur \<and> pending (take k cur) = {}}"
    by (rule complete_minus) (metis foldl_Nil gr0I take0)
  finally show ?thesis .
qed

section \<open>Tool loop atomicity\<close>

fun tool_loops_from :: "string set list \<Rightarrow> string set option \<Rightarrow> event list \<Rightarrow> string set list" where
  "tool_loops_from loops current [] =
     (case current of Some c \<Rightarrow> loops @ [c] | None \<Rightarrow> loops)"
| "tool_loops_from loops current (e # es) =
     (if has_thinking e then
        tool_loops_from (case current of Some c \<Rightarrow> loops @ [c] | None \<Rightarrow> loops) (Some {ev_id e}) es
      else if is_action e \<or> is_observation_base e then
        tool_loops_from loops (map_option (insert (ev_id e)) current) es
      else
        (case current of
           Some c \<Rightarrow> tool_loops_from (loops @ [c]) None es
         | None \<Rightarrow> tool_loops_from loops None es))"

definition tool_loops :: "event list \<Rightarrow> string set list" where
  "tool_loops es = tool_loops_from [] None es"

fun tl_enforce_loop :: "string set list \<Rightarrow> string set \<Rightarrow> string set \<Rightarrow> event list \<Rightarrow> string set" where
  "tl_enforce_loop loops view_ids rm [] = rm"
| "tl_enforce_loop loops view_ids rm (e # es) =
     tl_enforce_loop loops view_ids
       (if ev_id e \<in> rm then rm
        else (case find (\<lambda>l. ev_id e \<in> l) loops of
                None \<Rightarrow> rm
              | Some l \<Rightarrow> if \<not> l \<subseteq> view_ids then rm \<union> (view_ids \<inter> l) else rm)) es"

definition tl_enforce :: "event list \<Rightarrow> event list \<Rightarrow> string set" where
  "tl_enforce cur all_events =
     tl_enforce_loop (tool_loops all_events) (ev_id ` set cur) {} cur"

fun tl_index_loop :: "int \<Rightarrow> bool \<Rightarrow> event list \<Rightarrow> index_set \<Rightarrow> index_set result" where
  "tl_index_loop index in_loop [] S = Inr S"
| "tl_index_loop index in_loop (e # es) S =
     (if has_thinking e then tl_index_loop (index + 1) True es S
      else if is_action e \<or> is_observation_base e then
        (if in_loop then bind_result (index_remove S index) (tl_index_loop (index + 1) in_loop es)
         else tl_index_loop (index + 1) in_loop es S)
      else tl_index_loop (index + 1) False es S)"

definition tl_indices :: "event list \<Rightarrow> index_set result" where
  "tl_indices cur = tl_index_loop 0 False cur (complete cur)"

text \<open>Whether a tool loop is open after the given events.\<close>

definition in_loop_step :: "bool \<Rightarrow> event \<Rightarrow> bool" where
  "in_loop_step b e \<longleftrightarrow> has_thinking e \<or> (b \<and> (is_action e \<or> is_observation_base e))"

abbreviation in_loop_after :: "event list \<Rightarrow> bool" where
  "in_loop_after es \<equiv> foldl in_loop_step False es"

text \<open>The event at position \<open>k\<close> continues the loop that is open before it.\<close>

definition continues_loop :: "bool \<Rightarrow> event list \<Rightarrow> nat \<Rightarrow> bool" where
  "continues_loop b es k \<longleftrightarrow> k < length es \<and> foldl in_loop_step b (take k es) \<and>
     \<not> has_thinking (es ! k) \<and> (is_action (es ! k) \<or> is_observation_base (es ! k))"

lemma tl_enforce_loop_mono: "rm \<subseteq> tl_enforce_loop loops ids rm es"
proof (induction es arbitrary: rm)
  case (Cons e es)
  show ?case
    using Cons [of rm] Cons [of "rm \<union> (ids \<inter> l)" for l]
    by (auto split: option.splits)
qed simp

lemma tl_enforce_loop_ids: "tl_enforce_loop loops ids rm es \<subseteq> rm \<union> ids"
proof (induction es arbitrary: rm)
  case (Cons e es)
  have "tl_enforce_loop loops ids (rm \<union> (ids \<inter> l)) es \<subseteq> rm \<union> ids" for l
    using Cons [of "rm \<union> (ids \<inter> l)"] by blast
  with Cons [of rm] show ?case by (simp split: option.splits)
qed simp

lemma tl_enforce_loop_empty_iff:
  "set es \<subseteq> V \<Longrightarrow> ids = ev_id ` V \<Longrightarrow>
   tl_enforce_loop loops ids {} es = {} \<longleftrightarrow>
     (\<forall>e \<in> set es. \<forall>l. find (\<lambda>l. ev_id e \<in> l) loops = Some l \<longrightarrow> l \<subseteq> ids)"
proof (induction es)
  case (Cons e es)
  show ?case
  proof (cases "find (\<lambda>l. ev_id e \<in> l) loops")
    case None
    with Cons show ?thesis by simp
  next
    case (Some l)
    have "ev_id e \<in> ids \<inter> l"
      using Cons.prems Some by (auto simp: find_Some_iff)
    then have "tl_enforce_loop loops ids (ids \<inter> l) es \<noteq> {}"
      using tl_enforce_loop_mono [of "ids \<inter> l" loops ids es] by blast
    with Some Cons show ?thesis by auto
  qed
qed simp

lemma tl_enforce_empty_iff [enforce_iff]:
  "tl_enforce cur all_events = {} \<longleftrightarrow>
     (\<forall>e \<in> set cur. \<forall>l. find (\<lambda>l. ev_id e \<in> l) (tool_loops all_events) = Some l \<longrightarrow>
        l \<subseteq> ev_id ` set cur)"
  unfolding tl_enforce_def by (rule tl_enforce_loop_empty_iff) auto

text \<open>
  A tool loop of a history, without the code: an action with thinking blocks and all plain actions and
  observations that follow it, up to the next event that is none or carries thinking blocks itself.
\<close>

definition plain_step :: "event \<Rightarrow> bool" where
  "plain_step e \<longleftrightarrow> \<not> has_thinking e \<and> (is_action e \<or> is_observation_base e)"

definition tool_loop_at :: "event list \<Rightarrow> event list \<Rightarrow> event list \<Rightarrow> event list \<Rightarrow> bool" where
  "tool_loop_at es before_loop loop after_loop \<longleftrightarrow>
     es = before_loop @ loop @ after_loop \<and> loop \<noteq> [] \<and> has_thinking (hd loop) \<and>
     list_all plain_step (tl loop) \<and> (after_loop \<noteq> [] \<longrightarrow> \<not> plain_step (hd after_loop))"

lemma tool_loops_from_mono: "set loops \<subseteq> set (tool_loops_from loops current es)"
  by (induction loops current es rule: tool_loops_from.induct) (auto split: option.splits)

lemma tool_loops_from_open:
  assumes "list_all plain_step es" "post \<noteq> [] \<longrightarrow> \<not> plain_step (hd post)"
  shows "c \<union> ev_id ` set es \<in> set (tool_loops_from loops (Some c) (es @ post))"
  using assms(1)
proof (induction es arbitrary: c)
  case Nil
  show ?case
  proof (cases post)
    case (Cons e post')
    have "c \<in> set (tool_loops_from (loops @ [c]) cur post')" for cur
      using tool_loops_from_mono [of "loops @ [c]" cur post'] by auto
    then show ?thesis using assms(2) Cons by (auto simp: plain_step_def)
  qed simp
next
  case (Cons e es)
  then show ?case using Cons.IH [of "insert (ev_id e) c"] by (simp add: plain_step_def)
qed

lemma tool_loop_found:
  assumes "tool_loop_at es pre l post"
  shows "ev_id ` set l \<in> set (tool_loops es)"
proof -
  obtain e rest where l: "l = e # rest" using assms by (cases l) (auto simp: tool_loop_at_def)
  have h: "has_thinking e" "list_all plain_step rest" "post \<noteq> [] \<longrightarrow> \<not> plain_step (hd post)"
    using assms by (auto simp: tool_loop_at_def l)
  have "ev_id ` set l \<in> set (tool_loops_from loops cur (pre @ l @ post))" for loops cur
  proof (induction pre arbitrary: loops cur)
    case Nil
    show ?case using tool_loops_from_open [OF h(2,3), of "{ev_id e}"] h(1) by (simp add: l)
  next
    case (Cons x pre)
    then show ?case by (simp split: option.split)
  qed
  then show ?thesis using assms by (simp add: tool_loops_def tool_loop_at_def)
qed

definition loops_apart :: "string set list \<Rightarrow> bool" where
  "loops_apart loops \<longleftrightarrow> sorted_wrt disjnt loops"

lemma loops_apart_same:
  assumes "loops_apart loops" "l \<in> set loops" "m \<in> set loops" "i \<in> l" "i \<in> m"
  shows "l = m"
proof -
  obtain a b where "a < length loops" "b < length loops" "l = loops ! a" "m = loops ! b"
    using assms(2,3) by (auto simp: in_set_conv_nth)
  then show ?thesis
    using assms(1,4,5) by (cases a b rule: linorder_cases) (auto simp: loops_apart_def sorted_wrt_iff_nth_less disjnt_iff)
qed

lemma tool_loops_from_apart:
  "loops_apart (loops @ (case current of None \<Rightarrow> [] | Some c \<Rightarrow> [c])) \<Longrightarrow> distinct (map ev_id es) \<Longrightarrow>
   (\<forall>e \<in> set es. \<forall>l \<in> set (loops @ (case current of None \<Rightarrow> [] | Some c \<Rightarrow> [c])). ev_id e \<notin> l) \<Longrightarrow>
   loops_apart (tool_loops_from loops current es)"
proof (induction es arbitrary: loops current)
  case Nil
  then show ?case by (cases current) simp_all
next
  case (Cons e es)
  have "ev_id e \<notin> ev_id ` set es" using Cons.prems(2) by simp
  then have "\<forall>x \<in> set es. ev_id x \<noteq> ev_id e" by (metis image_eqI)
  moreover have "distinct (map ev_id es)" using Cons.prems(2) by simp
  ultimately have d: "distinct (map ev_id es)" "\<forall>x \<in> set es. ev_id x \<noteq> ev_id e" by blast+
  consider (opens) "has_thinking e" | (goes_on) "\<not> has_thinking e" "is_action e \<or> is_observation_base e"
    | (ends) "\<not> has_thinking e" "\<not> (is_action e \<or> is_observation_base e)" by blast
  then show ?case
  proof cases
    case opens
    show ?thesis
      using Cons.IH [of "loops @ (case current of None \<Rightarrow> [] | Some c \<Rightarrow> [c])" "Some {ev_id e}"] Cons.prems d opens
      by (cases current) (auto simp: loops_apart_def sorted_wrt_append disjnt_insert1 disjnt_insert2)
  next
    case goes_on
    then show ?thesis
      using Cons.IH [of loops "map_option (insert (ev_id e)) current"] Cons.prems d
      by (cases current) (auto simp: loops_apart_def sorted_wrt_append disjnt_insert1 disjnt_insert2)
  next
    case ends
    then show ?thesis
      using Cons.IH [of "loops @ (case current of None \<Rightarrow> [] | Some c \<Rightarrow> [c])" None] Cons.prems d
      by (cases current) (auto simp: loops_apart_def sorted_wrt_append disjnt_insert1 disjnt_insert2)
  qed
qed

lemma tool_loop_whole:
  assumes "distinct (map ev_id es)" "tool_loop_at es pre l post" "tl_enforce cur es = {}"
  shows "ev_id ` set l \<subseteq> ev_id ` set cur \<or> ev_id ` set l \<inter> ev_id ` set cur = {}"
proof (rule disjCI)
  assume "ev_id ` set l \<inter> ev_id ` set cur \<noteq> {}"
  then obtain i where "i \<in> ev_id ` set cur" and i: "i \<in> ev_id ` set l" by blast
  then obtain e where "e \<in> set cur" "ev_id e = i" by blast
  then have e: "e \<in> set cur" "ev_id e \<in> ev_id ` set l" using i by simp_all
  have apart: "loops_apart (tool_loops es)"
    unfolding tool_loops_def using assms(1) by (intro tool_loops_from_apart) (simp_all add: loops_apart_def)
  note l = tool_loop_found [OF assms(2)]
  obtain m where m: "find (\<lambda>l. ev_id e \<in> l) (tool_loops es) = Some m"
    using l e(2) by (metis (mono_tags, lifting) find_None_iff2 not_None_eq)
  then have "m \<in> set (tool_loops es)" "ev_id e \<in> m" by (auto simp: find_Some_iff)
  from loops_apart_same [OF apart this(1) l this(2) e(2)] have "m = ev_id ` set l" .
  then show "ev_id ` set l \<subseteq> ev_id ` set cur" using assms(3) e(1) m by (simp add: tl_enforce_empty_iff)
qed

lemma tl_index_loop_eq:
  "{index..index + int (length es)} \<subseteq> S \<Longrightarrow>
   tl_index_loop index b es S = Inr (S - {index + int k | k. continues_loop b es k})"
proof (induction index b es S rule: tl_index_loop.induct)
  case (1 index b S)
  then show ?case by (auto simp: continues_loop_def)
next
  case (2 index b e es S)
  let ?c = "b \<and> \<not> has_thinking e \<and> (is_action e \<or> is_observation_base e)"
  let ?X = "{index + int k | k. continues_loop b (e # es) k}"
  let ?Y = "{index + 1 + int k | k. continues_loop (in_loop_step b e) es k}"
  have X: "?X = (if ?c then insert index ?Y else ?Y)"
  proof -
    have "continues_loop b (e # es) k \<longleftrightarrow>
        (k = 0 \<and> ?c) \<or> (\<exists>m. k = Suc m \<and> continues_loop (in_loop_step b e) es m)" for k
      by (cases k) (auto simp: continues_loop_def)
    from removed_shift [of _ _ _ _ index, OF this] show ?thesis by (simp only: of_nat_0 add_0_right)
  qed
  have sub: "{index + 1..index + 1 + int (length es)} \<subseteq> S"
    using "2.prems" by auto
  consider (think) "has_thinking e" | (cont) ?c
    | (none) "\<not> has_thinking e" "is_action e \<or> is_observation_base e" "\<not> b"
    | (exit) "\<not> has_thinking e" "\<not> (is_action e \<or> is_observation_base e)"
    by blast
  then show ?case
  proof cases
    case think
    then have c: "\<not> ?c" by blast
    from think show ?thesis
      using "2.IH"(1) [OF think sub] unfolding X if_not_P [OF c] by (simp add: in_loop_step_def)
  next
    case cont
    have "index \<in> S" using "2.prems" by auto
    moreover have "{index + 1..index + 1 + int (length es)} \<subseteq> S - {index}"
      using sub by auto
    ultimately show ?thesis
      using "2.IH"(2) [of "S - {index}"] cont
      unfolding X if_P [OF cont] by (simp add: in_loop_step_def index_remove_def) blast
  next
    case none
    then have c: "\<not> ?c" by blast
    from none show ?thesis
      using "2.IH"(3) [OF none sub] unfolding X if_not_P [OF c] by (simp add: in_loop_step_def)
  next
    case exit
    then have c: "\<not> ?c" by blast
    from exit show ?thesis
      using "2.IH"(4) [OF exit sub] unfolding X if_not_P [OF c] by (simp add: in_loop_step_def)
  qed
qed

lemma tl_indices_eq:
  "tl_indices cur = Inr {int k | k. k \<le> length cur \<and> \<not> continues_loop False cur k}"
proof -
  have "{0..0 + int (length cur)} \<subseteq> complete cur" by (auto simp: complete_eq)
  from tl_index_loop_eq [OF this, of False]
  have "tl_indices cur = Inr (complete cur - {int k | k. continues_loop False cur k})"
    by (simp add: tl_indices_def)
  also have "complete cur - {int k | k. continues_loop False cur k} =
      {int k | k. k \<le> length cur \<and> \<not> continues_loop False cur k}"
    by (rule complete_minus) simp
  finally show ?thesis .
qed

section \<open>The contract of a view property\<close>

text \<open>
  What \<open>View\<close> relies on (\<open>ViewPropertyBase\<close>): enforcement only names events of the view, so
  dropping them makes progress, and the manipulation indices exist, lie within the view and
  hold 0.
\<close>

locale view_property =
  fixes enforce :: "event list \<Rightarrow> event list \<Rightarrow> string set"
    and indices :: "event list \<Rightarrow> index_set result"
  assumes enforce_ids: "enforce cur all_events \<subseteq> ev_id ` set cur"
    and indices_total: "\<exists>S. indices cur = Inr S \<and> 0 \<in> S \<and> S \<subseteq> complete cur"
begin

lemma enforce_shrinks:
  assumes "enforce cur all_events \<noteq> {}"
  shows "length (filter (\<lambda>e. ev_id e \<notin> enforce cur all_events) cur) < length cur"
proof -
  from assms obtain i where "i \<in> enforce cur all_events" by blast
  with enforce_ids obtain e where "e \<in> set cur" "ev_id e \<in> enforce cur all_events" by blast
  then show ?thesis by (intro length_filter_less_if) auto
qed

lemma indices_finite: "indices cur = Inr S \<Longrightarrow> finite S"
  using indices_total [of cur] finite_subset [OF _ finite_complete] by auto

end

text \<open>
  The promise of \<open>ManipulationIndices\<close>: a view that has the property keeps it when the events
  between two manipulation indices are deleted. \<open>shape\<close> is what the property assumes of the
  order of the events.
\<close>

locale cuttable_property = view_property +
  fixes shape :: "event list \<Rightarrow> event list \<Rightarrow> bool"
  assumes cut_keeps:
    "shape cur all_events \<Longrightarrow> enforce cur all_events = {} \<Longrightarrow> indices cur = Inr S \<Longrightarrow>
     int i \<in> S \<Longrightarrow> int j \<in> S \<Longrightarrow> i \<le> j \<Longrightarrow> enforce (cut_range i j cur) all_events = {}"

text \<open>
  Positions that no cut point separates are all kept or all deleted.
\<close>

lemma unseparated_kept:
  assumes "p \<in> X" "m \<in> X" "p < i \<or> j \<le> (p::nat)"
    and "\<And>a b. a \<in> X \<Longrightarrow> b \<in> X \<Longrightarrow> a < i \<Longrightarrow> i \<le> b \<Longrightarrow> False"
    and "\<And>a b. a \<in> X \<Longrightarrow> b \<in> X \<Longrightarrow> a < j \<Longrightarrow> j \<le> b \<Longrightarrow> False"
  shows "m < i \<or> j \<le> m"
  using assms by (meson not_le)

subsection \<open>Observation uniqueness\<close>

lemma distinct_observed_calls_cut:
  assumes "i \<le> j" "distinct (observed_calls cur)"
  shows "distinct (observed_calls (cut_range i j cur))"
proof -
  have "cur = take i cur @ take (j - i) (drop i cur) @ drop j cur"
    using assms(1) by (metis append_take_drop_id drop_drop le_add_diff_inverse2)
  then have "observed_calls cur = observed_calls (take i cur) @
      observed_calls (take (j - i) (drop i cur)) @ observed_calls (drop j cur)"
    by (metis observed_calls_simps(3))
  with assms(2) show ?thesis by (auto simp: cut_range_def)
qed

interpretation ou: cuttable_property ou_enforce ou_indices "\<lambda>_ _. True"
proof unfold_locales
  fix cur all_events
  show "ou_enforce cur all_events \<subseteq> ev_id ` set cur"
    using ou_loop_ids [of "{}" "{}" cur] by (simp add: ou_enforce_def)
  show "\<exists>S. ou_indices cur = Inr S \<and> 0 \<in> S \<and> S \<subseteq> complete cur"
    by (simp add: ou_indices_def complete_eq)
qed (simp add: ou_enforce_empty_iff distinct_observed_calls_cut)

subsection \<open>Batch atomicity\<close>

text \<open>The actions of one response are adjacent in the view.\<close>

definition batches_contiguous :: "event list \<Rightarrow> bool" where
  "batches_contiguous es \<longleftrightarrow>
     (\<forall>b < length es. \<forall>a < b. response_of (es ! a) \<noteq> None \<longrightarrow> response_of (es ! a) = response_of (es ! b) \<longrightarrow>
        (\<forall>k < b. a \<le> k \<longrightarrow> response_of (es ! k) = response_of (es ! b)))"

lemma contiguous_inside_batch:
  assumes "batches_contiguous es" "response_of (es ! a) = Some r" "response_of (es ! b) = Some r"
    and "a < k" "k \<le> b" "b < length es"
  shows "inside_batch es k"
proof -
  have "\<forall>k < b. a \<le> k \<longrightarrow> response_of (es ! k) = response_of (es ! b)"
    using assms(1) [unfolded batches_contiguous_def, rule_format, of b a] assms(2-6) by simp
  then have "response_of (es ! m) = Some r" if "a \<le> m" "m \<le> b" for m
    using that assms(3) by (cases "m = b") auto
  from this [of k] this [of "k - 1"] show ?thesis
    using assms(4-6) by (auto simp: inside_batch_def)
qed

lemma ba_cut_keeps:
  assumes "batches_contiguous cur" "ba_enforce cur all_events = {}"
    and "\<not> inside_batch cur i" "\<not> inside_batch cur j" "i \<le> j"
  shows "ba_enforce (cut_range i j cur) all_events = {}"
  unfolding ba_enforce_empty_iff
proof (intro allI disjCI)
  fix r
  assume ne: "batch_ids (cut_range i j cur) r \<noteq> batch_ids all_events r"
  show "batch_ids (cut_range i j cur) r = {}"
  proof (rule ccontr)
    assume "batch_ids (cut_range i j cur) r \<noteq> {}"
    then obtain e where "e \<in> set (cut_range i j cur)" "response_of e = Some r"
      by (auto simp: batch_ids_def)
    then obtain p where p: "p < length cur" "response_of (cur ! p) = Some r" "p < i \<or> j \<le> p"
      by (auto simp: in_set_cut_range_iff [OF assms(5)])
    let ?X = "{k. k < length cur \<and> response_of (cur ! k) = Some r}"
    have kept: "m < i \<or> j \<le> m" if "m \<in> ?X" for m
    proof (rule unseparated_kept [of p ?X m])
      show "p \<in> ?X" "m \<in> ?X" "p < i \<or> j \<le> p" using p that by simp_all
      show "a \<in> ?X \<Longrightarrow> b \<in> ?X \<Longrightarrow> a < i \<Longrightarrow> i \<le> b \<Longrightarrow> False" for a b
        using assms(3) contiguous_inside_batch [OF assms(1), of a r b i] by simp
      show "a \<in> ?X \<Longrightarrow> b \<in> ?X \<Longrightarrow> a < j \<Longrightarrow> j \<le> b \<Longrightarrow> False" for a b
        using assms(4) contiguous_inside_batch [OF assms(1), of a r b j] by simp
    qed
    have mem: "x \<in> batch_ids es r \<longleftrightarrow> (\<exists>e \<in> set es. ev_id e = x \<and> response_of e = Some r)" for x es
      by (auto simp: batch_ids_def)
    have "x \<in> batch_ids (cut_range i j cur) r \<longleftrightarrow> x \<in> batch_ids cur r" for x
      unfolding mem bex_cut_range [OF assms(5)] unfolding bex_set_nth using kept by blast
    then have "batch_ids (cut_range i j cur) r = batch_ids cur r" by blast
    moreover have "batch_ids cur r \<noteq> {}"
      using p nth_mem [OF p(1)] unfolding batch_ids_def by blast
    ultimately show False using assms(2) ne by (auto simp: ba_enforce_empty_iff)
  qed
qed

interpretation ba: cuttable_property ba_enforce ba_indices "\<lambda>cur _. batches_contiguous cur"
proof unfold_locales
  fix cur all_events
  show "ba_enforce cur all_events \<subseteq> ev_id ` set cur"
    by (auto simp: ba_enforce_eq batch_ids_def)
  show "\<exists>S. ba_indices cur = Inr S \<and> 0 \<in> S \<and> S \<subseteq> complete cur"
    by (auto simp: ba_indices_eq complete_eq inside_batch_def intro: exI [of _ 0])
qed (rule ba_cut_keeps; auto simp: ba_indices_eq)

subsection \<open>Tool call matching\<close>

text \<open>Tool call identifiers are used once, and an answer follows its call.\<close>

definition calls_ordered :: "event list \<Rightarrow> bool" where
  "calls_ordered es \<longleftrightarrow> distinct (acted_calls es) \<and> distinct (observed_calls es) \<and>
     (\<forall>q < length es. \<forall>c. observed_call (es ! q) = Some c \<longrightarrow> (\<exists>p < q. acted_call (es ! p) = Some c))"

lemma pending_step_keeps: "c \<in> P \<Longrightarrow> observed_call e \<noteq> Some c \<Longrightarrow> c \<in> pending_step P e"
  by (auto simp: pending_step_def split: option.splits)

lemma pending_contains:
  assumes "acted_call (es ! p) = Some c" "p < k" "k \<le> length es"
    and "\<forall>q. p < q \<and> q < k \<longrightarrow> observed_call (es ! q) \<noteq> Some c"
  shows "c \<in> foldl pending_step P (take k es)"
  using assms
proof (induction k)
  case (Suc k)
  have take: "take (Suc k) es = take k es @ [es ! k]"
    using Suc.prems by (simp add: take_Suc_conv_app_nth)
  show ?case
  proof (cases "p = k")
    case True
    then show ?thesis using Suc.prems by (simp add: take pending_step_def)
  next
    case False
    then have "c \<in> foldl pending_step P (take k es)" using Suc by simp
    moreover have "observed_call (es ! k) \<noteq> Some c" using Suc.prems False by simp
    ultimately show ?thesis by (simp add: take pending_step_keeps)
  qed
qed simp

lemma nth_acted_unique:
  assumes "distinct (acted_calls es)" "p < length es" "q < length es"
    and "acted_call (es ! p) = Some c" "acted_call (es ! q) = Some c"
  shows "p = q"
  using assms
proof (induction es arbitrary: p q)
  case (Cons e es)
  show ?case
    using Cons.prems Cons.IH [of "p - 1" "q - 1"]
    by (cases p; cases q; cases "acted_call e")
       (auto simp: set_acted_calls dest: nth_mem)
qed simp

lemma nth_observed_unique:
  assumes "distinct (observed_calls es)" "p < length es" "q < length es"
    and "observed_call (es ! p) = Some c" "observed_call (es ! q) = Some c"
  shows "p = q"
  using assms
proof (induction es arbitrary: p q)
  case (Cons e es)
  show ?case
    using Cons.prems Cons.IH [of "p - 1" "q - 1"]
    by (cases p; cases q; cases "observed_call e")
       (auto simp: set_observed_calls dest: nth_mem)
qed simp

text \<open>An action and its answer lie on the same side of an index with no pending calls.\<close>

lemma pair_unseparated:
  assumes "calls_ordered es" "set (acted_calls es) = set (observed_calls es)"
    and "pending (take k es) = {}" "k \<le> length es"
    and "p < length es" "q < length es" "acted_call (es ! p) = Some c" "observed_call (es ! q) = Some c"
  shows "p < k \<longleftrightarrow> q < k"
proof -
  obtain p' where "p' < q" "acted_call (es ! p') = Some c"
    using assms unfolding calls_ordered_def by blast
  then have pq: "p < q"
    using assms nth_acted_unique [of es p p' c] by (auto simp: calls_ordered_def)
  have "q < k" if "p < k"
  proof (rule ccontr)
    assume "\<not> q < k"
    then have "observed_call (es ! m) \<noteq> Some c" if "p < m \<and> m < k" for m
      using that assms nth_observed_unique [of es q m c] by (auto simp: calls_ordered_def)
    with pending_contains [of es p c k "{}"] assms that show False by auto
  qed
  with pq show ?thesis by auto
qed

lemma tm_cut_keeps:
  assumes shape: "calls_ordered cur" and ok: "tm_enforce cur all_events = {}"
    and i: "i \<le> length cur" "pending (take i cur) = {}"
    and j: "j \<le> length cur" "pending (take j cur) = {}" and le: "i \<le> j"
  shows "tm_enforce (cut_range i j cur) all_events = {}"
proof -
  from ok have eq: "set (acted_calls cur) = set (observed_calls cur)"
    by (simp add: tm_enforce_empty_iff)
  note iff = pair_unseparated [OF shape eq i(2) i(1)] pair_unseparated [OF shape eq j(2) j(1)]
  have acted: "c \<in> set (acted_calls (cut_range i j cur)) \<longleftrightarrow>
      (\<exists>p < length cur. acted_call (cur ! p) = Some c \<and> (p < i \<or> j \<le> p))" for c
    by (simp add: set_acted_calls bex_cut_range [OF le])
  have observed: "c \<in> set (observed_calls (cut_range i j cur)) \<longleftrightarrow>
      (\<exists>q < length cur. observed_call (cur ! q) = Some c \<and> (q < i \<or> j \<le> q))" for c
    by (simp add: set_observed_calls bex_cut_range [OF le])
  have pos: "(\<exists>p < length cur. acted_call (cur ! p) = Some c) \<longleftrightarrow>
      (\<exists>q < length cur. observed_call (cur ! q) = Some c)" for c
    using eq set_acted_calls [of c cur] set_observed_calls [of c cur]
    by (metis in_set_conv_nth)
  have "c \<in> set (acted_calls (cut_range i j cur)) \<longleftrightarrow>
      c \<in> set (observed_calls (cut_range i j cur))" for c
    unfolding acted observed using pos [of c] iff by (metis not_le)
  then show ?thesis unfolding tm_enforce_empty_iff by blast
qed

interpretation tm: cuttable_property tm_enforce tm_indices "\<lambda>cur _. calls_ordered cur"
proof unfold_locales
  fix cur all_events
  show "tm_enforce cur all_events \<subseteq> ev_id ` set cur"
    by (auto simp: tm_enforce_eq)
  show "\<exists>S. tm_indices cur = Inr S \<and> 0 \<in> S \<and> S \<subseteq> complete cur"
    by (auto simp: tm_indices_eq complete_eq intro: exI [of _ 0])
qed (rule tm_cut_keeps; auto simp: tm_indices_eq)

subsection \<open>Tool loop atomicity\<close>

text \<open>
  A tool loop of the whole history that is present in the view forms one segment there: it opens
  with the action that carries thinking blocks and continues with plain actions and observations.
\<close>

definition loop_segment :: "event list \<Rightarrow> string set \<Rightarrow> nat \<Rightarrow> nat \<Rightarrow> bool" where
  "loop_segment es l a b \<longleftrightarrow> a < b \<and> b \<le> length es \<and> has_thinking (es ! a) \<and>
     (\<forall>k. a < k \<and> k < b \<longrightarrow> \<not> has_thinking (es ! k) \<and> (is_action (es ! k) \<or> is_observation_base (es ! k))) \<and>
     (\<forall>k < length es. ev_id (es ! k) \<in> l \<longleftrightarrow> a \<le> k \<and> k < b)"

definition loops_embedded :: "event list \<Rightarrow> event list \<Rightarrow> bool" where
  "loops_embedded cur all_events \<longleftrightarrow>
     (\<forall>l \<in> set (tool_loops all_events). l \<subseteq> ev_id ` set cur \<longrightarrow> (\<exists>a b. loop_segment cur l a b))"

lemma segment_continues:
  assumes "loop_segment es l a b" "a < m" "m < b"
  shows "continues_loop False es m"
proof -
  have "foldl in_loop_step False (take n es)" if "a < n" "n \<le> b" for n
    using that
  proof (induction n)
    case (Suc n)
    then have "take (Suc n) es = take n es @ [es ! n]"
      using assms(1) by (simp add: loop_segment_def take_Suc_conv_app_nth)
    then show ?case
      using Suc assms(1) by (cases "n = a") (auto simp: loop_segment_def in_loop_step_def)
  qed simp
  with assms show ?thesis by (auto simp: loop_segment_def continues_loop_def)
qed

lemma tl_cut_keeps:
  assumes emb: "loops_embedded cur all_events" and ok: "tl_enforce cur all_events = {}"
    and i: "\<not> continues_loop False cur i" and j: "\<not> continues_loop False cur j" and le: "i \<le> j"
  shows "tl_enforce (cut_range i j cur) all_events = {}"
  unfolding tl_enforce_empty_iff
proof (intro ballI allI impI)
  fix e l
  assume e: "e \<in> set (cut_range i j cur)" and l: "find (\<lambda>l. ev_id e \<in> l) (tool_loops all_events) = Some l"
  from e obtain p where p: "p < length cur" "cur ! p = e" "p < i \<or> j \<le> p"
    by (auto simp: in_set_cut_range_iff [OF le])
  from l have l': "l \<in> set (tool_loops all_events)" "ev_id e \<in> l"
    by (auto simp: find_Some_iff)
  have "e \<in> set cur" using p nth_mem by blast
  with ok l have "l \<subseteq> ev_id ` set cur" unfolding tl_enforce_empty_iff by blast
  with emb l' obtain a b where seg: "loop_segment cur l a b"
    unfolding loops_embedded_def by blast
  let ?X = "{a..<b}"
  have kept: "m < i \<or> j \<le> m" if "m \<in> ?X" for m
  proof (rule unseparated_kept [of p ?X m])
    show "p \<in> ?X" using seg p l' by (auto simp: loop_segment_def)
    show "x \<in> ?X \<Longrightarrow> y \<in> ?X \<Longrightarrow> x < i \<Longrightarrow> i \<le> y \<Longrightarrow> False" for x y
      using i segment_continues [OF seg, of i] by auto
    show "x \<in> ?X \<Longrightarrow> y \<in> ?X \<Longrightarrow> x < j \<Longrightarrow> j \<le> y \<Longrightarrow> False" for x y
      using j segment_continues [OF seg, of j] by auto
  qed (use that p in auto)
  show "l \<subseteq> ev_id ` set (cut_range i j cur)"
  proof
    fix x
    assume "x \<in> l"
    with \<open>l \<subseteq> ev_id ` set cur\<close> have "\<exists>y \<in> set cur. ev_id y = x" by blast
    then obtain k where k: "k < length cur" "ev_id (cur ! k) = x"
      unfolding bex_set_nth by blast
    with \<open>x \<in> l\<close> seg have "k \<in> ?X" by (auto simp: loop_segment_def)
    with kept k have "cur ! k \<in> set (cut_range i j cur)"
      by (auto simp: in_set_cut_range_iff [OF le])
    with k show "x \<in> ev_id ` set (cut_range i j cur)" by blast
  qed
qed

interpretation tl: cuttable_property tl_enforce tl_indices loops_embedded
proof unfold_locales
  fix cur all_events
  show "tl_enforce cur all_events \<subseteq> ev_id ` set cur"
    using tl_enforce_loop_ids [of _ "ev_id ` set cur" "{}" cur] by (simp add: tl_enforce_def)
  show "\<exists>S. tl_indices cur = Inr S \<and> 0 \<in> S \<and> S \<subseteq> complete cur"
    by (auto simp: tl_indices_eq complete_eq continues_loop_def intro: exI [of _ 0])
qed (rule tl_cut_keeps; auto simp: tl_indices_eq)

end
