(* ===== verification/View_Model.thy ===== *)
theory View_Model
  imports View_Properties
begin

text \<open>
  \<open>View\<close> of \<open>context/view/view.py\<close>: the events the LLM will see and the flag for an unhandled
  condensation request, its manipulation indices, the repeated enforcement of all properties, and
  the construction of a view from the history. The shared lemmas rest on the contract
  \<open>view_property\<close>, which every member of \<open>ALL_PROPERTIES\<close> satisfies.
\<close>

record view =
  events :: "event list"
  unhandled_condensation_request :: bool

type_synonym view_prop =
  "(event list \<Rightarrow> event list \<Rightarrow> string set) \<times> (event list \<Rightarrow> index_set result)"

definition ALL_PROPERTIES :: "view_prop list" where
  "ALL_PROPERTIES =
     [(ou_enforce, ou_indices), (ba_enforce, ba_indices), (tm_enforce, tm_indices), (tl_enforce, tl_indices)]"

definition empty_view :: view where
  "empty_view = \<lparr>events = [], unhandled_condensation_request = False\<rparr>"

fun intersect_indices :: "view_prop list \<Rightarrow> event list \<Rightarrow> index_set \<Rightarrow> index_set result" where
  "intersect_indices [] evs S = Inr S"
| "intersect_indices (p # ps) evs S =
     bind_result (snd p evs) (\<lambda>T. intersect_indices ps evs (S \<inter> T))"

definition manipulation_indices :: "view \<Rightarrow> index_set result" where
  "manipulation_indices v = intersect_indices ALL_PROPERTIES (events v) (complete (events v))"

text \<open>\<open>__getitem__\<close> for a slice (step 1) and for an integer.\<close>

definition view_slice :: "view \<Rightarrow> int \<Rightarrow> int \<Rightarrow> event list" where
  "view_slice v i j = py_slice (events v) i j"

definition view_get :: "view \<Rightarrow> int \<Rightarrow> event result" where
  "view_get v i =
     (let n = int (length (events v)); k = (if i < 0 then n + i else i)
      in if 0 \<le> k \<and> k < n then Inr (events v ! nat k) else Inl IndexError)"

text \<open>The first property, in order, that has something to forget.\<close>

fun first_enforced :: "view_prop list \<Rightarrow> event list \<Rightarrow> event list \<Rightarrow> string set option" where
  "first_enforced [] cur all_events = None"
| "first_enforced (p # ps) cur all_events =
     (let forget = fst p cur all_events
      in if forget \<noteq> {} then Some forget else first_enforced ps cur all_events)"

lemma all_properties_law: "p \<in> set ALL_PROPERTIES \<Longrightarrow> view_property (fst p) (snd p)"
  by (auto simp: ALL_PROPERTIES_def ou.view_property_axioms ba.view_property_axioms
      tm.view_property_axioms tl.view_property_axioms)

lemma first_enforced_Some:
  "first_enforced ps cur all_events = Some f \<Longrightarrow> \<exists>p \<in> set ps. f = fst p cur all_events \<and> f \<noteq> {}"
  by (induction ps) (auto simp: Let_def split: if_splits)

lemma first_enforced_None_iff:
  "first_enforced ps cur all_events = None \<longleftrightarrow> (\<forall>p \<in> set ps. fst p cur all_events = {})"
  by (induction ps) (auto simp: Let_def)

lemma first_enforced_shrinks:
  assumes "first_enforced ALL_PROPERTIES cur all_events = Some f"
  shows "length (filter (\<lambda>e. ev_id e \<notin> f) cur) < length cur"
  using first_enforced_Some [OF assms] all_properties_law view_property.enforce_shrinks by blast

text \<open>\<open>enforce_properties\<close>: drop what the first violated property names, and start over.\<close>

function enforce_events :: "event list \<Rightarrow> event list \<Rightarrow> event list" where
  "enforce_events cur all_events =
     (case first_enforced ALL_PROPERTIES cur all_events of
        None \<Rightarrow> cur
      | Some f \<Rightarrow> enforce_events (filter (\<lambda>e. ev_id e \<notin> f) cur) all_events)"
  by pat_completeness auto
termination
  by (relation "measure (\<lambda>(cur, all_events). length cur)") (auto simp: first_enforced_shrinks)

declare enforce_events.simps [simp del]

definition enforce_properties :: "view \<Rightarrow> event list \<Rightarrow> view" where
  "enforce_properties v all_events = v\<lparr>events := enforce_events (events v) all_events\<rparr>"

definition append_event :: "view \<Rightarrow> event \<Rightarrow> view result" where
  "append_event v e =
     (case e of
        Condensation c \<Rightarrow>
          bind_result (apply_condensation c (events v)) (\<lambda>evs.
            Inr (v\<lparr>events := evs, unhandled_condensation_request := False\<rparr>))
      | CondensationRequest _ \<Rightarrow> Inr (v\<lparr>unhandled_condensation_request := True\<rparr>)
      | _ \<Rightarrow> if is_llm_convertible e then Inr (v\<lparr>events := events v @ [e]\<rparr>) else Inr v)"

fun append_events :: "view \<Rightarrow> event list \<Rightarrow> view result" where
  "append_events v [] = Inr v"
| "append_events v (e # es) = bind_result (append_event v e) (\<lambda>v'. append_events v' es)"

definition from_events :: "event list \<Rightarrow> view result" where
  "from_events es =
     bind_result (append_events empty_view es) (\<lambda>v. Inr (enforce_properties v es))"

section \<open>Lemmas\<close>

text \<open>All properties hold of the events: no enforcement has anything to forget.\<close>

definition satisfies_all :: "event list \<Rightarrow> event list \<Rightarrow> bool" where
  "satisfies_all cur all_events \<longleftrightarrow> (\<forall>p \<in> set ALL_PROPERTIES. fst p cur all_events = {})"

lemma satisfies_all_iff:
  "satisfies_all cur all_events \<longleftrightarrow>
     ou_enforce cur all_events = {} \<and> ba_enforce cur all_events = {} \<and>
     tm_enforce cur all_events = {} \<and> tl_enforce cur all_events = {}"
  by (auto simp: satisfies_all_def ALL_PROPERTIES_def)

lemma enforce_events_satisfied: "satisfies_all cur all_events \<Longrightarrow> enforce_events cur all_events = cur"
  by (subst enforce_events.simps)
     (simp add: satisfies_all_def first_enforced_None_iff [THEN iffD2])

lemma enforce_events_satisfies: "satisfies_all (enforce_events cur all_events) all_events"
proof (induction cur all_events rule: enforce_events.induct)
  case (1 cur all_events)
  show ?case
  proof (cases "first_enforced ALL_PROPERTIES cur all_events")
    case None
    then have "enforce_events cur all_events = cur" by (simp add: enforce_events.simps [of cur])
    with None show ?thesis by (simp add: satisfies_all_def first_enforced_None_iff)
  next
    case (Some f)
    then show ?thesis using "1.IH" [OF Some] by (simp add: enforce_events.simps [of cur])
  qed
qed

lemma enforce_events_subseq: "subseq (enforce_events cur all_events) cur"
proof (induction cur all_events rule: enforce_events.induct)
  case (1 cur all_events)
  show ?case
  proof (cases "first_enforced ALL_PROPERTIES cur all_events")
    case None
    then show ?thesis by (simp add: enforce_events.simps [of cur])
  next
    case (Some f)
    then have "enforce_events cur all_events = enforce_events (filter (\<lambda>e. ev_id e \<notin> f) cur) all_events"
      by (simp add: enforce_events.simps [of cur])
    then show ?thesis
      using subseq_order.trans [OF "1.IH" [OF Some] subseq_filter_left] by simp
  qed
qed

lemma intersect_indices_eq:
  "(\<forall>p \<in> set ps. \<exists>T. snd p evs = Inr T) \<Longrightarrow>
   intersect_indices ps evs S = Inr (S \<inter> {x. \<forall>p \<in> set ps. \<forall>T. snd p evs = Inr T \<longrightarrow> x \<in> T})"
  by (induction ps arbitrary: S) auto

lemma manipulation_indices_iff:
  "\<exists>S. manipulation_indices v = Inr S \<and>
     (\<forall>k. int k \<in> S \<longleftrightarrow> k \<le> length (events v) \<and> \<not> inside_batch (events v) k \<and>
        pending (take k (events v)) = {} \<and> \<not> continues_loop False (events v) k) \<and>
     S \<subseteq> {0..int (length (events v))}"
proof -
  have "\<forall>p \<in> set ALL_PROPERTIES. \<exists>T. snd p (events v) = Inr T"
    using all_properties_law view_property.indices_total by blast
  then have "manipulation_indices v = Inr (complete (events v) \<inter>
      {x. \<forall>p \<in> set ALL_PROPERTIES. \<forall>T. snd p (events v) = Inr T \<longrightarrow> x \<in> T})"
    unfolding manipulation_indices_def by (rule intersect_indices_eq)
  then show ?thesis
    by (auto simp: ALL_PROPERTIES_def ou_indices_def ba_indices_eq tm_indices_eq tl_indices_eq complete_eq)
qed

lemma manipulation_indices_set:
  "manipulation_indices v =
     Inr {int k | k. k \<le> length (events v) \<and> \<not> inside_batch (events v) k \<and>
                    pending (take k (events v)) = {} \<and> \<not> continues_loop False (events v) k}"
proof -
  obtain S where S: "manipulation_indices v = Inr S" "S \<subseteq> {0..int (length (events v))}"
    and iff: "\<And>k. int k \<in> S \<longleftrightarrow> k \<le> length (events v) \<and> \<not> inside_batch (events v) k \<and>
      pending (take k (events v)) = {} \<and> \<not> continues_loop False (events v) k"
    using manipulation_indices_iff [of v] by auto
  have "S = {int k | k. int k \<in> S}"
  proof (intro equalityI subsetI)
    fix x
    assume "x \<in> S"
    moreover then have "x = int (nat x)" using S(2) by auto
    ultimately show "x \<in> {int k | k. int k \<in> S}" by (metis (mono_tags, lifting) mem_Collect_eq)
  qed auto
  then show ?thesis by (simp add: S(1) iff)
qed

lemma append_event_total: "\<exists>v'. append_event v e = Inr v'"
  by (cases e) (auto simp: append_event_def apply_condensation_total)

lemma append_events_total: "\<exists>v'. append_events v es = Inr v'"
proof (induction es arbitrary: v)
  case (Cons e es)
  then show ?case using append_event_total [of v e] by auto
qed simp

text \<open>Only convertible events enter a view, apart from the summaries condensations insert.\<close>

lemma append_event_convertible:
  assumes "append_event v e = Inr v'" "\<forall>x \<in> set (events v). is_llm_convertible x"
  shows "\<forall>x \<in> set (events v'). is_llm_convertible x"
  using assms
  by (cases e) (auto simp: append_event_def apply_condensation_total Let_def split: option.splits)

lemma append_events_convertible:
  "append_events v es = Inr v' \<Longrightarrow> \<forall>x \<in> set (events v). is_llm_convertible x \<Longrightarrow>
   \<forall>x \<in> set (events v'). is_llm_convertible x"
proof (induction es arbitrary: v)
  case (Cons e es)
  then show ?case
    using append_event_convertible [of v e] by (auto simp: bind_result_Inr_iff)
qed simp

text \<open>The calls of a view come from the calls of its history, in order.\<close>

lemma distinct_subseq: "subseq xs ys \<Longrightarrow> distinct ys \<Longrightarrow> distinct xs"
  by (induction rule: list_emb.induct) (auto dest: list_emb_set)

lemma append_event_acted:
  assumes "append_event v e = Inr v'"
  shows "subseq (acted_calls (events v')) (acted_calls (events v) @ acted_calls [e])"
proof -
  have keep: "subseq (acted_calls (filter P xs)) (acted_calls xs)" for P xs
    by (rule acted_calls_subseq) simp
  have ins: "acted_calls (py_insert off (CondensationSummaryEvent s) xs) = acted_calls xs" for off s xs
  proof -
    have "acted_calls (py_insert off (CondensationSummaryEvent s) xs) = acted_calls (take off xs) @ acted_calls (drop off xs)"
      by (simp add: py_insert_def)
    also have "\<dots> = acted_calls xs" unfolding acted_calls_simps(3) [symmetric] append_take_drop_id ..
    finally show ?thesis .
  qed
  show ?thesis
    using assms keep
    by (cases e) (auto simp: append_event_def apply_condensation_total Let_def ins split: option.splits if_splits)
qed

lemma append_events_acted:
  "append_events v es = Inr v' \<Longrightarrow> subseq (acted_calls (events v')) (acted_calls (events v) @ acted_calls es)"
proof (induction es arbitrary: v)
  case (Cons e es)
  then obtain u where u: "append_event v e = Inr u" "append_events u es = Inr v'" by (auto simp: bind_result_Inr_iff)
  have "subseq (acted_calls (events u) @ acted_calls es) ((acted_calls (events v) @ acted_calls [e]) @ acted_calls es)"
    using append_event_acted [OF u(1)] by (intro list_emb_append_mono) simp_all
  from subseq_order.trans [OF Cons.IH [OF u(2)] this] show ?case by (simp split: option.splits)
qed simp

text \<open>The shape a view needs for its manipulation indices to be safe cut points.\<close>

definition view_shape :: "event list \<Rightarrow> event list \<Rightarrow> bool" where
  "view_shape cur all_events \<longleftrightarrow>
     batches_contiguous cur \<and> calls_ordered cur \<and> loops_embedded cur all_events"

lemma satisfies_all_cut:
  assumes shape: "view_shape cur all_events" and ok: "satisfies_all cur all_events"
    and S: "manipulation_indices \<lparr>events = cur, unhandled_condensation_request = u\<rparr> = Inr S"
    and i: "int i \<in> S" and j: "int j \<in> S" and le: "i \<le> j"
  shows "satisfies_all (cut_range i j cur) all_events"
proof -
  let ?v = "\<lparr>events = cur, unhandled_condensation_request = u\<rparr>"
  obtain S' where S': "manipulation_indices ?v = Inr S'"
    and iff: "\<And>k. int k \<in> S' \<longleftrightarrow> k \<le> length cur \<and> \<not> inside_batch cur k \<and>
      pending (take k cur) = {} \<and> \<not> continues_loop False cur k"
    using manipulation_indices_iff [of ?v] by (auto simp only: view.simps)
  have S_eq: "S' = S" using S S' by simp
  note i' = iff [of i, unfolded S_eq, THEN iffD1, OF i]
  note j' = iff [of j, unfolded S_eq, THEN iffD1, OF j]
  have ou: "int i \<in> complete cur" "int j \<in> complete cur" using i' j' by (simp_all add: complete_eq)
  have "ou_enforce (cut_range i j cur) all_events = {}"
    using ok ou.cut_keeps [OF TrueI _ ou_indices_def ou le] by (simp add: satisfies_all_iff)
  moreover have "ba_enforce (cut_range i j cur) all_events = {}"
    using shape ok i' j' le by (intro ba_cut_keeps) (simp_all add: satisfies_all_iff view_shape_def)
  moreover have "tm_enforce (cut_range i j cur) all_events = {}"
    using shape ok i' j' le by (intro tm_cut_keeps) (simp_all add: satisfies_all_iff view_shape_def)
  moreover have "tl_enforce (cut_range i j cur) all_events = {}"
    using shape ok i' j' le by (intro tl_cut_keeps) (simp_all add: satisfies_all_iff view_shape_def)
  ultimately show ?thesis by (simp add: satisfies_all_iff)
qed

text \<open>Inserting an event that is neither an action nor an observation, nor part of a tool loop.\<close>

lemma batch_ids_filter: "batch_ids es r = batch_ids (filter is_action es) r"
  unfolding batch_ids_def by (rule arg_cong [where f = "image ev_id"]) auto

lemma observed_calls_filter: "observed_calls es = observed_calls (filter is_observation_base es)"
  by (induction es) (auto simp: observed_call_None_iff split: option.splits)

lemma acted_calls_filter: "acted_calls es = acted_calls (filter is_action es)"
  by (induction es) (auto simp: acted_call_None_iff split: option.splits)

lemma satisfies_all_insert:
  assumes ok: "satisfies_all cur all_events"
    and e: "\<not> is_action e" "\<not> is_observation_base e" "\<forall>l \<in> set (tool_loops all_events). ev_id e \<notin> l"
  shows "satisfies_all (py_insert k e cur) all_events"
proof -
  have "observed_calls (py_insert k e cur) = observed_calls cur"
    "acted_calls (py_insert k e cur) = acted_calls cur"
    "batch_ids (py_insert k e cur) r = batch_ids cur r" for r
    using e observed_calls_filter [of "py_insert k e cur"] observed_calls_filter [of cur]
      acted_calls_filter [of "py_insert k e cur"] acted_calls_filter [of cur]
      batch_ids_filter [of "py_insert k e cur" r for r] batch_ids_filter [of cur r for r]
    by (simp_all add: filter_py_insert_drop)
  moreover have "find (\<lambda>l. ev_id e \<in> l) (tool_loops all_events) = None"
    using e(3) by (auto simp: find_None_iff)
  ultimately show ?thesis
    using ok unfolding satisfies_all_iff enforce_iff by (simp, blast)
qed

section \<open>Properties\<close>

text \<open>Enforcing the properties of a view always ends, in a view that is a subsequence of the
  old one, on which no property has anything left to forget, and enforcing again changes
  nothing.\<close>

theorem enforce_properties_fixpoint:
  "satisfies_all (events (enforce_properties v all_events)) all_events \<and>
   subseq (events (enforce_properties v all_events)) (events v) \<and>
   unhandled_condensation_request (enforce_properties v all_events) = unhandled_condensation_request v \<and>
   enforce_properties (enforce_properties v all_events) all_events = enforce_properties v all_events"
  by (simp add: enforce_properties_def enforce_events_satisfies enforce_events_subseq
      enforce_events_satisfied)

definition sample_turns :: "event list" where
  "sample_turns =
     [sample_system ''s'', sample_message ''u'' SourceUser ''hi'',
      sample_thinking ''a1'' ''c1'' ''r1'', sample_observation ''o1'' ''c1'',
      sample_message ''m'' SourceAgent ''done'']"

definition sample_batch :: "event list" where
  "sample_batch =
     [sample_action ''a1'' ''c1'' ''r1'', sample_action ''a2'' ''c2'' ''r1'',
      sample_observation ''o1'' ''c1'', sample_observation ''o2'' ''c2'']"



text \<open>C36: The manipulation indices of a view are computed without error and are exactly the
  positions that do not lie between two adjacent actions of one response, leave no tool call unanswered
  before them, and do not continue a tool loop; position 0 is always one of them. When the actions of
  every response are adjacent, no index lies between the first and the last action of a response.
  Otherwise, say when the error of a rejected call stands between the calls of a response, a position
  inside the batch can be an index: what is claimed of batches from start to end holds of adjacent ones only.\<close>

theorem manipulation_indices_exact:
  "manipulation_indices v =
     Inr {int k | k. k \<le> length (events v) \<and> \<not> inside_batch (events v) k \<and>
                    pending (take k (events v)) = {} \<and> \<not> continues_loop False (events v) k} \<and>
   \<not> inside_batch (events v) 0 \<and> \<not> continues_loop False (events v) 0 \<and>
   (batches_contiguous (events v) \<longrightarrow>
      (\<forall>S a b k r. manipulation_indices v = Inr S \<and> response_of (events v ! a) = Some r \<and>
         response_of (events v ! b) = Some r \<and> a < k \<and> k \<le> b \<and> b < length (events v) \<longrightarrow> int k \<notin> S))"
proof (intro conjI impI allI)
  fix S a b k r
  assume "batches_contiguous (events v)"
    and "manipulation_indices v = Inr S \<and> response_of (events v ! a) = Some r \<and>
         response_of (events v ! b) = Some r \<and> a < k \<and> k \<le> b \<and> b < length (events v)"
  then have "inside_batch (events v) k" "manipulation_indices v = Inr S" using contiguous_inside_batch by blast+
  then show "int k \<notin> S" by (auto simp: manipulation_indices_set)
qed (simp_all add: manipulation_indices_set inside_batch_def continues_loop_def)

theorem manipulation_indices_exact_witness:
  "\<exists>S. manipulation_indices \<lparr>events = sample_batch, unhandled_condensation_request = False\<rparr> = Inr S \<and>
     int 0 \<in> S \<and> int 1 \<notin> S"
proof -
  let ?v = "\<lparr>events = sample_batch, unhandled_condensation_request = False\<rparr>"
  have c: "batches_contiguous (events ?v)"
    by (simp add: batches_contiguous_def sample_batch_def sample_defs All_less_Suc2 nth_Cons' numeral_eq_Suc)
  have r: "response_of (events ?v ! 0) = Some ''r1''" "response_of (events ?v ! 1) = Some ''r1''" "1 < length (events ?v)"
    by (simp_all add: sample_batch_def sample_defs)
  obtain S where S: "manipulation_indices ?v = Inr S" using manipulation_indices_exact [of ?v] by blast
  moreover have "int 1 \<notin> S"
    using conjunct2 [OF conjunct2 [OF conjunct2 [OF manipulation_indices_exact [of ?v]]], THEN mp, OF c] S r
    by (metis less_one order_refl)
  moreover have "int 0 \<in> S"
    using manipulation_indices_exact [of ?v] S by (auto simp: sample_batch_def)
  ultimately show ?thesis by blast
qed

text \<open>Deleting the events between two manipulation indices of a view that has all properties
  leaves a view that has them all, so that nothing more is dropped by enforcement, provided the
  actions of a response are adjacent, answers follow their calls, and tool loops are unbroken.\<close>

theorem delete_between_indices_safe:
  assumes "view_shape (events v) all_events" "satisfies_all (events v) all_events"
    and "manipulation_indices v = Inr S" "int i \<in> S" "int j \<in> S" "i \<le> j"
  shows "satisfies_all (cut_range i j (events v)) all_events \<and>
         enforce_events (cut_range i j (events v)) all_events = cut_range i j (events v)"
proof -
  have "v = \<lparr>events = events v, unhandled_condensation_request = unhandled_condensation_request v\<rparr>"
    by simp
  then have "satisfies_all (cut_range i j (events v)) all_events"
    using satisfies_all_cut assms by metis
  then show ?thesis by (simp add: enforce_events_satisfied)
qed

definition sample_view :: view where
  "sample_view = \<lparr>events = sample_turns, unhandled_condensation_request = False\<rparr>"

lemma sample_turns_shape: "view_shape sample_turns sample_turns"
proof -
  have "batches_contiguous sample_turns"
    by (simp add: batches_contiguous_def sample_turns_def sample_defs All_less_Suc2 nth_Cons'
        numeral_eq_Suc)
  moreover have "calls_ordered sample_turns"
    by (simp add: calls_ordered_def sample_turns_def sample_defs All_less_Suc Ex_less_Suc
        numeral_eq_Suc)
  moreover have "loop_segment sample_turns {''a1'', ''o1''} 2 4"
    by (auto simp: loop_segment_def sample_turns_def sample_defs nth_Cons' numeral_eq_Suc less_Suc_eq)
  then have "loops_embedded sample_turns sample_turns"
    by (auto simp: loops_embedded_def tool_loops_def sample_turns_def sample_defs insert_commute)
  ultimately show ?thesis by (simp add: view_shape_def)
qed

lemma sample_turns_satisfied: "satisfies_all sample_turns sample_turns"
  by (auto simp: satisfies_all_iff enforce_iff batch_ids_def tool_loops_def sample_turns_def sample_defs)

theorem delete_between_indices_safe_witness:
  "\<exists>S. manipulation_indices sample_view = Inr S \<and> int 2 \<in> S \<and> int 4 \<in> S \<and>
       satisfies_all (cut_range 2 4 (events sample_view)) sample_turns"
proof -
  let ?S = "{int k | k. k \<le> length (events sample_view) \<and> \<not> inside_batch (events sample_view) k \<and>
      pending (take k (events sample_view)) = {} \<and> \<not> continues_loop False (events sample_view) k}"
  have S: "manipulation_indices sample_view = Inr ?S"
    by (rule manipulation_indices_set)
  have in_S: "int 2 \<in> ?S" "int 4 \<in> ?S"
    by (auto simp: sample_view_def sample_turns_def sample_defs inside_batch_def continues_loop_def
        pending_step_def in_loop_step_def nth_Cons' numeral_eq_Suc)
  from delete_between_indices_safe [OF _ _ S in_S, of sample_turns]
  have "satisfies_all (cut_range 2 4 (events sample_view)) sample_turns"
    using sample_turns_shape sample_turns_satisfied by (simp add: sample_view_def)
  with S in_S show ?thesis by blast
qed

text \<open>
  One response with two tool calls of which the first is rejected: the agent emits the rejected
  call and its error before the second call.
\<close>

definition sample_rejected_batch :: "event list" where
  "sample_rejected_batch =
     [sample_action ''a1'' ''c1'' ''r1'', sample_error ''e1'' ''c1'' ''bad call'',
      sample_action ''a2'' ''c2'' ''r1'', sample_observation ''o2'' ''c2'']"

text \<open>In a batch whose actions are not adjacent, here because an error was reported between
  them, a position between the actions is a manipulation index, although batch atomicity claims
  that no manipulation is allowed from the start of a batch to its end. Deleting the events
  before it makes enforcement drop the rest of the batch with its observation.\<close>

theorem batch_interior_index:
  "\<exists>S. manipulation_indices \<lparr>events = sample_rejected_batch, unhandled_condensation_request = False\<rparr> = Inr S \<and>
     int 0 \<in> S \<and> int 2 \<in> S \<and>
     batch_ids sample_rejected_batch ''r1'' = {''a1'', ''a2''} \<and>
     satisfies_all sample_rejected_batch sample_rejected_batch \<and>
     enforce_events (cut_range 0 2 sample_rejected_batch) sample_rejected_batch = []"
proof -
  let ?v = "\<lparr>events = sample_rejected_batch, unhandled_condensation_request = False\<rparr>"
  let ?S = "{int k | k. k \<le> length (events ?v) \<and> \<not> inside_batch (events ?v) k \<and>
      pending (take k (events ?v)) = {} \<and> \<not> continues_loop False (events ?v) k}"
  have in_S: "int 0 \<in> ?S" "int 2 \<in> ?S"
    by (auto simp: sample_rejected_batch_def sample_defs inside_batch_def continues_loop_def
        pending_step_def in_loop_step_def nth_Cons' numeral_eq_Suc)
  have ids: "batch_ids sample_rejected_batch ''r1'' = {''a1'', ''a2''}"
    by (simp add: sample_rejected_batch_def sample_defs)
  have sat: "satisfies_all sample_rejected_batch sample_rejected_batch"
    by (simp add: satisfies_all_iff enforce_iff tool_loops_def sample_rejected_batch_def sample_defs)
  have "enforce_events (cut_range 0 2 sample_rejected_batch) sample_rejected_batch = []"
    by (simp add: cut_range_def sample_rejected_batch_def sample_defs enforce_events.simps
        ALL_PROPERTIES_def Let_def ou_enforce_def ba_enforce_def build_batches_def batch_get_def
        tm_enforce_def tl_enforce_def tool_loops_def)
  with in_S ids sat manipulation_indices_set [of ?v] show ?thesis by blast
qed

end
