(* ===== verification/Text_Utils.thy ===== *)
theory Text_Utils
  imports Events
begin

text \<open>
  Text of events and its truncation: \<open>content_to_str\<close> (\<open>llm/message.py\<close>), the
  \<open>__str__\<close> methods of the event classes, and \<open>maybe_truncate\<close> with
  \<open>_save_full_content\<close> (\<open>utils/truncate.py\<close>). The file system is a map from paths to
  contents; the SHA-256 prefix, the path join of \<open>pathlib\<close> and whether a write succeeds are
  parameters.
\<close>

section \<open>Python strings\<close>

text \<open>Decimal digits of a natural number, as an f-string prints it.\<close>

fun show_nat :: "nat \<Rightarrow> string" where
  "show_nat n = (if n < 10 then [char_of (48 + n)] else show_nat (n div 10) @ [char_of (48 + n mod 10)])"

declare show_nat.simps [simp del]

text \<open>\<open>sep.join(parts)\<close>.\<close>

fun join_with :: "string \<Rightarrow> string list \<Rightarrow> string" where
  "join_with sep [] = []"
| "join_with sep [x] = x"
| "join_with sep (x # y # xs) = x @ sep @ join_with sep (y # xs)"

text \<open>The line feed, which a HOL string literal does not spell.\<close>

definition newline :: string where
  "newline = [CHR 0x0A]"

text \<open>
  \<open>len(s.splitlines())\<close>: the line boundaries of \<open>str.splitlines\<close> below code point 256, with
  CR LF as one boundary; a final line without boundary counts when it is not empty.
\<close>

definition is_line_break :: "char \<Rightarrow> bool" where
  "is_line_break c \<longleftrightarrow> c \<in> {CHR 0x0A, CHR 0x0B, CHR 0x0C, CHR 0x0D, CHR 0x1C, CHR 0x1D, CHR 0x1E, CHR 0x85}"

fun splitlines_count :: "bool \<Rightarrow> string \<Rightarrow> nat" where
  "splitlines_count open_line [] = (if open_line then 1 else 0)"
| "splitlines_count open_line [c] = 1"
| "splitlines_count open_line (c # d # cs) =
     (if c = CHR 0x0D \<and> d = CHR 0x0A then Suc (splitlines_count False cs)
      else if is_line_break c then Suc (splitlines_count False (d # cs))
      else splitlines_count True (d # cs))"

section \<open>Events as text\<close>

definition N_CHAR_PREVIEW :: nat where
  "N_CHAR_PREVIEW = 500"

fun content_str :: "content \<Rightarrow> string" where
  "content_str (TextContent t _) = t"
| "content_str (ImageContent urls _) = ''[Image: '' @ show_nat (length urls) @ '' URLs]''"

definition content_to_str :: "content list \<Rightarrow> string list" where
  "content_to_str cs = map content_str cs"

fun content_text :: "content \<Rightarrow> string" where
  "content_text (TextContent t _) = t"
| "content_text (ImageContent _ _) = []"

fun source_name :: "source_type \<Rightarrow> string" where
  "source_name SourceAgent = ''agent''"
| "source_name SourceUser = ''user''"
| "source_name SourceEnvironment = ''environment''"
| "source_name SourceHook = ''hook''"

fun role_name :: "role \<Rightarrow> string" where
  "role_name RoleUser = ''user''"
| "role_name RoleSystem = ''system''"
| "role_name RoleAssistant = ''assistant''"
| "role_name RoleTool = ''tool''"

definition base_str :: "string \<Rightarrow> source_type \<Rightarrow> string" where
  "base_str cls src = cls @ '' ('' @ source_name src @ '')''"

text \<open>\<open>text[:N] + "..." if len(text) > N else text\<close>.\<close>

definition preview :: "string \<Rightarrow> string" where
  "preview t = (if length t > N_CHAR_PREVIEW then take N_CHAR_PREVIEW t @ ''...'' else t)"

text \<open>The preview of messages, which leaves room for the dots.\<close>

definition content_preview :: "string list \<Rightarrow> string" where
  "content_preview parts =
     (let t = join_with '' '' parts
      in if length t > N_CHAR_PREVIEW then take (N_CHAR_PREVIEW - 3) t @ ''...'' else t)"

definition action_event_str :: "action_event \<Rightarrow> string" where
  "action_event_str e =
     (let pre = base_str ''ActionEvent'' (source e) @ newline @ ''  Thought: '' @
                preview (join_with '' '' (map content_text (thought e))) @ newline @ ''  Action: ''
      in case action e of
           Some a \<Rightarrow> pre @ fst a
         | None \<Rightarrow> pre @ ''(not executed)'' @ newline @ ''  Call: '' @
                   tc_name (tool_call e) @ '':'' @ tc_id (tool_call e))"

definition observation_event_str :: "observation_event \<Rightarrow> string" where
  "observation_event_str e =
     base_str ''ObservationEvent'' (source e) @ newline @ ''  Tool: '' @ obs_tool_name e @ newline @
     ''  Result: '' @ preview (concat (content_to_str (to_llm_content (observation e))))"

definition user_reject_str :: "user_reject_observation \<Rightarrow> string" where
  "user_reject_str e =
     base_str ''UserRejectObservation'' (source e) @ newline @ ''  Tool: '' @ obs_tool_name e @ newline @
     ''  Reason: '' @ preview (rejection_reason e)"

definition agent_error_str :: "agent_error_event \<Rightarrow> string" where
  "agent_error_str e =
     base_str ''AgentErrorEvent'' (source e) @ newline @ ''  Error: '' @ preview (error e)"

definition message_event_str :: "message_event \<Rightarrow> string" where
  "message_event_str e =
     (let parts = content_to_str (msg_content (llm_message e) @ me_extended_content e);
          skill_info = (if activated_skills e \<noteq> []
             then '' [Skills: '' @ join_with '', '' (activated_skills e) @ '']'' else []);
          thinking_info = (if msg_thinking_blocks (llm_message e) \<noteq> []
             then '' [Thinking blocks: '' @ show_nat (length (msg_thinking_blocks (llm_message e))) @ '']''
             else []);
          pre = base_str ''MessageEvent'' (source e) @ newline @ ''  '' @ role_name (role (llm_message e)) @ '': ''
      in if parts \<noteq> [] then pre @ content_preview parts @ skill_info @ thinking_info
         else pre @ ''[no text content]'')"

definition system_prompt_str :: "system_prompt_event \<Rightarrow> string" where
  "system_prompt_str e =
     base_str ''SystemPromptEvent'' (source e) @ newline @ ''  System: '' @
     preview (content_text (system_prompt e)) @ newline @ ''  Tools: '' @ show_nat (length (tools e)) @
     '' available'' @
     (case dynamic_context e of
        Some d \<Rightarrow> newline @ ''  Dynamic Context: '' @ show_nat (length (content_text d)) @ '' chars''
      | None \<Rightarrow> [])"

text \<open>
  The default of \<open>LLMConvertibleEvent\<close>, here for the summary event, whose message has one text
  block and no failure to fall back from.
\<close>

definition summary_event_str :: "condensation_summary_event \<Rightarrow> string" where
  "summary_event_str e =
     base_str ''CondensationSummaryEvent'' (source e) @ newline @ ''  '' @ role_name RoleUser @ '': '' @
     content_preview [summary_text e]"

fun event_str :: "event \<Rightarrow> string" where
  "event_str (SystemPromptEvent e) = system_prompt_str e"
| "event_str (MessageEvent e) = message_event_str e"
| "event_str (ActionEvent e) = action_event_str e"
| "event_str (ObservationEvent e) = observation_event_str e"
| "event_str (UserRejectObservation e) = user_reject_str e"
| "event_str (AgentErrorEvent e) = agent_error_str e"
| "event_str (CondensationSummaryEvent e) = summary_event_str e"
| "event_str (Condensation e) = base_str ''Condensation'' (source e)"
| "event_str (CondensationRequest e) = base_str ''CondensationRequest'' (source e)"
| "event_str (OtherEvent cls e) = base_str cls (source e)"

lemma preview_length: "length (preview t) \<le> N_CHAR_PREVIEW + 3"
  by (simp add: preview_def)

lemma content_preview_length: "length (content_preview ts) \<le> N_CHAR_PREVIEW"
  by (simp add: content_preview_def N_CHAR_PREVIEW_def Let_def)

section \<open>Truncation\<close>

record fs_env =
  hash8 :: "string \<Rightarrow> string"
  path_join :: "string \<Rightarrow> string \<Rightarrow> string"
  write_ok :: "string \<Rightarrow> bool"

type_synonym file_system = "string \<rightharpoonup> string"

definition save_full_content ::
  "fs_env \<Rightarrow> file_system \<Rightarrow> string \<Rightarrow> string \<Rightarrow> string \<Rightarrow> file_system \<times> string option" where
  "save_full_content env fs content save_dir tool_prefix =
     (let filename = tool_prefix @ ''_output_'' @ hash8 env content @ ''.txt'';
          file_path = path_join env save_dir filename
      in if fs file_path = None then
           (if write_ok env file_path then (fs(file_path \<mapsto> content), Some file_path) else (fs, None))
         else (fs, Some file_path))"

definition DEFAULT_TRUNCATE_NOTICE :: string where
  "DEFAULT_TRUNCATE_NOTICE =
     ''<response clipped><NOTE>Due to the max output limit, only part of the full '' @
     ''response has been shown to you.</NOTE>''"

definition truncate_notice_with_persist :: "string \<Rightarrow> nat \<Rightarrow> string" where
  "truncate_notice_with_persist file_path line_num =
     ''<response clipped><NOTE>Due to the max output limit, only part of the full '' @
     ''response has been shown to you. The complete output has been saved to '' @
     file_path @ '' - you can use other tools to view the full content (truncated '' @
     ''part starts around line '' @ show_nat line_num @ '').</NOTE>''"

text \<open>Steps 5 and 6: the final notice between a head and a tail of the content.\<close>

definition clip_around :: "string \<Rightarrow> nat \<Rightarrow> nat \<Rightarrow> string \<Rightarrow> string" where
  "clip_around content n proposed_head final_notice =
     (if length final_notice \<ge> n then take n final_notice
      else
        (let remaining = n - length final_notice;
             head_chars = min proposed_head remaining;
             tail_chars = remaining - head_chars
         in take head_chars content @ final_notice @
            (if tail_chars > 0 then drop (length content - tail_chars) content else [])))"

lemma length_clip_around:
  assumes "n < length content"
  shows "length (clip_around content n h notice) = n"
proof (cases "length notice \<ge> n")
  case True
  then show ?thesis by (simp add: clip_around_def)
next
  case False
  with assms show ?thesis
    by (cases "h \<le> n - length notice") (simp add: clip_around_def Let_def min_def, linarith,
        simp add: clip_around_def Let_def min_def)
qed

definition maybe_truncate ::
  "fs_env \<Rightarrow> file_system \<Rightarrow> string \<Rightarrow> int option \<Rightarrow> string \<Rightarrow> string option \<Rightarrow> string \<Rightarrow> file_system \<times> string" where
  "maybe_truncate env fs content truncate_after truncate_notice save_dir tool_prefix =
     (case truncate_after of
        None \<Rightarrow> (fs, content)
      | Some lim \<Rightarrow>
          if lim = 0 \<or> int (length content) \<le> lim \<or> lim < 0 then (fs, content)
          else if int (length truncate_notice) \<ge> lim then (fs, take (nat lim) truncate_notice)
          else
            (let n = nat lim;
                 available_chars = n - length truncate_notice;
                 proposed_head = available_chars div 2 + available_chars mod 2;
                 (fs', saved) = (case save_dir of
                    None \<Rightarrow> (fs, None)
                  | Some d \<Rightarrow> if d = [] then (fs, None)
                              else save_full_content env fs content d tool_prefix);
                 final_notice = (case saved of
                    None \<Rightarrow> truncate_notice
                  | Some path \<Rightarrow> if path = [] then truncate_notice
                      else truncate_notice_with_persist path
                             (splitlines_count False (take proposed_head content) + 1))
             in (fs', clip_around content n proposed_head final_notice)))"

text \<open>Truncation respects its limit exactly: content within the limit, or without a positive
  limit, is returned unchanged, and longer content is cut to precisely the limit, whatever the
  notice is and whether or not the full content could be saved.\<close>

theorem maybe_truncate_length:
  "length (snd (maybe_truncate env fs content truncate_after notice save_dir pfx)) =
     (case truncate_after of
        None \<Rightarrow> length content
      | Some lim \<Rightarrow> if lim \<le> 0 then length content else min (length content) (nat lim))"
proof (cases truncate_after)
  case None
  then show ?thesis by (simp add: maybe_truncate_def)
next
  case (Some lim)
  show ?thesis
  proof (cases "lim = 0 \<or> int (length content) \<le> lim \<or> lim < 0")
    case True
    then show ?thesis using Some by (auto simp: maybe_truncate_def min_def)
  next
    case False
    then have "nat lim < length content" "0 < lim" by linarith+
    then show ?thesis
      using Some False
      by (cases "int (length notice) \<ge> lim")
         (simp_all add: maybe_truncate_def Let_def length_clip_around case_prod_unfold)
  qed
qed

text \<open>Saving the full content never overwrites a file, and when it reports a path the file
  is there: with the content just saved, or with what an earlier call left under the same name.\<close>

theorem save_full_content_keeps_files:
  "(\<forall>p. fs p \<noteq> None \<longrightarrow> fst (save_full_content env fs content d pfx) p = fs p) \<and>
   (\<forall>p. snd (save_full_content env fs content d pfx) = Some p \<longrightarrow>
      fst (save_full_content env fs content d pfx) p = Some (case fs p of None \<Rightarrow> content | Some old \<Rightarrow> old))"
  by (auto simp: save_full_content_def Let_def split: option.splits)

theorem save_full_content_keeps_files_witness:
  "fst (save_full_content \<lparr>hash8 = (\<lambda>s. ''0badcafe''), path_join = (\<lambda>d f. d @ ''/'' @ f), write_ok = (\<lambda>_. True)\<rparr>
      [''/t/a'' \<mapsto> ''x''] ''hello'' ''/t'' ''bash'') ''/t/a'' = Some ''x''"
  using save_full_content_keeps_files
    [of "[''/t/a'' \<mapsto> ''x'']" "\<lparr>hash8 = (\<lambda>s. ''0badcafe''), path_join = (\<lambda>d f. d @ ''/'' @ f), write_ok = (\<lambda>_. True)\<rparr>"
      "''hello''" "''/t''" "''bash''"]
  by (metis fun_upd_same option.distinct(1))

end
