(* ===== verification/Py_Float.thy ===== *)
theory Py_Float
  imports Complex_Main "HOL-Library.Log_Nat"
begin

text \<open>
  Python floats as far as the sources compute with them: a positive double of normal range is the
  rational it denotes, and the product of an integer with a float is rounded to 53 significant
  bits, ties to even, as IEEE 754 and CPython do. Overflow and subnormal numbers do not occur for
  the lengths and fractions below 1 the sources multiply.
\<close>

definition round_half_even :: "rat \<Rightarrow> int" where
  "round_half_even x =
     (let f = \<lfloor>x\<rfloor>; r = x - of_int f
      in if r < 1 / 2 then f else if 1 / 2 < r then f + 1 else if even f then f else f + 1)"

text \<open>The exponent of a positive rational: \<open>2 ^ e \<le> q < 2 ^ (e + 1)\<close>.\<close>

definition binary_exponent :: "rat \<Rightarrow> int" where
  "binary_exponent q =
     (let (a, b) = quotient_of q; k = bitlen a - bitlen b
      in if q < 2 powi k then k - 1 else k)"

definition round_double :: "rat \<Rightarrow> rat" where
  "round_double q =
     (if q \<le> 0 then 0
      else let e = binary_exponent q - 52 in of_int (round_half_even (q / 2 powi e)) * 2 powi e)"

text \<open>\<open>n * x\<close> for an integer \<open>n \<ge> 0\<close> and a float \<open>x > 0\<close>.\<close>

definition float_scale :: "nat \<Rightarrow> rat \<Rightarrow> rat" where
  "float_scale n x = round_double (round_double (of_nat n) * x)"

text \<open>\<open>int(n * x)\<close>.\<close>

definition int_scale :: "nat \<Rightarrow> rat \<Rightarrow> nat" where
  "int_scale n x = nat \<lfloor>float_scale n x\<rfloor>"

text \<open>The float literals of the sources.\<close>

definition float_0_1 :: rat where
  "float_0_1 = round_double (1 / 10)"

definition float_0_8 :: rat where
  "float_0_8 = round_double (4 / 5)"

lemma round_half_even_nonneg: "0 \<le> x \<Longrightarrow> 0 \<le> round_half_even x"
  by (auto simp: round_half_even_def Let_def)

lemma round_double_nonneg: "0 \<le> round_double q"
  by (simp add: round_double_def Let_def round_half_even_nonneg)

text \<open>Products CPython prints as \<open>0.30000000000000004\<close>, \<open>3.0\<close> and \<open>16.0\<close>.\<close>

lemma float_scale_3: "float_scale 3 float_0_1 = 1351079888211149 / 4503599627370496"
  by code_simp

lemma float_scale_30: "float_scale 30 float_0_1 = 3"
  by code_simp

lemma int_scale_20: "int_scale 20 float_0_8 = 16"
  by code_simp

end
