(* ===== verification/Condenser.thy ===== *)
theory Condenser
  imports View_Model Text_Utils Py_Float
begin

text \<open>
  The condensers of \<open>context/condenser\<close>: token counting and the binary search of
  \<open>utils.py\<close>, the rolling condenser of \<open>base.py\<close>, \<open>LLMSummarizingCondenser\<close>,
  \<open>PipelineCondenser\<close> and \<open>NoOpCondenser\<close>.

  The LLM client is a record of what the condensers ask of it. Its calls may fail, and may answer
  differently each time: \<open>generate\<close> takes the number of the call, and the operations thread
  that number, so that every attempt of a retry loop is a call of its own. Coroutines
  (\<open>acondense\<close> and the like) run the same steps with \<open>agenerate\<close>.
\<close>

section \<open>The LLM and the running process\<close>

record llm_response =
  resp_id :: string
  resp_message :: message

record llm =
  stream :: bool
  requires_streaming :: bool
  effective_max_input_tokens :: "int option"
  get_token_count :: "message list \<Rightarrow> py_model list option \<Rightarrow> bool \<Rightarrow> int"
  generate :: "nat \<Rightarrow> message list \<Rightarrow> llm_response result"
  agenerate :: "nat \<Rightarrow> message list \<Rightarrow> llm_response result"

text \<open>Fresh identifiers and time stamps of new events, the rendered prompt templates, the disk.\<close>

record runtime =
  fresh_id :: "nat \<Rightarrow> string"
  now :: "nat \<Rightarrow> string"
  system_template :: string
  events_template :: "string list \<Rightarrow> string"
  disk :: fs_env

section \<open>Token counting\<close>

fun first_system_tools :: "event list \<Rightarrow> py_model list option" where
  "first_system_tools [] = None"
| "first_system_tools (SystemPromptEvent e # es) = Some (tools e)"
| "first_system_tools (_ # es) = first_system_tools es"

definition get_total_token_count :: "event list \<Rightarrow> llm \<Rightarrow> int result" where
  "get_total_token_count evs l =
     bind_result (events_to_messages evs) (\<lambda>messages.
       (let ts = first_system_tools evs;
            ts' = (if ts = Some [] then None else ts)
        in Inr (get_token_count l messages ts' (ts' \<noteq> None))))"

text \<open>The loop of the binary search, for the token count of the prefix of each length.\<close>

function prefix_search :: "(nat \<Rightarrow> int result) \<Rightarrow> int \<Rightarrow> nat \<Rightarrow> nat \<Rightarrow> nat result" where
  "prefix_search prefix_tokens token_count left right =
     (if left < right then
        (let mid = (left + right) div 2
         in bind_result (prefix_tokens mid) (\<lambda>t.
              if t > token_count then prefix_search prefix_tokens token_count left mid
              else prefix_search prefix_tokens token_count (mid + 1) right))
      else Inr left)"
  by pat_completeness auto
termination
  by (relation "measure (\<lambda>(f, c, l, r). r - l)") auto

declare prefix_search.simps [simp del]

text \<open>Tokens the first \<open>n\<close> of the events add to the base events.\<close>

definition base_token_count :: "event list \<Rightarrow> llm \<Rightarrow> int result" where
  "base_token_count base l = (if base \<noteq> [] then get_total_token_count base l else Inr 0)"

definition prefix_token_count :: "event list \<Rightarrow> event list \<Rightarrow> llm \<Rightarrow> int \<Rightarrow> nat \<Rightarrow> int result" where
  "prefix_token_count base evs l base_tokens n =
     bind_result (get_total_token_count (base @ take n evs) l) (\<lambda>t. Inr (t - base_tokens))"

definition get_shortest_prefix_above_token_count ::
  "event list \<Rightarrow> llm \<Rightarrow> int \<Rightarrow> event list \<Rightarrow> nat result" where
  "get_shortest_prefix_above_token_count evs l token_count base =
     (if evs = [] then Inr 0
      else bind_result (base_token_count base l) (\<lambda>base_tokens.
        bind_result (prefix_token_count base evs l base_tokens (length evs)) (\<lambda>total_tokens.
          if total_tokens \<le> token_count then Inr (length evs)
          else prefix_search (prefix_token_count base evs l base_tokens) token_count 1 (length evs))))"

definition get_suffix_length_for_token_reduction ::
  "event list \<Rightarrow> llm \<Rightarrow> int \<Rightarrow> event list \<Rightarrow> nat result" where
  "get_suffix_length_for_token_reduction evs l token_reduction base =
     (if evs = [] then Inr 0
      else if token_reduction \<le> 0 then Inr (length evs)
      else bind_result (get_shortest_prefix_above_token_count evs l token_reduction base)
             (\<lambda>prefix_length. Inr (length evs - prefix_length)))"

section \<open>The rolling condenser\<close>

datatype condensed = CView view | CCondensation condensation

datatype condensation_requirement_kind = HARD_REQUIREMENT | SOFT_REQUIREMENT

text \<open>
  \<open>RollingCondenser.condense\<close> over the three methods a subclass provides, each of which has
  the number of LLM calls so far threaded through.
\<close>

definition rolling_condense ::
  "(view \<Rightarrow> llm option \<Rightarrow> condensation_requirement_kind option result) \<Rightarrow>
   (view \<Rightarrow> llm option \<Rightarrow> nat \<Rightarrow> condensation result \<times> nat) \<Rightarrow>
   (view \<Rightarrow> llm option \<Rightarrow> nat \<Rightarrow> condensation option result \<times> nat) \<Rightarrow>
   view \<Rightarrow> llm option \<Rightarrow> nat \<Rightarrow> condensed result \<times> nat" where
  "rolling_condense requirement get_cond hard_reset v agent_llm n =
     (case requirement v agent_llm of
        Inl e \<Rightarrow> (Inl e, n)
      | Inr None \<Rightarrow> (Inr (CView v), n)
      | Inr (Some request) \<Rightarrow>
          (case get_cond v agent_llm n of
             (Inr c, n') \<Rightarrow> (Inr (CCondensation c), n')
           | (Inl e, n') \<Rightarrow>
               if e \<noteq> NoCondensationAvailable then (Inl e, n')
               else (case request of
                  SOFT_REQUIREMENT \<Rightarrow> (Inr (CView v), n')
                | HARD_REQUIREMENT \<Rightarrow>
                    (case hard_reset v agent_llm n' of
                       (Inl e', n'') \<Rightarrow> (Inl e', n'')
                     | (Inr (Some c), n'') \<Rightarrow> (Inr (CCondensation c), n'')
                     | (Inr None, n'') \<Rightarrow> (Inl NoCondensationAvailable, n'')))))"

section \<open>The summarizing condenser\<close>

datatype reason = REQUEST | TOKENS | EVENTS

record summarizing_condenser =
  sc_llm :: llm
  max_size :: int
  max_tokens :: "int option"
  keep_first :: int
  minimum_progress :: rat
  hard_context_reset_max_retries :: int
  hard_context_reset_context_scaling :: rat

text \<open>The field constraints and the two validators.\<close>

definition valid_fields :: "summarizing_condenser \<Rightarrow> bool" where
  "valid_fields c \<longleftrightarrow>
     max_size c > 0 \<and> keep_first c \<ge> 0 \<and> 0 < minimum_progress c \<and> minimum_progress c < 1 \<and>
     hard_context_reset_max_retries c > 0 \<and>
     0 < hard_context_reset_context_scaling c \<and> hard_context_reset_context_scaling c < 1"

definition validate_keep_first_vs_max_size :: "summarizing_condenser \<Rightarrow> summarizing_condenser result" where
  "validate_keep_first_vs_max_size c =
     (if max_size c div 2 - keep_first c - 1 \<le> 0 then Inl ValueError else Inr c)"

definition disable_streaming_for_summary :: "summarizing_condenser \<Rightarrow> summarizing_condenser" where
  "disable_streaming_for_summary c =
     (if stream (sc_llm c) \<and> \<not> requires_streaming (sc_llm c)
      then c\<lparr>sc_llm := (sc_llm c)\<lparr>stream := False\<rparr>\<rparr> else c)"

definition new_summarizing_condenser :: "summarizing_condenser \<Rightarrow> summarizing_condenser result" where
  "new_summarizing_condenser c =
     (if \<not> valid_fields c then Inl ValueError
      else bind_result (validate_keep_first_vs_max_size c)
             (\<lambda>c'. Inr (disable_streaming_for_summary c')))"

definition default_condenser :: "llm \<Rightarrow> summarizing_condenser result" where
  "default_condenser l = new_summarizing_condenser
     \<lparr>sc_llm = l, max_size = 80, max_tokens = None, keep_first = 4, minimum_progress = float_0_1,
      hard_context_reset_max_retries = 5, hard_context_reset_context_scaling = float_0_8\<rparr>"

fun is_system_prompt :: "event \<Rightarrow> bool" where
  "is_system_prompt (SystemPromptEvent _) = True"
| "is_system_prompt _ = False"

definition leading_system_prompt_index :: "event list \<Rightarrow> nat option" where
  "leading_system_prompt_index evs = first_index is_system_prompt evs"

definition effective_max_tokens :: "summarizing_condenser \<Rightarrow> llm option \<Rightarrow> int option" where
  "effective_max_tokens c agent_llm =
     (let limits = List.map_filter id
        [max_tokens c, (case agent_llm of Some l \<Rightarrow> effective_max_input_tokens l | None \<Rightarrow> None)]
      in if limits = [] then None else Some (Min (set limits)))"

definition get_condensation_reasons ::
  "summarizing_condenser \<Rightarrow> view \<Rightarrow> llm option \<Rightarrow> reason set result" where
  "get_condensation_reasons c v agent_llm =
     bind_result
       (case (effective_max_tokens c agent_llm, agent_llm) of
          (Some mt, Some l) \<Rightarrow>
            bind_result (get_total_token_count (events v) l) (\<lambda>total_tokens.
              Inr (if total_tokens > mt then {TOKENS} else {}))
        | _ \<Rightarrow> Inr {})
       (\<lambda>token_reasons.
          Inr ((if unhandled_condensation_request v then {REQUEST} else {}) \<union> token_reasons \<union>
               (if int (length (events v)) > max_size c then {EVENTS} else {})))"

definition condensation_requirement ::
  "summarizing_condenser \<Rightarrow> view \<Rightarrow> llm option \<Rightarrow> condensation_requirement_kind option result" where
  "condensation_requirement c v agent_llm =
     bind_result (get_condensation_reasons c v agent_llm) (\<lambda>reasons.
       Inr (if reasons = {} then None
            else if TOKENS \<in> reasons then Some HARD_REQUIREMENT
            else if reasons \<subseteq> {EVENTS} then Some SOFT_REQUIREMENT
            else if REQUEST \<in> reasons then Some HARD_REQUIREMENT
            else None))"

definition build_summary_messages :: "runtime \<Rightarrow> string list \<Rightarrow> message list" where
  "build_summary_messages rt event_strings =
     [plain_message RoleSystem [TextContent (system_template rt) False],
      plain_message RoleUser [TextContent (events_template rt event_strings) False]]"

text \<open>Without a directory to save to, truncation leaves the disk alone.\<close>

definition truncated_event_str :: "runtime \<Rightarrow> int option \<Rightarrow> event \<Rightarrow> string" where
  "truncated_event_str rt max_len e =
     snd (maybe_truncate (disk rt) Map.empty (event_str e) max_len DEFAULT_TRUNCATE_NOTICE None ''output'')"

definition response_summary :: "llm_response \<Rightarrow> string option" where
  "response_summary r =
     (case msg_content (resp_message r) of TextContent t _ # _ \<Rightarrow> Some t | _ \<Rightarrow> None)"

text \<open>
  \<open>_generate_condensation\<close> and \<open>_agenerate_condensation\<close>, for the client method they call.
\<close>

definition generate_condensation ::
  "runtime \<Rightarrow> (nat \<Rightarrow> message list \<Rightarrow> llm_response result) \<Rightarrow> event list \<Rightarrow> nat \<Rightarrow> int option \<Rightarrow>
   nat \<Rightarrow> condensation result \<times> nat" where
  "generate_condensation rt call forgotten offset max_len n =
     (if forgotten = [] then (Inl AssertionError, n)
      else
        (let messages = build_summary_messages rt (map (truncated_event_str rt max_len) forgotten)
         in case call n messages of
              Inl e \<Rightarrow> (Inl NoCondensationAvailable, Suc n)
            | Inr r \<Rightarrow>
                (Inr \<lparr>event_id = fresh_id rt n, timestamp = now rt n, source = SourceEnvironment,
                      parent_id = None, forgotten_event_ids = ev_id ` set forgotten,
                      cond_summary = response_summary r, summary_offset = Some offset,
                      cond_llm_response_id = resp_id r\<rparr>, Suc n)))"

text \<open>The numbers of tail events each reason allows to keep.\<close>

definition suffix_events_to_keep ::
  "summarizing_condenser \<Rightarrow> view \<Rightarrow> llm option \<Rightarrow> reason set \<Rightarrow> int set result" where
  "suffix_events_to_keep c v agent_llm reasons =
     bind_result
       (if TOKENS \<in> reasons then
          (case (effective_max_tokens c agent_llm, agent_llm) of
             (Some mt, Some l) \<Rightarrow>
               bind_result (get_total_token_count (events v) l) (\<lambda>total_tokens.
                 bind_result (get_suffix_length_for_token_reduction
                     (drop (nat (keep_first c)) (events v)) l (total_tokens - mt div 2)
                     (take (nat (keep_first c)) (events v)))
                   (\<lambda>k. Inr {int k}))
           | _ \<Rightarrow> Inl AssertionError)
        else Inr {})
       (\<lambda>token_targets.
          Inr ((if REQUEST \<in> reasons then {int (length (events v)) div 2 - keep_first c - 1} else {}) \<union>
               (if EVENTS \<in> reasons then {max_size c div 2 - keep_first c - 1} else {}) \<union>
               token_targets))"

definition get_forgotten_events ::
  "summarizing_condenser \<Rightarrow> view \<Rightarrow> llm option \<Rightarrow> (event list \<times> int) result" where
  "get_forgotten_events c v agent_llm =
     bind_result (get_condensation_reasons c v agent_llm) (\<lambda>reasons.
     if reasons = {} then Inl AssertionError
     else
       bind_result (suffix_events_to_keep c v agent_llm reasons) (\<lambda>targets.
       (let events_from_tail = Min targets;
            naive_end = int (length (events v)) - events_from_tail;
            protected_prefix =
              (case leading_system_prompt_index (events v) of
                 Some system_idx \<Rightarrow> max (keep_first c) (int system_idx + 1)
               | None \<Rightarrow> keep_first c)
        in bind_result (manipulation_indices v) (\<lambda>indices.
           bind_result (find_next indices protected_prefix) (\<lambda>forgetting_start.
           bind_result (find_next indices naive_end) (\<lambda>forgetting_end.
             Inr (view_slice v forgetting_start forgetting_end, forgetting_start)))))))"

definition get_condensation_with ::
  "runtime \<Rightarrow> (nat \<Rightarrow> message list \<Rightarrow> llm_response result) \<Rightarrow> summarizing_condenser \<Rightarrow>
   view \<Rightarrow> llm option \<Rightarrow> nat \<Rightarrow> condensation result \<times> nat" where
  "get_condensation_with rt call c v agent_llm n =
     (case get_forgotten_events c v agent_llm of
        Inl e \<Rightarrow> (Inl (if e = ValueError then NoCondensationAvailable else e), n)
      | Inr (forgotten, offset) \<Rightarrow>
          if forgotten = [] then (Inl NoCondensationAvailable, n)
          else if of_nat (length forgotten) < float_scale (length (events v)) (minimum_progress c)
            then (Inl NoCondensationAvailable, n)
          else generate_condensation rt call forgotten (nat offset) None n)"

definition get_condensation ::
  "runtime \<Rightarrow> summarizing_condenser \<Rightarrow> view \<Rightarrow> llm option \<Rightarrow> nat \<Rightarrow> condensation result \<times> nat" where
  "get_condensation rt c = get_condensation_with rt (generate (sc_llm c)) c"

definition aget_condensation ::
  "runtime \<Rightarrow> summarizing_condenser \<Rightarrow> view \<Rightarrow> llm option \<Rightarrow> nat \<Rightarrow> condensation result \<times> nat" where
  "aget_condensation rt c = get_condensation_with rt (agenerate (sc_llm c)) c"

text \<open>The retry loop of the hard reset; the first argument is \<open>attempts_remaining\<close>.\<close>

definition next_limit :: "rat \<Rightarrow> event list \<Rightarrow> int option \<Rightarrow> int result" where
  "next_limit scaling evs max_len =
     bind_result
       (case max_len of
          Some m \<Rightarrow> Inr m
        | None \<Rightarrow> if evs = [] then Inl ValueError
                  else Inr (int (Max (set (map (\<lambda>e. length (event_str e)) evs)))))
       (\<lambda>m. Inr (int (int_scale (nat m) scaling)))"

fun reset_loop ::
  "nat \<Rightarrow> runtime \<Rightarrow> (nat \<Rightarrow> message list \<Rightarrow> llm_response result) \<Rightarrow> rat \<Rightarrow> event list \<Rightarrow> event list \<Rightarrow>
   nat \<Rightarrow> int option \<Rightarrow> nat \<Rightarrow> condensation option result \<times> nat" where
  "reset_loop 0 rt call scaling evs forgotten offset max_len n = (Inr None, n)"
| "reset_loop (Suc attempts) rt call scaling evs forgotten offset max_len n =
     (case generate_condensation rt call forgotten offset max_len n of
        (Inr c, n') \<Rightarrow> (Inr (Some c), n')
      | (Inl e, n') \<Rightarrow>
          (case next_limit scaling evs max_len of
             Inl e' \<Rightarrow> (Inl e', n')
           | Inr m \<Rightarrow> reset_loop attempts rt call scaling evs forgotten offset (Some m) n'))"

definition preserved_prefix :: "event list \<Rightarrow> nat" where
  "preserved_prefix evs =
     (case leading_system_prompt_index evs of Some system_idx \<Rightarrow> system_idx + 1 | None \<Rightarrow> 0)"

definition hard_context_reset_with ::
  "runtime \<Rightarrow> (nat \<Rightarrow> message list \<Rightarrow> llm_response result) \<Rightarrow> summarizing_condenser \<Rightarrow>
   view \<Rightarrow> llm option \<Rightarrow> nat \<Rightarrow> condensation option result \<times> nat" where
  "hard_context_reset_with rt call c v agent_llm n =
     (let preserve = preserved_prefix (events v)
      in reset_loop (nat (hard_context_reset_max_retries c)) rt call
           (hard_context_reset_context_scaling c) (events v) (drop preserve (events v)) preserve None n)"

definition hard_context_reset ::
  "runtime \<Rightarrow> summarizing_condenser \<Rightarrow> view \<Rightarrow> llm option \<Rightarrow> nat \<Rightarrow> condensation option result \<times> nat" where
  "hard_context_reset rt c = hard_context_reset_with rt (generate (sc_llm c)) c"

definition ahard_context_reset ::
  "runtime \<Rightarrow> summarizing_condenser \<Rightarrow> view \<Rightarrow> llm option \<Rightarrow> nat \<Rightarrow> condensation option result \<times> nat" where
  "ahard_context_reset rt c = hard_context_reset_with rt (agenerate (sc_llm c)) c"

definition summarizing_condense ::
  "runtime \<Rightarrow> summarizing_condenser \<Rightarrow> view \<Rightarrow> llm option \<Rightarrow> nat \<Rightarrow> condensed result \<times> nat" where
  "summarizing_condense rt c =
     rolling_condense (condensation_requirement c) (get_condensation rt c) (hard_context_reset rt c)"

definition summarizing_acondense ::
  "runtime \<Rightarrow> summarizing_condenser \<Rightarrow> view \<Rightarrow> llm option \<Rightarrow> nat \<Rightarrow> condensed result \<times> nat" where
  "summarizing_acondense rt c =
     rolling_condense (condensation_requirement c) (aget_condensation rt c) (ahard_context_reset rt c)"

section \<open>The pipeline and the identity\<close>

type_synonym condenser = "view \<Rightarrow> llm option \<Rightarrow> nat \<Rightarrow> condensed result \<times> nat"

definition no_op_condense :: condenser where
  "no_op_condense v agent_llm n = (Inr (CView v), n)"

fun pipeline_loop :: "condenser list \<Rightarrow> condensed \<Rightarrow> llm option \<Rightarrow> nat \<Rightarrow> condensed result \<times> nat" where
  "pipeline_loop [] result agent_llm n = (Inr result, n)"
| "pipeline_loop (cond # rest) result agent_llm n =
     (case result of
        CCondensation c \<Rightarrow> (Inr result, n)
      | CView v \<Rightarrow>
          (case cond v agent_llm n of
             (Inl e, n') \<Rightarrow> (Inl e, n')
           | (Inr result', n') \<Rightarrow> pipeline_loop rest result' agent_llm n'))"

definition pipeline_condense :: "condenser list \<Rightarrow> condenser" where
  "pipeline_condense conds v agent_llm n = pipeline_loop conds (CView v) agent_llm n"

section \<open>Lemmas on the token search\<close>

lemma prefix_search_spec:
  assumes "prefix_search f c l r = Inr k" "l \<le> r" "\<exists>t. f r = Inr t \<and> c < t"
    and "l = 1 \<or> (\<exists>t. f (l - 1) = Inr t \<and> t \<le> c)"
  shows "l \<le> k \<and> k \<le> r \<and> (\<exists>t. f k = Inr t \<and> c < t) \<and>
         (k = 1 \<or> (\<exists>t. f (k - 1) = Inr t \<and> t \<le> c))"
  using assms
proof (induction f c l r rule: prefix_search.induct)
  case (1 f c l r)
  show ?case
  proof (cases "l < r")
    case False
    then have "k = l" using "1.prems"(1) by (simp add: prefix_search.simps [of f c l r])
    then show ?thesis using "1.prems" False by auto
  next
    case True
    let ?mid = "(l + r) div 2"
    have mid: "l \<le> ?mid" "?mid < r" using True by auto
    from "1.prems"(1) True obtain t where t: "f ?mid = Inr t"
      by (auto simp: prefix_search.simps [of f c l r] Let_def bind_result_Inr_iff)
    show ?thesis
    proof (cases "c < t")
      case lower: True
      then have "prefix_search f c l ?mid = Inr k"
        using "1.prems"(1) True t by (simp add: prefix_search.simps [of f c l r])
      then show ?thesis
        using "1.IH"(1) [OF True refl t lower] lower t mid "1.prems" by auto
    next
      case False
      then have "prefix_search f c (?mid + 1) r = Inr k"
        using "1.prems"(1) True t by (simp add: prefix_search.simps [of f c l r])
      then show ?thesis
        using "1.IH"(2) [OF True refl t False] False t mid "1.prems" by auto
    qed
  qed
qed

lemma prefix_search_total:
  assumes "\<forall>m. l \<le> m \<and> m < r \<longrightarrow> (\<exists>t. f m = Inr t)"
  shows "\<exists>k. prefix_search f c l r = Inr k"
  using assms
proof (induction f c l r rule: prefix_search.induct)
  case (1 f c l r)
  show ?case
  proof (cases "l < r")
    case False
    then show ?thesis by (simp add: prefix_search.simps [of f c l r])
  next
    case True
    let ?mid = "(l + r) div 2"
    have "l \<le> ?mid" "?mid < r" using True by auto
    then obtain t where t: "f ?mid = Inr t" using "1.prems" by blast
    have "\<exists>k. prefix_search f c l ?mid = Inr k" if "c < t"
      using "1.IH"(1) [OF True refl t that] \<open>?mid < r\<close> "1.prems" by auto
    moreover have "\<exists>k. prefix_search f c (?mid + 1) r = Inr k" if "\<not> c < t"
      using "1.IH"(2) [OF True refl t that] \<open>l \<le> ?mid\<close> "1.prems" by auto
    ultimately show ?thesis using True t by (auto simp: prefix_search.simps [of f c l r] Let_def)
  qed
qed

lemma prefix_token_count_eq:
  "get_total_token_count (base @ take n evs) l = Inr t \<Longrightarrow>
   prefix_token_count base evs l b n = Inr (t - b)"
  by (simp add: prefix_token_count_def)

section \<open>Lemmas on the forgotten range\<close>

lemma manipulation_indices_bounds:
  assumes "manipulation_indices v = Inr S"
  shows "finite S" "x \<in> S \<Longrightarrow> \<exists>k \<le> length (events v). x = int k"
proof -
  have sub: "S \<subseteq> {0..int (length (events v))}"
    using assms manipulation_indices_iff [of v] by auto
  then show "finite S" using finite_subset by blast
  show "x \<in> S \<Longrightarrow> \<exists>k \<le> length (events v). x = int k"
    using sub by (intro exI [of _ "nat x"]) auto
qed

lemma suffix_events_to_keep_finite:
  "suffix_events_to_keep c v a R = Inr T \<Longrightarrow> finite T"
  by (auto simp: suffix_events_to_keep_def bind_result_Inr_iff split: if_splits option.splits)

lemma suffix_events_to_keep_events:
  "suffix_events_to_keep c v a R = Inr T \<Longrightarrow> EVENTS \<in> R \<Longrightarrow> max_size c div 2 - keep_first c - 1 \<in> T"
  by (auto simp: suffix_events_to_keep_def bind_result_Inr_iff)

lemma reasons_events:
  "get_condensation_reasons c v a = Inr R \<Longrightarrow> EVENTS \<in> R \<longleftrightarrow> int (length (events v)) > max_size c"
  by (auto simp: get_condensation_reasons_def bind_result_Inr_iff split: option.splits if_splits)

text \<open>The forgotten events are a range between two manipulation indices past the protected prefix.\<close>

definition forgotten_range ::
  "summarizing_condenser \<Rightarrow> view \<Rightarrow> llm option \<Rightarrow> nat \<Rightarrow> nat \<Rightarrow> bool" where
  "forgotten_range c v a i j \<longleftrightarrow>
     (\<exists>S. manipulation_indices v = Inr S \<and> int i \<in> S \<and> int j \<in> S) \<and>
     keep_first c \<le> int i \<and> preserved_prefix (events v) \<le> i \<and>
     i \<le> length (events v) \<and> j \<le> length (events v) \<and>
     (int (length (events v)) > max_size c \<longrightarrow>
        int (length (events v) - j) \<le> max_size c div 2 - keep_first c - 1)"

lemma get_forgotten_events_range:
  assumes "get_forgotten_events c v a = Inr (fs, offset)"
  shows "\<exists>i j. forgotten_range c v a i j \<and> offset = int i \<and> fs = take (j - i) (drop i (events v))"
proof -
  let ?n = "int (length (events v))"
  let ?p = "case leading_system_prompt_index (events v) of
      Some s \<Rightarrow> max (keep_first c) (int s + 1) | None \<Rightarrow> keep_first c"
  from assms obtain R T S e where
    R: "get_condensation_reasons c v a = Inr R" and
    T: "suffix_events_to_keep c v a R = Inr T" and
    S: "manipulation_indices v = Inr S" and
    start: "find_next S ?p = Inr offset" and
    "end": "find_next S (?n - Min T) = Inr e" and
    fs: "fs = view_slice v offset e"
    by (auto simp: get_forgotten_events_def bind_result_Inr_iff Let_def split: if_splits)
  note fin = manipulation_indices_bounds(1) [OF S]
  from find_next_spec [OF fin start] have i: "offset \<in> S" "?p \<le> offset" by auto
  from find_next_spec [OF fin "end"] have j: "e \<in> S" "?n - Min T \<le> e" by auto
  obtain i' where i': "offset = int i'" "i' \<le> length (events v)"
    using manipulation_indices_bounds(2) [OF S i(1)] by blast
  obtain j' where j': "e = int j'" "j' \<le> length (events v)"
    using manipulation_indices_bounds(2) [OF S j(1)] by blast
  have "Min T \<le> max_size c div 2 - keep_first c - 1" if "?n > max_size c"
    using that suffix_events_to_keep_events [OF T] reasons_events [OF R]
      suffix_events_to_keep_finite [OF T] Min_le by blast
  moreover have "preserved_prefix (events v) \<le> i'" "keep_first c \<le> int i'"
    using i(2) i' by (auto simp: preserved_prefix_def split: option.splits)
  ultimately have "forgotten_range c v a i' j'"
    using S i j i' j' by (auto simp: forgotten_range_def)
  moreover have "fs = take (j' - i') (drop i' (events v))"
    using i' j' by (simp add: fs view_slice_def py_slice_in_range)
  ultimately show ?thesis using i' by blast
qed

lemma generate_condensation_Inr:
  assumes "generate_condensation rt call fs off max_len n = (Inr k, n')"
  shows "n' = Suc n" "fs \<noteq> []" "forgotten_event_ids k = ev_id ` set fs" "summary_offset k = Some off"
    "event_id k = fresh_id rt n"
  using assms by (auto simp: generate_condensation_def Let_def split: if_splits sum.splits)

lemma get_condensation_with_Inr:
  assumes "get_condensation_with rt call c v a n = (Inr k, n')"
  shows "\<exists>i j. forgotten_range c v a i j \<and> i < j \<and> n' = Suc n \<and>
      forgotten_event_ids k = ev_id ` set (take (j - i) (drop i (events v))) \<and>
      summary_offset k = Some i \<and> event_id k = fresh_id rt n \<and>
      float_scale (length (events v)) (minimum_progress c) \<le> of_nat (j - i)"
proof -
  from assms obtain fs offset where fs: "get_forgotten_events c v a = Inr (fs, offset)"
    and progress: "\<not> of_nat (length fs) < float_scale (length (events v)) (minimum_progress c)"
    and gen: "generate_condensation rt call fs (nat offset) None n = (Inr k, n')"
    by (auto simp: get_condensation_with_def split: sum.splits if_splits)
  obtain i j where r: "forgotten_range c v a i j" "offset = int i" "fs = take (j - i) (drop i (events v))"
    using get_forgotten_events_range [OF fs] by blast
  note g = generate_condensation_Inr [OF gen]
  have "i < j" using g(2) r(3) by (cases "i < j") auto
  moreover have "length fs = j - i" using r by (auto simp: forgotten_range_def min_def)
  ultimately show ?thesis using r g progress by (intro exI [of _ i] exI [of _ j]) (simp add: not_less)
qed

text \<open>Forgetting the identifiers of a range cuts the range out.\<close>

lemma filter_forgotten_range:
  assumes "distinct (map ev_id evs)" "i \<le> j"
  shows "filter (\<lambda>e. ev_id e \<notin> ev_id ` set (take (j - i) (drop i evs))) evs = cut_range i j evs"
proof -
  let ?a = "take i evs" and ?m = "take (j - i) (drop i evs)" and ?b = "drop j evs"
  have evs: "evs = ?a @ ?m @ ?b"
    using assms(2) by (metis append_take_drop_id drop_drop le_add_diff_inverse2)
  have "distinct (map ev_id (?a @ ?m @ ?b))" using assms(1) evs by metis
  then have "\<forall>x \<in> set ?a. ev_id x \<notin> ev_id ` set ?m" "\<forall>x \<in> set ?b. ev_id x \<notin> ev_id ` set ?m"
    by (auto simp: disjoint_iff)
  then have "filter (\<lambda>e. ev_id e \<notin> ev_id ` set ?m) (?a @ ?m @ ?b) = ?a @ ?b"
    by (simp add: filter_id_conv filter_empty_conv)
  then show ?thesis using evs by (simp add: cut_range_def)
qed

lemma leading_preserved:
  assumes "leading_system_prompt_index evs = Some s"
  shows "preserved_prefix evs = Suc s" "s < length evs" "is_system_prompt (evs ! s)"
  using assms first_index_Some_iff [of is_system_prompt evs s]
  by (simp_all add: preserved_prefix_def leading_system_prompt_index_def)

section \<open>Lemmas on the hard reset\<close>

text \<open>The limit on event strings in the \<open>k\<close>-th attempt.\<close>

fun reset_limit :: "rat \<Rightarrow> event list \<Rightarrow> int option \<Rightarrow> nat \<Rightarrow> int option" where
  "reset_limit scaling evs max_len 0 = max_len"
| "reset_limit scaling evs max_len (Suc k) =
     (case next_limit scaling evs max_len of
        Inl e \<Rightarrow> None
      | Inr m \<Rightarrow> reset_limit scaling evs (Some m) k)"

definition reset_attempt ::
  "runtime \<Rightarrow> (nat \<Rightarrow> message list \<Rightarrow> llm_response result) \<Rightarrow> rat \<Rightarrow> event list \<Rightarrow> event list \<Rightarrow>
   int option \<Rightarrow> nat \<Rightarrow> nat \<Rightarrow> llm_response result" where
  "reset_attempt rt call scaling evs forgotten max_len n k =
     call (n + k) (build_summary_messages rt
       (map (truncated_event_str rt (reset_limit scaling evs max_len k)) forgotten))"

lemma next_limit_total: "evs \<noteq> [] \<Longrightarrow> \<exists>m. next_limit scaling evs max_len = Inr m"
  by (auto simp: next_limit_def split: option.splits)

lemma reset_attempt_Suc:
  "next_limit scaling evs max_len = Inr m \<Longrightarrow>
   reset_attempt rt call scaling evs fs max_len n (Suc k) =
   reset_attempt rt call scaling evs fs (Some m) (Suc n) k"
  by (simp add: reset_attempt_def)

lemma generate_condensation_attempt:
  assumes "fs \<noteq> []"
  shows "(\<exists>e. reset_attempt rt call scaling evs fs max_len n 0 = Inl e) \<Longrightarrow>
      generate_condensation rt call fs off max_len n = (Inl NoCondensationAvailable, Suc n)"
    and "reset_attempt rt call scaling evs fs max_len n 0 = Inr r \<Longrightarrow>
      \<exists>c. generate_condensation rt call fs off max_len n = (Inr c, Suc n)"
  using assms by (auto simp: generate_condensation_def reset_attempt_def Let_def)

lemma reset_loop_fails:
  assumes "fs \<noteq> []" "evs \<noteq> []"
    and "\<forall>k < attempts. \<exists>e. reset_attempt rt call scaling evs fs max_len n k = Inl e"
  shows "reset_loop attempts rt call scaling evs fs off max_len n = (Inr None, n + attempts)"
  using assms
proof (induction attempts arbitrary: max_len n)
  case (Suc attempts)
  obtain m where m: "next_limit scaling evs max_len = Inr m" using next_limit_total Suc.prems by blast
  have "\<forall>k < attempts. \<exists>e. reset_attempt rt call scaling evs fs (Some m) (Suc n) k = Inl e"
    using Suc.prems(3) by (simp add: reset_attempt_Suc [OF m, symmetric])
  with Suc show ?case
    using generate_condensation_attempt(1) [of fs rt call scaling evs max_len n off] by (simp add: m)
qed simp

lemma reset_loop_succeeds:
  assumes "fs \<noteq> []" "evs \<noteq> []" "k < attempts"
    and "\<forall>j < k. \<exists>e. reset_attempt rt call scaling evs fs max_len n j = Inl e"
    and "reset_attempt rt call scaling evs fs max_len n k = Inr r"
  shows "\<exists>c. reset_loop attempts rt call scaling evs fs off max_len n = (Inr (Some c), n + k + 1) \<and>
           forgotten_event_ids c = ev_id ` set fs \<and> summary_offset c = Some off"
  using assms
proof (induction attempts arbitrary: max_len n k)
  case (Suc attempts)
  obtain m where m: "next_limit scaling evs max_len = Inr m" using next_limit_total Suc.prems by blast
  show ?case
  proof (cases k)
    case 0
    then obtain c where "generate_condensation rt call fs off max_len n = (Inr c, Suc n)"
      using generate_condensation_attempt(2) Suc.prems by blast
    with generate_condensation_Inr [OF this] 0 show ?thesis by simp
  next
    case (Suc k')
    have "\<forall>j < k'. \<exists>e. reset_attempt rt call scaling evs fs (Some m) (Suc n) j = Inl e"
      "reset_attempt rt call scaling evs fs (Some m) (Suc n) k' = Inr r"
      using Suc.prems Suc by (simp_all add: reset_attempt_Suc [OF m, symmetric])
    moreover have "\<exists>e. reset_attempt rt call scaling evs fs max_len n 0 = Inl e"
      using Suc.prems(4) Suc by simp
    ultimately show ?thesis
      using Suc.IH [of k' "Some m" "Suc n"] Suc.prems Suc
        generate_condensation_attempt(1) [of fs rt call scaling evs max_len n off] by (simp add: m)
  qed
qed simp

lemma reset_loop_result:
  assumes "reset_loop attempts rt call scaling evs fs off max_len n = (Inr (Some c), n')"
  shows "fs \<noteq> [] \<and> forgotten_event_ids c = ev_id ` set fs \<and> summary_offset c = Some off \<and> n < n'"
  using assms
proof (induction attempts arbitrary: max_len n)
  case (Suc attempts)
  from Suc.prems consider "generate_condensation rt call fs off max_len n = (Inr c, n')"
    | e n1 m where "generate_condensation rt call fs off max_len n = (Inl e, n1)"
        "reset_loop attempts rt call scaling evs fs off (Some m) n1 = (Inr (Some c), n')"
    by (auto split: prod.splits sum.splits)
  then show ?case
  proof cases
    case 1
    from generate_condensation_Inr [OF this] show ?thesis by simp
  next
    case 2
    moreover have "n \<le> n1"
      using 2(1) by (auto simp: generate_condensation_def Let_def split: if_splits sum.splits)
    ultimately show ?thesis using Suc.IH [OF 2(2)] by simp
  qed
qed simp

lemma reset_loop_calls:
  "reset_loop attempts rt call scaling evs fs off max_len n = (x, n') \<Longrightarrow> n \<le> n' \<and> n' \<le> n + attempts"
proof (induction attempts arbitrary: max_len n)
  case (Suc attempts)
  have gen: "snd (generate_condensation rt call fs off max_len n) \<in> {n, Suc n}"
    by (auto simp: generate_condensation_def Let_def split: sum.splits)
  show ?case
  proof (cases "fst (generate_condensation rt call fs off max_len n)")
    case (Inr c)
    then show ?thesis using Suc.prems gen by (auto split: prod.splits sum.splits)
  next
    case (Inl e)
    then show ?thesis
      using Suc.prems gen Suc.IH by (fastforce split: prod.splits sum.splits)
  qed
qed simp

section \<open>The contract of condensers\<close>

text \<open>
  What the agent relies on: a condenser that returns a view returns the one it was given; a
  condensation forgets some of the view's events, none of them in the prefix that ends with the
  first system prompt, and inserts its summary behind that prefix.
\<close>

definition respects_prefix :: "event list \<Rightarrow> condensation \<Rightarrow> bool" where
  "respects_prefix evs k \<longleftrightarrow>
     (\<exists>es. es \<noteq> [] \<and> subseq es (drop (preserved_prefix evs) evs) \<and>
           forgotten_event_ids k = ev_id ` set es) \<and>
     (\<exists>off. summary_offset k = Some off \<and> preserved_prefix evs \<le> off)"

locale condenser_contract =
  fixes condense :: condenser
  assumes view_unchanged: "condense v a n = (Inr (CView v'), n') \<Longrightarrow> v' = v"
    and prefix_respected: "condense v a n = (Inr (CCondensation k), n') \<Longrightarrow> respects_prefix (events v) k"
begin

lemma prefix_not_forgotten:
  assumes "condense v a n = (Inr (CCondensation k), n')" "distinct (map ev_id (events v))"
    and "x \<in> set (take (preserved_prefix (events v)) (events v))"
  shows "ev_id x \<notin> forgotten_event_ids k"
proof -
  let ?p = "preserved_prefix (events v)"
  obtain es where "subseq es (drop ?p (events v))" "forgotten_event_ids k = ev_id ` set es"
    using prefix_respected [OF assms(1)] by (auto simp: respects_prefix_def)
  then have "forgotten_event_ids k \<subseteq> ev_id ` set (drop ?p (events v))"
    by (auto elim: list_emb_set)
  moreover have "distinct (map ev_id (take ?p (events v) @ drop ?p (events v)))"
    using assms(2) by simp
  ultimately show ?thesis using assms(3) by (auto simp: disjoint_iff simp del: append_take_drop_id)
qed

text \<open>The view after the condensation keeps the prefix and is no longer than before.\<close>

lemma condensed_view:
  assumes k: "condense v a n = (Inr (CCondensation k), n')" and d: "distinct (map ev_id (events v))"
  shows "\<exists>v'. append_event v (Condensation k) = Inr v' \<and> \<not> unhandled_condensation_request v' \<and>
           take (preserved_prefix (events v)) (events v') = take (preserved_prefix (events v)) (events v) \<and>
           length (events v') \<le> length (events v)"
proof -
  let ?p = "preserved_prefix (events v)" and ?keep = "\<lambda>e. ev_id e \<notin> forgotten_event_ids k"
  let ?out = "filter ?keep (events v)"
  have p: "?p \<le> length (events v)"
    by (auto simp: preserved_prefix_def leading_system_prompt_index_def first_index_Some_iff split: option.splits)
  have "filter ?keep (take ?p (events v)) = take ?p (events v)"
    using prefix_not_forgotten [OF k d] by (simp add: filter_id_conv)
  then have out: "?out = take ?p (events v) @ filter ?keep (drop ?p (events v))"
    by (metis append_take_drop_id filter_append)
  obtain es where es: "es \<noteq> []" "subseq es (drop ?p (events v))" "forgotten_event_ids k = ev_id ` set es"
    using prefix_respected [OF k] by (auto simp: respects_prefix_def)
  have "hd es \<in> set (drop ?p (events v))"
    using es(1) list_emb_set [OF es(2), of "hd es"] by auto
  then have "hd es \<in> set (events v)" "ev_id (hd es) \<in> forgotten_event_ids k"
    using es(1,3) by (auto dest: in_set_dropD)
  then have short: "length ?out < length (events v)" by (auto intro: length_filter_less)
  obtain off where off: "summary_offset k = Some off" "?p \<le> off"
    using prefix_respected [OF k] by (auto simp: respects_prefix_def)
  have prefix: "take ?p ?out = take ?p (events v)" and long: "?p \<le> length ?out"
    using p by (simp_all add: out)
  have ins: "take ?p (py_insert off e ?out) = take ?p (events v)" for e
    using prefix long off(2) by (simp add: py_insert_def min_def)
  show ?thesis
  proof (cases "cond_summary k")
    case None
    then have "append_event v (Condensation k) =
        Inr (v\<lparr>events := ?out, unhandled_condensation_request := False\<rparr>)"
      by (simp add: append_event_def apply_condensation_total Let_def)
    then show ?thesis using prefix short by simp
  next
    case (Some s)
    then obtain e where "append_event v (Condensation k) =
        Inr (v\<lparr>events := py_insert off e ?out, unhandled_condensation_request := False\<rparr>)"
      by (simp add: append_event_def apply_condensation_total Let_def off(1))
    then show ?thesis using ins short by simp
  qed
qed

end

lemma rolling_condense_view:
  "rolling_condense req getc reset v a n = (Inr (CView v'), n') \<Longrightarrow> v' = v"
  by (auto simp: rolling_condense_def split: sum.splits option.splits prod.splits if_splits
      condensation_requirement_kind.splits)

lemma rolling_condense_condensation:
  assumes "rolling_condense req getc reset v a n = (Inr (CCondensation k), n')"
  shows "getc v a n = (Inr k, n') \<or> (\<exists>n1. reset v a n1 = (Inr (Some k), n'))"
  using assms
  by (auto simp: rolling_condense_def split: sum.splits option.splits prod.splits if_splits
      condensation_requirement_kind.splits)

lemma subseq_range_drop: "p \<le> i \<Longrightarrow> subseq (take m (drop i xs)) (drop p xs)"
proof -
  assume "p \<le> i"
  then have i: "drop i xs = drop (i - p) (drop p xs)" by simp
  have "subseq (take m (drop i xs)) (drop i xs)" by (simp add: sublist_imp_subseq sublist_take)
  moreover have "subseq (drop i xs) (drop p xs)" unfolding i by (rule sublist_imp_subseq [OF sublist_drop])
  ultimately show ?thesis by (rule subseq_order.trans)
qed

lemma get_condensation_with_prefix:
  assumes "get_condensation_with rt call c v a n = (Inr k, n')"
  shows "respects_prefix (events v) k"
proof -
  obtain i j where r: "forgotten_range c v a i j" "i < j" "summary_offset k = Some i"
    "forgotten_event_ids k = ev_id ` set (take (j - i) (drop i (events v)))"
    using get_condensation_with_Inr [OF assms] by blast
  then have "preserved_prefix (events v) \<le> i" "take (j - i) (drop i (events v)) \<noteq> []"
    by (auto simp: forgotten_range_def)
  with r show ?thesis unfolding respects_prefix_def using subseq_range_drop by blast
qed

lemma hard_context_reset_with_prefix:
  assumes "hard_context_reset_with rt call c v a n = (Inr (Some k), n')"
  shows "respects_prefix (events v) k"
  using reset_loop_result [OF assms [unfolded hard_context_reset_with_def Let_def]]
  unfolding respects_prefix_def by blast

lemma rolling_contract:
  assumes "\<And>v a n k n'. getc v a n = (Inr k, n') \<Longrightarrow> respects_prefix (events v) k"
    and "\<And>v a n k n'. reset v a n = (Inr (Some k), n') \<Longrightarrow> respects_prefix (events v) k"
  shows "condenser_contract (rolling_condense req getc reset)"
proof unfold_locales
  show "rolling_condense req getc reset v a n = (Inr (CView v'), n') \<Longrightarrow> v' = v" for v a n v' n'
    by (rule rolling_condense_view)
  show "rolling_condense req getc reset v a n = (Inr (CCondensation k), n') \<Longrightarrow>
      respects_prefix (events v) k" for v a n k n'
    using rolling_condense_condensation assms by blast
qed

interpretation sc: condenser_contract "summarizing_condense rt c"
  unfolding summarizing_condense_def get_condensation_def hard_context_reset_def
  by (rule rolling_contract) (fact get_condensation_with_prefix hard_context_reset_with_prefix)+

interpretation asc: condenser_contract "summarizing_acondense rt c"
  unfolding summarizing_acondense_def aget_condensation_def ahard_context_reset_def
  by (rule rolling_contract) (fact get_condensation_with_prefix hard_context_reset_with_prefix)+

interpretation noop: condenser_contract no_op_condense
  by unfold_locales (simp_all add: no_op_condense_def)

text \<open>A pipeline of condensers that keep the contract keeps it.\<close>

locale condenser_pipeline =
  fixes conds :: "condenser list"
  assumes members: "cond \<in> set conds \<Longrightarrow> condenser_contract cond"
begin

lemma pipeline_loop_result:
  assumes "set cs \<subseteq> set conds" "pipeline_loop cs (CView v) a n = (Inr r, n')"
  shows "r = CView v \<or> (\<exists>cond m m'. cond \<in> set conds \<and> cond v a m = (Inr r, m'))"
  using assms
proof (induction cs arbitrary: n)
  case (Cons cond cs)
  then have mem: "cond \<in> set conds" "condenser_contract cond" using members by auto
  from Cons.prems obtain r1 n1 where r1: "cond v a n = (Inr r1, n1)"
    "pipeline_loop cs r1 a n1 = (Inr r, n')"
    by (auto split: prod.splits sum.splits)
  show ?case
  proof (cases r1)
    case (CView v1)
    then have "v1 = v" using condenser_contract.view_unchanged [OF mem(2)] r1 by blast
    then show ?thesis using Cons.IH [of n1] Cons.prems r1 CView by simp
  next
    case (CCondensation k)
    then have "r = r1" using r1 by (cases cs) auto
    then show ?thesis using r1 mem by blast
  qed
qed simp

end

sublocale condenser_pipeline \<subseteq> condenser_contract "pipeline_condense conds"
proof unfold_locales
  fix v a n v' n'
  assume "pipeline_condense conds v a n = (Inr (CView v'), n')"
  then have "CView v' = CView v \<or>
      (\<exists>cond m m'. cond \<in> set conds \<and> cond v a m = (Inr (CView v'), m'))"
    unfolding pipeline_condense_def by (rule pipeline_loop_result [OF subset_refl])
  then show "v' = v" using members condenser_contract.view_unchanged by blast
next
  fix v a n k n'
  assume "pipeline_condense conds v a n = (Inr (CCondensation k), n')"
  then have "CCondensation k = CView v \<or>
      (\<exists>cond m m'. cond \<in> set conds \<and> cond v a m = (Inr (CCondensation k), m'))"
    unfolding pipeline_condense_def by (rule pipeline_loop_result [OF subset_refl])
  then show "respects_prefix (events v) k"
    using members condenser_contract.prefix_respected by blast
qed

lemma summarizing_pipeline_members:
  "cond \<in> set [no_op_condense, summarizing_condense rt c] \<Longrightarrow> condenser_contract cond"
  using noop.condenser_contract_axioms sc.condenser_contract_axioms by auto

interpretation pl: condenser_pipeline "[no_op_condense, summarizing_condense rt c]"
  by (rule condenser_pipeline.intro) (rule summarizing_pipeline_members)

section \<open>Samples\<close>

text \<open>
  A client that counts messages and always answers, and one whose every call fails; a view with a
  pending condensation request.
\<close>

definition sample_llm :: llm where
  "sample_llm =
     \<lparr>stream = False, requires_streaming = False, effective_max_input_tokens = None,
      get_token_count = (\<lambda>ms ts risk. int (length ms)),
      generate = (\<lambda>n ms. Inr \<lparr>resp_id = ''r'',
        resp_message = plain_message RoleAssistant [TextContent ''sum'' False]\<rparr>),
      agenerate = (\<lambda>n ms. Inl OtherException)\<rparr>"

definition sample_runtime :: runtime where
  "sample_runtime =
     \<lparr>fresh_id = (\<lambda>n. ''k''), now = (\<lambda>n. []), system_template = ''Summarize'', events_template = concat,
      disk = \<lparr>hash8 = (\<lambda>s. ''0badcafe''), path_join = (\<lambda>d f. d @ ''/'' @ f), write_ok = (\<lambda>_. True)\<rparr>\<rparr>"

definition sample_condenser :: "int \<Rightarrow> summarizing_condenser" where
  "sample_condenser kf =
     \<lparr>sc_llm = sample_llm, max_size = 240, max_tokens = None, keep_first = kf, minimum_progress = float_0_1,
      hard_context_reset_max_retries = 5, hard_context_reset_context_scaling = float_0_8\<rparr>"

definition sample_request :: view where
  "sample_request = \<lparr>events = sample_turns, unhandled_condensation_request = True\<rparr>"

definition sample_condensation :: condensation where
  "sample_condensation =
     \<lparr>event_id = ''k'', timestamp = [], source = SourceEnvironment, parent_id = None,
      forgotten_event_ids = {''u'', ''a1'', ''o1'', ''m''}, cond_summary = Some ''sum'',
      summary_offset = Some 1, cond_llm_response_id = ''r''\<rparr>"

text \<open>What the witnesses below rest on, evaluated in one go.\<close>

lemma sample_condense_computed:
  "get_condensation sample_runtime (sample_condenser 1) sample_request None 0 = (Inr sample_condensation, 1)"
  "summarizing_condense sample_runtime (sample_condenser 1) sample_request None 0 = (Inr (CCondensation sample_condensation), 1)"
  "summarizing_condense sample_runtime (sample_condenser 2) sample_request None 0 = (Inr (CCondensation sample_condensation), 1)"
  "preserved_prefix (events sample_request) = 1"
  "ev_id ` set (drop (preserved_prefix (events sample_request)) (events sample_request)) = {''u'', ''a1'', ''o1'', ''m''}"
  "\<forall>l \<in> set (tool_loops sample_turns). summary_id (fresh_id sample_runtime 0) \<notin> l"
  "\<forall>m \<le> length sample_turns. get_total_token_count ([] @ take m sample_turns) sample_llm = Inr (int m)"
  "get_total_token_count (events sample_request) sample_llm = Inr 5"
  unfolding atomize_conj by code_simp

lemmas sample_get_condensation = sample_condense_computed(1) and sample_condense = sample_condense_computed(2)

section \<open>Properties\<close>

text \<open>The binary search for a prefix above a token count always returns, with a length between
  1 and the number of events. If all events together stay within the count it returns their
  number; otherwise the prefix it returns exceeds the count and the one an event shorter does not,
  and if the count of prefixes grows with their length no shorter prefix exceeds it.\<close>

theorem shortest_prefix_found:
  assumes "evs \<noteq> []"
    and T: "\<forall>m \<le> length evs. get_total_token_count (base @ take m evs) l = Inr (T m)"
  shows "\<exists>k. get_shortest_prefix_above_token_count evs l c base = Inr k \<and> 1 \<le> k \<and> k \<le> length evs \<and>
    (let b = (if base = [] then 0 else T 0)
     in if T (length evs) - b \<le> c then k = length evs
        else c < T k - b \<and> (k = 1 \<or> T (k - 1) - b \<le> c) \<and>
             (mono_on {1..length evs} T \<longrightarrow> (\<forall>j. 1 \<le> j \<and> j < k \<longrightarrow> T j - b \<le> c)))"
proof -
  define b where "b = (if base = [] then 0 else T 0)"
  let ?f = "prefix_token_count base evs l b"
  have base: "base_token_count base l = Inr b"
    using T [rule_format, of 0] by (simp add: base_token_count_def b_def)
  have f: "?f m = Inr (T m - b)" if "m \<le> length evs" for m
    using T that by (simp add: prefix_token_count_eq)
  show ?thesis
  proof (cases "T (length evs) - b \<le> c")
    case True
    have "1 \<le> length evs" using assms(1) by (cases evs) auto
    then show ?thesis
      using True assms(1) by (simp add: get_shortest_prefix_above_token_count_def base f flip: b_def)
  next
    case False
    have one: "1 \<le> length evs" using assms(1) by (cases evs) auto
    obtain k where k: "prefix_search ?f c 1 (length evs) = Inr k"
      using prefix_search_total [of 1 "length evs" ?f c] f by (meson less_imp_le)
    have spec: "1 \<le> k \<and> k \<le> length evs \<and> (\<exists>t. ?f k = Inr t \<and> c < t) \<and>
        (k = 1 \<or> (\<exists>t. ?f (k - 1) = Inr t \<and> t \<le> c))"
      by (rule prefix_search_spec [OF k one]) (use False f [of "length evs"] in auto)
    then have "k - 1 \<le> length evs" by linarith
    with spec have above: "c < T k - b" and below: "k = 1 \<or> T (k - 1) - b \<le> c"
      using f [of k] f [of "k - 1"] by auto
    have "T j - b \<le> c" if "mono_on {1..length evs} T" "1 \<le> j" "j < k" for j
    proof -
      have "T j \<le> T (k - 1)"
        using that spec by (intro mono_onD [OF that(1)]) auto
      with below that show ?thesis by auto
    qed
    moreover have "get_shortest_prefix_above_token_count evs l c base = Inr k"
      using assms(1) False k by (simp add: get_shortest_prefix_above_token_count_def base f)
    ultimately show ?thesis using False spec above below by (auto simp flip: b_def)
  qed
qed

theorem shortest_prefix_found_witness:
  "\<exists>k. get_shortest_prefix_above_token_count sample_turns sample_llm 2 [] = Inr k \<and> k = 3"
proof -
  note T = sample_condense_computed(7)
  have ne: "sample_turns \<noteq> []" and len: "length sample_turns = 5"
    by (simp_all add: sample_turns_def)
  from shortest_prefix_found [OF ne T, of 2] obtain k
    where "get_shortest_prefix_above_token_count sample_turns sample_llm 2 [] = Inr k"
      "2 < int k" "k = 1 \<or> int (k - 1) \<le> 2"
    by (auto simp: len)
  then show ?thesis by auto
qed

text \<open>Condensation is required exactly when there is a reason: a request or too many tokens
  make it a hard requirement, too many events alone a soft one. The token limit is the smaller of
  the configured one and that of the agent's LLM, and is ignored without an LLM to count with.\<close>

theorem condensation_requirement_iff:
  assumes "\<forall>l. a = Some l \<longrightarrow> get_total_token_count (events v) l = Inr t"
  shows "condensation_requirement c v a = Inr (
    if unhandled_condensation_request v \<or>
       (a \<noteq> None \<and> ((\<exists>m. max_tokens c = Some m \<and> m < t) \<or>
          (\<exists>m. effective_max_input_tokens (the a) = Some m \<and> m < t)))
    then Some HARD_REQUIREMENT
    else if max_size c < int (length (events v)) then Some SOFT_REQUIREMENT else None)"
  using assms
  by (auto simp: condensation_requirement_def get_condensation_reasons_def effective_max_tokens_def
      List.map_filter_simps split: option.splits)

theorem condensation_requirement_iff_witness:
  "condensation_requirement (sample_condenser 1) sample_request (Some sample_llm) =
     Inr (Some HARD_REQUIREMENT)"
proof -
  have "\<forall>l. Some sample_llm = Some l \<longrightarrow> get_total_token_count (events sample_request) l = Inr 5"
    using sample_condense_computed(8) by simp
  from condensation_requirement_iff [OF this, of "sample_condenser 1"] show ?thesis
    by (simp add: sample_request_def)
qed

text \<open>C37: A condensation of the summarizing condenser, made with a single LLM call, forgets a
  non-empty range of events between two manipulation indices. The range starts behind the first
  \<open>keep_first\<close> events and behind the system prompt, holds at least the minimum progress, and the
  summary goes where it started. If the view exceeded \<open>max_size\<close>, the condensed view has at
  most half of \<open>max_size\<close> events, apart from those the start of the range was moved past.\<close>

theorem get_condensation_range:
  assumes "get_condensation rt c v a n = (Inr k, n') \<or> aget_condensation rt c v a n = (Inr k, n')"
  shows "\<exists>S i j. manipulation_indices v = Inr S \<and> int i \<in> S \<and> int j \<in> S \<and> i < j \<and> j \<le> length (events v) \<and>
     keep_first c \<le> int i \<and> preserved_prefix (events v) \<le> i \<and>
     forgotten_event_ids k = ev_id ` set (take (j - i) (drop i (events v))) \<and>
     summary_offset k = Some i \<and> n' = Suc n \<and>
     float_scale (length (events v)) (minimum_progress c) \<le> of_nat (j - i) \<and>
     (int (length (events v)) > max_size c \<longrightarrow>
        int (i + 1 + (length (events v) - j)) \<le> max_size c div 2 + (int i - keep_first c))"
proof -
  obtain i j where r: "forgotten_range c v a i j" "i < j" "n' = Suc n"
      "forgotten_event_ids k = ev_id ` set (take (j - i) (drop i (events v)))"
      "summary_offset k = Some i" "float_scale (length (events v)) (minimum_progress c) \<le> of_nat (j - i)"
    using assms unfolding get_condensation_def aget_condensation_def
    by (auto dest: get_condensation_with_Inr)
  from r(1) obtain S where "manipulation_indices v = Inr S" "int i \<in> S" "int j \<in> S"
    by (auto simp: forgotten_range_def)
  moreover have "int (i + 1 + (length (events v) - j)) \<le> max_size c div 2 + (int i - keep_first c)"
    if "int (length (events v)) > max_size c"
    using r(1) that by (auto simp: forgotten_range_def)
  ultimately show ?thesis
    using r by (intro exI [of _ S] exI [of _ i] exI [of _ j]) (simp add: forgotten_range_def)
qed

theorem get_condensation_range_witness:
  "\<exists>i j. i < j \<and> j \<le> length sample_turns \<and> 1 \<le> i \<and>
     forgotten_event_ids sample_condensation = ev_id ` set (take (j - i) (drop i sample_turns))"
  using get_condensation_range [OF disjI1 [OF sample_get_condensation]]
  by (auto simp: sample_request_def sample_condenser_def)

text \<open>
  Applying a condensation to the view it was made for: the range it forgets is cut out, and the
  summary stands where the range was. The lemmas behind the end-to-end property of the whole
  development.
\<close>

definition inserted_summary :: "condensation \<Rightarrow> string \<Rightarrow> event" where
  "inserted_summary k s = CondensationSummaryEvent
     \<lparr>event_id = summary_id (event_id k), timestamp = [], source = source k, parent_id = None, summary_text = s\<rparr>"

definition condensed :: "nat \<Rightarrow> nat \<Rightarrow> condensation \<Rightarrow> event list \<Rightarrow> event list" where
  "condensed i j k evs =
     take i evs @ (case cond_summary k of None \<Rightarrow> [] | Some s \<Rightarrow> [inserted_summary k s]) @ drop j evs"

lemma condensation_inserted:
  assumes k: "get_condensation rt c v a n = (Inr k, n') \<or> aget_condensation rt c v a n = (Inr k, n')"
    and d: "distinct (map ev_id (events v))"
  shows "\<exists>S i j. manipulation_indices v = Inr S \<and> int i \<in> S \<and> int j \<in> S \<and> i < j \<and> j \<le> length (events v) \<and>
     forgotten_event_ids k = ev_id ` set (take (j - i) (drop i (events v))) \<and> event_id k = fresh_id rt n \<and>
     filter (\<lambda>e. ev_id e \<notin> forgotten_event_ids k) (events v) = cut_range i j (events v) \<and>
     condensed i j k (events v) = (case cond_summary k of None \<Rightarrow> cut_range i j (events v)
        | Some s \<Rightarrow> py_insert i (inserted_summary k s) (cut_range i j (events v))) \<and>
     append_event v (Condensation k) =
       Inr (v\<lparr>events := condensed i j k (events v), unhandled_condensation_request := False\<rparr>)"
proof -
  obtain i j where r: "forgotten_range c v a i j" "i < j" "event_id k = fresh_id rt n"
      "forgotten_event_ids k = ev_id ` set (take (j - i) (drop i (events v)))" "summary_offset k = Some i"
    using k unfolding get_condensation_def aget_condensation_def
    by (auto dest: get_condensation_with_Inr)
  from r(1) obtain S where S: "manipulation_indices v = Inr S" "int i \<in> S" "int j \<in> S"
    and i: "i \<le> length (events v)" and j: "j \<le> length (events v)" by (auto simp: forgotten_range_def)
  have filt: "filter (\<lambda>e. ev_id e \<notin> forgotten_event_ids k) (events v) = cut_range i j (events v)"
    using filter_forgotten_range [OF d, of i j] r by simp
  have ins: "py_insert i x (cut_range i j (events v)) = take i (events v) @ x # drop j (events v)" for x
    using i by (simp add: py_insert_def cut_range_def)
  have evs: "condensed i j k (events v) = (case cond_summary k of None \<Rightarrow> cut_range i j (events v)
        | Some s \<Rightarrow> py_insert i (inserted_summary k s) (cut_range i j (events v)))"
    by (simp add: condensed_def ins split: option.splits) (simp add: cut_range_def)
  moreover have "append_event v (Condensation k) =
      Inr (v\<lparr>events := condensed i j k (events v), unhandled_condensation_request := False\<rparr>)"
    unfolding evs by (simp add: append_event_def apply_condensation_total filt r(5) Let_def inserted_summary_def split: option.splits)
  ultimately show ?thesis using S r j filt by blast
qed

lemma condensed_satisfied:
  assumes S: "manipulation_indices v = Inr S" "int i \<in> S" "int j \<in> S" "i < j"
    and evs: "condensed i j k (events v) = (case cond_summary k of None \<Rightarrow> cut_range i j (events v)
        | Some s \<Rightarrow> py_insert i (inserted_summary k s) (cut_range i j (events v)))"
    and shape: "view_shape (events v) all_events" and ok: "satisfies_all (events v) all_events"
    and fresh: "\<forall>l \<in> set (tool_loops all_events). summary_id (event_id k) \<notin> l"
  shows "satisfies_all (condensed i j k (events v)) all_events"
proof -
  have "manipulation_indices \<lparr>events = events v,
      unhandled_condensation_request = unhandled_condensation_request v\<rparr> = Inr S"
    using S(1) by (cases v) simp
  from satisfies_all_cut [OF shape ok this S(2,3)] have "satisfies_all (cut_range i j (events v)) all_events"
    using S(4) by simp
  then show ?thesis
    unfolding evs using fresh by (cases "cond_summary k") (simp_all add: satisfies_all_insert inserted_summary_def)
qed

text \<open>The hard context reset calls the summarizing LLM until an attempt succeeds, at most
  \<open>hard_context_reset_max_retries\<close> times. The first success gives a condensation that forgets
  every event behind the system prompt and inserts the summary right there; if every attempt fails
  the result is \<open>None\<close>, not an error.\<close>

theorem hard_context_reset_retries:
  assumes "drop (preserved_prefix (events v)) (events v) \<noteq> []"
  shows "let attempt = reset_attempt rt (generate (sc_llm c)) (hard_context_reset_context_scaling c)
                 (events v) (drop (preserved_prefix (events v)) (events v)) None n;
             retries = nat (hard_context_reset_max_retries c)
         in ((\<forall>k < retries. \<exists>e. attempt k = Inl e) \<longrightarrow>
               hard_context_reset rt c v a n = (Inr None, n + retries)) \<and>
            (\<forall>k r. k < retries \<and> (\<forall>j < k. \<exists>e. attempt j = Inl e) \<and> attempt k = Inr r \<longrightarrow>
               (\<exists>cond. hard_context_reset rt c v a n = (Inr (Some cond), n + k + 1) \<and>
                  forgotten_event_ids cond = ev_id ` set (drop (preserved_prefix (events v)) (events v)) \<and>
                  summary_offset cond = Some (preserved_prefix (events v))))"
proof -
  have "events v \<noteq> []" using assms by auto
  note fails = reset_loop_fails [OF assms this] and succeeds = reset_loop_succeeds [OF assms this]
  show ?thesis
    unfolding hard_context_reset_def hard_context_reset_with_def Let_def
  proof (intro conjI allI impI, goal_cases)
    case 1
    then show ?case by (rule fails)
  next
    case (2 k r)
    then show ?case by (elim conjE) (rule succeeds)
  qed
qed

text \<open>A client whose first call fails and whose second succeeds.\<close>

definition sample_flaky :: summarizing_condenser where
  "sample_flaky = (sample_condenser 1)\<lparr>sc_llm := sample_llm\<lparr>generate :=
     (\<lambda>n ms. if n = 0 then Inl OtherException else generate sample_llm n ms)\<rparr>\<rparr>"

theorem hard_context_reset_retries_witness:
  "\<exists>cond. hard_context_reset sample_runtime sample_flaky sample_request None 0 = (Inr (Some cond), 2) \<and>
     forgotten_event_ids cond = {''u'', ''a1'', ''o1'', ''m''}"
proof -
  have "drop (preserved_prefix (events sample_request)) (events sample_request) \<noteq> []"
    using sample_condense_computed(4) by (simp add: sample_request_def sample_turns_def)
  note H = hard_context_reset_retries [OF this, of sample_runtime sample_flaky 0 None, unfolded Let_def,
      THEN conjunct2, rule_format]
  have "\<exists>cond. hard_context_reset sample_runtime sample_flaky sample_request None 0 =
        (Inr (Some cond), 0 + 1 + 1) \<and>
      forgotten_event_ids cond = ev_id ` set (drop (preserved_prefix (events sample_request))
        (events sample_request)) \<and>
      summary_offset cond = Some (preserved_prefix (events sample_request))"
    by (rule H [where r = "\<lparr>resp_id = ''r'',
          resp_message = plain_message RoleAssistant [TextContent ''sum'' False]\<rparr>"])
      (simp add: reset_attempt_def sample_flaky_def sample_condenser_def sample_llm_def)
  moreover note sample_condense_computed(5)
  ultimately show ?thesis unfolding one_add_one add_0 by metis
qed

text \<open>C4: Whatever path a summarizing condenser takes, in its synchronous and its asynchronous form
  and behind a pipeline with the identity condenser, a view it returns is the view it was given,
  and the view after a condensation still begins with the same events up to and including the
  system prompt, is no longer than before, and has no condensation request pending.\<close>

theorem condense_keeps_system_prompt:
  assumes "distinct (map ev_id (events v))"
    and "cond \<in> {summarizing_condense rt c, summarizing_acondense rt c,
                 pipeline_condense [no_op_condense, summarizing_condense rt c]}"
    and "cond v a n = (Inr res, n')"
  shows "case res of
      CView v' \<Rightarrow> v' = v
    | CCondensation k \<Rightarrow>
        \<exists>v'. append_event v (Condensation k) = Inr v' \<and> \<not> unhandled_condensation_request v' \<and>
          take (preserved_prefix (events v)) (events v') = take (preserved_prefix (events v)) (events v) \<and>
          length (events v') \<le> length (events v)"
proof -
  have contract: "condenser_contract cond"
    using assms(2) sc.condenser_contract_axioms asc.condenser_contract_axioms
      pl.condenser_contract_axioms by blast
  show ?thesis
  proof (cases res)
    case (CView v')
    then show ?thesis using condenser_contract.view_unchanged [OF contract] assms(3) by simp
  next
    case (CCondensation k)
    then show ?thesis using condenser_contract.condensed_view [OF contract] assms(1,3) by simp
  qed
qed

theorem condense_keeps_system_prompt_witness:
  "\<exists>v'. append_event sample_request (Condensation sample_condensation) = Inr v' \<and>
     take 1 (events v') = [sample_system ''s''] \<and> length (events v') \<le> 5"
proof -
  have "distinct (map ev_id (events sample_request))"
    by (simp add: sample_request_def sample_turns_def sample_defs)
  moreover note sample_condense_computed(4)
  ultimately show ?thesis
    using condense_keeps_system_prompt [OF _ insertI1 sample_condense]
    by (auto simp: sample_request_def sample_turns_def)
qed

text \<open>Although the first \<open>keep_first\<close> events are documented never to be condensed, a hard
  reset forgets them: with \<open>keep_first = 2\<close>, condensing a short view on request forgets its
  second event.\<close>

theorem hard_reset_forgets_kept_event:
  "\<exists>k. summarizing_condense sample_runtime (sample_condenser 2) sample_request None 0 =
         (Inr (CCondensation k), 1) \<and>
       keep_first (sample_condenser 2) = 2 \<and>
       ev_id (events sample_request ! 1) \<in> forgotten_event_ids k"
  using sample_condense_computed(3)
  by (simp add: sample_condenser_def sample_request_def sample_turns_def sample_condensation_def sample_defs)

end
