(* ===== verification/Error_Classification.thy ===== *)
theory Error_Classification
  imports Events
begin

text \<open>
  \<open>classify_error\<close> of \<open>event/error_classification.py\<close>: the map from the code of a failure and
  the provider's text to the small vocabulary that crosses the API. Codes that are authoritative
  come first, then the text, then the generic wrapper codes. A test for several tokens is a list of
  them; \<open>casefold\<close> is that of the 256 characters strings hold here: it lowers the letters A to Z and the
  accented capitals, and makes the sharp s two letters; the micro sign, which becomes a character
  outside of them, is kept, as no token holds either.
\<close>

definition failure_of :: "failure_kind \<Rightarrow> bool \<Rightarrow> failure_action \<Rightarrow> error_classification" where
  "failure_of k r a = \<lparr>kind = k, retryable = r, user_action = a, error_id = None\<rparr>"

definition AGENT_OUTCOME :: error_classification where
  "AGENT_OUTCOME = \<lparr>kind = FK_AGENT_ACTION, retryable = True, user_action = FA_retry, error_id = None\<rparr>"

definition casefold_char :: "char \<Rightarrow> string" where
  "casefold_char c =
     (let n = of_char c :: nat
      in if 65 \<le> n \<and> n \<le> 90 \<or> 192 \<le> n \<and> n \<le> 222 \<and> n \<noteq> 215 then [char_of (n + 32)]
         else if n = 223 then ''ss''
         else [c])"

definition casefold :: "string \<Rightarrow> string" where
  "casefold s = concat (map casefold_char s)"

definition any_token :: "string list \<Rightarrow> string \<Rightarrow> bool" where
  "any_token tokens text = list_ex (\<lambda>t. sublist t text) tokens"

text \<open>The tests on the code, in order, with what they return.\<close>

definition authoritative_codes :: "(string list \<times> error_classification) list" where
  "authoritative_codes =
     [([''LLMAuthenticationError'', ''ACPAuthRequired''], failure_of FK_AUTH False FA_settings),
      ([''LLMRateLimitError''], failure_of FK_RATE_LIMIT True FA_retry),
      ([''MaxBudgetReached''], failure_of FK_QUOTA False FA_settings),
      ([''LLMBadRequestError'', ''ACPInitError'', ''ACPSpawnError'', ''ACPPromptError'', ''NotFoundError'',
        ''LibTmuxException''], failure_of FK_CONFIG False FA_settings),
      ([''LLMContextWindowExceedError'', ''LLMMalformedConversationHistoryError''],
        failure_of FK_AGENT_ACTION True FA_retry),
      ([''MaxIterationsReached'', ''ConversationOwnershipLostError''], failure_of FK_AGENT_ACTION False FA_none),
      ([''KeyError'', ''AssertionError'', ''PydanticSerializationError'', ''AttributeError'', ''TypeError''],
        failure_of FK_INTERNAL False FA_none)]"

text \<open>The tests on the text; \<open>status\<close> tokens hold a double quote.\<close>

definition detail_tokens :: "(string list \<times> error_classification) list" where
  "detail_tokens =
     [([''invalid api key'', ''incorrect api key'', ''authentication required'', ''invalid bearer token'',
        ''invalid proxy server token'', ''unauthorized'', ''error code: 401'', ''status'' @ [CHR 0x22] @ '': 401'',
        ''token_not_found'', ''api key is missing''], failure_of FK_AUTH False FA_settings),
      ([''weekly usage limit'', ''daily quota'', ''session usage limit'', ''insufficient balance'',
        ''more credits'', ''budget has been exceeded''], failure_of FK_QUOTA False FA_settings),
      ([''rate limit'', ''error code: 429'', ''status'' @ [CHR 0x22] @ '': 429''], failure_of FK_RATE_LIMIT True FA_retry),
      ([''provider not provided'', ''no models loaded'', ''does not support thinking'',
        ''model is no longer available'', ''model not found'', ''invalid params'', ''inactive_service'',
        ''powershell is not available''], failure_of FK_CONFIG False FA_settings),
      ([''timeout'', ''connection error'', ''connection closed'', ''service temporarily unavailable'',
        ''bad gateway'', ''cloudflare'', ''cannot connect'', ''name or service not known'', ''error code: 5''],
        failure_of FK_TRANSIENT True FA_retry),
      ([''on_token callback'', ''duplicate tool names'', ''list_tools'', ''on_tools_changed'',
        ''surrogates not allowed''], failure_of FK_INTERNAL False FA_none)]"

definition wrapper_codes :: "string list" where
  "wrapper_codes =
     [''LLMServiceUnavailableError'', ''LLMTimeoutError'', ''ReadTimeout'', ''LLMNoResponseError'',
      ''MCPTimeoutError'', ''BadGatewayError'', ''HTTPStatusError'', ''RequestError'', ''CloudflareError'',
      ''OpenAIError'', ''APIError'', ''BaseLLMException'', ''AnthropicError'', ''OpenRouterException'',
      ''OllamaError'']"

fun first_rule :: "(string list \<Rightarrow> bool) \<Rightarrow> (string list \<times> error_classification) list \<Rightarrow> error_classification option" where
  "first_rule test [] = None"
| "first_rule test ((tokens, c) # rules) = (if test tokens then Some c else first_rule test rules)"

definition classify_error :: "string \<Rightarrow> string \<Rightarrow> error_classification" where
  "classify_error code detail =
     (case first_rule (\<lambda>codes. code \<in> set codes) authoritative_codes of
        Some c \<Rightarrow> c
      | None \<Rightarrow>
          (case first_rule (\<lambda>tokens. any_token tokens (casefold detail)) detail_tokens of
             Some c \<Rightarrow> c
           | None \<Rightarrow>
               if code \<in> set wrapper_codes then failure_of FK_TRANSIENT True FA_retry
               else failure_of FK_UNKNOWN False FA_none))"

lemma first_rule_Some: "first_rule test rules = Some c \<Longrightarrow> \<exists>tokens. (tokens, c) \<in> set rules \<and> test tokens"
  by (induction rules) (auto split: if_splits)

lemma first_rule_None_iff: "first_rule test rules = None \<longleftrightarrow> (\<forall>(tokens, c) \<in> set rules. \<not> test tokens)"
  by (induction rules) (auto split: if_splits)

lemma casefold_char_fixed: "d \<in> set (casefold_char c) \<Longrightarrow> casefold_char d = [d]"
proof -
  assume d: "d \<in> set (casefold_char c)"
  define n where "n = (of_char c :: nat)"
  have small: "n < 256" by (simp add: n_def)
  consider (fold) "65 \<le> n \<and> n \<le> 90 \<or> 192 \<le> n \<and> n \<le> 222 \<and> n \<noteq> 215" | (sharp) "n = 223"
    | (other) "\<not> (65 \<le> n \<and> n \<le> 90 \<or> 192 \<le> n \<and> n \<le> 222 \<and> n \<noteq> 215)" "n \<noteq> 223" by blast
  then show ?thesis
  proof cases
    case fold
    then have "d = char_of (n + 32)" using d by (simp add: casefold_char_def Let_def n_def split: if_splits)
    moreover have "(of_char (char_of (n + 32) :: char) :: nat) = n + 32" using fold by auto
    ultimately show ?thesis using fold by (auto simp: casefold_char_def Let_def)
  next
    case sharp
    then have "d = CHR ''s''" using d by (simp add: casefold_char_def Let_def n_def)
    then show ?thesis by (simp add: casefold_char_def)
  next
    case other
    then have "d = c" using d by (auto simp: casefold_char_def Let_def n_def split: if_splits)
    then show ?thesis using other by (auto simp: casefold_char_def Let_def n_def)
  qed
qed

lemma concat_singletons: "\<forall>d \<in> set s. f d = [d] \<Longrightarrow> concat (map f s) = s"
  by (induction s) auto

lemma casefold_idem: "casefold (casefold s) = casefold s"
  unfolding casefold_def by (rule concat_singletons) (auto intro: casefold_char_fixed)

text \<open>Every classification a rule can give is consistent.\<close>

definition consistent :: "error_classification \<Rightarrow> bool" where
  "consistent c \<longleftrightarrow>
     (retryable c \<longleftrightarrow> user_action c = FA_retry) \<and>
     (user_action c = FA_settings \<longleftrightarrow> kind c \<in> {FK_AUTH, FK_QUOTA, FK_CONFIG}) \<and>
     (kind c \<in> {FK_RATE_LIMIT, FK_TRANSIENT} \<longrightarrow> retryable c) \<and>
     (kind c \<in> {FK_INTERNAL, FK_UNKNOWN} \<longrightarrow> \<not> retryable c) \<and> error_id c = None"

lemma rules_consistent: "(tokens, c) \<in> set (authoritative_codes @ detail_tokens) \<Longrightarrow> consistent c"
  by (auto simp: authoritative_codes_def detail_tokens_def consistent_def failure_of_def)

lemma classify_error_cases:
  obtains (rule) tokens where "(tokens, classify_error code detail) \<in> set (authoritative_codes @ detail_tokens)"
      "code \<in> set tokens \<and> tokens \<in> fst ` set authoritative_codes \<or>
       any_token tokens (casefold detail) \<and> tokens \<in> fst ` set detail_tokens"
  | (other) "\<forall>(codes, c) \<in> set authoritative_codes. code \<notin> set codes"
      "\<forall>(tokens, c) \<in> set detail_tokens. \<not> any_token tokens (casefold detail)"
      "classify_error code detail =
         (if code \<in> set wrapper_codes then failure_of FK_TRANSIENT True FA_retry else failure_of FK_UNKNOWN False FA_none)"
proof (cases "first_rule (\<lambda>codes. code \<in> set codes) authoritative_codes")
  case None
  show ?thesis
  proof (cases "first_rule (\<lambda>tokens. any_token tokens (casefold detail)) detail_tokens")
    case no_token: None
    show ?thesis
    proof (rule other)
      show "classify_error code detail =
         (if code \<in> set wrapper_codes then failure_of FK_TRANSIENT True FA_retry else failure_of FK_UNKNOWN False FA_none)"
        using None no_token by (simp add: classify_error_def)
    qed (use None no_token in \<open>simp_all add: first_rule_None_iff\<close>)
  next
    case (Some c)
    from first_rule_Some [OF this] obtain tokens where "(tokens, c) \<in> set detail_tokens" "any_token tokens (casefold detail)" by blast
    with None Some show ?thesis using rule [of tokens] by (force simp: classify_error_def)
  qed
next
  case (Some c)
  from first_rule_Some [OF this] obtain tokens where "(tokens, c) \<in> set authoritative_codes" "code \<in> set tokens" by blast
  with Some show ?thesis using rule [of tokens] by (force simp: classify_error_def)
qed

lemma any_token_concat: "any_token (concat tss) t \<longleftrightarrow> (\<exists>ts \<in> set tss. any_token ts t)"
  by (auto simp: any_token_def list_ex_iff)

lemma no_rule_unknown: "(tokens, c) \<in> set (authoritative_codes @ detail_tokens) \<Longrightarrow> kind c \<noteq> FK_UNKNOWN"
  by (auto simp: authoritative_codes_def detail_tokens_def failure_of_def)

section \<open>Properties\<close>

text \<open>C35: A classification tells one story: exactly the retryable failures ask for a retry, exactly
  authentication, quota and configuration failures send the user to the settings, and rate limits
  and transient failures are always retryable. It does not depend on the case of the provider's
  text, nor on the text at all when the code is authoritative, and it is unknown exactly when the
  code is neither authoritative nor a wrapper and no token occurs in the text.\<close>

theorem classify_error_consistent:
  "consistent (classify_error code detail) \<and>
   classify_error code (casefold detail) = classify_error code detail \<and>
   (code \<in> set (concat (map fst authoritative_codes)) \<longrightarrow> classify_error code detail = classify_error code other) \<and>
   (kind (classify_error code detail) = FK_UNKNOWN \<longleftrightarrow>
      code \<notin> set (concat (map fst authoritative_codes)) \<and> code \<notin> set wrapper_codes \<and>
      \<not> any_token (concat (map fst detail_tokens)) (casefold detail))"
proof (intro conjI)
  show "classify_error code (casefold detail) = classify_error code detail"
    by (simp only: classify_error_def casefold_idem)
  show "code \<in> set (concat (map fst authoritative_codes)) \<longrightarrow> classify_error code detail = classify_error code other"
    by (auto simp: classify_error_def first_rule_None_iff split: option.splits)
  have "consistent (classify_error code detail) \<and>
    (kind (classify_error code detail) = FK_UNKNOWN \<longleftrightarrow>
      code \<notin> set (concat (map fst authoritative_codes)) \<and> code \<notin> set wrapper_codes \<and>
      \<not> any_token (concat (map fst detail_tokens)) (casefold detail))"
  proof (cases rule: classify_error_cases [of code detail])
    case (rule tokens)
    then have "code \<in> set (concat (map fst authoritative_codes)) \<or> any_token (concat (map fst detail_tokens)) (casefold detail)"
      by (auto simp: any_token_concat)
    then show ?thesis using rules_consistent [OF rule(1)] no_rule_unknown [OF rule(1)] by blast
  next
    case other
    then show ?thesis
      by (auto simp: any_token_concat consistent_def failure_of_def)
  qed
  then show "consistent (classify_error code detail)"
    "kind (classify_error code detail) = FK_UNKNOWN \<longleftrightarrow>
      code \<notin> set (concat (map fst authoritative_codes)) \<and> code \<notin> set wrapper_codes \<and>
      \<not> any_token (concat (map fst detail_tokens)) (casefold detail)" by blast+
qed

theorem classify_error_consistent_witness:
  "classify_error ''KeyError'' ''Rate limit'' = classify_error ''KeyError'' [] \<and>
   classify_error ''APIError'' ''Rate Limit reached'' = failure_of FK_RATE_LIMIT True FA_retry"
proof -
  have "''KeyError'' \<in> set (concat (map fst authoritative_codes))"
    by (simp add: authoritative_codes_def)
  then have "classify_error ''KeyError'' ''Rate limit'' = classify_error ''KeyError'' []"
    using classify_error_consistent [of "''KeyError''" "''Rate limit''" "[]"] by blast
  moreover have "classify_error ''APIError'' ''Rate Limit reached'' = failure_of FK_RATE_LIMIT True FA_retry"
    by code_simp
  ultimately show ?thesis by blast
qed

end
