(* ===== verification/Fifo_Lock.thy ===== *)
theory Fifo_Lock
  imports Prelude
begin

text \<open>
  \<open>FIFOLock\<close> (\<open>conversation/fifo_lock.py\<close>): the reentrant lock with a queue of waiting
  threads. Every section under the internal mutex is one function on the lock's state, and threads
  interleave between sections (\<open>lock_step\<close>). A waiting thread is identified with the condition
  variable it waits on; \<open>notified\<close> holds the waiters that were signalled and have not yet run.
  Whether a timeout has run out when a section looks at the clock is an argument of the section.
\<close>

type_synonym tid = nat

record fifo_lock =
  owner :: "tid option"
  count :: nat
  waiters :: "tid list"
  notified :: "tid set"

datatype acquire_outcome = Acquired | GaveUp | Blocked

definition new_lock :: fifo_lock where
  "new_lock = \<lparr>owner = None, count = 0, waiters = [], notified = {}\<rparr>"

definition take_lock :: "tid \<Rightarrow> fifo_lock \<Rightarrow> fifo_lock" where
  "take_lock me L = L\<lparr>owner := Some me, count := 1\<rparr>"

text \<open>One round of the waiting loop: take the lock, give up, or wait again.\<close>

definition acquire_round :: "tid \<Rightarrow> bool \<Rightarrow> fifo_lock \<Rightarrow> acquire_outcome \<times> fifo_lock" where
  "acquire_round me expired L =
     (if waiters L \<noteq> [] \<and> hd (waiters L) = me \<and> owner L = None
      then (Acquired, take_lock me (L\<lparr>waiters := tl (waiters L), notified := notified L - {me}\<rparr>))
      else if expired then (GaveUp, L\<lparr>waiters := remove1 me (waiters L), notified := notified L - {me}\<rparr>)
      else (Blocked, L\<lparr>notified := notified L - {me}\<rparr>))"

text \<open>\<open>acquire\<close> up to its first wait; \<open>expired\<close> is False without a timeout.\<close>

definition acquire_enter :: "tid \<Rightarrow> bool \<Rightarrow> bool \<Rightarrow> fifo_lock \<Rightarrow> acquire_outcome \<times> fifo_lock" where
  "acquire_enter me blocking expired L =
     (if owner L = Some me then (Acquired, L\<lparr>count := count L + 1\<rparr>)
      else if owner L = None \<and> waiters L = [] then (Acquired, take_lock me L)
      else if \<not> blocking then (GaveUp, L)
      else acquire_round me expired (L\<lparr>waiters := waiters L @ [me]\<rparr>))"

definition notify_head :: "fifo_lock \<Rightarrow> fifo_lock" where
  "notify_head L = (if waiters L \<noteq> [] then L\<lparr>notified := insert (hd (waiters L)) (notified L)\<rparr> else L)"

definition release :: "tid \<Rightarrow> fifo_lock \<Rightarrow> fifo_lock result" where
  "release me L =
     (if owner L \<noteq> Some me then Inl RuntimeErr
      else if count L < 1 then Inl AssertionError
      else
        (let L' = L\<lparr>count := count L - 1\<rparr>
         in if count L' = 0 then Inr (notify_head (L'\<lparr>owner := None\<rparr>)) else Inr L'))"

definition release_all :: "tid \<Rightarrow> fifo_lock \<Rightarrow> (nat \<times> fifo_lock) result" where
  "release_all me L =
     (if owner L \<noteq> Some me then Inl RuntimeErr
      else Inr (count L, notify_head (L\<lparr>count := 0, owner := None\<rparr>)))"

text \<open>The last section of \<open>reacquire\<close>, after \<open>acquire\<close> has returned.\<close>

definition restore_depth :: "nat \<Rightarrow> fifo_lock \<Rightarrow> fifo_lock" where
  "restore_depth depth L = L\<lparr>count := depth\<rparr>"

definition locked :: "fifo_lock \<Rightarrow> bool" where
  "locked L \<longleftrightarrow> owner L \<noteq> None"

definition owned :: "tid \<Rightarrow> fifo_lock \<Rightarrow> bool" where
  "owned me L \<longleftrightarrow> owner L = Some me"

text \<open>
  The sections threads may run next. A thread in the queue is inside \<open>acquire\<close> and runs only when
  notified or when its timed wait ends; \<open>restore_depth\<close> follows the acquisition of the same
  thread, with the positive depth \<open>reacquire\<close> was given.
\<close>

inductive lock_step :: "fifo_lock \<Rightarrow> fifo_lock \<Rightarrow> bool" where
  lock_enter: "t \<notin> set (waiters L) \<Longrightarrow> acquire_enter t blocking expired L = (r, L') \<Longrightarrow> lock_step L L'"
| lock_wake: "t \<in> set (waiters L) \<Longrightarrow> t \<in> notified L \<or> timed \<Longrightarrow> acquire_round t expired L = (r, L') \<Longrightarrow> lock_step L L'"
| lock_release: "t \<notin> set (waiters L) \<Longrightarrow> release t L = Inr L' \<Longrightarrow> lock_step L L'"
| lock_release_all: "t \<notin> set (waiters L) \<Longrightarrow> release_all t L = Inr (d, L') \<Longrightarrow> lock_step L L'"
| lock_restore: "owner L = Some t \<Longrightarrow> 0 < depth \<Longrightarrow> lock_step L (restore_depth depth L)"

inductive_cases lock_stepE: "lock_step L L'"

text \<open>
  The invariant: the count is positive exactly while the lock is held, no thread waits twice or for
  a lock it holds, and a free lock with a queue has notified the head of the queue.
\<close>

definition lock_inv :: "fifo_lock \<Rightarrow> bool" where
  "lock_inv L \<longleftrightarrow>
     (owner L = None \<longleftrightarrow> count L = 0) \<and> distinct (waiters L) \<and>
     (\<forall>t. owner L = Some t \<longrightarrow> t \<notin> set (waiters L)) \<and> notified L \<subseteq> set (waiters L) \<and>
     (owner L = None \<and> waiters L \<noteq> [] \<longrightarrow> hd (waiters L) \<in> notified L)"

lemma lock_inv_new: "lock_inv new_lock"
  by (simp add: lock_inv_def new_lock_def)

lemma acquire_round_inv:
  assumes "lock_inv L" "t \<in> set (waiters L)" "acquire_round t expired L = (r, L')"
  shows "lock_inv L'"
proof (cases "hd (waiters L) = t \<and> owner L = None")
  case True
  then obtain ws where w: "waiters L = t # ws" using assms(2) by (cases "waiters L") auto
  then show ?thesis
    using assms True by (auto simp: acquire_round_def take_lock_def lock_inv_def)
next
  case False
  obtain w ws where w: "waiters L = w # ws" using assms(2) by (cases "waiters L") auto
  then have d: "distinct (w # ws)" and head: "owner L = None \<Longrightarrow> w \<noteq> t \<and> w \<in> notified L"
    using assms(1) False by (auto simp: lock_inv_def)
  have sets: "set (remove1 t (w # ws)) = set (w # ws) - {t}" "distinct (remove1 t (w # ws))"
    using d by (simp_all only: set_remove1_eq distinct_remove1)
  have "owner L = None \<Longrightarrow> hd (remove1 t (w # ws)) \<in> notified L - {t}" using head by simp
  moreover have "L' = (if expired then L\<lparr>waiters := remove1 t (w # ws), notified := notified L - {t}\<rparr>
      else L\<lparr>notified := notified L - {t}\<rparr>)"
    using assms(3) False w by (auto simp: acquire_round_def)
  ultimately show ?thesis
    using assms(1) w sets d head by (cases expired) (auto simp add: lock_inv_def simp del: remove1.simps)
qed

lemma acquire_enter_inv:
  assumes "lock_inv L" "t \<notin> set (waiters L)" "acquire_enter t blocking expired L = (r, L')"
  shows "lock_inv L'"
proof -
  consider (reenter) "owner L = Some t" | (free) "owner L \<noteq> Some t" "owner L = None" "waiters L = []"
    | (refuse) "owner L \<noteq> Some t" "\<not> (owner L = None \<and> waiters L = [])" "\<not> blocking"
    | (queue) "owner L \<noteq> Some t" "\<not> (owner L = None \<and> waiters L = [])" "blocking"
    by metis
  then show ?thesis
  proof cases
    case queue
    let ?L = "L\<lparr>waiters := waiters L @ [t]\<rparr>"
    have "lock_inv ?L" using assms(1,2) queue by (auto simp: lock_inv_def)
    moreover have "acquire_round t expired ?L = (r, L')"
      using assms(3) queue by (simp add: acquire_enter_def)
    ultimately show ?thesis using acquire_round_inv [of ?L t expired r L'] by simp
  qed (use assms in \<open>auto simp: acquire_enter_def take_lock_def lock_inv_def\<close>)
qed

lemma notify_head_inv:
  assumes "count L = 0" "owner L = None" "distinct (waiters L)" "notified L \<subseteq> set (waiters L)"
  shows "lock_inv (notify_head L)"
  using assms by (auto simp: notify_head_def lock_inv_def)

lemma release_inv: "lock_inv L \<Longrightarrow> release t L = Inr L' \<Longrightarrow> lock_inv L'"
proof -
  assume inv: "lock_inv L" and r: "release t L = Inr L'"
  show ?thesis
  proof (cases "count L = 1")
    case True
    then have "L' = notify_head (L\<lparr>count := 0, owner := None\<rparr>)"
      using r by (auto simp: release_def Let_def split: if_splits)
    then show ?thesis using inv notify_head_inv [of "L\<lparr>count := 0, owner := None\<rparr>"] by (simp add: lock_inv_def)
  next
    case False
    then show ?thesis using inv r by (auto simp: release_def Let_def lock_inv_def split: if_splits)
  qed
qed

lemma release_all_inv: "lock_inv L \<Longrightarrow> release_all t L = Inr (d, L') \<Longrightarrow> lock_inv L'"
  using notify_head_inv [of "L\<lparr>count := 0, owner := None\<rparr>"]
  by (auto simp: release_all_def lock_inv_def split: if_splits)

lemma lock_step_inv: "lock_step L L' \<Longrightarrow> lock_inv L \<Longrightarrow> lock_inv L'"
  by (induction rule: lock_step.induct)
     (blast intro: acquire_enter_inv acquire_round_inv release_inv release_all_inv,
      blast intro: acquire_enter_inv acquire_round_inv release_inv release_all_inv,
      blast intro: release_inv, blast intro: release_all_inv,
      auto simp: lock_inv_def restore_depth_def)

lemma lock_steps_inv: "lock_step\<^sup>*\<^sup>* L L' \<Longrightarrow> lock_inv L \<Longrightarrow> lock_inv L'"
  by (induction rule: rtranclp_induct) (auto intro: lock_step_inv)

text \<open>The threads ahead of one in the queue.\<close>

definition ahead :: "tid \<Rightarrow> fifo_lock \<Rightarrow> tid list" where
  "ahead t L = takeWhile (\<lambda>u. u \<noteq> t) (waiters L)"

lemma ahead_remove1: "u \<noteq> t \<Longrightarrow> subseq (takeWhile (\<lambda>x. x \<noteq> t) (remove1 u ws)) (takeWhile (\<lambda>x. x \<noteq> t) ws)"
  by (induction ws) auto

lemma acquire_round_ahead:
  assumes "u \<in> set (waiters L)" "acquire_round u expired L = (r, L')" "t \<in> set (waiters L)" "t \<in> set (waiters L')"
    and "distinct (waiters L)"
  shows "subseq (ahead t L') (ahead t L) \<and>
         (owner L' = owner L \<or> owner L = None \<and> owner L' = Some u \<and> u \<in> set (ahead t L))"
proof (cases "u = t")
  case True
  then have "L' = L\<lparr>notified := notified L - {u}\<rparr>"
    using assms by (cases "waiters L") (auto simp: acquire_round_def take_lock_def split: if_splits)
  then show ?thesis by (simp add: ahead_def)
next
  case False
  show ?thesis
  proof (cases "hd (waiters L) = u \<and> owner L = None")
    case True
    then obtain ws where w: "waiters L = u # ws" using assms(1) by (cases "waiters L") auto
    with True assms(2) False show ?thesis
      by (auto simp: acquire_round_def take_lock_def ahead_def)
  next
    case not_head: False
    then show ?thesis
      using assms(2) ahead_remove1 [OF False] by (auto simp: acquire_round_def ahead_def split: if_splits)
  qed
qed

lemma lock_step_ahead:
  assumes "lock_step L L'" "lock_inv L" "t \<in> set (waiters L)" "t \<in> set (waiters L')"
  shows "subseq (ahead t L') (ahead t L) \<and>
         (\<forall>u. owner L' = Some u \<longrightarrow> owner L = Some u \<or> u \<in> set (ahead t L))"
  using assms(1)
proof (cases rule: lock_step.cases)
  case (lock_enter u blocking expired r)
  show ?thesis
  proof (cases "owner L \<noteq> Some u \<and> blocking")
    case False
    then show ?thesis
      using lock_enter(2) assms(3) by (auto simp: acquire_enter_def ahead_def split: if_splits)
  next
    case True
    let ?L = "L\<lparr>waiters := waiters L @ [u]\<rparr>"
    have "waiters L \<noteq> []" using assms(3) by auto
    then have "acquire_round u expired ?L = (r, L')"
      using True lock_enter(2) by (auto simp: acquire_enter_def)
    moreover have "u \<noteq> t" "distinct (waiters ?L)" using lock_enter(1) assms(2,3) by (auto simp: lock_inv_def)
    moreover have "ahead t ?L = ahead t L" using assms(3) by (simp add: ahead_def takeWhile_append1)
    ultimately show ?thesis
      using acquire_round_ahead [of u ?L expired r L' t] assms(3,4) by auto
  qed
next
  case (lock_wake u timed expired r)
  then show ?thesis
    using acquire_round_ahead [of u L expired r L' t] assms(2-4) by (auto simp: lock_inv_def)
qed (auto simp: release_def release_all_def restore_depth_def notify_head_def ahead_def Let_def split: if_splits)

section \<open>Properties\<close>

text \<open>C9: In every state threads can bring a new lock to, the lock is held exactly while its count
  is positive, no thread waits twice or for a lock it holds, and there is no lost wake-up: when the
  lock is free and threads wait, the first of them has been notified, and its next round takes the
  lock even if its timeout has just run out.\<close>

theorem fifo_lock_invariant:
  assumes "lock_step\<^sup>*\<^sup>* new_lock L"
  shows "(owner L = None \<longleftrightarrow> count L = 0) \<and> distinct (waiters L) \<and>
     (\<forall>t. owner L = Some t \<longrightarrow> t \<notin> set (waiters L)) \<and>
     (owner L = None \<and> waiters L \<noteq> [] \<longrightarrow>
        hd (waiters L) \<in> notified L \<and>
        (\<forall>expired. \<exists>L'. acquire_round (hd (waiters L)) expired L = (Acquired, L') \<and>
           owner L' = Some (hd (waiters L)) \<and> waiters L' = tl (waiters L)))"
  using lock_steps_inv [OF assms lock_inv_new]
  by (auto simp: lock_inv_def acquire_round_def take_lock_def)

definition sample_contended :: fifo_lock where
  "sample_contended = \<lparr>owner = None, count = 0, waiters = [2], notified = {2}\<rparr>"

lemma sample_contended_reachable: "lock_step\<^sup>*\<^sup>* new_lock sample_contended"
proof -
  let ?L1 = "\<lparr>owner = Some 1, count = 1, waiters = [], notified = {}\<rparr> :: fifo_lock"
  let ?L2 = "?L1\<lparr>waiters := [2]\<rparr>"
  have "lock_step new_lock ?L1"
    by (rule lock_enter [of 1 _ True False Acquired]) (simp_all add: new_lock_def acquire_enter_def take_lock_def)
  moreover have "lock_step ?L1 ?L2"
    by (rule lock_enter [of 2 _ True False Blocked]) (simp_all add: acquire_enter_def acquire_round_def)
  moreover have "lock_step ?L2 sample_contended"
    by (rule lock_release [of 1]) (simp_all add: release_def notify_head_def sample_contended_def)
  ultimately show ?thesis by (meson converse_rtranclp_into_rtranclp rtranclp.rtrancl_refl)
qed

theorem fifo_lock_invariant_witness: "hd (waiters sample_contended) \<in> notified sample_contended"
  using fifo_lock_invariant [OF sample_contended_reachable] by (simp add: sample_contended_def)

text \<open>C10: Threads get the lock in the order they asked for it: as long as a thread waits, the
  threads ahead of it only ever become fewer, and whoever comes to hold the lock is the old holder
  or was ahead of it; nobody overtakes.\<close>

theorem fifo_lock_no_overtaking:
  assumes "lock_inv L" "t \<in> set (waiters L)"
    and "(\<lambda>a b. lock_step a b \<and> t \<in> set (waiters b))\<^sup>*\<^sup>* L L'"
  shows "subseq (ahead t L') (ahead t L) \<and>
         (\<forall>u. owner L' = Some u \<longrightarrow> owner L = Some u \<or> u \<in> set (ahead t L))"
proof -
  from assms(3) have "lock_inv L' \<and> t \<in> set (waiters L') \<and> subseq (ahead t L') (ahead t L) \<and>
      (\<forall>u. owner L' = Some u \<longrightarrow> owner L = Some u \<or> u \<in> set (ahead t L))"
  proof (induction rule: rtranclp_induct)
    case base
    then show ?case using assms(1,2) by simp
  next
    case (step M M')
    note s = lock_step_ahead [of M M' t] lock_step_inv [of M M']
    then have "subseq (ahead t M') (ahead t L)" using step by (auto intro: subseq_order.trans)
    then show ?case using step s by (auto elim: list_emb_set)
  qed
  then show ?thesis by blast
qed

theorem fifo_lock_no_overtaking_witness:
  "\<exists>L'. owner L' = Some 2 \<and> subseq (ahead 3 L') [2]"
proof -
  let ?L = "\<lparr>owner = None, count = 0, waiters = [2, 3], notified = {2}\<rparr> :: fifo_lock"
  let ?L' = "\<lparr>owner = Some 2, count = 1, waiters = [3], notified = {}\<rparr> :: fifo_lock"
  have "lock_step ?L ?L'"
    by (rule lock_wake [of 2 _ False False Acquired]) (simp_all add: acquire_round_def take_lock_def)
  then have "(\<lambda>a b. lock_step a b \<and> 3 \<in> set (waiters b))\<^sup>*\<^sup>* ?L ?L'" by (simp add: r_into_rtranclp)
  from fifo_lock_no_overtaking [OF _ _ this] show ?thesis
    by (intro exI [of _ ?L']) (simp add: lock_inv_def ahead_def)
qed

text \<open>Releasing all levels of a lock nobody waits for and reacquiring it with the depth that
  was returned gives back exactly the state before; every other thread's release fails without
  effect.\<close>

theorem release_all_reacquire:
  assumes "lock_inv L" "owner L = Some t" "waiters L = []"
  shows "\<exists>L1 L2. release_all t L = Inr (count L, L1) \<and> owner L1 = None \<and>
     acquire_enter t True expired L1 = (Acquired, L2) \<and> restore_depth (count L) L2 = L \<and>
     (\<forall>u. u \<noteq> t \<longrightarrow> release u L = Inl RuntimeErr \<and> release_all u L = Inl RuntimeErr)"
  using assms
  by (simp add: release_all_def release_def notify_head_def acquire_enter_def take_lock_def
      restore_depth_def lock_inv_def)

theorem release_all_reacquire_witness:
  "\<exists>L1. release_all 1 \<lparr>owner = Some 1, count = 3, waiters = [], notified = {}\<rparr> = Inr (3, L1) \<and> owner L1 = None"
  using release_all_reacquire [of "\<lparr>owner = Some 1, count = 3, waiters = [], notified = {}\<rparr>" 1]
  by (auto simp: lock_inv_def)

end
