(* ===== verification/Resource_Locks.thy ===== *)
theory Resource_Locks
  imports Fifo_Lock "HOL-Library.Char_ord" "HOL-Library.List_Lexorder"
begin

text \<open>
  \<open>ResourceLockManager\<close> (\<open>conversation/resource_lock_manager.py\<close>): one FIFO lock per resource
  key, created on first use and dropped with its last user, and the \<open>lock\<close> context manager, which
  takes the locks of several keys in sorted order and gives them back in reverse.

  Locks are objects: a manager maps keys to addresses, and a thread inside \<open>acquire\<close> keeps the
  address it was given. Each section under the manager's mutex and each section of a FIFO lock is
  one step of one thread, and threads interleave between steps (\<open>manager_step\<close>). Whether a timeout
  has run out is the choice of the step, so the timeouts themselves only choose when that may happen.
\<close>

section \<open>The manager\<close>

definition DEFAULT_TIMEOUTS :: "(string \<times> nat) list" where
  "DEFAULT_TIMEOUTS = [(''file'', 30), (''terminal'', 300), (''browser'', 300), (''mcp'', 300), (''tool'', 60)]"

definition DEFAULT_TIMEOUT :: nat where
  "DEFAULT_TIMEOUT = 30"

text \<open>\<open>key.split(":", 1)[0]\<close>, which is the key itself without a colon.\<close>

definition get_timeout :: "(string \<times> nat) list \<Rightarrow> string \<Rightarrow> nat" where
  "get_timeout timeouts key =
     (case map_of timeouts (takeWhile (\<lambda>c. c \<noteq> CHR '':'') key) of Some t \<Rightarrow> t | None \<Rightarrow> DEFAULT_TIMEOUT)"

record lock_manager =
  heap :: "nat \<Rightarrow> fifo_lock"
  next_addr :: nat
  mlocks :: "string \<rightharpoonup> nat"
  refcounts :: "string \<rightharpoonup> int"

definition new_manager :: lock_manager where
  "new_manager = \<lparr>heap = (\<lambda>_. new_lock), next_addr = 0, mlocks = Map.empty, refcounts = Map.empty\<rparr>"

definition get_lock :: "string \<Rightarrow> lock_manager \<Rightarrow> nat \<times> lock_manager" where
  "get_lock key m =
     (let m1 = (case mlocks m key of
                  Some _ \<Rightarrow> m
                | None \<Rightarrow> m\<lparr>heap := (heap m)(next_addr m := new_lock), next_addr := next_addr m + 1,
                            mlocks := (mlocks m)(key \<mapsto> next_addr m)\<rparr>);
          n = (case refcounts m1 key of Some n \<Rightarrow> n | None \<Rightarrow> 0);
          m2 = m1\<lparr>refcounts := (refcounts m1)(key \<mapsto> n + 1)\<rparr>
      in (the (mlocks m2 key), m2))"

text \<open>The last part of \<open>_release_lock\<close>, and what \<open>lock\<close> does after a timeout.\<close>

definition drop_ref :: "string \<Rightarrow> nat \<Rightarrow> lock_manager \<Rightarrow> lock_manager result" where
  "drop_ref key a m =
     (case refcounts m key of
        None \<Rightarrow> Inl KeyError
      | Some n \<Rightarrow>
          if n - 1 = 0 \<and> \<not> locked (heap m a)
          then Inr (m\<lparr>mlocks := (mlocks m)(key := None), refcounts := (refcounts m)(key := None)\<rparr>)
          else Inr (m\<lparr>refcounts := (refcounts m)(key \<mapsto> n - 1)\<rparr>))"

definition release_lock :: "tid \<Rightarrow> string \<Rightarrow> lock_manager \<Rightarrow> lock_manager result" where
  "release_lock me key m =
     (case mlocks m key of
        None \<Rightarrow> Inr m
      | Some a \<Rightarrow>
          bind_result (release me (heap m a)) (\<lambda>L'. drop_ref key a (m\<lparr>heap := (heap m)(a := L')\<rparr>)))"

definition undo_ref :: "string \<Rightarrow> lock_manager \<Rightarrow> lock_manager result" where
  "undo_ref key m =
     (case mlocks m key of None \<Rightarrow> Inl KeyError | Some a \<Rightarrow> drop_ref key a m)"

section \<open>Threads\<close>

text \<open>
  Where a thread is in \<open>lock\<close>: before it, about to get the next lock, in \<open>acquire\<close> before and after it
  queued, after a timeout, in the body, in the \<open>finally\<close> loop, or stopped by an exception of the
  manager. Keys still to take stand in order, acquired ones latest first.
\<close>

datatype phase =
    Idle
  | Want "string list" "string list"
  | Entering string nat "string list" "string list"
  | Waiting string nat "string list" "string list"
  | TimedOut string "string list"
  | Body "string list"
  | Unwind "string list"
  | Crashed py_error

fun after_acquire :: "acquire_outcome \<Rightarrow> string \<Rightarrow> nat \<Rightarrow> string list \<Rightarrow> string list \<Rightarrow> phase" where
  "after_acquire Acquired key a ks acq = Want ks (key # acq)"
| "after_acquire GaveUp key a ks acq = TimedOut key acq"
| "after_acquire Blocked key a ks acq = Waiting key a ks acq"

definition sorted_keys :: "string list \<Rightarrow> string list" where
  "sorted_keys resource_keys = sorted_list_of_set (set resource_keys)"

definition set_lock :: "nat \<Rightarrow> fifo_lock \<Rightarrow> lock_manager \<Rightarrow> lock_manager" where
  "set_lock a L m = m\<lparr>heap := (heap m)(a := L)\<rparr>"

inductive manager_step :: "lock_manager \<times> (tid \<Rightarrow> phase) \<Rightarrow> lock_manager \<times> (tid \<Rightarrow> phase) \<Rightarrow> bool" where
  step_start: "ph t = Idle \<Longrightarrow> manager_step (m, ph) (m, ph(t := Want (sorted_keys keys) []))"
| step_get: "ph t = Want (k # ks) acq \<Longrightarrow> get_lock k m = (a, m') \<Longrightarrow>
    manager_step (m, ph) (m', ph(t := Entering k a ks acq))"
| step_enter: "ph t = Entering k a ks acq \<Longrightarrow> acquire_enter t True expired (heap m a) = (r, L') \<Longrightarrow>
    manager_step (m, ph) (set_lock a L' m, ph(t := after_acquire r k a ks acq))"
| step_round: "ph t = Waiting k a ks acq \<Longrightarrow> acquire_round t expired (heap m a) = (r, L') \<Longrightarrow>
    manager_step (m, ph) (set_lock a L' m, ph(t := after_acquire r k a ks acq))"
| step_undo: "ph t = TimedOut k acq \<Longrightarrow> undo_ref k m = Inr m' \<Longrightarrow> manager_step (m, ph) (m', ph(t := Unwind acq))"
| step_undo_error: "ph t = TimedOut k acq \<Longrightarrow> undo_ref k m = Inl e \<Longrightarrow> manager_step (m, ph) (m, ph(t := Crashed e))"
| step_body: "ph t = Want [] acq \<Longrightarrow> manager_step (m, ph) (m, ph(t := Body acq))"
| step_leave: "ph t = Body acq \<Longrightarrow> manager_step (m, ph) (m, ph(t := Unwind acq))"
| step_release: "ph t = Unwind (k # acq) \<Longrightarrow> release_lock t k m = Inr m' \<Longrightarrow> manager_step (m, ph) (m', ph(t := Unwind acq))"
| step_release_error: "ph t = Unwind (k # acq) \<Longrightarrow> release_lock t k m = Inl e \<Longrightarrow> manager_step (m, ph) (m, ph(t := Crashed e))"
| step_done: "ph t = Unwind [] \<Longrightarrow> manager_step (m, ph) (m, ph(t := Idle))"

section \<open>What the manager relies on\<close>

text \<open>
  The contract of a fair lock that is not reentered: a view of it with its holder and the set of
  threads in its queue, how the sections of \<open>acquire\<close> and \<open>release\<close> change them, and that a free
  lock can be taken by some thread of its queue.
\<close>

locale fair_mutex =
  fixes state :: "'l \<Rightarrow> tid option \<Rightarrow> tid set \<Rightarrow> bool"
    and create :: 'l
    and enter :: "tid \<Rightarrow> bool \<Rightarrow> 'l \<Rightarrow> acquire_outcome \<times> 'l"
    and round :: "tid \<Rightarrow> bool \<Rightarrow> 'l \<Rightarrow> acquire_outcome \<times> 'l"
    and give :: "tid \<Rightarrow> 'l \<Rightarrow> 'l result"
  assumes create_law: "state create None {}"
    and enter_law: "state L h W \<Longrightarrow> t \<notin> W \<Longrightarrow> h \<noteq> Some t \<Longrightarrow> enter t expired L = (r, L') \<Longrightarrow>
      (case r of Acquired \<Rightarrow> h = None \<and> state L' (Some t) W | GaveUp \<Rightarrow> state L' h W | Blocked \<Rightarrow> state L' h (insert t W))"
    and round_law: "state L h W \<Longrightarrow> t \<in> W \<Longrightarrow> round t expired L = (r, L') \<Longrightarrow>
      (case r of Acquired \<Rightarrow> h = None \<and> state L' (Some t) (W - {t}) | GaveUp \<Rightarrow> state L' h (W - {t}) | Blocked \<Rightarrow> state L' h W)"
    and give_law: "state L (Some t) W \<Longrightarrow> \<exists>L'. give t L = Inr L' \<and> state L' None W"
    and progress: "state L None W \<Longrightarrow> W \<noteq> {} \<Longrightarrow> \<exists>t \<in> W. \<exists>L'. round t False L = (Acquired, L')"
begin

text \<open>
  Threads that wait for one key each and hold only smaller ones are never all stuck: the lock of the
  largest key waited for is free.
\<close>

lemma ordered_progress:
  fixes wait :: "tid \<Rightarrow> 'k :: linorder"
  assumes T: "finite T" "T \<noteq> {}"
    and locks: "\<And>t. t \<in> T \<Longrightarrow> state (lck (wait t)) (holder (wait t)) {u \<in> T. wait u = wait t}"
    and held: "\<And>t u. t \<in> T \<Longrightarrow> holder (wait t) = Some u \<Longrightarrow> u \<in> T \<and> wait t < wait u"
  shows "\<exists>t \<in> T. \<exists>L'. round t False (lck (wait t)) = (Acquired, L')"
proof -
  obtain t where t: "t \<in> T" "wait t = Max (wait ` T)" using T Max_in [of "wait ` T"] by fastforce
  have "holder (wait t) = None"
  proof (rule ccontr)
    assume "holder (wait t) \<noteq> None"
    then obtain u where "u \<in> T" "wait t < wait u" using held [OF t(1)] by auto
    moreover have "wait u \<le> wait t" using t(2) T(1) \<open>u \<in> T\<close> by simp
    ultimately show False by simp
  qed
  then have "state (lck (wait t)) None {u \<in> T. wait u = wait t}" using locks [OF t(1)] by simp
  from progress [OF this] t(1) obtain u L' where "u \<in> T" "wait u = wait t" "round u False (lck (wait t)) = (Acquired, L')"
    by blast
  then show ?thesis by metis
qed

end

text \<open>FIFO locks satisfy it: the state is the lock's invariant at depth one.\<close>

definition mutex_state :: "fifo_lock \<Rightarrow> tid option \<Rightarrow> tid set \<Rightarrow> bool" where
  "mutex_state L h W \<longleftrightarrow> lock_inv L \<and> owner L = h \<and> set (waiters L) = W \<and> (h \<noteq> None \<longrightarrow> count L = 1)"

lemma mutex_round:
  assumes "mutex_state L h W" "t \<in> W" "acquire_round t expired L = (r, L')"
  shows "case r of Acquired \<Rightarrow> h = None \<and> mutex_state L' (Some t) (W - {t}) | GaveUp \<Rightarrow> mutex_state L' h (W - {t}) | Blocked \<Rightarrow> mutex_state L' h W"
proof -
  have inv': "lock_inv L'" using acquire_round_inv assms by (auto simp: mutex_state_def)
  have d: "distinct (waiters L)" using assms(1) by (simp add: mutex_state_def lock_inv_def)
  have tl: "set (tl (waiters L)) = W - {t}" if "waiters L \<noteq> []" "hd (waiters L) = t"
    using that d assms(1) by (cases "waiters L") (auto simp: mutex_state_def)
  show ?thesis
  proof (cases "waiters L \<noteq> [] \<and> hd (waiters L) = t \<and> owner L = None")
    case True
    then have "r = Acquired" "L' = take_lock t (L\<lparr>waiters := tl (waiters L), notified := notified L - {t}\<rparr>)"
      using assms(3) by (simp_all add: acquire_round_def)
    then show ?thesis using True tl assms(1) inv' by (simp add: mutex_state_def take_lock_def)
  next
    case False
    then have "(r, L') = (if expired then (GaveUp, L\<lparr>waiters := remove1 t (waiters L), notified := notified L - {t}\<rparr>)
        else (Blocked, L\<lparr>notified := notified L - {t}\<rparr>))"
      using assms(3) unfolding acquire_round_def if_not_P [OF False] by simp
    then show ?thesis using assms(1) inv' d by (auto simp: mutex_state_def split: if_splits)
  qed
qed

interpretation fl: fair_mutex mutex_state new_lock "\<lambda>t. acquire_enter t True" acquire_round release
proof unfold_locales
  show "mutex_state new_lock None {}" using lock_inv_new by (simp add: mutex_state_def new_lock_def)
next
  fix L h W t expired r L'
  assume a: "mutex_state L h W" "t \<notin> W" "h \<noteq> Some t" "acquire_enter t True expired L = (r, L')"
  show "case r of Acquired \<Rightarrow> h = None \<and> mutex_state L' (Some t) W | GaveUp \<Rightarrow> mutex_state L' h W | Blocked \<Rightarrow> mutex_state L' h (insert t W)"
  proof (cases "owner L = None \<and> waiters L = []")
    case True
    then show ?thesis using a by (auto simp: acquire_enter_def mutex_state_def lock_inv_def take_lock_def)
  next
    case False
    let ?L = "L\<lparr>waiters := waiters L @ [t]\<rparr>"
    have "lock_inv ?L" using a False by (auto simp: mutex_state_def lock_inv_def)
    then have "mutex_state ?L h (insert t W)" using a by (auto simp: mutex_state_def)
    moreover have "acquire_round t expired ?L = (r, L')" using a False by (auto simp: acquire_enter_def mutex_state_def)
    ultimately have *: "case r of Acquired \<Rightarrow> h = None \<and> mutex_state L' (Some t) (insert t W - {t})
        | GaveUp \<Rightarrow> mutex_state L' h (insert t W - {t}) | Blocked \<Rightarrow> mutex_state L' h (insert t W)"
      using mutex_round by blast
    moreover have "insert t W - {t} = W" using a(2) by simp
    ultimately show ?thesis by (cases r) simp_all
  qed
next
  fix L t W assume a: "mutex_state L (Some t) W"
  then have "release t L = Inr (notify_head (L\<lparr>count := 0, owner := None\<rparr>))"
    by (auto simp: mutex_state_def release_def Let_def)
  moreover from this have "lock_inv (notify_head (L\<lparr>count := 0, owner := None\<rparr>))"
    using release_inv a by (auto simp: mutex_state_def)
  ultimately show "\<exists>L'. release t L = Inr L' \<and> mutex_state L' None W"
    using a by (auto simp: mutex_state_def notify_head_def)
next
  fix L W assume a: "mutex_state L None W" "W \<noteq> {}"
  then have "hd (waiters L) \<in> W" "owner L = None" "waiters L \<noteq> []"
    by (cases "waiters L"; auto simp: mutex_state_def)+
  then show "\<exists>t \<in> W. \<exists>L'. acquire_round t False L = (Acquired, L')"
    by (intro bexI [of _ "hd (waiters L)"]) (simp_all add: acquire_round_def)
qed (rule mutex_round)

section \<open>The invariant\<close>

text \<open>What a thread has to do with a key: it holds it, refers to it, queues for it, or has its address.\<close>

fun held :: "phase \<Rightarrow> string list" where
  "held (Want ks acq) = acq"
| "held (Entering k a ks acq) = acq"
| "held (Waiting k a ks acq) = acq"
| "held (TimedOut k acq) = acq"
| "held (Body acq) = acq"
| "held (Unwind acq) = acq"
| "held _ = []"

fun target :: "phase \<Rightarrow> string option" where
  "target (Entering k a ks acq) = Some k"
| "target (Waiting k a ks acq) = Some k"
| "target (TimedOut k acq) = Some k"
| "target _ = None"

fun address :: "phase \<Rightarrow> (string \<times> nat) option" where
  "address (Entering k a ks acq) = Some (k, a)"
| "address (Waiting k a ks acq) = Some (k, a)"
| "address _ = None"

fun queued :: "phase \<Rightarrow> string \<Rightarrow> bool" where
  "queued (Waiting k a ks acq) key \<longleftrightarrow> k = key"
| "queued _ key = False"

definition refers :: "phase \<Rightarrow> string \<Rightarrow> bool" where
  "refers p key \<longleftrightarrow> target p = Some key \<or> key \<in> set (held p)"

text \<open>Keys are taken in order and once.\<close>

fun ordered :: "phase \<Rightarrow> bool" where
  "ordered (Want ks acq) \<longleftrightarrow> sorted_wrt (<) (rev acq @ ks)"
| "ordered (Entering k a ks acq) \<longleftrightarrow> sorted_wrt (<) (rev acq @ k # ks)"
| "ordered (Waiting k a ks acq) \<longleftrightarrow> sorted_wrt (<) (rev acq @ k # ks)"
| "ordered (TimedOut k acq) \<longleftrightarrow> sorted_wrt (<) (rev acq @ [k])"
| "ordered (Body acq) \<longleftrightarrow> sorted_wrt (<) (rev acq)"
| "ordered (Unwind acq) \<longleftrightarrow> sorted_wrt (<) (rev acq)"
| "ordered Idle \<longleftrightarrow> True"
| "ordered (Crashed e) \<longleftrightarrow> False"

definition users :: "(tid \<Rightarrow> phase) \<Rightarrow> string \<Rightarrow> tid set" where
  "users ph key = {t. refers (ph t) key}"

text \<open>
  A key: without an entry nobody refers to it; with one, the count is the number of threads that
  refer to it, all of them to the one lock, whose queue and holder are the threads that queue for the
  key and hold it.
\<close>

definition key_ok :: "lock_manager \<Rightarrow> (tid \<Rightarrow> phase) \<Rightarrow> string \<Rightarrow> bool" where
  "key_ok m ph key \<longleftrightarrow>
     (case mlocks m key of
        None \<Rightarrow> refcounts m key = None \<and> users ph key = {}
      | Some a \<Rightarrow>
          users ph key \<noteq> {} \<and> refcounts m key = Some (int (card (users ph key))) \<and> a < next_addr m \<and>
          (\<forall>t b. address (ph t) = Some (key, b) \<longrightarrow> b = a) \<and>
          (\<exists>h. mutex_state (heap m a) h {t. queued (ph t) key} \<and> (\<forall>t. h = Some t \<longleftrightarrow> key \<in> set (held (ph t)))))"

definition manager_inv :: "lock_manager \<Rightarrow> (tid \<Rightarrow> phase) \<Rightarrow> bool" where
  "manager_inv m ph \<longleftrightarrow>
     (\<forall>key. key_ok m ph key) \<and> inj_on (mlocks m) (dom (mlocks m)) \<and> finite {t. ph t \<noteq> Idle} \<and> (\<forall>t. ordered (ph t))"

text \<open>A step of one thread touches one key: the others keep their state.\<close>

definition agree :: "phase \<Rightarrow> phase \<Rightarrow> string \<Rightarrow> bool" where
  "agree p q key \<longleftrightarrow>
     (refers p key \<longleftrightarrow> refers q key) \<and> (key \<in> set (held p) \<longleftrightarrow> key \<in> set (held q)) \<and>
     (queued p key \<longleftrightarrow> queued q key) \<and> (\<forall>b. address q = Some (key, b) \<longrightarrow> address p = Some (key, b))"

lemma key_ok_frame:
  assumes ok: "key_ok m ph key" and ag: "agree (ph t) q key"
    and m': "mlocks m' key = mlocks m key" "refcounts m' key = refcounts m key" "next_addr m \<le> next_addr m'"
      "\<And>a. mlocks m key = Some a \<Longrightarrow> heap m' a = heap m a"
  shows "key_ok m' (ph(t := q)) key"
proof -
  let ?ph = "ph(t := q)"
  have same: "users ?ph key = users ph key" "{u. queued (?ph u) key} = {u. queued (ph u) key}"
    "\<And>u. key \<in> set (held (?ph u)) \<longleftrightarrow> key \<in> set (held (ph u))"
    and addr: "\<And>u b. address (?ph u) = Some (key, b) \<Longrightarrow> address (ph u) = Some (key, b)"
    using ag by (auto simp: users_def agree_def split: if_splits)
  show ?thesis
  proof (cases "mlocks m key")
    case None
    then show ?thesis using ok m'(1,2) same(1) by (simp add: key_ok_def)
  next
    case (Some a)
    have "\<forall>u b. address (ph u) = Some (key, b) \<longrightarrow> b = a" using ok Some by (simp add: key_ok_def)
    then have "\<forall>u b. address (?ph u) = Some (key, b) \<longrightarrow> b = a" using addr by blast
    then show ?thesis using ok Some m' same unfolding key_ok_def by simp
  qed
qed

lemma key_ok_address:
  "key_ok m ph key \<Longrightarrow> address (ph t) = Some (key, b) \<Longrightarrow> mlocks m key = Some b"
proof -
  assume ok: "key_ok m ph key" and a: "address (ph t) = Some (key, b)"
  have "refers (ph t) key" using a by (cases "ph t") (auto simp: refers_def)
  then show ?thesis using ok a by (auto simp: key_ok_def users_def split: option.splits)
qed

lemma key_ok_users:
  "key_ok m ph key \<Longrightarrow> refers (ph t) key \<Longrightarrow> \<exists>a. mlocks m key = Some a"
  by (auto simp: key_ok_def users_def split: option.splits)

lemma finite_users: "finite {t. ph t \<noteq> Idle} \<Longrightarrow> finite (users ph key)"
proof (rule finite_subset)
  show "users ph key \<subseteq> {t. ph t \<noteq> Idle}" by (auto simp: users_def refers_def)
qed

lemma manager_invI:
  assumes inv: "manager_inv m ph"
    and frame: "\<And>key. key \<noteq> k \<Longrightarrow> agree (ph t) q key \<and> mlocks m' key = mlocks m key \<and> refcounts m' key = refcounts m key \<and>
        (\<forall>a. mlocks m key = Some a \<longrightarrow> heap m' a = heap m a)"
    and next_addr: "next_addr m \<le> next_addr m'" and inj: "inj_on (mlocks m') (dom (mlocks m'))"
    and k: "key_ok m' (ph(t := q)) k" and q: "ordered q"
  shows "manager_inv m' (ph(t := q))"
proof -
  have "key_ok m' (ph(t := q)) key" for key
    using key_ok_frame [of m ph key t q m'] frame [of key] inv next_addr k by (cases "key = k") (auto simp: manager_inv_def)
  moreover have "{u. (ph(t := q)) u \<noteq> Idle} \<subseteq> insert t {u. ph u \<noteq> Idle}" by auto
  then have "finite {u. (ph(t := q)) u \<noteq> Idle}"
    by (rule finite_subset) (use inv in \<open>simp add: manager_inv_def\<close>)
  ultimately show ?thesis using inv inj q by (auto simp: manager_inv_def)
qed

text \<open>A step that changes no key at all.\<close>

lemma manager_inv_quiet:
  assumes "manager_inv m ph" "\<And>key. agree (ph t) q key" "ordered q"
  shows "manager_inv m (ph(t := q))"
proof (rule manager_invI [OF assms(1), where k = "[]"])
  show "key_ok m (ph(t := q)) []"
    using key_ok_frame [of m ph "[]" t q m] assms by (simp add: manager_inv_def)
qed (use assms in \<open>auto simp: manager_inv_def\<close>)

lemma set_lock_simps [simp]:
  "mlocks (set_lock a L m) = mlocks m" "refcounts (set_lock a L m) = refcounts m" "next_addr (set_lock a L m) = next_addr m"
  "heap (set_lock a L m) = (heap m)(a := L)" "set_lock a (heap m a) m = m"
  by (simp_all add: set_lock_def)

lemma manager_invD:
  assumes "manager_inv m ph"
  shows "key_ok m ph key" "inj_on (mlocks m) (dom (mlocks m))" "finite (users ph key)" "ordered (ph t)"
  using assms finite_users by (auto simp: manager_inv_def)

lemma other_address: "manager_inv m ph \<Longrightarrow> mlocks m k = Some a \<Longrightarrow> mlocks m key = Some b \<Longrightarrow> key \<noteq> k \<Longrightarrow> b \<noteq> a"
  using manager_invD(2) by (metis domI inj_onD)

text \<open>A section of the lock of \<open>k\<close> run by a thread that keeps its reference.\<close>

lemma section_inv:
  assumes inv: "manager_inv m ph" and a: "mlocks m k = Some a" "refers (ph t) k"
    and q: "refers q k" "\<And>key. key \<noteq> k \<Longrightarrow> agree (ph t) q key" "\<And>b. address q = Some (k, b) \<Longrightarrow> b = a" "ordered q"
    and lock: "mutex_state L' h {u. queued ((ph(t := q)) u) k}" "\<And>u. h = Some u \<longleftrightarrow> k \<in> set (held ((ph(t := q)) u))"
  shows "manager_inv (set_lock a L' m) (ph(t := q))"
proof (rule manager_invI [OF inv, where k = k])
  have users: "users (ph(t := q)) k = users ph k" using a(2) q(1) by (auto simp: users_def)
  have ok: "key_ok m ph k" by (rule manager_invD(1) [OF inv])
  then have "\<forall>u b. address ((ph(t := q)) u) = Some (k, b) \<longrightarrow> b = a"
    using a(1) q(3) by (simp add: key_ok_def)
  moreover have "\<exists>h. mutex_state (heap (set_lock a L' m) a) h {u. queued ((ph(t := q)) u) k} \<and>
      (\<forall>u. h = Some u \<longleftrightarrow> k \<in> set (held ((ph(t := q)) u)))"
    using lock by (intro exI [of _ h]) simp
  ultimately show "key_ok (set_lock a L' m) (ph(t := q)) k"
    using ok a(1) unfolding key_ok_def users by simp
next
  fix key assume "key \<noteq> k"
  then show "agree (ph t) q key \<and> mlocks (set_lock a L' m) key = mlocks m key \<and> refcounts (set_lock a L' m) key = refcounts m key \<and>
      (\<forall>b. mlocks m key = Some b \<longrightarrow> heap (set_lock a L' m) b = heap m b)"
    using q(2) other_address [OF inv a(1)] by auto
qed (use q manager_invD(2) [OF inv] in simp_all)

text \<open>A thread gives up its reference to \<open>k\<close>, possibly after a section of the lock.\<close>

lemma drop_inv:
  assumes inv: "manager_inv m ph" and a: "mlocks m k = Some a" "refers (ph t) k"
    and q: "\<not> refers q k" "\<And>key. key \<noteq> k \<Longrightarrow> agree (ph t) q key" "\<And>b. address q \<noteq> Some (k, b)" "ordered q"
    and lock: "mutex_state L' h {u. queued ((ph(t := q)) u) k}" "\<And>u. h = Some u \<longleftrightarrow> k \<in> set (held ((ph(t := q)) u))"
  shows "\<exists>m'. drop_ref k a (set_lock a L' m) = Inr m' \<and> manager_inv m' (ph(t := q))"
proof -
  let ?ph = "ph(t := q)" and ?m = "set_lock a L' m"
  have users: "users ?ph k = users ph k - {t}" using q(1) by (auto simp: users_def)
  have ok: "key_ok m ph k" by (rule manager_invD(1) [OF inv])
  have fin: "finite (users ph k)" and t: "t \<in> users ph k" using manager_invD(3) [OF inv] a(2) by (auto simp: users_def)
  have count: "refcounts m k = Some (int (card (users ph k)))" and bound: "a < next_addr m"
    and addr: "\<forall>u b. address (ph u) = Some (k, b) \<longrightarrow> b = a" using ok a(1) by (auto simp: key_ok_def)
  have card: "int (card (users ?ph k)) = int (card (users ph k)) - 1"
    unfolding users using card.remove [OF fin t] by simp
  have frame: "agree (ph t) q key \<and> (\<forall>b. mlocks m key = Some b \<longrightarrow> heap ?m b = heap m b)" if "key \<noteq> k" for key
    using q(2) that other_address [OF inv a(1)] by auto
  show ?thesis
  proof (cases "users ?ph k = {}")
    case True
    have "h = None"
    proof (rule ccontr)
      assume "h \<noteq> None"
      then obtain u where "h = Some u" by blast
      then have "u \<in> users ?ph k" using lock(2) by (simp add: users_def refers_def)
      then show False using True by simp
    qed
    then have "\<not> locked L'" using lock(1) by (simp add: mutex_state_def locked_def)
    moreover have "int (card (users ph k)) - 1 = 0" using card True by simp
    ultimately have "drop_ref k a ?m = Inr (?m\<lparr>mlocks := (mlocks m)(k := None), refcounts := (refcounts m)(k := None)\<rparr>)"
      using count by (simp add: drop_ref_def)
    moreover have "manager_inv (?m\<lparr>mlocks := (mlocks m)(k := None), refcounts := (refcounts m)(k := None)\<rparr>) ?ph"
    proof (rule manager_invI [OF inv, where k = k])
      show "key_ok (?m\<lparr>mlocks := (mlocks m)(k := None), refcounts := (refcounts m)(k := None)\<rparr>) ?ph k"
        using True by (simp add: key_ok_def)
      show "inj_on (mlocks (?m\<lparr>mlocks := (mlocks m)(k := None), refcounts := (refcounts m)(k := None)\<rparr>))
          (dom (mlocks (?m\<lparr>mlocks := (mlocks m)(k := None), refcounts := (refcounts m)(k := None)\<rparr>)))"
        using manager_invD(2) [OF inv] by (auto simp: inj_on_def)
    qed (use frame q(4) in auto)
    ultimately show ?thesis by blast
  next
    case False
    then have "card (users ?ph k) \<noteq> 0" using fin users by (simp add: card_eq_0_iff)
    then have "int (card (users ph k)) - 1 \<noteq> 0" using card by simp
    then have "drop_ref k a ?m = Inr (?m\<lparr>refcounts := (refcounts m)(k \<mapsto> int (card (users ph k)) - 1)\<rparr>)"
      using count by (simp add: drop_ref_def)
    moreover have "manager_inv (?m\<lparr>refcounts := (refcounts m)(k \<mapsto> int (card (users ph k)) - 1)\<rparr>) ?ph"
    proof (rule manager_invI [OF inv, where k = k])
      have "\<forall>u b. address (?ph u) = Some (k, b) \<longrightarrow> b = a" using addr q(3) by simp
      moreover have "\<exists>h. mutex_state L' h {u. queued (?ph u) k} \<and> (\<forall>u. h = Some u \<longleftrightarrow> k \<in> set (held (?ph u)))"
        using lock by blast
      ultimately show "key_ok (?m\<lparr>refcounts := (refcounts m)(k \<mapsto> int (card (users ph k)) - 1)\<rparr>) ?ph k"
        using False card a(1) bound unfolding key_ok_def by simp
    qed (use frame q(4) manager_invD(2) [OF inv] in auto)
    ultimately show ?thesis by blast
  qed
qed

lemma get_inv:
  assumes inv: "manager_inv m ph" and t: "ph t = Want (k # ks) acq" and g: "get_lock k m = (a, m')"
  shows "manager_inv m' (ph(t := Entering k a ks acq))"
proof -
  let ?q = "Entering k a ks acq" let ?ph = "ph(t := ?q)"
  have ok: "key_ok m ph k" by (rule manager_invD(1) [OF inv])
  have "ordered (ph t)" by (rule manager_invD(4) [OF inv])
  then have ord: "ordered ?q" and fresh: "k \<notin> set acq" using t by (auto simp: sorted_wrt_append)
  then have new: "t \<notin> users ph k" using t by (simp add: users_def refers_def)
  have users: "users ?ph k = insert t (users ph k)" by (auto simp: users_def refers_def)
  have queued: "{u. queued (?ph u) k} = {u. queued (ph u) k}" using t by auto
  have held: "k \<in> set (held (?ph u)) \<longleftrightarrow> k \<in> set (held (ph u))" for u using t by simp
  have agree: "agree (ph t) ?q key" if "key \<noteq> k" for key using that t by (auto simp: agree_def refers_def)
  show ?thesis
  proof (cases "mlocks m k")
    case None
    then have empty: "refcounts m k = None" "users ph k = {}" using ok by (auto simp: key_ok_def)
    then have nobody: "\<not> refers (ph u) k" for u by (auto simp: users_def)
    have m': "m' = m\<lparr>heap := (heap m)(next_addr m := new_lock), next_addr := next_addr m + 1,
        mlocks := (mlocks m)(k \<mapsto> next_addr m), refcounts := (refcounts m)(k \<mapsto> 1)\<rparr>" and a: "a = next_addr m"
      using g None empty by (auto simp: get_lock_def Let_def)
    have below: "b < next_addr m" if "mlocks m key = Some b" for key b
      using manager_invD(1) [OF inv, of key] that by (simp add: key_ok_def)
    have "\<not> queued (ph u) k \<and> k \<notin> set (held (ph u)) \<and> (\<forall>b. address (ph u) \<noteq> Some (k, b))" for u
      using nobody [of u] by (cases "ph u") (auto simp: refers_def)
    then have "key_ok m' ?ph k"
      using fl.create_law users empty(2) fresh unfolding key_ok_def m' a
      by (auto intro!: exI [of _ "None :: tid option"])
    moreover have "inj_on (mlocks m') (dom (mlocks m'))"
      using manager_invD(2) [OF inv] below unfolding m' by (fastforce simp: inj_on_def dom_def split: if_splits)
    ultimately show ?thesis
      by (intro manager_invI [OF inv, where k = k]) (use agree ord below m' in \<open>auto split: if_splits\<close>)
  next
    case (Some b)
    then obtain h where old: "users ph k \<noteq> {}" "refcounts m k = Some (int (card (users ph k)))" "b < next_addr m"
      "\<forall>u c. address (ph u) = Some (k, c) \<longrightarrow> c = b"
      "mutex_state (heap m b) h {u. queued (ph u) k}" "\<forall>u. h = Some u \<longleftrightarrow> k \<in> set (held (ph u))"
      using ok by (auto simp: key_ok_def)
    have m': "m' = m\<lparr>refcounts := (refcounts m)(k \<mapsto> int (card (users ph k)) + 1)\<rparr>" and a: "a = b"
      using g Some old(2) by (auto simp: get_lock_def Let_def)
    have "card (insert t (users ph k)) = card (users ph k) + 1"
      using new manager_invD(3) [OF inv] by simp
    then have "key_ok m' ?ph k"
      unfolding key_ok_def m' using Some old users queued held a by auto
    then show ?thesis
      by (intro manager_invI [OF inv, where k = k]) (use agree ord m' manager_invD(2) [OF inv] in auto)
  qed
qed

text \<open>The state of a key somebody refers to.\<close>

lemma key_state:
  assumes "manager_inv m ph" "refers (ph t) k"
  shows "\<exists>a h. mlocks m k = Some a \<and> (\<forall>u b. address (ph u) = Some (k, b) \<longrightarrow> b = a) \<and>
    mutex_state (heap m a) h {u. queued (ph u) k} \<and> (\<forall>u. h = Some u \<longleftrightarrow> k \<in> set (held (ph u)))"
proof -
  obtain a where a: "mlocks m k = Some a" using key_ok_users [OF manager_invD(1) [OF assms(1)] assms(2)] by blast
  then show ?thesis using manager_invD(1) [OF assms(1), of k] by (simp add: key_ok_def)
qed

text \<open>The phase after a section of \<open>acquire\<close> on the lock of \<open>k\<close>.\<close>

lemma after_acquire_facts:
  assumes "p = Entering k a ks acq \<or> p = Waiting k a ks acq" "ordered p"
  shows "ordered (after_acquire r k a ks acq)" "refers (after_acquire r k a ks acq) k" "k \<notin> set acq"
    "\<And>key. key \<noteq> k \<Longrightarrow> agree p (after_acquire r k a ks acq) key"
    "\<And>b. address (after_acquire r k a ks acq) = Some (k, b) \<Longrightarrow> b = a"
    "queued (after_acquire r k a ks acq) k \<longleftrightarrow> r = Blocked" "k \<in> set (held (after_acquire r k a ks acq)) \<longleftrightarrow> r = Acquired"
proof -
  show k: "k \<notin> set acq" using assms by (auto simp: sorted_wrt_append)
  show "ordered (after_acquire r k a ks acq)" using assms by (cases r) (auto simp: sorted_wrt_append)
  show "refers (after_acquire r k a ks acq) k" by (cases r) (simp_all add: refers_def)
  show "agree p (after_acquire r k a ks acq) key" if "key \<noteq> k" for key
    using assms(1) that by (cases r) (auto simp: agree_def refers_def)
  show "b = a" if "address (after_acquire r k a ks acq) = Some (k, b)" for b using that by (cases r) simp_all
  show "queued (after_acquire r k a ks acq) k \<longleftrightarrow> r = Blocked" by (cases r) simp_all
  show "k \<in> set (held (after_acquire r k a ks acq)) \<longleftrightarrow> r = Acquired" using k by (cases r) simp_all
qed

lemma acquire_inv:
  assumes inv: "manager_inv m ph" and p: "ph t = Entering k a ks acq \<or> ph t = Waiting k a ks acq"
    and r: "(if queued (ph t) k then acquire_round t expired (heap m a) else acquire_enter t True expired (heap m a)) = (r, L')"
  shows "manager_inv (set_lock a L' m) (ph(t := after_acquire r k a ks acq))"
proof -
  let ?q = "after_acquire r k a ks acq" let ?W = "{u. queued (ph u) k}"
  note q = after_acquire_facts [OF p manager_invD(4) [OF inv]]
  have ref: "refers (ph t) k" using p by (auto simp: refers_def)
  obtain b h where k: "mlocks m k = Some b" "\<forall>u c. address (ph u) = Some (k, c) \<longrightarrow> c = b"
    "mutex_state (heap m b) h ?W" "\<forall>u. h = Some u \<longleftrightarrow> k \<in> set (held (ph u))"
    using key_state [OF inv ref] by blast
  have b: "b = a" using k(2) [rule_format, of t a] p by auto
  have notheld: "h \<noteq> Some t" using k(4) p q(3) by auto
  have W': "{u. queued ((ph(t := ?q)) u) k} = (if r = Blocked then insert t ?W else ?W - {t})"
    using q(6) by auto
  have held': "k \<in> set (held ((ph(t := ?q)) u)) \<longleftrightarrow> (if u = t then r = Acquired else h = Some u)" for u
    using q(7) k(4) by simp
  have law: "case r of Acquired \<Rightarrow> h = None \<and> mutex_state L' (Some t) (?W - {t})
      | GaveUp \<Rightarrow> mutex_state L' h (?W - {t}) | Blocked \<Rightarrow> mutex_state L' h (insert t ?W)"
  proof (cases "queued (ph t) k")
    case True
    then have "insert t ?W = ?W" by auto
    then show ?thesis using fl.round_law [OF k(3), of t expired r L'] True r b by (cases r) auto
  next
    case False
    then have "?W - {t} = ?W" by auto
    then show ?thesis using fl.enter_law [OF k(3), of t expired r L'] False r b notheld by (cases r) auto
  qed
  let ?h = "if r = Acquired then Some t else h"
  have state: "mutex_state L' ?h {u. queued ((ph(t := ?q)) u) k}" unfolding W' using law by (cases r) auto
  have holder: "?h = Some u \<longleftrightarrow> k \<in> set (held ((ph(t := ?q)) u))" for u
    unfolding held' using law notheld by (cases r) auto
  show ?thesis
    using section_inv [OF inv k(1) ref q(2) q(4) _ q(1) state holder] q(5) b by simp
qed

lemma undo_inv:
  assumes inv: "manager_inv m ph" and p: "ph t = TimedOut k acq"
  shows "\<exists>m'. undo_ref k m = Inr m' \<and> manager_inv m' (ph(t := Unwind acq))"
proof -
  have "ordered (ph t)" by (rule manager_invD(4) [OF inv])
  then have ord: "ordered (Unwind acq)" and fresh: "k \<notin> set acq" using p by (auto simp: sorted_wrt_append)
  have ref: "refers (ph t) k" using p by (simp add: refers_def)
  obtain a h where k: "mlocks m k = Some a" "\<forall>u b. address (ph u) = Some (k, b) \<longrightarrow> b = a"
    "mutex_state (heap m a) h {u. queued (ph u) k}" "\<forall>u. h = Some u \<longleftrightarrow> k \<in> set (held (ph u))"
    using key_state [OF inv ref] by blast
  have "{u. queued ((ph(t := Unwind acq)) u) k} = {u. queued (ph u) k}" using p by auto
  then have state: "mutex_state (heap m a) h {u. queued ((ph(t := Unwind acq)) u) k}" using k(3) by simp
  have holder: "h = Some u \<longleftrightarrow> k \<in> set (held ((ph(t := Unwind acq)) u))" for u using k(4) p by simp
  have "\<not> refers (Unwind acq) k" "\<And>key. key \<noteq> k \<Longrightarrow> agree (ph t) (Unwind acq) key" "\<And>b. address (Unwind acq) \<noteq> Some (k, b)"
    using fresh p by (auto simp: refers_def agree_def)
  from drop_inv [OF inv k(1) ref this ord state holder] show ?thesis using k(1) by (simp add: undo_ref_def)
qed

lemma unwind_inv:
  assumes inv: "manager_inv m ph" and p: "ph t = Unwind (k # acq)"
  shows "\<exists>m'. release_lock t k m = Inr m' \<and> manager_inv m' (ph(t := Unwind acq))"
proof -
  have "ordered (ph t)" by (rule manager_invD(4) [OF inv])
  then have ord: "ordered (Unwind acq)" and fresh: "k \<notin> set acq" using p by (auto simp: sorted_wrt_append)
  have ref: "refers (ph t) k" using p by (simp add: refers_def)
  obtain a h where k: "mlocks m k = Some a" "\<forall>u b. address (ph u) = Some (k, b) \<longrightarrow> b = a"
    "mutex_state (heap m a) h {u. queued (ph u) k}" "\<forall>u. h = Some u \<longleftrightarrow> k \<in> set (held (ph u))"
    using key_state [OF inv ref] by blast
  have h: "h = Some t" using k(4) p by simp
  then obtain L' where L': "release t (heap m a) = Inr L'" "mutex_state L' None {u. queued (ph u) k}"
    using fl.give_law k(3) by blast
  have "{u. queued ((ph(t := Unwind acq)) u) k} = {u. queued (ph u) k}" using p by auto
  then have state: "mutex_state L' None {u. queued ((ph(t := Unwind acq)) u) k}" using L'(2) by simp
  have holder: "None = Some u \<longleftrightarrow> k \<in> set (held ((ph(t := Unwind acq)) u))" for u using k(4) h fresh by auto
  have "\<not> refers (Unwind acq) k" "\<And>key. key \<noteq> k \<Longrightarrow> agree (ph t) (Unwind acq) key" "\<And>b. address (Unwind acq) \<noteq> Some (k, b)"
    using fresh p by (auto simp: refers_def agree_def)
  from drop_inv [OF inv k(1) ref this ord state holder] show ?thesis
    using k(1) L'(1) by (simp add: release_lock_def set_lock_def)
qed

lemma manager_step_inv:
  assumes "manager_step c c'" "manager_inv (fst c) (snd c)"
  shows "manager_inv (fst c') (snd c')"
  using assms
proof (cases rule: manager_step.cases)
  case (step_start ph t m keys)
  then have "manager_inv m (ph(t := Want (sorted_keys keys) []))"
    using assms(2) by (intro manager_inv_quiet) (auto simp: agree_def refers_def sorted_keys_def)
  then show ?thesis using step_start by simp
next
  case (step_get ph t k ks acq m a m')
  then show ?thesis using get_inv assms(2) by simp
next
  case (step_enter ph t k a ks acq expired m r L')
  then show ?thesis using acquire_inv [of m ph t k a ks acq expired r L'] assms(2) by simp
next
  case (step_round ph t k a ks acq expired m r L')
  then show ?thesis using acquire_inv [of m ph t k a ks acq expired r L'] assms(2) by simp
next
  case (step_undo ph t k acq m m')
  then show ?thesis using undo_inv [of m ph t k acq] assms(2) by auto
next
  case (step_undo_error ph t k acq m e)
  then show ?thesis using undo_inv [of m ph t k acq] assms(2) by auto
next
  case (step_body ph t acq m)
  then have "manager_inv m (ph(t := Body acq))"
    using assms(2) manager_invD(4) [of m ph t] by (intro manager_inv_quiet) (auto simp: agree_def refers_def)
  then show ?thesis using step_body by simp
next
  case (step_leave ph t acq m)
  then have "manager_inv m (ph(t := Unwind acq))"
    using assms(2) manager_invD(4) [of m ph t] by (intro manager_inv_quiet) (auto simp: agree_def refers_def)
  then show ?thesis using step_leave by simp
next
  case (step_release ph t k acq m m')
  then show ?thesis using unwind_inv [of m ph t k acq] assms(2) by auto
next
  case (step_release_error ph t k acq m e)
  then show ?thesis using unwind_inv [of m ph t k acq] assms(2) by auto
next
  case (step_done ph t m)
  then have "manager_inv m (ph(t := Idle))"
    using assms(2) by (intro manager_inv_quiet) (auto simp: agree_def refers_def)
  then show ?thesis using step_done by simp
qed

lemma manager_inv_new: "manager_inv new_manager (\<lambda>t. Idle)"
  by (simp add: manager_inv_def key_ok_def new_manager_def users_def refers_def)

lemma manager_steps_inv: "manager_step\<^sup>*\<^sup>* (new_manager, \<lambda>t. Idle) (m, ph) \<Longrightarrow> manager_inv m ph"
proof -
  have "manager_step\<^sup>*\<^sup>* c c' \<Longrightarrow> manager_inv (fst c) (snd c) \<Longrightarrow> manager_inv (fst c') (snd c')" for c c'
    by (induction rule: rtranclp_induct) (auto intro: manager_step_inv)
  from this [of "(new_manager, \<lambda>t. Idle)" "(m, ph)"] show "manager_step\<^sup>*\<^sup>* (new_manager, \<lambda>t. Idle) (m, ph) \<Longrightarrow> manager_inv m ph"
    using manager_inv_new by simp
qed

lemma waiting_target: "ordered (Waiting k a ks acq) \<Longrightarrow> key \<in> set acq \<Longrightarrow> key < k"
  by (auto simp: sorted_wrt_append)

text \<open>If every busy thread is in a queue, one of them is at the head of a free lock.\<close>

lemma all_waiting_progress:
  assumes inv: "manager_inv m ph" and busy: "ph t0 \<noteq> Idle"
    and waiting: "\<And>t. ph t \<noteq> Idle \<Longrightarrow> \<exists>k a ks acq. ph t = Waiting k a ks acq"
  shows "\<exists>t k a ks acq L'. ph t = Waiting k a ks acq \<and> acquire_round t False (heap m a) = (Acquired, L') \<and> t \<in> notified (heap m a)"
proof -
  let ?T = "{t. ph t \<noteq> Idle}" and ?w = "\<lambda>t. the (target (ph t))" and ?lck = "\<lambda>k. heap m (the (mlocks m k))"
  have T: "finite ?T" "?T \<noteq> {}" using inv busy by (auto simp: manager_inv_def)
  have key: "\<exists>a. mlocks m k = Some a \<and> b = a \<and> mutex_state (heap m a) (owner (heap m a)) {u \<in> ?T. ?w u = k} \<and>
      (\<forall>u. owner (heap m a) = Some u \<longrightarrow> k \<in> set (held (ph u)))" if t: "ph t = Waiting k b ks acq" for t k b ks acq
  proof -
    have "refers (ph t) k" using t by (simp add: refers_def)
    from key_state [OF inv this] obtain a h where a: "mlocks m k = Some a" "\<forall>u c. address (ph u) = Some (k, c) \<longrightarrow> c = a"
      "mutex_state (heap m a) h {u. queued (ph u) k}" "\<forall>u. h = Some u \<longleftrightarrow> k \<in> set (held (ph u))" by blast
    have "queued (ph u) k \<longleftrightarrow> ph u \<noteq> Idle \<and> ?w u = k" for u
      using waiting [of u] by (cases "ph u") auto
    then have "{u. queued (ph u) k} = {u \<in> ?T. ?w u = k}" by simp
    moreover have "owner (heap m a) = h" using a(3) by (simp add: mutex_state_def)
    moreover have "b = a" using a(2) [rule_format, of t b] t by simp
    ultimately show ?thesis using a by auto
  qed
  have "\<exists>t \<in> ?T. \<exists>L'. acquire_round t False (?lck (?w t)) = (Acquired, L')"
  proof (rule fl.ordered_progress [OF T, where holder = "\<lambda>k. owner (?lck k)"])
    fix t assume "t \<in> ?T"
    then obtain k a ks acq where t: "ph t = Waiting k a ks acq" using waiting by blast
    from key [OF t] t show "mutex_state (?lck (?w t)) (owner (?lck (?w t))) {u \<in> ?T. ?w u = ?w t}" by auto
  next
    fix t u assume "t \<in> ?T" and owner: "owner (?lck (?w t)) = Some u"
    then obtain k a ks acq where t: "ph t = Waiting k a ks acq" using waiting by blast
    have held: "k \<in> set (held (ph u))" using key [OF t] owner t by auto
    then have u: "u \<in> ?T" by auto
    then obtain k' a' ks' acq' where u': "ph u = Waiting k' a' ks' acq'" using waiting by blast
    have "k < k'" using waiting_target [of k' a' ks' acq' k] manager_invD(4) [OF inv, of u] u' held by simp
    then show "u \<in> ?T \<and> ?w t < ?w u" using u t u' by simp
  qed
  then obtain t L' where t: "t \<in> ?T" "acquire_round t False (?lck (?w t)) = (Acquired, L')" by blast
  then obtain k a ks acq where w: "ph t = Waiting k a ks acq" using waiting by blast
  have a: "mlocks m k = Some a" "lock_inv (heap m a)" using key [OF w] by (auto simp: mutex_state_def)
  have run: "acquire_round t False (heap m a) = (Acquired, L')" using t(2) w a(1) by simp
  then have "waiters (heap m a) \<noteq> [] \<and> hd (waiters (heap m a)) = t \<and> owner (heap m a) = None"
    by (auto simp: acquire_round_def split: if_splits)
  then have "t \<in> notified (heap m a)" using a(2) by (auto simp: lock_inv_def)
  then show ?thesis using w run by blast
qed

section \<open>Properties\<close>

text \<open>C12: However threads interleave, with timeouts at any point, no operation of the manager ever
  raises, no two threads hold the lock of the same key at once, and the manager keeps exactly the
  locks somebody uses: a key has an entry as long as a thread holds, awaits or is giving up its lock,
  and its count is the number of those threads.\<close>

theorem resource_locks_exclusive:
  assumes "manager_step\<^sup>*\<^sup>* (new_manager, \<lambda>t. Idle) (m, ph)"
  shows "(\<forall>t e. ph t \<noteq> Crashed e) \<and>
    (\<forall>key t u. key \<in> set (held (ph t)) \<and> key \<in> set (held (ph u)) \<longrightarrow> t = u) \<and>
    (\<forall>key. mlocks m key \<noteq> None \<longleftrightarrow> (\<exists>t. refers (ph t) key)) \<and>
    (\<forall>key. refcounts m key = (if \<exists>t. refers (ph t) key then Some (int (card {t. refers (ph t) key})) else None))"
proof (intro conjI allI impI)
  have inv: "manager_inv m ph" by (rule manager_steps_inv [OF assms])
  show "ph t \<noteq> Crashed e" for t e using manager_invD(4) [OF inv, of t] by auto
  show "t = u" if "key \<in> set (held (ph t)) \<and> key \<in> set (held (ph u))" for key t u
  proof -
    have "refers (ph t) key" using that by (simp add: refers_def)
    from key_state [OF inv this] that show ?thesis by (metis option.inject)
  qed
  show "mlocks m key \<noteq> None \<longleftrightarrow> (\<exists>t. refers (ph t) key)"
    "refcounts m key = (if \<exists>t. refers (ph t) key then Some (int (card {t. refers (ph t) key})) else None)" for key
    using manager_invD(1) [OF inv, of key] by (auto simp: key_ok_def users_def split: option.splits)
qed

theorem resource_locks_exclusive_witness:
  "\<exists>m ph. manager_step\<^sup>*\<^sup>* (new_manager, \<lambda>t. Idle) (m, ph) \<and> ph 7 = Want [''b''] [''a''] \<and> refcounts m ''a'' = Some 1"
proof -
  let ?m1 = "snd (get_lock ''a'' new_manager)" and ?q = "Want [''b''] [''a'']"
  let ?ph1 = "(\<lambda>t :: tid. Idle)(7 := Want [''a'', ''b''] [])"
  let ?ph2 = "?ph1(7 := Entering ''a'' 0 [''b''] [])"
  have keys: "sorted_keys [''b'', ''a'', ''b''] = [''a'', ''b'']" by (simp add: sorted_keys_def) code_simp
  have 1: "manager_step (new_manager, \<lambda>t. Idle) (new_manager, ?ph1)"
    using step_start [of "\<lambda>t. Idle" 7 new_manager "[''b'', ''a'', ''b'']"] keys by simp
  have g: "get_lock ''a'' new_manager = (0, ?m1)" by (simp add: get_lock_def new_manager_def Let_def)
  have 2: "manager_step (new_manager, ?ph1) (?m1, ?ph2)" using step_get [OF _ g, of ?ph1 7] by simp
  have e: "acquire_enter 7 True False (heap ?m1 0) = (Acquired, take_lock 7 new_lock)"
    by (simp add: get_lock_def new_manager_def Let_def acquire_enter_def new_lock_def)
  have 3: "manager_step (?m1, ?ph2) (set_lock 0 (take_lock 7 new_lock) ?m1, ?ph2(7 := ?q))"
    using step_enter [OF _ e, of ?ph2 "''a''" "[''b'']" "[]"] by simp
  have steps: "manager_step\<^sup>*\<^sup>* (new_manager, \<lambda>t. Idle) (set_lock 0 (take_lock 7 new_lock) ?m1, ?ph2(7 := ?q))"
    using 1 2 3 by (meson converse_rtranclp_into_rtranclp rtranclp.rtrancl_refl)
  have one: "{t. refers ((?ph2(7 := ?q)) t) ''a''} = {7}" by (auto simp: refers_def)
  then have ex: "\<exists>t. refers ((?ph2(7 := ?q)) t) ''a''" by blast
  have "refcounts (set_lock 0 (take_lock 7 new_lock) ?m1) ''a'' =
      (if \<exists>t. refers ((?ph2(7 := ?q)) t) ''a'' then Some (int (card {t. refers ((?ph2(7 := ?q)) t) ''a''})) else None)"
    using resource_locks_exclusive [OF steps] by blast
  then have "refcounts (set_lock 0 (take_lock 7 new_lock) ?m1) ''a'' = Some 1"
    unfolding if_P [OF ex] one by simp
  moreover have "(?ph2(7 := ?q)) 7 = ?q" by simp
  ultimately show ?thesis using steps by blast
qed

text \<open>C13: Taking locks in sorted order excludes deadlock: whenever threads are inside the manager,
  one of them is outside every queue and can go on, or is at the head of the queue of a free lock,
  has been notified, and takes it in its next round.\<close>

theorem resource_locks_no_deadlock:
  assumes "manager_step\<^sup>*\<^sup>* (new_manager, \<lambda>t. Idle) (m, ph)" "ph t0 \<noteq> Idle"
  shows "(\<exists>t. ph t \<noteq> Idle \<and> (\<forall>k. \<not> queued (ph t) k)) \<or>
    (\<exists>t k a ks acq L'. ph t = Waiting k a ks acq \<and> t \<in> notified (heap m a) \<and>
       acquire_round t False (heap m a) = (Acquired, L') \<and>
       manager_step (m, ph) (set_lock a L' m, ph(t := Want ks (k # acq))))"
proof (rule disjCI)
  assume "\<not> (\<exists>t k a ks acq L'. ph t = Waiting k a ks acq \<and> t \<in> notified (heap m a) \<and>
       acquire_round t False (heap m a) = (Acquired, L') \<and>
       manager_step (m, ph) (set_lock a L' m, ph(t := Want ks (k # acq))))"
  moreover have "manager_step (m, ph) (set_lock a L' m, ph(t := Want ks (k # acq)))"
    if "ph t = Waiting k a ks acq" "acquire_round t False (heap m a) = (Acquired, L')" for t k a ks acq L'
    using step_round [of ph t k a ks acq False m Acquired L'] that by simp
  ultimately have none: "\<not> (\<exists>t k a ks acq L'. ph t = Waiting k a ks acq \<and> acquire_round t False (heap m a) = (Acquired, L') \<and> t \<in> notified (heap m a))"
    by blast
  have inv: "manager_inv m ph" by (rule manager_steps_inv [OF assms(1)])
  obtain t where "ph t \<noteq> Idle" "\<not> (\<exists>k a ks acq. ph t = Waiting k a ks acq)"
    using all_waiting_progress [OF inv assms(2)] none by blast
  then have "\<forall>k. \<not> queued (ph t) k" by (cases "ph t") auto
  with \<open>ph t \<noteq> Idle\<close> show "\<exists>t. ph t \<noteq> Idle \<and> (\<forall>k. \<not> queued (ph t) k)" by blast
qed

theorem resource_locks_no_deadlock_witness:
  "\<exists>ph. manager_step\<^sup>*\<^sup>* (new_manager, \<lambda>t. Idle) (new_manager, ph) \<and> (\<exists>t. ph t \<noteq> Idle \<and> (\<forall>k. \<not> queued (ph t) k))"
proof -
  let ?ph = "(\<lambda>t :: tid. Idle)(7 := Want (sorted_keys [''a'']) [])"
  have steps: "manager_step\<^sup>*\<^sup>* (new_manager, \<lambda>t. Idle) (new_manager, ?ph)"
    using step_start [of "\<lambda>t. Idle" 7 new_manager "[''a'']"] by blast
  from resource_locks_no_deadlock [OF this, of 7] have "\<exists>t. ?ph t \<noteq> Idle \<and> (\<forall>k. \<not> queued (?ph t) k)"
    by (auto split: if_splits)
  then show ?thesis using steps by blast
qed

end
