(* ===== verification/Parallel_Executor.thy ===== *)
theory Parallel_Executor
  imports Error_Classification Resource_Locks
begin

text \<open>
  \<open>ParallelToolExecutor\<close> (\<open>agent/parallel_executor.py\<close>): running a batch of tool calls, each
  guarded against cancellation and exceptions and under the locks of the resources it declares.

  The tool runner is a parameter, as are the definitions of the tools: a name and what
  \<open>declared_resources\<close> answers. What happens around one call is given by its position in the batch:
  whether the token is cancelled when the call starts, whether the locks are granted in time (the
  subject of \<open>Resource_Locks\<close>), and the identifier and time of the event an error gets. A worker
  thread stores its result under its position, whenever it finishes. Exceptions carry no text here, so
  their text is a parameter. Tracing of results is left out.
\<close>

record declared_resources =
  resource_keys :: "string list"
  declared :: bool

record tool_definition =
  td_name :: string
  td_declared_resources :: "py_model \<Rightarrow> declared_resources result"

record call_env =
  is_cancelled :: bool
  locks_granted :: bool
  new_event :: "string \<times> string"

definition INTERNAL :: error_classification where
  "INTERNAL = \<lparr>kind = FK_INTERNAL, retryable = False, user_action = FA_none, error_id = None\<rparr>"

definition call_error :: "call_env \<Rightarrow> action_event \<Rightarrow> string \<Rightarrow> error_classification \<Rightarrow> event" where
  "call_error ce a msg c = AgentErrorEvent
     \<lparr>event_id = fst (new_event ce), timestamp = snd (new_event ce), source = SourceAgent, parent_id = None,
      obs_tool_name = tool_name a, obs_tool_call_id = tool_call_id a, error = msg,
      classification = Some c, validation_errors = None\<rparr>"

definition cancelled_error :: "call_env \<Rightarrow> action_event \<Rightarrow> event list" where
  "cancelled_error ce a = [call_error ce a ''Tool call cancelled by interrupt.'' AGENT_OUTCOME]"

definition extract_declared_resources :: "action_event \<Rightarrow> tool_definition \<Rightarrow> declared_resources option result" where
  "extract_declared_resources a tool =
     (case action a of
        None \<Rightarrow> Inr None
      | Some parsed \<Rightarrow> bind_result (td_declared_resources tool parsed) (\<lambda>r. Inr (Some r)))"

definition resolve_lock_keys :: "declared_resources option \<Rightarrow> tool_definition \<Rightarrow> string list" where
  "resolve_lock_keys resources tool =
     (case resources of
        None \<Rightarrow> [''tool:'' @ td_name tool]
      | Some r \<Rightarrow> if \<not> declared r then [''tool:'' @ td_name tool] else resource_keys r)"

text \<open>The body of the \<open>try\<close> block.\<close>

definition run_locked ::
  "(action_event \<Rightarrow> event list result) \<Rightarrow> call_env \<Rightarrow> action_event \<Rightarrow> tool_definition option \<Rightarrow> event list result" where
  "run_locked tool_runner ce a tool =
     (case tool of
        None \<Rightarrow> tool_runner a
      | Some td \<Rightarrow>
          bind_result (extract_declared_resources a td) (\<lambda>resources.
            let lock_keys = resolve_lock_keys resources td
            in if lock_keys = [] then tool_runner a
               else if \<not> locks_granted ce then Inl TimeoutErr
               else tool_runner a))"

definition tool_error_text :: "action_event \<Rightarrow> string \<Rightarrow> string" where
  "tool_error_text a msg = ''Error executing tool '' @ [CHR 0x27] @ tool_name a @ [CHR 0x27] @ '': '' @ msg"

definition run_safe ::
  "(py_error \<Rightarrow> string) \<Rightarrow> (action_event \<Rightarrow> event list result) \<Rightarrow> call_env \<Rightarrow> action_event \<Rightarrow> tool_definition option \<Rightarrow>
   event list" where
  "run_safe str_error tool_runner ce a tool =
     (if is_cancelled ce then cancelled_error ce a
      else
        (case run_locked tool_runner ce a tool of
           Inr evs \<Rightarrow> evs
         | Inl e \<Rightarrow>
             if is_value_error e then [call_error ce a (tool_error_text a (str_error e)) AGENT_OUTCOME]
             else [call_error ce a (tool_error_text a (str_error e)) INTERNAL]))"

text \<open>
  \<open>execute_batch\<close>: one call after the other, or one future per call, which the workers complete in
  the order \<open>finish\<close>, and whose results are then read in the order of the calls.
\<close>

fun complete_futures :: "(nat \<Rightarrow> event list) \<Rightarrow> nat list \<Rightarrow> event list option list \<Rightarrow> event list option list" where
  "complete_futures run [] futures = futures"
| "complete_futures run (i # finish) futures = complete_futures run finish (futures[i := Some (run i)])"

fun read_futures :: "event list option list \<Rightarrow> event list list option" where
  "read_futures [] = Some []"
| "read_futures (None # fs) = None"
| "read_futures (Some r # fs) = map_option (Cons r) (read_futures fs)"

definition execute_batch ::
  "(py_error \<Rightarrow> string) \<Rightarrow> (action_event \<Rightarrow> event list result) \<Rightarrow> nat \<Rightarrow> (string \<rightharpoonup> tool_definition) option \<Rightarrow>
   (nat \<Rightarrow> call_env) \<Rightarrow> nat list \<Rightarrow> action_event list \<Rightarrow> event list list option" where
  "execute_batch str_error tool_runner max_workers tool_map ce finish acts =
     (let resolve = (\<lambda>a. case tool_map of None \<Rightarrow> None | Some ts \<Rightarrow> ts (tool_name a));
          run = (\<lambda>i. run_safe str_error tool_runner (ce i) (acts ! i) (resolve (acts ! i)))
      in if acts = [] then Some []
         else if length acts = 1 \<or> max_workers = 1 then Some (map run [0..<length acts])
         else read_futures (complete_futures run finish (replicate (length acts) None)))"

section \<open>Lemmas\<close>

lemma complete_futures_nth:
  "i < length futures \<Longrightarrow>
   complete_futures run finish futures ! i = (if i \<in> set finish then Some (run i) else futures ! i)"
  by (induction run finish futures rule: complete_futures.induct) (auto simp: nth_list_update)

lemma length_complete_futures: "length (complete_futures run finish futures) = length futures"
  by (induction run finish futures rule: complete_futures.induct) auto

lemma read_futures_map: "read_futures (map Some rs) = Some rs"
  by (induction rs) auto

lemma complete_all_futures:
  assumes "set finish = {0..<n}"
  shows "complete_futures run finish (replicate n None) = map Some (map run [0..<n])"
  using assms by (intro nth_equalityI) (simp_all add: complete_futures_nth length_complete_futures)

lemma execute_batch_all:
  assumes "set finish = {0..<length acts}"
  shows "execute_batch str_error tool_runner workers tool_map ce finish acts =
    Some (map (\<lambda>i. run_safe str_error tool_runner (ce i) (acts ! i)
      (case tool_map of None \<Rightarrow> None | Some ts \<Rightarrow> ts (tool_name (acts ! i)))) [0..<length acts])"
proof -
  define run where "run = (\<lambda>i. run_safe str_error tool_runner (ce i) (acts ! i)
      (case tool_map of None \<Rightarrow> None | Some ts \<Rightarrow> ts (tool_name (acts ! i))))"
  show ?thesis
    using complete_all_futures [OF assms, of run] read_futures_map [of "map run [0..<length acts]"]
    by (simp add: execute_batch_def Let_def run_def [symmetric])
qed

text \<open>
  One call: cancelled before it starts, failed, or done; only a call that was neither cancelled nor
  failed returns what the tool runner returned.
\<close>

lemma run_safe_cases:
  obtains (cancelled) "is_cancelled ce" "run_safe str_error tool_runner ce a tool = cancelled_error ce a"
  | (failed) e msg where "\<not> is_cancelled ce" "run_locked tool_runner ce a tool = Inl e"
      "run_safe str_error tool_runner ce a tool = [call_error ce a msg (if is_value_error e then AGENT_OUTCOME else INTERNAL)]"
  | (finished) evs where "\<not> is_cancelled ce" "tool_runner a = Inr evs" "run_safe str_error tool_runner ce a tool = evs"
proof (cases "is_cancelled ce")
  case False
  show ?thesis
  proof (cases "run_locked tool_runner ce a tool")
    case (Inl e)
    then have "run_safe str_error tool_runner ce a tool =
        [call_error ce a (tool_error_text a (str_error e)) (if is_value_error e then AGENT_OUTCOME else INTERNAL)]"
      using False by (simp add: run_safe_def)
    then show ?thesis by (rule failed [OF False Inl])
  next
    case (Inr evs)
    then have "tool_runner a = Inr evs"
      by (auto simp: run_locked_def Let_def result_simps split: option.splits if_splits)
    then show ?thesis using finished Inr False by (simp add: run_safe_def)
  qed
qed (simp add: run_safe_def)

text \<open>
  What keeps a call that is not cancelled from reaching its tool: its declaration of resources raises, or
  it has to lock something and is not granted the locks in time.
\<close>

definition needs_locks :: "action_event \<Rightarrow> tool_definition \<Rightarrow> bool" where
  "needs_locks a td \<longleftrightarrow>
     (case action a of
        None \<Rightarrow> True
      | Some m \<Rightarrow> (case td_declared_resources td m of
                     Inl e \<Rightarrow> False
                   | Inr r \<Rightarrow> declared r \<longrightarrow> resource_keys r \<noteq> []))"

inductive stopped :: "call_env \<Rightarrow> action_event \<Rightarrow> tool_definition option \<Rightarrow> py_error \<Rightarrow> bool"
  for ce :: call_env and a :: action_event where
  declaration_raises: "action a = Some m \<Longrightarrow> td_declared_resources td m = Inl e \<Longrightarrow> stopped ce a (Some td) e"
| locks_not_granted: "needs_locks a td \<Longrightarrow> \<not> locks_granted ce \<Longrightarrow> stopped ce a (Some td) TimeoutErr"

inductive_simps stopped_simps: "stopped ce a None e" "stopped ce a (Some td) e"

definition call_failure :: "(py_error \<Rightarrow> string) \<Rightarrow> call_env \<Rightarrow> action_event \<Rightarrow> py_error \<Rightarrow> event list" where
  "call_failure str_error ce a e =
     [call_error ce a (tool_error_text a (str_error e)) (if is_value_error e then AGENT_OUTCOME else INTERNAL)]"

lemma run_locked_cases:
  "(\<exists>e. stopped ce a tool e \<and> run_locked tool_runner ce a tool = Inl e) \<or>
   (\<forall>e. \<not> stopped ce a tool e) \<and> run_locked tool_runner ce a tool = tool_runner a"
proof (cases tool)
  case (Some td)
  show ?thesis
  proof (cases "action a")
    case None
    then show ?thesis
      by (auto simp: Some run_locked_def extract_declared_resources_def resolve_lock_keys_def stopped_simps needs_locks_def)
  next
    case m: (Some m)
    note run = Some m run_locked_def extract_declared_resources_def resolve_lock_keys_def stopped_simps needs_locks_def
    show ?thesis
    proof (cases "td_declared_resources td m")
      case (Inl e)
      then show ?thesis by (intro disjI1 exI [of _ e]) (cases m; simp add: run)
    next
      case (Inr r)
      then show ?thesis by (cases "declared r \<longrightarrow> resource_keys r \<noteq> []") (auto simp: run)
    qed
  qed
qed (simp add: run_locked_def stopped_simps)

lemma stopped_unique: "stopped ce a tool e \<Longrightarrow> stopped ce a tool e' \<Longrightarrow> e = e'"
  by (cases tool) (auto simp: stopped_simps needs_locks_def)

section \<open>Properties\<close>

text \<open>C26: A batch of tool calls always returns one list of events per call, in the order of the
  calls, whatever the number of workers and the order in which they finish, and no exception of a
  tool, of its resource declaration or of the locks gets out. The list of a cancelled call is one error
  saying so, an outcome the agent can act on. The list of any other call is what its tool returned,
  if neither its declaration of resources raised nor its locks were refused, and the tool did not
  raise; otherwise it is one error with the text of that exception, an outcome the agent can act on
  if it was a \<open>ValueError\<close> and an internal failure if not. Every error carries the call's identifier
  and the tool's name.\<close>

theorem batch_answers_every_call:
  assumes "set finish = {0..<length acts}"
  shows "\<exists>rs. execute_batch str_error tool_runner max_workers tool_map ce finish acts = Some rs \<and> length rs = length acts \<and>
    (\<forall>i < length acts.
       let a = acts ! i; tool = (case tool_map of None \<Rightarrow> None | Some ts \<Rightarrow> ts (tool_name a))
       in (is_cancelled (ce i) \<longrightarrow> rs ! i = [call_error (ce i) a ''Tool call cancelled by interrupt.'' AGENT_OUTCOME]) \<and>
          (\<not> is_cancelled (ce i) \<longrightarrow>
             (\<forall>e. stopped (ce i) a tool e \<longrightarrow> rs ! i = call_failure str_error (ce i) a e) \<and>
             ((\<forall>e. \<not> stopped (ce i) a tool e) \<longrightarrow>
                (case tool_runner a of
                   Inr evs \<Rightarrow> rs ! i = evs
                 | Inl e \<Rightarrow> rs ! i = call_failure str_error (ce i) a e))) \<and>
          (\<forall>msg c. observed_call (call_error (ce i) a msg c) = Some (tool_call_id a)))"
proof -
  let ?tool = "\<lambda>a. case tool_map of None \<Rightarrow> None | Some ts \<Rightarrow> ts (tool_name a)"
  define run where "run = (\<lambda>i. run_safe str_error tool_runner (ce i) (acts ! i) (?tool (acts ! i)))"
  have rs: "execute_batch str_error tool_runner max_workers tool_map ce finish acts = Some (map run [0..<length acts])"
    using execute_batch_all [OF assms] by (simp add: run_def)
  have stop: "run i = call_failure str_error (ce i) (acts ! i) e"
    if "\<not> is_cancelled (ce i)" "stopped (ce i) (acts ! i) (?tool (acts ! i)) e" for i e
  proof -
    have "run_locked tool_runner (ce i) (acts ! i) (?tool (acts ! i)) = Inl e"
      using run_locked_cases [of "ce i" "acts ! i" "?tool (acts ! i)" tool_runner] stopped_unique [OF that(2)] that(2) by metis
    then show ?thesis unfolding run_def run_safe_def call_failure_def using that(1) by simp
  qed
  have tool: "case tool_runner (acts ! i) of Inr evs \<Rightarrow> run i = evs | Inl e \<Rightarrow> run i = call_failure str_error (ce i) (acts ! i) e"
    if "\<not> is_cancelled (ce i)" "\<forall>e. \<not> stopped (ce i) (acts ! i) (?tool (acts ! i)) e" for i
  proof -
    have "run_locked tool_runner (ce i) (acts ! i) (?tool (acts ! i)) = tool_runner (acts ! i)"
      using run_locked_cases [of "ce i" "acts ! i" "?tool (acts ! i)" tool_runner] that(2) by metis
    then show ?thesis
      unfolding run_def run_safe_def call_failure_def using that(1) by (cases "tool_runner (acts ! i)") simp_all
  qed
  have "run i = [call_error (ce i) (acts ! i) ''Tool call cancelled by interrupt.'' AGENT_OUTCOME]"
    if "is_cancelled (ce i)" for i
    using that by (simp add: run_def run_safe_def cancelled_error_def)
  moreover have "observed_call (call_error (ce i) (acts ! i) msg c) = Some (tool_call_id (acts ! i))" for i msg c
    by (simp add: call_error_def)
  ultimately have one: "(is_cancelled (ce i) \<longrightarrow> run i = [call_error (ce i) a ''Tool call cancelled by interrupt.'' AGENT_OUTCOME]) \<and>
      (\<not> is_cancelled (ce i) \<longrightarrow>
         (\<forall>e. stopped (ce i) a (?tool a) e \<longrightarrow> run i = call_failure str_error (ce i) a e) \<and>
         ((\<forall>e. \<not> stopped (ce i) a (?tool a) e) \<longrightarrow>
            (case tool_runner a of Inr evs \<Rightarrow> run i = evs | Inl e \<Rightarrow> run i = call_failure str_error (ce i) a e))) \<and>
      (\<forall>msg c. observed_call (call_error (ce i) a msg c) = Some (tool_call_id a))"
    if "a = acts ! i" for i a
    using stop tool that by blast
  show ?thesis
  proof (intro exI [of _ "map run [0..<length acts]"] conjI rs allI impI)
    fix i assume "i < length acts"
    then have nth: "map run [0..<length acts] ! i = run i" by simp
    show "let a = acts ! i; tool = ?tool a
       in (is_cancelled (ce i) \<longrightarrow> map run [0..<length acts] ! i = [call_error (ce i) a ''Tool call cancelled by interrupt.'' AGENT_OUTCOME]) \<and>
          (\<not> is_cancelled (ce i) \<longrightarrow>
             (\<forall>e. stopped (ce i) a tool e \<longrightarrow> map run [0..<length acts] ! i = call_failure str_error (ce i) a e) \<and>
             ((\<forall>e. \<not> stopped (ce i) a tool e) \<longrightarrow>
                (case tool_runner a of
                   Inr evs \<Rightarrow> map run [0..<length acts] ! i = evs
                 | Inl e \<Rightarrow> map run [0..<length acts] ! i = call_failure str_error (ce i) a e))) \<and>
          (\<forall>msg c. observed_call (call_error (ce i) a msg c) = Some (tool_call_id a))"
      unfolding nth Let_def by (rule one [OF refl])
  qed simp
qed

theorem batch_answers_every_call_witness:
  "\<exists>rs. execute_batch (\<lambda>_. ''bad'') (\<lambda>a. if tool_call_id a = ''c1'' then Inl ValueError else Inr [sample_observation ''o2'' ''c2'']) 2 None
      (\<lambda>i. \<lparr>is_cancelled = False, locks_granted = True, new_event = (''e1'', [])\<rparr>) [1, 0]
      [sample_action_event ''a1'' ''c1'' ''r1'' [], sample_action_event ''a2'' ''c2'' ''r1'' []] = Some rs \<and> length rs = 2 \<and>
    rs ! 1 = [sample_observation ''o2'' ''c2''] \<and> observed_call (hd (rs ! 0)) = Some ''c1''"
proof -
  let ?acts = "[sample_action_event ''a1'' ''c1'' ''r1'' [], sample_action_event ''a2'' ''c2'' ''r1'' []]"
  let ?run = "\<lambda>a. if tool_call_id a = ''c1'' then Inl ValueError else Inr [sample_observation ''o2'' ''c2'']"
  let ?ce = "\<lambda>i :: nat. \<lparr>is_cancelled = False, locks_granted = True, new_event = (''e1'', [])\<rparr>"
  let ?b = "execute_batch (\<lambda>_. ''bad'') ?run 2 None ?ce [1, 0] ?acts"
  have "set [1, 0] = {0..<length ?acts}" by auto
  from batch_answers_every_call [OF this, of "\<lambda>_. ''bad''" ?run 2 None ?ce]
  obtain rs where "?b = Some rs" "length rs = length ?acts" by blast
  moreover have "map_option (\<lambda>rs. (rs ! 1, observed_call (hd (rs ! 0)))) ?b = Some ([sample_observation ''o2'' ''c2''], Some ''c1'')"
    by code_simp
  ultimately show ?thesis by simp
qed

end
