(* ===== verification/Apply_Patch.thy ===== *)
theory Apply_Patch
  imports Text_Utils "HOL-Library.Char_ord" "HOL-Library.List_Lexorder"
begin

text \<open>
  The \<open>apply_patch\<close> tool of \<open>openhands-tools/openhands/tools/apply_patch\<close>: the parser of the patch
  format, the tolerant search for the place of a section, the application of a patch to the files
  (\<open>core.py\<close>) and the executor, which keeps all of it inside the workspace (\<open>definition.py\<close>).
  Strings hold the characters below code point 256. The parser's position is an index into the lines
  of the patch, as in the code. Iteration over a Python set of paths, whose order is not defined,
  takes the order of first occurrence. The file system maps resolved paths, lists of their parts, to
  contents; how the operating system resolves symbolic links and which accesses fail are parameters.
\<close>

section \<open>Strings and errors\<close>

text \<open>\<open>s.split(sep)\<close> for a separator of one character.\<close>

fun split_on :: "char \<Rightarrow> string \<Rightarrow> string list" where
  "split_on sep [] = [[]]"
| "split_on sep (c # cs) =
     (if c = sep then [] # split_on sep cs
      else (case split_on sep cs of [] \<Rightarrow> [[c]] | l # ls \<Rightarrow> (c # l) # ls))"

abbreviation split_lines :: "string \<Rightarrow> string list" where
  "split_lines \<equiv> split_on (CHR 0x0A)"

abbreviation join_lines :: "string list \<Rightarrow> string" where
  "join_lines \<equiv> join_with newline"

definition starts_with_any :: "string list \<Rightarrow> string \<Rightarrow> bool" where
  "starts_with_any pres s = list_ex (\<lambda>p. prefix p s) pres"

text \<open>\<open>DiffError\<close>, the errors a faulty access would raise, and errors of the file system.\<close>

datatype patch_error = DiffError | IndexFault | KeyFault | OSFault py_error

type_synonym 'a patch_result = "patch_error + 'a"

definition bind_patch :: "'a patch_result \<Rightarrow> ('a \<Rightarrow> 'b patch_result) \<Rightarrow> 'b patch_result" where
  "bind_patch m f = (case m of Inl e \<Rightarrow> Inl e | Inr x \<Rightarrow> f x)"

lemma bind_patch_simps [simp]:
  "bind_patch (Inl e) f = Inl e"
  "bind_patch (Inr x) f = f x"
  by (simp_all add: bind_patch_def)

lemma bind_patch_Inr_iff: "bind_patch m f = Inr y \<longleftrightarrow> (\<exists>x. m = Inr x \<and> f x = Inr y)"
  by (cases m) auto

lemma bind_patch_Inl_iff: "bind_patch m f = Inl e \<longleftrightarrow> m = Inl e \<or> (\<exists>x. m = Inr x \<and> f x = Inl e)"
  by (cases m) auto

lemma bind_patch_cong [fundef_cong]:
  "m = m' \<Longrightarrow> (\<And>x. m' = Inr x \<Longrightarrow> f x = g x) \<Longrightarrow> bind_patch m f = bind_patch m' g"
  by (cases m') auto

section \<open>Patches and commits\<close>

datatype ActionType = ADD | DELETE | UPDATE

record file_change =
  change_type :: ActionType
  old_content :: "string option"
  new_content :: "string option"
  change_move_path :: "string option"

text \<open>\<open>Commit.changes\<close>: a dictionary in the order of insertion.\<close>

type_synonym commit = "(string \<times> file_change) list"

record chunk =
  orig_index :: int
  del_lines :: "string list"
  ins_lines :: "string list"

record patch_action =
  action_type :: ActionType
  new_file :: "string option"
  chunks :: "chunk list"
  move_path :: "string option"

text \<open>\<open>Parser\<close>; \<open>actions\<close> is \<open>patch.actions\<close>, a dictionary in the order of insertion.\<close>

record parser =
  current_files :: "string \<rightharpoonup> string"
  plines :: "string list"
  pindex :: nat
  actions :: "(string \<times> patch_action) list"
  pfuzz :: nat

text \<open>\<open>assemble_changes\<close>, over dictionaries from paths to optional contents.\<close>

definition dict_get :: "(string \<times> string option) list \<Rightarrow> string \<Rightarrow> string option" where
  "dict_get d path = (case map_of d path of None \<Rightarrow> None | Some v \<Rightarrow> v)"

definition truthy :: "string option \<Rightarrow> bool" where
  "truthy s \<longleftrightarrow> s \<noteq> None \<and> s \<noteq> Some []"

fun assemble_loop ::
  "(string \<times> string option) list \<Rightarrow> (string \<times> string option) list \<Rightarrow> string list \<Rightarrow> commit patch_result" where
  "assemble_loop orig dest [] = Inr []"
| "assemble_loop orig dest (path # paths) =
     (let old = dict_get orig path; new = dict_get dest path;
          more = assemble_loop orig dest paths;
          change = (\<lambda>ch. bind_patch more (\<lambda>changes. Inr ((path, ch) # changes)))
      in if old = new then more
         else if old \<noteq> None \<and> new \<noteq> None then
           change \<lparr>change_type = UPDATE, old_content = old, new_content = new, change_move_path = None\<rparr>
         else if truthy new then
           change \<lparr>change_type = ADD, old_content = None, new_content = new, change_move_path = None\<rparr>
         else if truthy old then
           change \<lparr>change_type = DELETE, old_content = old, new_content = None, change_move_path = None\<rparr>
         else Inl DiffError)"

definition assemble_changes ::
  "(string \<times> string option) list \<Rightarrow> (string \<times> string option) list \<Rightarrow> commit patch_result" where
  "assemble_changes orig dest =
     assemble_loop orig dest (sorted_list_of_set (set (map fst orig) \<union> set (map fst dest)))"

section \<open>The parser's steps\<close>

definition is_done :: "string list \<Rightarrow> parser \<Rightarrow> bool" where
  "is_done pres p \<longleftrightarrow>
     length (plines p) \<le> pindex p \<or> starts_with_any pres (plines p ! pindex p)"

definition startswith :: "string list \<Rightarrow> parser \<Rightarrow> bool patch_result" where
  "startswith pres p =
     (if length (plines p) \<le> pindex p then Inl DiffError
      else Inr (starts_with_any pres (plines p ! pindex p)))"

definition read_str :: "string \<Rightarrow> bool \<Rightarrow> parser \<Rightarrow> (string \<times> parser) patch_result" where
  "read_str pre return_everything p =
     (if length (plines p) \<le> pindex p then Inl DiffError
      else let line = plines p ! pindex p
           in if prefix pre line
              then Inr (if return_everything then line else drop (length pre) line, p\<lparr>pindex := pindex p + 1\<rparr>)
              else Inr ([], p))"

text \<open>\<open>self.lines[self.index]\<close>.\<close>

definition current_line :: "parser \<Rightarrow> string patch_result" where
  "current_line p = (if pindex p < length (plines p) then Inr (plines p ! pindex p) else Inl IndexFault)"

subsection \<open>Sections\<close>

datatype mode = ModeKeep | ModeDelete | ModeAdd

text \<open>The local variables of \<open>peek_next_section\<close>.\<close>

record section_state =
  old :: "string list"
  sdel :: "string list"
  sins :: "string list"
  schunks :: "chunk list"
  smode :: mode
  sindex :: nat

definition SECTION_PREFIXES :: "string list" where
  "SECTION_PREFIXES = [''@@'', ''*** End Patch'', ''*** Update File:'', ''*** Delete File:'',
     ''*** Add File:'', ''*** End of File'']"

text \<open>Close the pending chunk, when there is one.\<close>

definition flush_chunk :: "section_state \<Rightarrow> section_state" where
  "flush_chunk s =
     (if sins s \<noteq> [] \<or> sdel s \<noteq> []
      then s\<lparr>schunks := schunks s @ [\<lparr>orig_index = int (length (old s)) - int (length (sdel s)),
                                       del_lines = sdel s, ins_lines = sins s\<rparr>],
             sdel := [], sins := []\<rparr>
      else s\<lparr>sdel := [], sins := []\<rparr>)"

text \<open>What one line of a section, without its first character, does.\<close>

definition section_line :: "mode \<Rightarrow> string \<Rightarrow> section_state \<Rightarrow> section_state" where
  "section_line md s st =
     (let st1 = (if md = ModeKeep \<and> smode st \<noteq> md then flush_chunk st else st);
          st2 = st1\<lparr>smode := md, sindex := sindex st1 + 1\<rparr>
      in case md of
           ModeDelete \<Rightarrow> st2\<lparr>sdel := sdel st2 @ [s], old := old st2 @ [s]\<rparr>
         | ModeAdd \<Rightarrow> st2\<lparr>sins := sins st2 @ [s]\<rparr>
         | ModeKeep \<Rightarrow> st2\<lparr>old := old st2 @ [s]\<rparr>)"

text \<open>The loop of \<open>peek_next_section\<close> over \<open>lines[index:]\<close>.\<close>

fun section_loop :: "string list \<Rightarrow> section_state \<Rightarrow> section_state patch_result" where
  "section_loop [] st = Inr st"
| "section_loop (line # rest) st =
     (if starts_with_any SECTION_PREFIXES line then Inr st
      else if line = ''***'' then Inr st
      else if prefix ''***'' line then Inl DiffError
      else
        let s = (if line = [] then '' '' else line)
        in if hd s = CHR ''+'' then section_loop rest (section_line ModeAdd (tl s) st)
           else if hd s = CHR ''-'' then section_loop rest (section_line ModeDelete (tl s) st)
           else if hd s = CHR '' '' then section_loop rest (section_line ModeKeep (tl s) st)
           else Inl DiffError)"

definition section_start :: "nat \<Rightarrow> section_state" where
  "section_start index =
     \<lparr>old = [], sdel = [], sins = [], schunks = [], smode = ModeKeep, sindex = index\<rparr>"

definition peek_next_section ::
  "string list \<Rightarrow> nat \<Rightarrow> (string list \<times> chunk list \<times> nat \<times> bool) patch_result" where
  "peek_next_section lines index =
     bind_patch (section_loop (drop index lines) (section_start index))
       (\<lambda>st0. let st = flush_chunk st0
          in if sindex st < length lines \<and> lines ! sindex st = ''*** End of File''
             then Inr (old st, schunks st, sindex st + 1, True)
             else if sindex st = index then
               Inl (if sindex st < length lines then DiffError else IndexFault)
             else Inr (old st, schunks st, sindex st, False))"

subsection \<open>The place of a section\<close>

definition find_context_core :: "string list \<Rightarrow> string list \<Rightarrow> int \<Rightarrow> int \<times> nat" where
  "find_context_core lines context start =
     (if context = [] then (start, 0)
      else
        let n = int (length context); places = [start..int (length lines) - 1]
        in case find (\<lambda>i. py_slice lines i (i + n) = context) places of
             Some i \<Rightarrow> (i, 0)
           | None \<Rightarrow>
        (case find (\<lambda>i. map rstrip (py_slice lines i (i + n)) = map rstrip context) places of
             Some i \<Rightarrow> (i, 1)
           | None \<Rightarrow>
        (case find (\<lambda>i. map strip (py_slice lines i (i + n)) = map strip context) places of
             Some i \<Rightarrow> (i, 100)
           | None \<Rightarrow> (-1, 0))))"

definition find_context :: "string list \<Rightarrow> string list \<Rightarrow> int \<Rightarrow> bool \<Rightarrow> int \<times> nat" where
  "find_context lines context start eof =
     (if eof then
        let (new_index, fuzz) = find_context_core lines context (int (length lines) - int (length context))
        in if new_index \<noteq> -1 then (new_index, fuzz)
           else let (new_index, fuzz) = find_context_core lines context start
                in (new_index, fuzz + 10000)
      else find_context_core lines context start)"

text \<open>
  The line named after \<open>@@\<close>: the search goes on behind its first occurrence from \<open>index\<close>, unless
  an occurrence lies before \<open>index\<close>; then the same up to surrounding white space.
\<close>

definition find_line :: "(string \<Rightarrow> bool) \<Rightarrow> string list \<Rightarrow> nat \<Rightarrow> nat option" where
  "find_line P lines index =
     (if list_ex P (take index lines) then None
      else map_option (\<lambda>i. index + i + 1) (first_index P (drop index lines)))"

definition seek_def :: "string \<Rightarrow> string list \<Rightarrow> nat \<Rightarrow> nat \<Rightarrow> nat \<times> nat" where
  "seek_def def_str lines index fuzz =
     (if strip def_str = [] then (index, fuzz)
      else case find_line (\<lambda>s. s = def_str) lines index of
             Some i \<Rightarrow> (i, fuzz)
           | None \<Rightarrow>
               (case find_line (\<lambda>s. strip s = strip def_str) lines index of
                  Some i \<Rightarrow> (i, fuzz + 1)
                | None \<Rightarrow> (index, fuzz)))"


text \<open>The parser's moves: what they keep, and that a section consumes lines.\<close>

lemma read_str_Inr:
  assumes "read_str pre everything p = Inr (t, p')"
  shows "pindex p < length (plines p)" "p' = p\<lparr>pindex := pindex p'\<rparr>" "pindex p \<le> pindex p'"
    "t \<noteq> [] \<Longrightarrow> pindex p' = Suc (pindex p)" "pindex p' \<le> Suc (pindex p)"
  using assms by (auto simp: read_str_def Let_def split: if_splits)

lemma read_str_moves:
  assumes "read_str pre everything p = Inr (t, p')"
  shows "pindex p < length (plines p)" "t \<noteq> [] \<Longrightarrow> pindex p' = Suc (pindex p)"
  using read_str_Inr [OF assms] by blast+

lemma flush_chunk_simps [simp]:
  "old (flush_chunk st) = old st" "sindex (flush_chunk st) = sindex st" "smode (flush_chunk st) = smode st"
  "sdel (flush_chunk st) = []" "sins (flush_chunk st) = []"
  by (simp_all add: flush_chunk_def)

lemma section_line_simps [simp]:
  "sindex (section_line md s st) = Suc (sindex st)" "smode (section_line md s st) = md"
  by (simp_all add: section_line_def Let_def split: mode.split)

lemma section_loop_index:
  "section_loop ls st = Inr st' \<Longrightarrow> sindex st \<le> sindex st' \<and> sindex st' \<le> sindex st + length ls"
proof (induction ls arbitrary: st)
  case (Cons l ls)
  then show ?case by (fastforce simp: Let_def split: if_splits)
qed simp

lemma peek_next_section_advances:
  assumes "peek_next_section ls i = Inr (ctx, cs, j, eof)" "i \<le> length ls"
  shows "i < j \<and> j \<le> length ls"
proof -
  obtain st where st: "section_loop (drop i ls) (section_start i) = Inr st"
    using assms(1) by (auto simp: peek_next_section_def bind_patch_Inr_iff)
  then have "i \<le> sindex st" "sindex st \<le> length ls"
    using section_loop_index [OF st] assms(2) by (auto simp: section_start_def)
  then show ?thesis using assms(1) st
    by (auto simp: peek_next_section_def Let_def split: if_splits)
qed

section \<open>The parser\<close>

definition UPDATE_END :: "string list" where
  "UPDATE_END = [''*** End Patch'', ''*** Update File:'', ''*** Delete File:'', ''*** Add File:'', ''*** End of File'']"

text \<open>What stands before a section: \<open>@@\<close> with the text of a line, or alone.\<close>

definition read_section_header :: "parser \<Rightarrow> (string \<times> string \<times> parser) patch_result" where
  "read_section_header p =
     bind_patch (read_str ''@@ '' False p) (\<lambda>(def_str, p1).
       if def_str = [] then
         bind_patch (current_line p1) (\<lambda>line.
           if line = ''@@'' then Inr (def_str, line, p1\<lparr>pindex := pindex p1 + 1\<rparr>)
           else Inr (def_str, [], p1))
       else Inr (def_str, [], p1))"

text \<open>One round of the loop of \<open>parse_update_file\<close>: the new chunks, the new index, the parser.\<close>

definition update_section :: "string list \<Rightarrow> nat \<Rightarrow> parser \<Rightarrow> (chunk list \<times> nat \<times> parser) patch_result" where
  "update_section lines index p =
     bind_patch (read_section_header p) (\<lambda>(def_str, section_str, p1).
       if \<not> (def_str \<noteq> [] \<or> section_str \<noteq> [] \<or> index = 0) then Inl DiffError
       else
         let (index1, fuzz1) = seek_def def_str lines index (pfuzz p1)
         in bind_patch (peek_next_section (plines p1) (pindex p1)) (\<lambda>(next_chunk_context, cs, end_patch_index, eof).
              let (new_index, fuzz) = find_context lines next_chunk_context (int index1) eof
              in if new_index = -1 then Inl DiffError
                 else Inr (map (\<lambda>ch. ch\<lparr>orig_index := orig_index ch + new_index\<rparr>) cs,
                           nat new_index + length next_chunk_context,
                           p1\<lparr>pfuzz := fuzz1 + fuzz, pindex := end_patch_index\<rparr>)))"

lemma read_section_header_Inr:
  assumes "read_section_header p = Inr (d, s, p')"
  shows "p' = p\<lparr>pindex := pindex p'\<rparr> \<and> pindex p \<le> pindex p' \<and> pindex p < length (plines p)"
proof -
  obtain p1 where r: "read_str ''@@ '' False p = Inr (d, p1)"
    and "p' = p1 \<or> p' = p1\<lparr>pindex := pindex p1 + 1\<rparr>"
    using assms by (auto simp: read_section_header_def bind_patch_Inr_iff split: if_splits)
  then show ?thesis using read_str_Inr [OF r] by (auto, metis parser.surjective parser.update_convs(3))
qed


lemma update_sectionE:
  assumes u: "update_section ls i p = Inr (cs, i', p')"
  obtains d s p1 i1 f1 ctx cs0 j eof n f where
    "read_section_header p = Inr (d, s, p1)" "d \<noteq> [] \<or> s \<noteq> [] \<or> i = 0"
    "seek_def d ls i (pfuzz p1) = (i1, f1)"
    "peek_next_section (plines p1) (pindex p1) = Inr (ctx, cs0, j, eof)"
    "find_context ls ctx (int i1) eof = (n, f)" "n \<noteq> -1"
    "cs = map (\<lambda>ch. ch\<lparr>orig_index := orig_index ch + n\<rparr>) cs0" "i' = nat n + length ctx"
    "p' = p1\<lparr>pfuzz := f1 + f, pindex := j\<rparr>"
proof -
  obtain d s p1 where h: "read_section_header p = Inr (d, s, p1)" and i: "d \<noteq> [] \<or> s \<noteq> [] \<or> i = 0"
    using u by (auto simp: update_section_def bind_patch_Inr_iff split: if_splits)
  obtain i1 f1 where seek: "seek_def d ls i (pfuzz p1) = (i1, f1)" by (cases "seek_def d ls i (pfuzz p1)")
  have u1: "bind_patch (peek_next_section (plines p1) (pindex p1)) (\<lambda>(ctx, cs, j, eof).
              let (n, fuzz) = find_context ls ctx (int i1) eof
              in if n = -1 then Inl DiffError
                 else Inr (map (\<lambda>ch. ch\<lparr>orig_index := orig_index ch + n\<rparr>) cs, nat n + length ctx,
                           p1\<lparr>pfuzz := f1 + fuzz, pindex := j\<rparr>)) = Inr (cs, i', p')"
    using u i by (simp add: update_section_def h seek split: if_splits)
  then obtain ctx cs0 j eof where pk: "peek_next_section (plines p1) (pindex p1) = Inr (ctx, cs0, j, eof)"
    by (auto simp: bind_patch_Inr_iff)
  obtain n f where "find_context ls ctx (int i1) eof = (n, f)" by (cases "find_context ls ctx (int i1) eof")
  with that [OF h i seek pk this] u1 show thesis by (auto simp: pk split: if_splits)
qed

lemma update_section_advances:
  assumes "update_section ls i p = Inr (cs, i', p')"
  shows "pindex p < pindex p' \<and> pindex p' \<le> length (plines p) \<and> plines p' = plines p \<and>
    current_files p' = current_files p \<and> actions p' = actions p \<and> pfuzz p \<le> pfuzz p'"
  using assms
proof (cases rule: update_sectionE)
  case (1 d s p1 i1 f1 ctx cs0 j eof n f)
  have "pfuzz p1 \<le> f1" using 1(3) by (auto simp: seek_def_def split: if_splits option.splits)
  moreover have p1: "plines p1 = plines p" "current_files p1 = current_files p" "actions p1 = actions p"
      "pfuzz p1 = pfuzz p" "pindex p \<le> pindex p1"
    using read_section_header_Inr [OF 1(1)] by (metis parser.select_convs parser.surjective parser.update_convs(3))+
  moreover have "pindex p1 \<le> length (plines p)"
  proof -
    obtain q where r: "read_str ''@@ '' False p = Inr (d, q)"
      and q: "p1 = q \<or> p1 = q\<lparr>pindex := pindex q + 1\<rparr> \<and> pindex q < length (plines q)"
      using 1(1) by (auto simp: read_section_header_def bind_patch_Inr_iff current_line_def split: if_splits)
    have "plines q = plines p"
      using read_str_Inr(2) [OF r] by (metis parser.select_convs(2) parser.surjective parser.update_convs(3))
    then show ?thesis using read_str_Inr(1,5) [OF r] q by auto
  qed
  ultimately show ?thesis using peek_next_section_advances [OF 1(4)] 1(9) by auto
qed

function update_loop :: "string list \<Rightarrow> nat \<Rightarrow> parser \<Rightarrow> chunk list \<Rightarrow> (chunk list \<times> parser) patch_result" where
  "update_loop lines index p acc =
     (if is_done UPDATE_END p then Inr (acc, p)
      else case update_section lines index p of
             Inl e \<Rightarrow> Inl e
           | Inr (cs, index', p') \<Rightarrow> update_loop lines index' p' (acc @ cs))"
  by pat_completeness auto

termination
  by (relation "measure (\<lambda>(lines, index, p, acc). length (plines p) - pindex p)")
    (auto dest!: update_section_advances)

declare update_loop.simps [simp del]

definition parse_update_file :: "string \<Rightarrow> parser \<Rightarrow> (patch_action \<times> parser) patch_result" where
  "parse_update_file content p =
     bind_patch (update_loop (split_lines content) 0 p []) (\<lambda>(cs, p').
       Inr (\<lparr>action_type = UPDATE, new_file = None, chunks = cs, move_path = None\<rparr>, p'))"

definition ADD_END :: "string list" where
  "ADD_END = [''*** End Patch'', ''*** Update File:'', ''*** Delete File:'', ''*** Add File:'']"

function add_loop :: "parser \<Rightarrow> string list \<Rightarrow> (string list \<times> parser) patch_result" where
  "add_loop p acc =
     (if is_done ADD_END p then Inr (acc, p)
      else case read_str [] False p of
             Inl e \<Rightarrow> Inl e
           | Inr (s, p') \<Rightarrow> if prefix ''+'' s then add_loop p' (acc @ [tl s]) else Inl DiffError)"
  by pat_completeness auto

termination
  by (relation "measure (\<lambda>(p, acc). length (plines p) - pindex p)") (auto simp: read_str_def split: if_splits)

declare add_loop.simps [simp del]

definition parse_add_file :: "parser \<Rightarrow> (patch_action \<times> parser) patch_result" where
  "parse_add_file p =
     bind_patch (add_loop p []) (\<lambda>(ls, p').
       Inr (\<lparr>action_type = ADD, new_file = Some (join_lines ls), chunks = [], move_path = None\<rparr>, p'))"

text \<open>One round of the loop of \<open>parse\<close>.\<close>

definition parse_update_action :: "string \<Rightarrow> parser \<Rightarrow> parser patch_result" where
  "parse_update_action path p =
     (if path \<in> set (map fst (actions p)) then Inl DiffError
      else bind_patch (read_str ''*** Move to: '' False p) (\<lambda>(move_to, p1).
        if move_to \<noteq> [] \<and> (''..'' \<in> set (split_on (CHR ''/'') move_to) \<or> prefix ''/'' move_to) then Inl DiffError
        else (case current_files p1 path of
                None \<Rightarrow> Inl DiffError
              | Some content \<Rightarrow>
                  bind_patch (parse_update_file content p1) (\<lambda>(act, p2).
                    Inr (p2\<lparr>actions := actions p2 @ [(path, act\<lparr>move_path := Some move_to\<rparr>)]\<rparr>)))))"

definition parse_delete_action :: "string \<Rightarrow> parser \<Rightarrow> parser patch_result" where
  "parse_delete_action path p =
     (if path \<in> set (map fst (actions p)) then Inl DiffError
      else if current_files p path = None then Inl DiffError
      else Inr (p\<lparr>actions := actions p @
             [(path, \<lparr>action_type = DELETE, new_file = None, chunks = [], move_path = None\<rparr>)]\<rparr>))"

definition parse_add_action :: "string \<Rightarrow> parser \<Rightarrow> parser patch_result" where
  "parse_add_action path p =
     (if path \<in> set (map fst (actions p)) then Inl DiffError
      else bind_patch (parse_add_file p) (\<lambda>(act, p1). Inr (p1\<lparr>actions := actions p1 @ [(path, act)]\<rparr>)))"

definition parse_action :: "parser \<Rightarrow> parser patch_result" where
  "parse_action p =
     bind_patch (read_str ''*** Update File: '' False p) (\<lambda>(path, p1).
       if path \<noteq> [] then parse_update_action path p1
       else bind_patch (read_str ''*** Delete File: '' False p1) (\<lambda>(path, p2).
         if path \<noteq> [] then parse_delete_action path p2
         else bind_patch (read_str ''*** Add File: '' False p2) (\<lambda>(path, p3).
           if path \<noteq> [] then parse_add_action path p3
           else bind_patch (current_line p3) (\<lambda>_. Inl DiffError))))"


text \<open>Parsing an action consumes lines and changes only the position, the actions and the fuzz.\<close>

definition parser_after :: "parser \<Rightarrow> parser \<Rightarrow> bool" where
  "parser_after p p' \<longleftrightarrow> pindex p \<le> pindex p' \<and> plines p' = plines p \<and>
     current_files p' = current_files p \<and> pfuzz p \<le> pfuzz p'"

lemma parser_after_refl [simp]: "parser_after p p"
  by (simp add: parser_after_def)

lemma parser_after_trans [trans]: "parser_after p q \<Longrightarrow> parser_after q r \<Longrightarrow> parser_after p r"
  by (auto simp: parser_after_def)

lemma parser_after_read: "read_str pre everything p = Inr (t, p') \<Longrightarrow> parser_after p p' \<and> actions p' = actions p"
  using read_str_Inr [of pre everything p t p']
  by (metis order_refl parser.select_convs parser.surjective parser.update_convs(3) parser_after_def)

lemma update_loop_after:
  "update_loop ls i p acc = Inr (cs, p') \<Longrightarrow> parser_after p p' \<and> actions p' = actions p \<and> is_done UPDATE_END p'"
proof (induction ls i p acc rule: update_loop.induct)
  case (1 ls i p acc)
  show ?case
  proof (cases "is_done UPDATE_END p")
    case True
    then show ?thesis using 1(2) by (simp add: update_loop.simps)
  next
    case False
    then obtain cs1 i1 p1 where u: "update_section ls i p = Inr (cs1, i1, p1)"
      and r: "update_loop ls i1 p1 (acc @ cs1) = Inr (cs, p')"
      using 1(2) by (subst (asm) update_loop.simps) (auto split: sum.splits)
    show ?thesis
      using 1(1) [OF False u _ refl r] update_section_advances [OF u] by (auto simp: parser_after_def)
  qed
qed

lemma add_loop_after:
  "add_loop p acc = Inr (ls, p') \<Longrightarrow> parser_after p p' \<and> actions p' = actions p"
proof (induction p acc rule: add_loop.induct)
  case (1 p acc)
  show ?case
  proof (cases "is_done ADD_END p")
    case True
    then show ?thesis using 1(2) by (simp add: add_loop.simps)
  next
    case False
    then obtain s p1 where r: "read_str [] False p = Inr (s, p1)" "prefix ''+'' s"
      "add_loop p1 (acc @ [tl s]) = Inr (ls, p')"
      using 1(2) by (subst (asm) add_loop.simps) (auto split: sum.splits if_splits)
    then show ?thesis
      using 1(1) [OF False r(1) refl r(2,3)] parser_after_read [OF r(1)] by (auto intro: parser_after_trans)
  qed
qed

lemma parse_update_action_after: "parse_update_action path p = Inr p' \<Longrightarrow> parser_after p p'"
  by (auto simp: parse_update_action_def parse_update_file_def bind_patch_Inr_iff parser_after_def
      dest!: parser_after_read update_loop_after split: if_splits option.splits)

lemma parse_action_advances:
  assumes "parse_action p = Inr p'"
  shows "parser_after p p' \<and> pindex p < pindex p' \<and> pindex p < length (plines p)"
proof -
  obtain path p1 where r1: "read_str ''*** Update File: '' False p = Inr (path, p1)"
    using assms by (auto simp: parse_action_def bind_patch_Inr_iff)
  show ?thesis
  proof (cases "path = []")
    case False
    then have "parse_update_action path p1 = Inr p'" using assms r1 by (simp add: parse_action_def)
    from parse_update_action_after [OF this] show ?thesis
      using parser_after_read [OF r1] read_str_moves [OF r1] False
      by (auto simp: parser_after_def)
  next
    case True
    then obtain path2 p2 where r2: "read_str ''*** Delete File: '' False p1 = Inr (path2, p2)"
      using assms r1 by (auto simp: parse_action_def bind_patch_Inr_iff)
    note a = parser_after_read [OF r1] parser_after_read [OF r2] read_str_moves [OF r1] read_str_moves [OF r2]
    show ?thesis
    proof (cases "path2 = []")
      case False
      then show ?thesis using assms r1 r2 True a
        by (auto simp: parse_action_def parse_delete_action_def parser_after_def split: if_splits)
    next
      case True2: True
      then obtain path3 p3 where r3: "read_str ''*** Add File: '' False p2 = Inr (path3, p3)" "path3 \<noteq> []"
        "parse_add_action path3 p3 = Inr p'"
        using assms r1 r2 True by (auto simp: parse_action_def bind_patch_Inr_iff split: if_splits)
      then show ?thesis using a parser_after_read [OF r3(1)] read_str_moves [OF r3(1)]
        by (auto simp: parse_add_action_def parse_add_file_def bind_patch_Inr_iff parser_after_def
            dest!: add_loop_after split: if_splits)
    qed
  qed
qed

function parse :: "parser \<Rightarrow> parser patch_result" where
  "parse p =
     (if is_done [''*** End Patch''] p then
        bind_patch (startswith [''*** End Patch''] p) (\<lambda>found.
          if \<not> found then Inl DiffError else Inr (p\<lparr>pindex := pindex p + 1\<rparr>))
      else case parse_action p of Inl e \<Rightarrow> Inl e | Inr p' \<Rightarrow> parse p')"
  by pat_completeness auto

termination
  by (relation "measure (\<lambda>p. length (plines p) - pindex p)")
    (auto dest!: parse_action_advances simp: parser_after_def)

declare parse.simps [simp del]

definition text_to_patch ::
  "string \<Rightarrow> (string \<rightharpoonup> string) \<Rightarrow> ((string \<times> patch_action) list \<times> nat) patch_result" where
  "text_to_patch text orig =
     (let lines = split_lines (strip text)
      in if length lines < 2 \<or> \<not> prefix ''*** Begin Patch'' (lines ! 0) \<or> last lines \<noteq> ''*** End Patch''
         then Inl DiffError
         else bind_patch (parse \<lparr>current_files = orig, plines = lines, pindex = 1, actions = [], pfuzz = 0\<rparr>)
                (\<lambda>p. Inr (actions p, pfuzz p)))"

text \<open>\<open>identify_files_needed\<close>.\<close>

definition needed_path :: "string \<Rightarrow> string option" where
  "needed_path line =
     (if prefix ''*** Update File: '' line then Some (drop (length ''*** Update File: '') line)
      else if prefix ''*** Delete File: '' line then Some (drop (length ''*** Delete File: '') line)
      else None)"

definition identify_files_needed :: "string \<Rightarrow> string list" where
  "identify_files_needed text = remdups (List.map_filter needed_path (split_lines (strip text)))"

section \<open>Applying a patch\<close>

fun update_chunks ::
  "string list \<Rightarrow> chunk list \<Rightarrow> string list \<Rightarrow> int \<Rightarrow> int \<Rightarrow> string list patch_result" where
  "update_chunks orig_lines [] dest_lines oi di =
     (let dest = dest_lines @ py_slice orig_lines oi (int (length orig_lines));
          delta = int (length orig_lines) - oi
      in if oi + delta \<noteq> int (length orig_lines) then Inl DiffError
         else if di + delta \<noteq> int (length dest) then Inl DiffError
         else Inr dest)"
| "update_chunks orig_lines (ch # chs) dest_lines oi di =
     (if orig_index ch > int (length orig_lines) then Inl DiffError
      else if oi > orig_index ch then Inl DiffError
      else
        let delta = orig_index ch - oi
        in update_chunks orig_lines chs
             (dest_lines @ py_slice orig_lines oi (orig_index ch) @ ins_lines ch)
             (oi + delta + int (length (del_lines ch)))
             (di + delta + int (length (ins_lines ch))))"

definition get_updated_file :: "string \<Rightarrow> patch_action \<Rightarrow> string patch_result" where
  "get_updated_file content act =
     (if action_type act \<noteq> UPDATE then Inl DiffError
      else bind_patch (update_chunks (split_lines content) (chunks act) [] 0 0) (\<lambda>dest. Inr (join_lines dest)))"

fun patch_to_commit :: "(string \<times> patch_action) list \<Rightarrow> (string \<rightharpoonup> string) \<Rightarrow> commit patch_result" where
  "patch_to_commit [] orig = Inr []"
| "patch_to_commit ((path, act) # acts) orig =
     bind_patch
       (case action_type act of
          DELETE \<Rightarrow>
            (case orig path of
               None \<Rightarrow> Inl KeyFault
             | Some content \<Rightarrow>
                 Inr \<lparr>change_type = DELETE, old_content = Some content, new_content = None, change_move_path = None\<rparr>)
        | ADD \<Rightarrow>
            Inr \<lparr>change_type = ADD, old_content = None, new_content = new_file act, change_move_path = None\<rparr>
        | UPDATE \<Rightarrow>
            (case orig path of
               None \<Rightarrow> Inl KeyFault
             | Some content \<Rightarrow>
                 bind_patch (get_updated_file content act) (\<lambda>new.
                   Inr \<lparr>change_type = UPDATE, old_content = Some content, new_content = Some new,
                        change_move_path = move_path act\<rparr>)))
       (\<lambda>ch. bind_patch (patch_to_commit acts orig) (\<lambda>changes. Inr ((path, ch) # changes)))"

text \<open>The injected input and output, over a state of the file system.\<close>

record 's file_io =
  open_fn :: "string \<Rightarrow> 's \<Rightarrow> string patch_result"
  write_fn :: "string \<Rightarrow> string \<Rightarrow> 's \<Rightarrow> patch_error option \<times> 's"
  remove_fn :: "string \<Rightarrow> 's \<Rightarrow> patch_error option \<times> 's"

fun load_files :: "'s file_io \<Rightarrow> string list \<Rightarrow> 's \<Rightarrow> (string \<rightharpoonup> string) patch_result" where
  "load_files io [] s = Inr Map.empty"
| "load_files io (path # paths) s =
     (case open_fn io path s of
        Inl e \<Rightarrow> Inl (if e = OSFault FileNotFoundError then DiffError else e)
      | Inr content \<Rightarrow> bind_patch (load_files io paths s) (\<lambda>orig. Inr (orig(path \<mapsto> content))))"

definition apply_change :: "'s file_io \<Rightarrow> string \<Rightarrow> file_change \<Rightarrow> 's \<Rightarrow> patch_error option \<times> 's" where
  "apply_change io path ch s =
     (case change_type ch of
        DELETE \<Rightarrow> remove_fn io path s
      | ADD \<Rightarrow>
          (case new_content ch of None \<Rightarrow> (Some DiffError, s) | Some content \<Rightarrow> write_fn io path content s)
      | UPDATE \<Rightarrow>
          (case new_content ch of
             None \<Rightarrow> (Some DiffError, s)
           | Some content \<Rightarrow>
               if truthy (change_move_path ch) then
                 (case write_fn io (the (change_move_path ch)) content s of
                    (Some e, s1) \<Rightarrow> (Some e, s1)
                  | (None, s1) \<Rightarrow> remove_fn io path s1)
               else write_fn io path content s))"

fun apply_commit :: "'s file_io \<Rightarrow> commit \<Rightarrow> 's \<Rightarrow> patch_error option \<times> 's" where
  "apply_commit io [] s = (None, s)"
| "apply_commit io ((path, ch) # changes) s =
     (case apply_change io path ch s of
        (Some e, s1) \<Rightarrow> (Some e, s1)
      | (None, s1) \<Rightarrow> apply_commit io changes s1)"

text \<open>\<open>process_patch\<close>; its result is the fuzz and the commit, next to the constant message.\<close>

definition plan_patch :: "'s file_io \<Rightarrow> string \<Rightarrow> 's \<Rightarrow> (nat \<times> commit) patch_result" where
  "plan_patch io text s =
     (if \<not> prefix ''*** Begin Patch'' text then Inl DiffError
      else bind_patch (load_files io (identify_files_needed text) s) (\<lambda>orig.
        bind_patch (text_to_patch text orig) (\<lambda>(patch, fuzz).
          bind_patch (patch_to_commit patch orig) (\<lambda>commit. Inr (fuzz, commit)))))"

definition process_patch :: "'s file_io \<Rightarrow> string \<Rightarrow> 's \<Rightarrow> (string \<times> nat \<times> commit) patch_result \<times> 's" where
  "process_patch io text s =
     (case plan_patch io text s of
        Inl e \<Rightarrow> (Inl e, s)
      | Inr (fuzz, commit) \<Rightarrow>
          (case apply_commit io commit s of
             (Some e, s') \<Rightarrow> (Inl e, s')
           | (None, s') \<Rightarrow> (Inr (''Done!'', fuzz, commit), s')))"

section \<open>The executor\<close>

record patch_env =
  workspace_root :: "string list"
  realpath :: "string list \<Rightarrow> string list"
  read_error :: "string list \<Rightarrow> py_error option"
  write_error :: "string list \<Rightarrow> py_error option"
  remove_error :: "string list \<Rightarrow> py_error option"

type_synonym disk = "string list \<rightharpoonup> string"

text \<open>The parts of a path as \<open>pathlib\<close> reads it.\<close>

definition path_parts :: "string \<Rightarrow> string list" where
  "path_parts p = filter (\<lambda>x. x \<noteq> [] \<and> x \<noteq> ''.'') (split_on (CHR ''/'') p)"

definition resolve_path :: "patch_env \<Rightarrow> string \<Rightarrow> string list patch_result" where
  "resolve_path env p =
     (let pth = (if \<not> prefix ''/'' p then realpath env (workspace_root env @ path_parts p)
                 else realpath env (path_parts p))
      in if \<not> prefix (workspace_root env) pth then Inl DiffError else Inr pth)"

text \<open>Reading a text file turns every CR LF and CR into a line feed.\<close>

fun universal_newlines :: "string \<Rightarrow> string" where
  "universal_newlines [] = []"
| "universal_newlines [c] = (if c = CHR 0x0D then [CHR 0x0A] else [c])"
| "universal_newlines (c # d # cs) =
     (if c = CHR 0x0D \<and> d = CHR 0x0A then CHR 0x0A # universal_newlines cs
      else (if c = CHR 0x0D then CHR 0x0A else c) # universal_newlines (d # cs))"

definition open_file :: "patch_env \<Rightarrow> string \<Rightarrow> disk \<Rightarrow> string patch_result" where
  "open_file env path d =
     bind_patch (resolve_path env path) (\<lambda>fp.
       case d fp of
         None \<Rightarrow> Inl (OSFault FileNotFoundError)
       | Some content \<Rightarrow>
           (case read_error env fp of Some e \<Rightarrow> Inl (OSFault e) | None \<Rightarrow> Inr (universal_newlines content)))"

definition write_file :: "patch_env \<Rightarrow> string \<Rightarrow> string \<Rightarrow> disk \<Rightarrow> patch_error option \<times> disk" where
  "write_file env path content d =
     (case resolve_path env path of
        Inl e \<Rightarrow> (Some e, d)
      | Inr fp \<Rightarrow>
          (case write_error env fp of Some e \<Rightarrow> (Some (OSFault e), d) | None \<Rightarrow> (None, d(fp \<mapsto> content))))"

definition remove_file :: "patch_env \<Rightarrow> string \<Rightarrow> disk \<Rightarrow> patch_error option \<times> disk" where
  "remove_file env path d =
     (case resolve_path env path of
        Inl e \<Rightarrow> (Some e, d)
      | Inr fp \<Rightarrow>
          if d fp = None then (Some (OSFault FileNotFoundError), d)
          else (case remove_error env fp of Some e \<Rightarrow> (Some (OSFault e), d) | None \<Rightarrow> (None, d(fp := None))))"

definition executor_io :: "patch_env \<Rightarrow> disk file_io" where
  "executor_io env = \<lparr>open_fn = open_file env, write_fn = write_file env, remove_fn = remove_file env\<rparr>"

record patch_observation =
  obs_is_error :: bool
  obs_message :: string
  obs_fuzz :: nat
  obs_commit :: "commit option"

definition execute_patch :: "patch_env \<Rightarrow> string \<Rightarrow> disk \<Rightarrow> patch_observation patch_result \<times> disk" where
  "execute_patch env text d =
     (case process_patch (executor_io env) text d of
        (Inr (msg, fuzz, commit), d') \<Rightarrow>
          (Inr \<lparr>obs_is_error = False, obs_message = msg, obs_fuzz = fuzz, obs_commit = Some commit\<rparr>, d')
      | (Inl e, d') \<Rightarrow>
          if e = DiffError
          then (Inr \<lparr>obs_is_error = True, obs_message = [], obs_fuzz = 0, obs_commit = None\<rparr>, d')
          else (Inl e, d'))"


section \<open>Results that fail only with \<open>DiffError\<close>\<close>

definition only_diff_error :: "'a patch_result \<Rightarrow> bool" where
  "only_diff_error m \<longleftrightarrow> (\<forall>e. m = Inl e \<longrightarrow> e = DiffError)"

lemma only_diff_error_simps [simp]: "only_diff_error (Inr x)" "only_diff_error (Inl DiffError)"
  by (simp_all add: only_diff_error_def)

lemma only_diff_error_bind:
  "only_diff_error m \<Longrightarrow> (\<And>x. m = Inr x \<Longrightarrow> only_diff_error (f x)) \<Longrightarrow> only_diff_error (bind_patch m f)"
  by (cases m) (auto simp: only_diff_error_def)

lemma update_chunks_errors: "only_diff_error (update_chunks ls cs dest i j)"
  by (induction cs arbitrary: dest i j) (simp_all add: Let_def)

lemma get_updated_file_errors: "only_diff_error (get_updated_file content act)"
  by (auto simp: get_updated_file_def intro!: only_diff_error_bind update_chunks_errors)

end
