(* ===== verification/Patch_Sections.thy ===== *)
theory Patch_Sections
  imports Apply_Patch
begin

text \<open>
  What an update of a file does (\<open>parse_update_file\<close> and \<open>_get_updated_file\<close> of
  \<open>apply_patch/core.py\<close>): sections as lists of edits, the chunks \<open>peek_next_section\<close> makes of them, the
  place \<open>find_context\<close> gives them, and the lines that result.
\<close>

section \<open>Sections as edits\<close>

text \<open>
  The specification of an update: each line of a section keeps, deletes or inserts one line. \<open>splice\<close>
  carries the edits of a section out on the lines it was matched with; a kept line is the line of the
  file, not the one of the patch.
\<close>

datatype line_edit = Keep string | Del string | Ins string

definition is_edit_line :: "string \<Rightarrow> bool" where
  "is_edit_line line \<longleftrightarrow> \<not> prefix ''@@'' line \<and> \<not> prefix ''***'' line"

definition read_edit :: "string \<Rightarrow> line_edit" where
  "read_edit line =
     (if line = [] then Keep []
      else if hd line = CHR ''+'' then Ins (tl line)
      else if hd line = CHR ''-'' then Del (tl line)
      else Keep (tl line))"

fun old_of :: "line_edit list \<Rightarrow> string list" where
  "old_of [] = []"
| "old_of (Keep s # es) = s # old_of es"
| "old_of (Del s # es) = s # old_of es"
| "old_of (Ins s # es) = old_of es"

fun splice_edits :: "line_edit list \<Rightarrow> string list \<Rightarrow> string list" where
  "splice_edits [] ls = []"
| "splice_edits (Keep s # es) ls = take 1 ls @ splice_edits es (drop 1 ls)"
| "splice_edits (Del s # es) ls = splice_edits es (drop 1 ls)"
| "splice_edits (Ins s # es) ls = s # splice_edits es ls"

fun hunks_ok :: "nat \<Rightarrow> nat \<Rightarrow> (nat \<times> line_edit list) list \<Rightarrow> bool" where
  "hunks_ok N i [] \<longleftrightarrow> i \<le> N"
| "hunks_ok N i ((n, es) # hs) \<longleftrightarrow> i \<le> n \<and> hunks_ok N (n + length (old_of es)) hs"

fun apply_hunks :: "string list \<Rightarrow> nat \<Rightarrow> (nat \<times> line_edit list) list \<Rightarrow> string list" where
  "apply_hunks ls i [] = drop i ls"
| "apply_hunks ls i ((n, es) # hs) =
     take (n - i) (drop i ls) @ splice_edits es (take (length (old_of es)) (drop n ls)) @
     apply_hunks ls (n + length (old_of es)) hs"

lemma old_of_append: "old_of (es @ fs) = old_of es @ old_of fs"
  by (induction es rule: old_of.induct) simp_all

lemma splice_append:
  "length ls = length (old_of es) \<Longrightarrow> splice_edits (es @ fs) (ls @ ms) = splice_edits es ls @ splice_edits fs ms"
proof (induction es arbitrary: ls)
  case (Cons e es)
  show ?case
  proof (cases e)
    case (Ins s)
    then show ?thesis using Cons by simp
  next
    case (Keep s)
    then show ?thesis using Cons by (cases ls) simp_all
  next
    case (Del s)
    then show ?thesis using Cons by (cases ls) simp_all
  qed
qed simp

subsection \<open>Chunks\<close>

text \<open>The chunks of a section, applied to a list of lines from position \<open>i\<close> on.\<close>

fun in_order :: "int \<Rightarrow> int \<Rightarrow> chunk list \<Rightarrow> bool" where
  "in_order N i [] \<longleftrightarrow> i \<le> N"
| "in_order N i (c # cs) \<longleftrightarrow> i \<le> orig_index c \<and> in_order N (orig_index c + int (length (del_lines c))) cs"

fun apply_chunks :: "string list \<Rightarrow> int \<Rightarrow> chunk list \<Rightarrow> string list" where
  "apply_chunks ls i [] = drop (nat i) ls"
| "apply_chunks ls i (c # cs) =
     take (nat (orig_index c - i)) (drop (nat i) ls) @ ins_lines c @
     apply_chunks ls (orig_index c + int (length (del_lines c))) cs"

lemma in_order_le: "in_order N i cs \<Longrightarrow> i \<le> N"
  by (induction cs arbitrary: i) force+

lemma in_order_mono: "in_order N i cs \<Longrightarrow> j \<le> i \<Longrightarrow> in_order N j cs"
  by (cases cs) auto

lemma update_chunks_in_order:
  assumes "in_order (int (length ls)) i cs" "0 \<le> i"
  shows "update_chunks ls cs dest i (int (length dest)) = Inr (dest @ apply_chunks ls i cs)"
  using assms
proof (induction cs arbitrary: i dest)
  case Nil
  then show ?case by (simp add: py_slice_def py_bound_def Let_def)
next
  case (Cons c cs)
  let ?j = "orig_index c + int (length (del_lines c))"
  have le: "orig_index c \<le> int (length ls)" using in_order_le Cons.prems by fastforce
  have slice: "py_slice ls i (orig_index c) = take (nat (orig_index c - i)) (drop (nat i) ls)"
    using Cons.prems le by (simp add: py_slice_in_range nat_diff_distrib')
  have "nat (orig_index c - i) \<le> length ls - nat i" using Cons.prems le by linarith
  then have len: "int (length (take (nat (orig_index c - i)) (drop (nat i) ls))) = orig_index c - i"
    using Cons.prems by simp
  have "update_chunks ls cs (dest @ py_slice ls i (orig_index c) @ ins_lines c) ?j
      (int (length (dest @ py_slice ls i (orig_index c) @ ins_lines c))) =
      Inr ((dest @ py_slice ls i (orig_index c) @ ins_lines c) @ apply_chunks ls ?j cs)"
    using Cons.prems by (intro Cons.IH) auto
  moreover have "int (length (dest @ py_slice ls i (orig_index c) @ ins_lines c)) =
      int (length dest) + (orig_index c - i) + int (length (ins_lines c))"
    using len by (simp add: slice)
  ultimately show ?case using Cons.prems le by (simp add: slice Let_def del: length_append)
qed

text \<open>A prefix of the lines with its chunks, and what follows behind it.\<close>

lemma apply_chunks_skip:
  assumes "in_order (int (length (ws @ ms))) (int (length ws)) ds" "i \<le> int (length ws)" "0 \<le> i"
  shows "apply_chunks (ws @ ms) i ds = drop (nat i) ws @ apply_chunks (ws @ ms) (int (length ws)) ds"
proof (cases ds)
  case Nil
  then show ?thesis using assms(2,3) by simp
next
  case (Cons d ds')
  have "int (length ws) \<le> orig_index d" using assms(1) Cons by simp
  then have "length ws - nat i \<le> nat (orig_index d - i)" "nat i - length ws = 0"
    "nat (orig_index d - i) - (length ws - nat i) = nat (orig_index d - int (length ws))"
    using assms(2,3) by linarith+
  then show ?thesis using Cons by simp
qed

lemma apply_chunks_join:
  assumes "in_order (int (length ws)) i cs" "0 \<le> i"
    and "in_order (int (length (ws @ ms))) (int (length ws)) ds"
  shows "apply_chunks (ws @ ms) i (cs @ ds) = apply_chunks ws i cs @ apply_chunks (ws @ ms) (int (length ws)) ds \<and>
    in_order (int (length (ws @ ms))) i (cs @ ds)"
  using assms(1,2)
proof (induction cs arbitrary: i)
  case Nil
  have "in_order (int (length (ws @ ms))) i ds"
    using Nil assms(3) by (cases ds) auto
  moreover have "apply_chunks (ws @ ms) i ds = drop (nat i) ws @ apply_chunks (ws @ ms) (int (length ws)) ds"
    using Nil by (intro apply_chunks_skip [OF assms(3)]) simp_all
  ultimately show ?case by (simp only: append_Nil apply_chunks.simps)
next
  case (Cons c cs)
  let ?j = "orig_index c + int (length (del_lines c))"
  have "?j \<le> int (length ws)" "orig_index c \<le> int (length ws)" using Cons.prems in_order_le by force+
  then have "nat (orig_index c - i) \<le> length ws - nat i" using Cons.prems by linarith
  then show ?case using Cons.IH [of ?j] Cons.prems by simp
qed


subsection \<open>What a section does\<close>

fun run_edit :: "line_edit \<Rightarrow> section_state \<Rightarrow> section_state" where
  "run_edit (Keep s) st = section_line ModeKeep s st"
| "run_edit (Del s) st = section_line ModeDelete s st"
| "run_edit (Ins s) st = section_line ModeAdd s st"

lemma section_loop_edits:
  assumes "section_loop ls st = Inr st'"
  shows "\<exists>k \<le> length ls. st' = fold run_edit (map read_edit (take k ls)) st \<and>
    list_all is_edit_line (take k ls) \<and> (k < length ls \<longrightarrow> \<not> is_edit_line (ls ! k)) \<and> sindex st' = sindex st + k"
  using assms
proof (induction ls arbitrary: st)
  case Nil
  then show ?case by simp
next
  case (Cons l ls)
  show ?case
  proof (cases "starts_with_any SECTION_PREFIXES l \<or> prefix ''***'' l")
    case True
    then have "st' = st" using Cons.prems by (auto simp: prefix_def split: if_splits)
    moreover have "\<not> is_edit_line l"
      using True by (auto simp: is_edit_line_def starts_with_any_def SECTION_PREFIXES_def prefix_def)
    ultimately show ?thesis by (intro exI [of _ 0]) simp
  next
    case False
    then have el: "is_edit_line l"
      by (auto simp: is_edit_line_def starts_with_any_def SECTION_PREFIXES_def)
    have "section_loop ls (run_edit (read_edit l) st) = Inr st'"
      using Cons.prems False by (auto simp: read_edit_def Let_def split: if_splits)
    from Cons.IH [OF this] obtain k where k: "k \<le> length ls"
      "st' = fold run_edit (map read_edit (take k ls)) (run_edit (read_edit l) st)"
      "list_all is_edit_line (take k ls)" "k < length ls \<longrightarrow> \<not> is_edit_line (ls ! k)"
      "sindex st' = sindex (run_edit (read_edit l) st) + k" by blast
    moreover have "sindex (run_edit (read_edit l) st) = Suc (sindex st)" by (cases "read_edit l") simp_all
    ultimately show ?thesis using el by (intro exI [of _ "Suc k"]) simp
  qed
qed

text \<open>
  The invariant of the loop: the closed chunks and the pending one carry out the edits read so far
  on the lines \<open>ws\<close> they stand for.
\<close>

definition section_inv :: "line_edit list \<Rightarrow> section_state \<Rightarrow> bool" where
  "section_inv es st \<longleftrightarrow>
     old st = old_of es \<and> length (sdel st) \<le> length (old st) \<and>
     (smode st = ModeKeep \<longrightarrow> sdel st = [] \<and> sins st = []) \<and>
     in_order (int (length (old st) - length (sdel st))) 0 (schunks st) \<and>
     (\<forall>ws. length ws = length (old st) \<longrightarrow>
        splice_edits es ws =
          apply_chunks (take (length (old st) - length (sdel st)) ws) 0 (schunks st) @ sins st)"

lemma flush_applies:
  assumes "in_order (int (length (old st) - length (sdel st))) 0 (schunks st)"
    "length (sdel st) \<le> length (old st)" "length ws = length (old st)"
  shows "in_order (int (length (ws @ ms))) 0 (schunks (flush_chunk st)) \<and>
    apply_chunks (ws @ ms) 0 (schunks (flush_chunk st)) =
      apply_chunks (take (length (old st) - length (sdel st)) ws) 0 (schunks st) @ sins st @ ms"
proof -
  let ?k = "length (old st) - length (sdel st)"
  have ws: "take ?k ws @ drop ?k ws @ ms = ws @ ms" "length (take ?k ws) = ?k" using assms(3) by simp_all
  let ?ds = "if sins st \<noteq> [] \<or> sdel st \<noteq> [] then
      [\<lparr>orig_index = int (length (old st)) - int (length (sdel st)), del_lines = sdel st, ins_lines = sins st\<rparr>] else []"
  have flush: "schunks (flush_chunk st) = schunks st @ ?ds" by (simp add: flush_chunk_def)
  have ds: "in_order (int (length (take ?k ws @ drop ?k ws @ ms))) (int (length (take ?k ws))) ?ds"
    using assms(2,3) by (simp add: of_nat_diff)
  have io: "in_order (int (length (take ?k ws))) 0 (schunks st)" using assms(1) ws(2) by simp
  have "apply_chunks (ws @ ms) (int ?k) ?ds = sins st @ ms"
    using assms(2,3) by (auto simp: of_nat_diff)
  then show ?thesis using apply_chunks_join [OF io _ ds] ws flush by simp
qed

lemma section_invD:
  assumes "section_inv es st"
  shows "old st = old_of es" "length (sdel st) \<le> length (old_of es)"
    "smode st = ModeKeep \<Longrightarrow> sdel st = []" "smode st = ModeKeep \<Longrightarrow> sins st = []"
    "in_order (int (length (old_of es) - length (sdel st))) 0 (schunks st)"
    "length ws = length (old_of es) \<Longrightarrow>
      splice_edits es ws = apply_chunks (take (length (old_of es) - length (sdel st)) ws) 0 (schunks st) @ sins st"
  using assms unfolding section_inv_def by metis+

lemma section_invI:
  assumes "old st = old_of es" "length (sdel st) \<le> length (old_of es)"
    "smode st = ModeKeep \<Longrightarrow> sdel st = [] \<and> sins st = []"
    "in_order (int (length (old_of es) - length (sdel st))) 0 (schunks st)"
    "\<And>ws. length ws = length (old_of es) \<Longrightarrow>
      splice_edits es ws = apply_chunks (take (length (old_of es) - length (sdel st)) ws) 0 (schunks st) @ sins st"
  shows "section_inv es st"
  using assms unfolding section_inv_def by metis

lemma run_edit_inv:
  assumes inv: "section_inv es st"
  shows "section_inv (es @ [e]) (run_edit e st)"
proof (cases e)
  case (Ins s)
  note simps = Ins section_line_def Let_def old_of_append
  have sp: "splice_edits (es @ [Ins s]) ws = splice_edits es ws @ [s]" if "length ws = length (old_of es)" for ws
    using splice_append [of ws es "[Ins s]" "[]"] that by simp
  show ?thesis
  proof (rule section_invI)
    fix ws :: "string list"
    assume "length ws = length (old_of (es @ [e]))"
    then have "length ws = length (old_of es)" by (simp add: simps)
    then show "splice_edits (es @ [e]) ws = apply_chunks (take (length (old_of (es @ [e])) - length (sdel (run_edit e st))) ws)
        0 (schunks (run_edit e st)) @ sins (run_edit e st)"
      using sp section_invD(6) [OF inv] by (simp add: simps)
  qed (use section_invD(1-5) [OF inv] in \<open>simp_all add: simps\<close>)
next
  case (Del s)
  note simps = Del section_line_def Let_def old_of_append
  have sp: "splice_edits (es @ [Del s]) (ws @ [w]) = splice_edits es ws" if "length ws = length (old_of es)" for ws w
    using splice_append [of ws es "[Del s]" "[w]"] that by simp
  show ?thesis
  proof (rule section_invI)
    fix vs :: "string list"
    assume "length vs = length (old_of (es @ [e]))"
    then obtain ws w where vs: "vs = ws @ [w]" "length ws = length (old_of es)"
      by (cases vs rule: rev_cases) (auto simp: simps)
    then show "splice_edits (es @ [e]) vs = apply_chunks (take (length (old_of (es @ [e])) - length (sdel (run_edit e st))) vs)
        0 (schunks (run_edit e st)) @ sins (run_edit e st)"
      using sp section_invD(6) [OF inv] by (simp add: simps)
  qed (use section_invD(1-5) [OF inv] in \<open>simp_all add: simps\<close>)
next
  case (Keep s)
  let ?st = "(flush_chunk st)\<lparr>smode := ModeKeep, sindex := Suc (sindex st), old := old st @ [s]\<rparr>"
  have sp: "splice_edits (es @ [Keep s]) (ws @ [w]) = splice_edits es ws @ [w]" if "length ws = length (old_of es)" for ws w
    using splice_append [of ws es "[Keep s]" "[w]"] that by simp
  have line: "run_edit e st = ?st"
    using section_invD(3,4) [OF inv] by (cases "smode st") (simp_all add: Keep section_line_def Let_def flush_chunk_def)
  have fl: "in_order (int (length (ws @ ms))) 0 (schunks (flush_chunk st)) \<and>
      apply_chunks (ws @ ms) 0 (schunks (flush_chunk st)) = splice_edits es ws @ ms"
    if "length ws = length (old_of es)" for ws ms
    using flush_applies [of st ws ms] section_invD(1,2,5) [OF inv] section_invD(6) [OF inv that] that by simp
  show ?thesis unfolding line
  proof (rule section_invI)
    fix vs :: "string list"
    assume "length vs = length (old_of (es @ [e]))"
    then obtain ws w where vs: "vs = ws @ [w]" "length ws = length (old_of es)"
      by (cases vs rule: rev_cases) (auto simp: Keep old_of_append)
    then show "splice_edits (es @ [e]) vs = apply_chunks (take (length (old_of (es @ [e])) - length (sdel ?st)) vs)
        0 (schunks ?st) @ sins ?st"
      using sp fl [of ws "[w]"] by (simp add: Keep old_of_append)
  next
    show "in_order (int (length (old_of (es @ [e])) - length (sdel ?st))) 0 (schunks ?st)"
      using fl [of "old_of es" "[s]"] by (simp add: Keep old_of_append)
  qed (use section_invD(1) [OF inv] in \<open>simp_all add: Keep old_of_append\<close>)
qed

lemma run_edits_inv: "section_inv es (fold run_edit es (section_start i))"
proof (induction es rule: rev_induct)
  case Nil
  then show ?case by (simp add: section_inv_def section_start_def)
next
  case (snoc e es)
  then show ?case using run_edit_inv by simp
qed

definition section_chunks :: "line_edit list \<Rightarrow> chunk list" where
  "section_chunks es = schunks (flush_chunk (fold run_edit es (section_start 0)))"

lemma section_chunks_apply:
  assumes "length ws = length (old_of es)"
  shows "in_order (int (length ws)) 0 (section_chunks es) \<and> apply_chunks ws 0 (section_chunks es) = splice_edits es ws"
proof -
  let ?st = "fold run_edit es (section_start 0)"
  note inv = run_edits_inv [of es 0]
  have "in_order (int (length (old ?st) - length (sdel ?st))) 0 (schunks ?st)"
    "length (sdel ?st) \<le> length (old ?st)" "length ws = length (old ?st)"
    using section_invD(1,2,5) [OF inv] assms by simp_all
  from flush_applies [OF this, of "[]"] show ?thesis
    using section_invD(1) [OF inv] section_invD(6) [OF inv assms]
    by (simp only: section_chunks_def append_Nil2)
qed

text \<open>Moving chunks by an offset, and the lines in front of them.\<close>

abbreviation shift_chunks :: "int \<Rightarrow> chunk list \<Rightarrow> chunk list" where
  "shift_chunks n \<equiv> map (\<lambda>ch. ch\<lparr>orig_index := orig_index ch + n\<rparr>)"

lemma shift_chunks_apply:
  "0 \<le> i \<Longrightarrow> in_order (int (length ws)) i cs \<Longrightarrow>
   in_order (int (length (us @ ws))) (i + int (length us)) (shift_chunks (int (length us)) cs) \<and>
   apply_chunks (us @ ws) (i + int (length us)) (shift_chunks (int (length us)) cs) = apply_chunks ws i cs"
proof (induction cs arbitrary: i)
  case Nil
  then show ?case by (simp add: nat_add_distrib)
next
  case (Cons c cs)
  let ?j = "orig_index c + int (length (del_lines c))"
  have "nat (i + int (length us)) = nat i + length us" using Cons.prems by simp
  then show ?case using Cons.IH [of ?j] Cons.prems by (simp add: algebra_simps)
qed

definition hunk_chunks :: "nat \<times> line_edit list \<Rightarrow> chunk list" where
  "hunk_chunks h = shift_chunks (int (fst h)) (section_chunks (snd h))"

text \<open>Chunks of sections in order do what the sections say.\<close>

lemma hunks_apply:
  "hunks_ok (length ls) i hs \<Longrightarrow>
   in_order (int (length ls)) (int i) (concat (map hunk_chunks hs)) \<and>
   apply_chunks ls (int i) (concat (map hunk_chunks hs)) = apply_hunks ls i hs"
proof (induction hs arbitrary: i)
  case Nil
  then show ?case by simp
next
  case (Cons h hs)
  obtain n es where h: "h = (n, es)" by (cases h)
  let ?m = "length (old_of es)" and ?cs = "hunk_chunks (n, es)" and ?ds = "concat (map hunk_chunks hs)"
  have ok: "i \<le> n" "hunks_ok (length ls) (n + ?m) hs" using Cons.prems h by simp_all
  note IH = Cons.IH [OF ok(2)]
  have nm: "n + ?m \<le> length ls" using in_order_le IH by fastforce
  let ?us = "take n ls" and ?ws = "take ?m (drop n ls)" and ?ms = "drop (n + ?m) ls"
  have ls: "(?us @ ?ws) @ ?ms = ls" by (metis append_take_drop_id take_add)
  have len: "length ?us = n" "length ?ws = ?m" "length (?us @ ?ws) = n + ?m" using nm by simp_all
  note sec = section_chunks_apply [OF len(2)]
  have cs: "in_order (int (length (?us @ ?ws))) (int n) ?cs \<and> apply_chunks (?us @ ?ws) (int n) ?cs = splice_edits es ?ws"
    using shift_chunks_apply [of 0 ?ws "section_chunks es" ?us] sec
    by (simp only: hunk_chunks_def fst_conv snd_conv len(1) add_0 order.refl)
  have ds: "in_order (int (length ((?us @ ?ws) @ ?ms))) (int (length (?us @ ?ws))) ?ds"
    using IH len ls by simp
  have join: "apply_chunks ls (int n) (?cs @ ?ds) = splice_edits es ?ws @ apply_hunks ls (n + ?m) hs"
    "in_order (int (length ls)) (int n) (?cs @ ?ds)"
    using apply_chunks_join [OF conjunct1 [OF cs] of_nat_0_le_iff ds] IH
    unfolding ls len(3) conjunct2 [OF cs] by simp_all
  have A: "apply_chunks ls (int i) (?cs @ ?ds) = take (n - i) (drop i ls) @ apply_chunks ls (int n) (?cs @ ?ds)"
    using apply_chunks_skip [of ?us "drop n ls" "?cs @ ?ds" "int i"] join(2) ok(1)
    unfolding append_take_drop_id len(1) by (simp add: drop_take)
  have B: "in_order (int (length ls)) (int i) (?cs @ ?ds)"
    by (rule in_order_mono [OF join(2)]) (simp add: ok(1))
  show ?case
    unfolding h list.map concat.simps apply_hunks.simps A join(1) by (intro conjI B refl)
qed


subsection \<open>The place that is found\<close>

lemma rstrip_Cons: "rstrip (c # cs) = (if rstrip cs = [] \<and> is_space c then [] else c # rstrip cs)"
proof (cases "dropWhile is_space (rev cs)")
  case Nil
  then have "dropWhile is_space (rev cs @ [c]) = dropWhile is_space [c]"
    by (intro dropWhile_append2) (simp add: dropWhile_eq_Nil_conv)
  then show ?thesis using Nil by (simp add: rstrip_def)
next
  case (Cons d ds)
  then have "\<not> (\<forall>x \<in> set (rev cs). is_space x)" by (metis dropWhile_eq_Nil_conv list.distinct(1))
  then obtain x where "x \<in> set (rev cs)" "\<not> is_space x" by blast
  then show ?thesis using Cons by (simp add: rstrip_def dropWhile_append1)
qed

lemma strip_rstrip: "strip s = lstrip (rstrip s)"
proof (induction s)
  case Nil
  then show ?case by (simp add: strip_def lstrip_def rstrip_def)
next
  case (Cons c cs)
  then show ?case by (cases "is_space c") (auto simp: strip_def lstrip_def rstrip_Cons)
qed

lemma map_strip_of_rstrip:
  assumes "map rstrip ls = map rstrip ms"
  shows "map strip ls = map strip ms"
proof -
  have "map strip ks = map lstrip (map rstrip ks)" for ks by (simp add: strip_rstrip)
  then show ?thesis using assms by (simp only:)
qed

lemma find_SomeD: "find P xs = Some x \<Longrightarrow> x \<in> set xs \<and> P x"
  by (induction xs) (auto split: if_splits)

lemma slice_at:
  assumes "i < int (length ls)" "length (py_slice ls i (i + int m)) = m" "0 \<le> i \<or> length ls < m"
  shows "0 \<le> i \<and> nat i + m \<le> length ls \<and> py_slice ls i (i + int m) = take m (drop (nat i) ls)"
proof -
  have "length (py_slice ls i (i + int m)) \<le> length ls" by (simp add: py_slice_def Let_def)
  then have i: "0 \<le> i" using assms(2,3) by linarith
  then have "nat i < length ls" using assms(1) by simp
  have b: "py_bound (length ls) i = nat i" "py_bound (length ls) (i + int m) = min (length ls) (nat i + m)"
    using i assms(1) by (simp_all add: py_bound_def nat_add_distrib)
  then have "nat i + m \<le> length ls" using assms(2) i \<open>nat i < length ls\<close> by (auto simp: py_slice_def Let_def min_def split: if_splits)
  then show ?thesis using i b by (simp add: py_slice_def)
qed

text \<open>A section fits its place up to white space around the lines, and exactly without fuzz.\<close>

definition fits :: "string list \<Rightarrow> nat \<Rightarrow> string list \<Rightarrow> bool" where
  "fits ls n ctx \<longleftrightarrow> n + length ctx \<le> length ls \<and> map strip (take (length ctx) (drop n ls)) = map strip ctx"

definition fits_exactly :: "string list \<Rightarrow> nat \<Rightarrow> string list \<Rightarrow> bool" where
  "fits_exactly ls n ctx \<longleftrightarrow> take (length ctx) (drop n ls) = ctx"

lemma find_context_core_fits:
  assumes "find_context_core ls ctx start = (n, f)" "n \<noteq> -1" "start \<le> int (length ls)"
    and "0 \<le> start \<or> start = int (length ls) - int (length ctx)"
  shows "0 \<le> n \<and> start \<le> n \<and> fits ls (nat n) ctx \<and> (f = 0 \<longrightarrow> fits_exactly ls (nat n) ctx)"
proof (cases "ctx = []")
  case True
  then show ?thesis using assms by (auto simp: find_context_core_def fits_def fits_exactly_def)
next
  case False
  let ?m = "length ctx" and ?places = "[start..int (length ls) - 1]"
  let ?slice = "\<lambda>i. py_slice ls i (i + int ?m)"
  have place: "0 \<le> i \<and> start \<le> i \<and> nat i + ?m \<le> length ls \<and> ?slice i = take ?m (drop (nat i) ls)"
    if "find P ?places = Some i" "\<And>i. P i \<Longrightarrow> length (?slice i) = ?m" for P i
  proof -
    have i: "start \<le> i" "i < int (length ls)" "P i" using find_SomeD [OF that(1)] by auto
    then have "0 \<le> i \<or> length ls < ?m" using assms(4) by linarith
    with slice_at [OF i(2) that(2) [OF i(3)]] i(1) show ?thesis by blast
  qed
  have len: "map g (?slice i) = map g ctx \<Longrightarrow> length (?slice i) = ?m" for g :: "string \<Rightarrow> string" and i
    by (metis length_map)
  consider (exact) "find (\<lambda>i. ?slice i = ctx) ?places = Some n" "f = 0"
    | (right) "find (\<lambda>i. map rstrip (?slice i) = map rstrip ctx) ?places = Some n" "f = 1"
    | (both) "find (\<lambda>i. map strip (?slice i) = map strip ctx) ?places = Some n" "f = 100"
    using assms(1,2) False by (auto simp: find_context_core_def Let_def split: option.splits)
  then show ?thesis
  proof cases
    case exact
    have "?slice n = ctx" using find_SomeD [OF exact(1)] by simp
    moreover have "0 \<le> n \<and> start \<le> n \<and> nat n + ?m \<le> length ls \<and> ?slice n = take ?m (drop (nat n) ls)"
      by (rule place [OF exact(1)]) simp
    ultimately show ?thesis by (simp add: fits_def fits_exactly_def)
  next
    case right
    have "map strip (?slice n) = map strip ctx"
      using find_SomeD [OF right(1)] by (intro map_strip_of_rstrip) simp
    moreover have "0 \<le> n \<and> start \<le> n \<and> nat n + ?m \<le> length ls \<and> ?slice n = take ?m (drop (nat n) ls)"
      by (rule place [OF right(1)]) (erule len)
    ultimately show ?thesis using right(2) by (simp add: fits_def)
  next
    case both
    have "map strip (?slice n) = map strip ctx" using find_SomeD [OF both(1)] by simp
    moreover have "0 \<le> n \<and> start \<le> n \<and> nat n + ?m \<le> length ls \<and> ?slice n = take ?m (drop (nat n) ls)"
      by (rule place [OF both(1)]) (erule len)
    ultimately show ?thesis using both(2) by (simp add: fits_def)
  qed
qed

lemma find_context_fits:
  assumes "find_context ls ctx start eof = (n, f)" "n \<noteq> -1" "0 \<le> start" "start \<le> int (length ls)"
  shows "0 \<le> n \<and> fits ls (nat n) ctx \<and> (f = 0 \<longrightarrow> fits_exactly ls (nat n) ctx) \<and> (\<not> eof \<longrightarrow> start \<le> n)"
proof (cases eof)
  case False
  then show ?thesis using find_context_core_fits [of ls ctx start n f] assms by (simp add: find_context_def)
next
  case True
  let ?latest = "int (length ls) - int (length ctx)"
  obtain n1 f1 where c1: "find_context_core ls ctx ?latest = (n1, f1)" by fastforce
  obtain n2 f2 where c2: "find_context_core ls ctx start = (n2, f2)" by fastforce
  show ?thesis
  proof (cases "n1 = -1")
    case False
    then show ?thesis using find_context_core_fits [OF c1] assms True c1 by (simp add: find_context_def)
  next
    case n1: True
    then have "n = n2" "f = f2 + 10000" using assms(1) True c1 c2 by (simp_all add: find_context_def)
    then show ?thesis using find_context_core_fits [OF c2] assms True by simp
  qed
qed

lemma seek_def_range:
  assumes "seek_def d ls i f = (i', f')" "i \<le> length ls"
  shows "i \<le> i' \<and> i' \<le> length ls \<and> f \<le> f'"
proof -
  have "find_line P ls i = Some j \<Longrightarrow> i \<le> j \<and> j \<le> length ls" for P j
    using assms(2) by (auto simp: find_line_def first_index_Some_iff split: if_splits)
  then show ?thesis using assms by (fastforce simp: seek_def_def split: if_splits option.splits)
qed


subsection \<open>What an update does\<close>

text \<open>The lines of the patch the parser went over, and the edits they hold.\<close>

definition lines_read :: "parser \<Rightarrow> parser \<Rightarrow> string list" where
  "lines_read p p' = take (pindex p' - pindex p) (drop (pindex p) (plines p))"

definition edits_in :: "string list \<Rightarrow> line_edit list" where
  "edits_in ls = map read_edit (filter is_edit_line ls)"

lemma edits_in_append: "edits_in (ls @ ms) = edits_in ls @ edits_in ms"
  by (simp add: edits_in_def)

lemma lines_read_append:
  assumes "parser_after p q" "parser_after q r"
  shows "lines_read p r = lines_read p q @ lines_read q r"
proof -
  obtain a b where ab: "pindex q = pindex p + a" "pindex r = pindex q + b"
    using assms by (auto simp: parser_after_def le_iff_add)
  then show ?thesis using assms(1)
    by (simp add: lines_read_def parser_after_def take_add add.commute)
qed

lemma run_edit_sindex: "run_edit e (st\<lparr>sindex := m\<rparr>) = (run_edit e st)\<lparr>sindex := Suc m\<rparr>"
  by (cases e) (simp_all add: section_line_def Let_def flush_chunk_def)

lemma section_chunks_start: "schunks (flush_chunk (fold run_edit fs (section_start i))) = section_chunks fs"
proof -
  have "fold run_edit fs (st\<lparr>sindex := m\<rparr>) = (fold run_edit fs st)\<lparr>sindex := m + length fs\<rparr>" for st m
    by (induction fs arbitrary: st m) (simp_all add: run_edit_sindex)
  moreover have "section_start i = (section_start 0)\<lparr>sindex := i\<rparr>" by (simp add: section_start_def)
  ultimately show ?thesis by (simp add: section_chunks_def flush_chunk_def)
qed

lemma peek_next_section_edits:
  assumes "peek_next_section ls i = Inr (ctx, cs, j, eof)" "i \<le> length ls"
  shows "\<exists>es. ctx = old_of es \<and> cs = section_chunks es \<and> edits_in (take (j - i) (drop i ls)) = es \<and>
    (eof \<longrightarrow> ''*** End of File'' \<in> set (take (j - i) (drop i ls)))"
proof -
  obtain st where st: "section_loop (drop i ls) (section_start i) = Inr st"
    using assms(1) by (auto simp: peek_next_section_def bind_patch_Inr_iff)
  from section_loop_edits [OF st] obtain k where k: "k \<le> length ls - i"
    "st = fold run_edit (map read_edit (take k (drop i ls))) (section_start i)"
    "list_all is_edit_line (take k (drop i ls))" "sindex st = i + k"
    by (auto simp: section_start_def)
  let ?es = "map read_edit (take k (drop i ls))"
  have es: "edits_in (take k (drop i ls)) = ?es"
    using k(3) by (simp add: edits_in_def list_all_iff filter_id_conv)
  have old: "old (flush_chunk st) = old_of ?es" using section_invD(1) [OF run_edits_inv] k(2) by simp
  note start = section_chunks_start
  show ?thesis
  proof (cases "sindex st < length ls \<and> ls ! sindex st = ''*** End of File''")
    case True
    have "take (Suc k) (drop i ls) = take k (drop i ls) @ [''*** End of File'']"
    proof -
      have "k < length (drop i ls)" "drop i ls ! k = ''*** End of File''"
        using True k(4) by (simp_all add: less_diff_conv add.commute)
      then show ?thesis by (simp only: take_Suc_conv_app_nth)
    qed
    moreover have "\<not> is_edit_line ''*** End of File''" by (simp add: is_edit_line_def)
    moreover have "ctx = old (flush_chunk st)" "cs = schunks (flush_chunk st)" "j = Suc (i + k)"
      using assms(1) st True k(4) by (auto simp: peek_next_section_def Let_def)
    ultimately show ?thesis using es old start k(2)
      by (simp add: edits_in_def Suc_diff_le)
  next
    case False
    then have "ctx = old (flush_chunk st)" "cs = schunks (flush_chunk st)" "j = i + k" "\<not> eof"
      using assms(1) st k(4) by (auto simp: peek_next_section_def Let_def split: if_splits)
    then show ?thesis using es old start k(2) by simp
  qed
qed


lemma lines_read_same: "lines_read p p = []"
  by (simp add: lines_read_def)

lemma read_str_lines:
  assumes "read_str pre everything p = Inr (t, p')"
  shows "p' = p \<and> t = [] \<or>
    (\<exists>line. lines_read p p' = [line] \<and> prefix pre line \<and> pindex p' = Suc (pindex p) \<and> pindex p' \<le> length (plines p))"
  using assms by (auto simp: read_str_def Let_def lines_read_def take_Suc_conv_app_nth hd_drop_conv_nth
      take_Suc split: if_splits)

lemma read_section_header_lines:
  assumes "read_section_header p = Inr (d, s, p')"
  shows "parser_after p p' \<and> actions p' = actions p \<and> pfuzz p' = pfuzz p \<and> edits_in (lines_read p p') = [] \<and>
    pindex p' \<le> length (plines p)"
proof -
  obtain q where r: "read_str ''@@ '' False p = Inr (d, q)" using assms
    by (auto simp: read_section_header_def bind_patch_Inr_iff split: if_splits)
  have no_edit: "\<not> is_edit_line line" if "prefix ''@@'' line" for line using that by (simp add: is_edit_line_def)
  have at: "prefix ''@@'' line" if "prefix ''@@ '' line" for line
    using that by (auto simp: prefix_def)
  have q: "parser_after p q" "actions q = actions p" using parser_after_read [OF r] by simp_all
  have qf: "pfuzz q = pfuzz p" using r by (auto simp: read_str_def Let_def split: if_splits)
  have lq: "edits_in (lines_read p q) = [] \<and> pindex q \<le> length (plines p)"
    using read_str_lines [OF r] read_str_moves(1) [OF r] no_edit at by (auto simp: edits_in_def lines_read_same)
  have p': "p' = q \<or> p' = q\<lparr>pindex := Suc (pindex q)\<rparr> \<and> pindex q < length (plines q) \<and> plines q ! pindex q = ''@@''"
    using assms r by (auto simp: read_section_header_def bind_patch_Inr_iff current_line_def split: if_splits)
  show ?thesis
  proof (cases "p' = q")
    case True
    then show ?thesis using q qf lq by simp
  next
    case False
    then have "p' = q\<lparr>pindex := Suc (pindex q)\<rparr>" "pindex q < length (plines q)" "plines q ! pindex q = ''@@''"
      using p' by auto
    moreover have "lines_read q p' = [''@@'']"
      using calculation by (simp add: lines_read_def take_Suc hd_drop_conv_nth)
    moreover have "parser_after q p'" using calculation(1) by (simp add: parser_after_def)
    ultimately show ?thesis using q qf lq lines_read_append [OF q(1), of p'] parser_after_trans [OF q(1), of p']
      by (simp add: edits_in_append) (simp add: edits_in_def is_edit_line_def parser_after_def)
  qed
qed

lemma update_section_hunk:
  assumes u: "update_section ls i p = Inr (cs, i', p')" and i: "i \<le> length ls"
  shows "\<exists>n es. cs = hunk_chunks (n, es) \<and> i' = n + length (old_of es) \<and> fits ls n (old_of es) \<and>
    (pfuzz p' = pfuzz p \<longrightarrow> fits_exactly ls n (old_of es)) \<and> edits_in (lines_read p p') = es \<and>
    (''*** End of File'' \<notin> set (lines_read p p') \<longrightarrow> i \<le> n)"
  using u
proof (cases rule: update_sectionE)
  case (1 d s p1 i1 f1 ctx cs0 j eof n f)
  have h: "parser_after p p1" "edits_in (lines_read p p1) = []" "pindex p1 \<le> length (plines p)"
    using read_section_header_lines [OF 1(1)] by simp_all
  have pl: "plines p1 = plines p" "pfuzz p1 = pfuzz p"
    using read_section_header_lines [OF 1(1)] by (simp_all add: parser_after_def)
  have seek: "i \<le> i1" "i1 \<le> length ls" "pfuzz p \<le> f1" using seek_def_range [OF 1(3) i] pl by simp_all
  from peek_next_section_edits [OF 1(4)] h(3) pl obtain es where es: "ctx = old_of es" "cs0 = section_chunks es"
    "edits_in (take (j - pindex p1) (drop (pindex p1) (plines p1))) = es"
    "eof \<longrightarrow> ''*** End of File'' \<in> set (take (j - pindex p1) (drop (pindex p1) (plines p1)))" by auto
  have j: "pindex p1 < j" using peek_next_section_advances [OF 1(4)] h(3) pl by simp
  have read1: "lines_read p1 p' = take (j - pindex p1) (drop (pindex p1) (plines p1))"
    using 1(9) by (simp add: lines_read_def)
  have after: "parser_after p1 p'" using 1(9) j pl seek(3) by (simp add: parser_after_def)
  have read: "lines_read p p' = lines_read p p1 @ lines_read p1 p'" by (rule lines_read_append [OF h(1) after])
  have place: "0 \<le> n \<and> fits ls (nat n) ctx \<and> (f = 0 \<longrightarrow> fits_exactly ls (nat n) ctx) \<and> (\<not> eof \<longrightarrow> int i1 \<le> n)"
    using find_context_fits [OF 1(5,6)] seek(2) by simp
  have "cs = hunk_chunks (nat n, es)" using 1(7) es(2) place by (simp add: hunk_chunks_def)
  moreover have "i' = nat n + length (old_of es)" using 1(8) es(1) by simp
  moreover have "pfuzz p' = pfuzz p \<longrightarrow> f = 0" using 1(9) seek(3) by simp
  moreover have "''*** End of File'' \<notin> set (lines_read p p') \<longrightarrow> i \<le> nat n"
    using es(4) place read read1 seek(1) by auto
  moreover have "edits_in (lines_read p p') = es" using read read1 es(3) h(2) by (simp add: edits_in_append)
  ultimately show ?thesis using place es(1) by blast
qed

lemma update_loop_hunks:
  "update_loop ls i p acc = Inr (cs, p') \<Longrightarrow> i \<le> length ls \<Longrightarrow>
   \<exists>hs. cs = acc @ concat (map hunk_chunks hs) \<and> concat (map snd hs) = edits_in (lines_read p p') \<and>
     (\<forall>h \<in> set hs. fits ls (fst h) (old_of (snd h))) \<and>
     (pfuzz p' = pfuzz p \<longrightarrow> (\<forall>h \<in> set hs. fits_exactly ls (fst h) (old_of (snd h)))) \<and>
     (''*** End of File'' \<notin> set (lines_read p p') \<longrightarrow> hunks_ok (length ls) i hs)"
proof (induction ls i p acc rule: update_loop.induct)
  case (1 ls i p acc)
  show ?case
  proof (cases "is_done UPDATE_END p")
    case True
    then show ?thesis using 1(2,3) by (intro exI [of _ "[]"]) (simp add: update_loop.simps lines_read_same edits_in_def)
  next
    case False
    then obtain cs1 i1 p1 where u: "update_section ls i p = Inr (cs1, i1, p1)"
      and r: "update_loop ls i1 p1 (acc @ cs1) = Inr (cs, p')"
      using 1(2) by (subst (asm) update_loop.simps) (auto split: sum.splits)
    from update_section_hunk [OF u 1(3)] obtain n es where h: "cs1 = hunk_chunks (n, es)" "i1 = n + length (old_of es)"
      "fits ls n (old_of es)" "pfuzz p1 = pfuzz p \<longrightarrow> fits_exactly ls n (old_of es)"
      "edits_in (lines_read p p1) = es" "''*** End of File'' \<notin> set (lines_read p p1) \<longrightarrow> i \<le> n" by blast
    have i1: "i1 \<le> length ls" using h(2,3) by (simp add: fits_def)
    have after: "parser_after p p1" "parser_after p1 p'"
      using update_section_advances [OF u] update_loop_after [OF r] by (auto simp: parser_after_def)
    note read = lines_read_append [OF after]
    from 1(1) [OF False u refl refl r i1] obtain hs where hs: "cs = (acc @ cs1) @ concat (map hunk_chunks hs)"
      "concat (map snd hs) = edits_in (lines_read p1 p')" "\<forall>h \<in> set hs. fits ls (fst h) (old_of (snd h))"
      "pfuzz p' = pfuzz p1 \<longrightarrow> (\<forall>h \<in> set hs. fits_exactly ls (fst h) (old_of (snd h)))"
      "''*** End of File'' \<notin> set (lines_read p1 p') \<longrightarrow> hunks_ok (length ls) i1 hs" by blast
    have "pfuzz p' = pfuzz p \<Longrightarrow> pfuzz p1 = pfuzz p \<and> pfuzz p' = pfuzz p1"
      using after by (auto simp: parser_after_def)
    then show ?thesis using h hs read
      by (intro exI [of _ "(n, es) # hs"]) (simp add: edits_in_append)
  qed
qed


text \<open>C17: The update of a file does what its sections say: the edit lines of the patch are used once and
  in order, each section at a place where its kept and deleted lines stand in the file, up to white
  space around them, and exactly where no fuzz was counted; kept lines stay as they are in the
  file. Without an end-of-file marker the places are in order, and then the update succeeds; it
  fails only with \<open>DiffError\<close>.
\<close>

theorem update_file_exact:
  assumes "parse_update_file content p = Inr (act, p')"
  shows "\<exists>hs. concat (map snd hs) = edits_in (lines_read p p') \<and>
    (\<forall>h \<in> set hs. fits (split_lines content) (fst h) (old_of (snd h))) \<and>
    (pfuzz p' = pfuzz p \<longrightarrow> (\<forall>h \<in> set hs. fits_exactly (split_lines content) (fst h) (old_of (snd h)))) \<and>
    (''*** End of File'' \<notin> set (lines_read p p') \<longrightarrow> hunks_ok (length (split_lines content)) 0 hs) \<and>
    (hunks_ok (length (split_lines content)) 0 hs \<longrightarrow>
       get_updated_file content act = Inr (join_lines (apply_hunks (split_lines content) 0 hs))) \<and>
    (\<forall>e. get_updated_file content act = Inl e \<longrightarrow> e = DiffError)"
proof -
  let ?ls = "split_lines content"
  obtain cs where u: "update_loop ?ls 0 p [] = Inr (cs, p')"
    and act: "act = \<lparr>action_type = UPDATE, new_file = None, chunks = cs, move_path = None\<rparr>"
    using assms by (auto simp: parse_update_file_def bind_patch_Inr_iff)
  from update_loop_hunks [OF u] obtain hs where hs: "cs = concat (map hunk_chunks hs)"
    "concat (map snd hs) = edits_in (lines_read p p')" "\<forall>h \<in> set hs. fits ?ls (fst h) (old_of (snd h))"
    "pfuzz p' = pfuzz p \<longrightarrow> (\<forall>h \<in> set hs. fits_exactly ?ls (fst h) (old_of (snd h)))"
    "''*** End of File'' \<notin> set (lines_read p p') \<longrightarrow> hunks_ok (length ?ls) 0 hs" by auto
  have "get_updated_file content act = Inr (join_lines (apply_hunks ?ls 0 hs))" if "hunks_ok (length ?ls) 0 hs"
    using hunks_apply [OF that] update_chunks_in_order [of ?ls 0 cs "[]"] hs(1) act by (simp add: get_updated_file_def)
  then show ?thesis using hs get_updated_file_errors [of content act]
    unfolding only_diff_error_def by blast
qed

definition sample_file :: string where
  "sample_file = ''x'' @ newline @ '' y''"

definition sample_parser :: parser where
  "sample_parser = \<lparr>current_files = Map.empty,
     plines = [''*** Update File: a'', ''@@ x'', ''-y'', ''+z'', ''*** End Patch''], pindex = 1, actions = [], pfuzz = 0\<rparr>"

theorem update_file_exact_witness:
  "\<exists>act p' hs. parse_update_file sample_file sample_parser = Inr (act, p') \<and>
     concat (map snd hs) = [Del ''y'', Ins ''z''] \<and> hunks_ok (length (split_lines sample_file)) 0 hs \<and>
     get_updated_file sample_file act = Inr (join_lines (apply_hunks (split_lines sample_file) 0 hs))"
proof -
  have "case parse_update_file sample_file sample_parser of
      Inl _ \<Rightarrow> False | Inr (act, p') \<Rightarrow> lines_read sample_parser p' = [''@@ x'', ''-y'', ''+z'']"
    by code_simp
  then obtain act p' where p: "parse_update_file sample_file sample_parser = Inr (act, p')"
    "lines_read sample_parser p' = [''@@ x'', ''-y'', ''+z'']"
    by (auto split: sum.splits)
  have "edits_in [''@@ x'', ''-y'', ''+z''] = [Del ''y'', Ins ''z'']" by code_simp
  then have "edits_in (lines_read sample_parser p') = [Del ''y'', Ins ''z'']"
    "''*** End of File'' \<notin> set (lines_read sample_parser p')" by (simp_all add: p(2))
  then show ?thesis using update_file_exact [OF p(1)] p(1) by metis
qed

end
