(* ===== verification/Patch_Safety.thy ===== *)
theory Patch_Safety
  imports Patch_Sections
begin

text \<open>
  What can go wrong with a patch (\<open>apply_patch/core.py\<close>, \<open>definition.py\<close>): the parser fails only with
  \<open>DiffError\<close>, a patch is applied completely or not at all, and the executor changes only the files
  a patch names, inside the workspace.
\<close>

section \<open>Errors\<close>

text \<open>
  The parser raises only \<open>DiffError\<close>: a patch ends with its end marker, which no step consumes, so
  that a line can be read wherever the code reads one.
\<close>

abbreviation end_marker :: string where
  "end_marker \<equiv> ''*** End Patch''"

definition unfinished :: "parser \<Rightarrow> bool" where
  "unfinished p \<longleftrightarrow> pindex p < length (plines p) \<and> last (plines p) = end_marker"

lemma unfinished_after:
  assumes "unfinished p" "parser_after p p'" "pindex p' \<le> length (plines p)" "end_marker \<notin> set (lines_read p p')"
  shows "unfinished p'"
proof -
  have "pindex p' \<noteq> length (plines p)"
  proof
    assume eq: "pindex p' = length (plines p)"
    then have "lines_read p p' = drop (pindex p) (plines p)" by (simp add: lines_read_def)
    moreover have "last (plines p) \<in> set (drop (pindex p) (plines p))"
      using assms(1) by (metis drop_eq_Nil last_drop last_in_set not_le unfinished_def)
    ultimately show False using assms(1,4) by (simp add: unfinished_def)
  qed
  then show ?thesis using assms(1-3) by (auto simp: unfinished_def parser_after_def)
qed

lemma read_str_unfinished:
  assumes "unfinished p"
  shows "only_diff_error (read_str pre everything p)"
    "read_str pre everything p = Inr (t, p') \<Longrightarrow> \<not> prefix pre end_marker \<or> plines p ! pindex p \<noteq> end_marker \<Longrightarrow> unfinished p'"
proof -
  show "only_diff_error (read_str pre everything p)" by (simp add: read_str_def Let_def)
  assume r: "read_str pre everything p = Inr (t, p')"
    and no: "\<not> prefix pre end_marker \<or> plines p ! pindex p \<noteq> end_marker"
  have "plines p ! pindex p = line" if "lines_read p p' = [line]" "pindex p' = Suc (pindex p)" for line
    using that assms by (simp add: lines_read_def take_Suc hd_drop_conv_nth unfinished_def)
  then have "p' \<noteq> p \<Longrightarrow> end_marker \<notin> set (lines_read p p')"
    using read_str_lines [OF r] no by auto
  then show "unfinished p'"
    using read_str_lines [OF r] unfinished_after [OF assms] parser_after_read [OF r] assms by (cases "p' = p") auto
qed

lemma current_line_unfinished: "unfinished p \<Longrightarrow> current_line p = Inr (plines p ! pindex p)"
  by (simp add: current_line_def unfinished_def)

lemma section_header_unfinished:
  assumes "unfinished p"
  shows "only_diff_error (read_section_header p)"
    "read_section_header p = Inr (d, s, p') \<Longrightarrow> unfinished p'"
proof -
  have q: "unfinished q" if "read_str ''@@ '' False p = Inr (t, q)" for t q
    using read_str_unfinished(2) [OF assms that] by simp
  show "only_diff_error (read_section_header p)"
    unfolding read_section_header_def
    by (intro only_diff_error_bind read_str_unfinished(1) assms)
      (auto simp: current_line_unfinished dest!: q)
  assume h: "read_section_header p = Inr (d, s, p')"
  then obtain t q where r: "read_str ''@@ '' False p = Inr (t, q)"
    and p': "p' = q \<or> p' = q\<lparr>pindex := Suc (pindex q)\<rparr> \<and> plines q ! pindex q = ''@@''"
    by (auto simp: read_section_header_def bind_patch_Inr_iff current_line_def split: if_splits)
  note uq = q [OF r]
  show "unfinished p'"
  proof (cases "p' = q")
    case False
    then have eq: "p' = q\<lparr>pindex := Suc (pindex q)\<rparr>" "plines q ! pindex q = ''@@''" using p' by auto
    have "lines_read q p' = [''@@'']" using eq uq by (simp add: lines_read_def take_Suc hd_drop_conv_nth unfinished_def)
    then show ?thesis using uq eq(1)
      by (intro unfinished_after [OF uq]) (auto simp: parser_after_def unfinished_def)
  qed (use uq in simp)
qed

lemma section_loop_errors: "only_diff_error (section_loop ls st)"
  by (induction ls st rule: section_loop.induct) (auto simp: Let_def)

lemma peek_next_section_unfinished:
  assumes "i < length ls" "last ls = end_marker"
  shows "only_diff_error (peek_next_section ls i)"
    "peek_next_section ls i = Inr (ctx, cs, j, eof) \<Longrightarrow> j < length ls"
proof -
  have stop: "sindex st < length ls" if st: "section_loop (drop i ls) (section_start i) = Inr st" for st
  proof -
    from section_loop_edits [OF st] obtain k where k: "k \<le> length ls - i" "list_all is_edit_line (take k (drop i ls))"
      "sindex st = i + k" by (auto simp: section_start_def)
    have "k \<noteq> length ls - i"
    proof
      assume "k = length ls - i"
      moreover have "last ls \<in> set (drop i ls)" using assms(1) by (metis drop_eq_Nil last_drop last_in_set not_le)
      ultimately have "is_edit_line (last ls)" using k(2) by (simp add: list_all_iff)
      then show False using assms by (simp add: is_edit_line_def)
    qed
    then show ?thesis using k by linarith
  qed
  show "only_diff_error (peek_next_section ls i)"
    unfolding peek_next_section_def
    using stop by (intro only_diff_error_bind section_loop_errors) (auto simp: Let_def)
  assume pk: "peek_next_section ls i = Inr (ctx, cs, j, eof)"
  then obtain st where st: "section_loop (drop i ls) (section_start i) = Inr st"
    by (auto simp: peek_next_section_def bind_patch_Inr_iff)
  show "j < length ls"
  proof (cases "ls ! sindex st = ''*** End of File''")
    case True
    have "sindex st \<noteq> length ls - 1"
    proof
      assume "sindex st = length ls - 1"
      moreover have "ls \<noteq> []" using assms(1) by auto
      ultimately have "ls ! sindex st = end_marker" using assms(2) by (simp add: last_conv_nth)
      then show False using True by simp
    qed
    then show ?thesis using pk st stop [OF st] True by (auto simp: peek_next_section_def Let_def)
  next
    case False
    then show ?thesis using pk st stop [OF st] by (auto simp: peek_next_section_def Let_def split: if_splits)
  qed
qed

lemma update_section_unfinished:
  assumes "unfinished p"
  shows "only_diff_error (update_section ls i p)"
    "update_section ls i p = Inr (cs, i', p') \<Longrightarrow> unfinished p'"
proof -
  show "only_diff_error (update_section ls i p)"
    unfolding update_section_def
    by (intro only_diff_error_bind section_header_unfinished(1) assms)
      (auto simp: Let_def split: prod.split dest!: section_header_unfinished(2) [OF assms]
        intro!: only_diff_error_bind peek_next_section_unfinished(1) simp: unfinished_def)
  assume u: "update_section ls i p = Inr (cs, i', p')"
  then show "unfinished p'"
  proof (cases rule: update_sectionE)
    case (1 d s p1 i1 f1 ctx cs0 j eof n f)
    have "unfinished p1" using section_header_unfinished(2) [OF assms 1(1)] .
    then show ?thesis using peek_next_section_unfinished(2) [of "pindex p1" "plines p1"] 1(4,9)
      by (auto simp: unfinished_def)
  qed
qed

lemma update_loop_unfinished:
  "unfinished p \<Longrightarrow> only_diff_error (update_loop ls i p acc) \<and>
    (\<forall>cs p'. update_loop ls i p acc = Inr (cs, p') \<longrightarrow> unfinished p')"
proof (induction ls i p acc rule: update_loop.induct)
  case (1 ls i p acc)
  show ?case
  proof (cases "is_done UPDATE_END p")
    case True
    then show ?thesis using 1(2) by (simp add: update_loop.simps)
  next
    case False
    show ?thesis
    proof (cases "update_section ls i p")
      case (Inl e)
      then show ?thesis using False update_section_unfinished(1) [OF 1(2), of ls i]
        by (subst (1 2) update_loop.simps) (simp add: only_diff_error_def)
    next
      case (Inr r)
      obtain cs i' p' where r: "r = (cs, i', p')" by (cases r)
      then have u: "update_section ls i p = Inr (cs, i', p')" using Inr by simp
      have "update_loop ls i p acc = update_loop ls i' p' (acc @ cs)"
        using False u by (subst update_loop.simps) simp
      then show ?thesis using 1(1) [OF False u refl refl] update_section_unfinished(2) [OF 1(2) u] by simp
    qed
  qed
qed

lemma add_loop_unfinished:
  "unfinished p \<Longrightarrow> only_diff_error (add_loop p acc) \<and> (\<forall>ls p'. add_loop p acc = Inr (ls, p') \<longrightarrow> unfinished p')"
proof (induction p acc rule: add_loop.induct)
  case (1 p acc)
  show ?case
  proof (cases "is_done ADD_END p")
    case True
    then show ?thesis using 1(2) by (simp add: add_loop.simps)
  next
    case False
    then have no_end: "plines p ! pindex p \<noteq> end_marker" by (auto simp: is_done_def ADD_END_def starts_with_any_def)
    obtain s p' where r: "read_str [] False p = Inr (s, p')"
      using 1(2) by (auto simp: read_str_def unfinished_def)
    have up: "unfinished p'" using read_str_unfinished(2) [OF 1(2) r] no_end by simp
    have eq: "add_loop p acc = (if prefix ''+'' s then add_loop p' (acc @ [tl s]) else Inl DiffError)"
      using False r by (subst add_loop.simps) simp
    show ?thesis
    proof (cases "prefix ''+'' s")
      case True
      then show ?thesis using 1(1) [OF False r refl True up] eq by simp
    qed (simp add: eq)
  qed
qed


text \<open>
  The actions read so far: one per path, and every file they update or delete is one of the files
  that were read.
\<close>

definition actions_ok :: "parser \<Rightarrow> bool" where
  "actions_ok p \<longleftrightarrow> distinct (map fst (actions p)) \<and>
     (\<forall>(path, act) \<in> set (actions p).
        if action_type act = ADD then new_file act \<noteq> None else current_files p path \<noteq> None)"

definition parser_inv :: "parser \<Rightarrow> bool" where
  "parser_inv p \<longleftrightarrow> unfinished p \<and> actions_ok p"

lemma actions_ok_add:
  assumes "actions_ok p" "actions q = actions p" "current_files q = current_files p"
    "path \<notin> set (map fst (actions p))"
    "if action_type act = ADD then new_file act \<noteq> None else current_files p path \<noteq> None"
  shows "actions_ok (q\<lparr>actions := actions q @ [(path, act)]\<rparr>)"
  using assms by (auto simp: actions_ok_def)

lemma actions_ok_cong:
  "actions q = actions p \<Longrightarrow> current_files q = current_files p \<Longrightarrow> actions_ok q = actions_ok p"
  by (simp add: actions_ok_def)

lemma unfinished_actions [simp]: "unfinished (p\<lparr>actions := xs\<rparr>) = unfinished p"
  by (simp add: unfinished_def)

lemma parse_update_action_ok:
  assumes "parser_inv p"
  shows "only_diff_error (parse_update_action path p)"
    "parse_update_action path p = Inr p' \<Longrightarrow> parser_inv p'"
proof -
  have u: "unfinished p" "actions_ok p" using assms by (simp_all add: parser_inv_def)
  note q = read_str_unfinished(2) [OF u(1), of "''*** Move to: ''" False, simplified]
  show "only_diff_error (parse_update_action path p)"
    unfolding parse_update_action_def parse_update_file_def
    using u(1) q update_loop_unfinished
    by (auto intro!: only_diff_error_bind read_str_unfinished(1) split: option.split)
  assume act: "parse_update_action path p = Inr p'"
  then obtain mv p1 content cs p2 where r: "path \<notin> set (map fst (actions p))"
    "read_str ''*** Move to: '' False p = Inr (mv, p1)" "current_files p1 path = Some content"
    "update_loop (split_lines content) 0 p1 [] = Inr (cs, p2)"
    "p' = p2\<lparr>actions := actions p2 @ [(path, \<lparr>action_type = UPDATE, new_file = None, chunks = cs, move_path = Some mv\<rparr>)]\<rparr>"
    by (auto simp: parse_update_action_def parse_update_file_def bind_patch_Inr_iff split: if_splits option.splits)
  have "unfinished p2" using update_loop_unfinished [OF q [OF r(2)]] r(4) by blast
  moreover have "actions p2 = actions p" "current_files p2 = current_files p" "current_files p path \<noteq> None"
    using parser_after_read [OF r(2)] update_loop_after [OF r(4)] r(3) by (auto simp: parser_after_def)
  ultimately show "parser_inv p'" using actions_ok_add [OF u(2), of p2 path] r(1,5)
    by (simp add: parser_inv_def)
qed

lemma parse_delete_action_ok:
  assumes "parser_inv p"
  shows "only_diff_error (parse_delete_action path p)"
    "parse_delete_action path p = Inr p' \<Longrightarrow> parser_inv p'"
  using assms actions_ok_add [of p p path]
  by (auto simp: parse_delete_action_def parser_inv_def split: if_splits)

lemma parse_add_action_ok:
  assumes "parser_inv p"
  shows "only_diff_error (parse_add_action path p)"
    "parse_add_action path p = Inr p' \<Longrightarrow> parser_inv p'"
proof -
  have u: "unfinished p" "actions_ok p" using assms by (simp_all add: parser_inv_def)
  show "only_diff_error (parse_add_action path p)"
    using add_loop_unfinished [OF u(1), of "[]"]
    by (auto simp: parse_add_action_def parse_add_file_def intro!: only_diff_error_bind)
  assume "parse_add_action path p = Inr p'"
  then obtain ls p1 where r: "path \<notin> set (map fst (actions p))" "add_loop p [] = Inr (ls, p1)"
    "p' = p1\<lparr>actions := actions p1 @ [(path, \<lparr>action_type = ADD, new_file = Some (join_lines ls), chunks = [], move_path = None\<rparr>)]\<rparr>"
    by (auto simp: parse_add_action_def parse_add_file_def bind_patch_Inr_iff split: if_splits)
  then show "parser_inv p'"
    using add_loop_unfinished [OF u(1), of "[]"] add_loop_after [OF r(2)] actions_ok_add [OF u(2), of p1 path]
    by (simp add: parser_inv_def parser_after_def)
qed

lemma read_action_ok:
  assumes "parser_inv p" "\<not> prefix pre end_marker"
  shows "only_diff_error (read_str pre False p)" "read_str pre False p = Inr (t, p') \<Longrightarrow> parser_inv p'"
proof -
  have u: "unfinished p" "actions_ok p" using assms(1) by (simp_all add: parser_inv_def)
  show "only_diff_error (read_str pre False p)" by (rule read_str_unfinished(1) [OF u(1)])
  assume r: "read_str pre False p = Inr (t, p')"
  then show "parser_inv p'"
    using read_str_unfinished(2) [OF u(1) r] assms(2) u(2) parser_after_read [OF r]
    by (simp add: parser_inv_def parser_after_def actions_ok_cong [of p' p])
qed

lemma parse_action_ok:
  assumes "parser_inv p"
  shows "only_diff_error (parse_action p) \<and> (\<forall>p'. parse_action p = Inr p' \<longrightarrow> parser_inv p')"
proof -
  have inv: "parser_inv r"
    if "parser_inv q" "read_str pre False q = Inr (t, r)"
      "pre \<in> {''*** Update File: '', ''*** Delete File: '', ''*** Add File: ''}" for q r pre t
    using that(3) by (intro read_action_ok(2) [OF that(1) _ that(2)]) auto
  have read: "\<exists>t r. read_str pre False q = Inr (t, r)" if "parser_inv q" for q pre
    using that by (simp add: parser_inv_def unfinished_def read_str_def Let_def)
  obtain t1 p1 where r1: "read_str ''*** Update File: '' False p = Inr (t1, p1)" using read [OF assms] by blast
  have i1: "parser_inv p1" by (rule inv [OF assms r1]) simp
  obtain t2 p2 where r2: "read_str ''*** Delete File: '' False p1 = Inr (t2, p2)" using read [OF i1] by blast
  have i2: "parser_inv p2" by (rule inv [OF i1 r2]) simp
  obtain t3 p3 where r3: "read_str ''*** Add File: '' False p2 = Inr (t3, p3)" using read [OF i2] by blast
  have i3: "parser_inv p3" by (rule inv [OF i2 r3]) simp
  have "parse_action p =
      (if t1 \<noteq> [] then parse_update_action t1 p1
       else if t2 \<noteq> [] then parse_delete_action t2 p2
       else if t3 \<noteq> [] then parse_add_action t3 p3 else Inl DiffError)"
    using i3 by (simp add: parse_action_def r1 r2 r3 current_line_unfinished parser_inv_def)
  then show ?thesis
    using parse_update_action_ok [OF i1] parse_delete_action_ok [OF i2] parse_add_action_ok [OF i3] by simp
qed

lemma parse_ok:
  "parser_inv p \<Longrightarrow> only_diff_error (parse p) \<and>
    (\<forall>p'. parse p = Inr p' \<longrightarrow> actions_ok p' \<and> current_files p' = current_files p)"
proof (induction p rule: parse.induct)
  case (1 p)
  show ?case
  proof (cases "is_done [end_marker] p")
    case True
    then show ?thesis using 1(2)
      by (subst (1 2) parse.simps) (auto simp: startswith_def parser_inv_def unfinished_def actions_ok_def)
  next
    case False
    note act = parse_action_ok [OF 1(2)]
    show ?thesis
    proof (cases "parse_action p")
      case (Inl e)
      then show ?thesis using False act by (subst (1 2) parse.simps) (simp add: only_diff_error_def)
    next
      case (Inr q)
      then have eq: "parse p = parse q" using False by (subst parse.simps) simp
      have cf: "current_files q = current_files p" using parse_action_advances [OF Inr] by (simp add: parser_after_def)
      have "parser_inv q" using act Inr by blast
      from 1(1) [OF False Inr this] show ?thesis unfolding eq cf .
    qed
  qed
qed

lemma text_to_patch_ok:
  "only_diff_error (text_to_patch text orig)"
  "text_to_patch text orig = Inr (acts, fuzz) \<Longrightarrow>
     distinct (map fst acts) \<and> (\<forall>(path, act) \<in> set acts. if action_type act = ADD then new_file act \<noteq> None else orig path \<noteq> None)"
proof -
  let ?p = "\<lparr>current_files = orig, plines = split_lines (strip text), pindex = 1, actions = [], pfuzz = 0\<rparr>"
  have "only_diff_error (parse ?p) \<and> (\<forall>p'. parse ?p = Inr p' \<longrightarrow> actions_ok p' \<and> current_files p' = orig)"
    if "2 \<le> length (plines ?p)" "last (plines ?p) = end_marker"
    using parse_ok [of ?p] that by (simp add: parser_inv_def unfinished_def actions_ok_def)
  then show "only_diff_error (text_to_patch text orig)"
    "text_to_patch text orig = Inr (acts, fuzz) \<Longrightarrow>
     distinct (map fst acts) \<and> (\<forall>(path, act) \<in> set acts. if action_type act = ADD then new_file act \<noteq> None else orig path \<noteq> None)"
    by (auto simp: text_to_patch_def Let_def bind_patch_Inr_iff actions_ok_def intro!: only_diff_error_bind split: if_splits)
qed

section \<open>All or nothing\<close>

text \<open>Files kept in a dictionary: the store the functions of \<open>core.py\<close> are used on by themselves.\<close>

definition dict_io :: "(string \<rightharpoonup> string) file_io" where
  "dict_io = \<lparr>open_fn = (\<lambda>path s. case s path of None \<Rightarrow> Inl (OSFault FileNotFoundError) | Some c \<Rightarrow> Inr c),
     write_fn = (\<lambda>path content s. (None, s(path \<mapsto> content))),
     remove_fn = (\<lambda>path s. if s path = None then (Some (OSFault FileNotFoundError), s) else (None, s(path := None)))\<rparr>"

lemma dict_io_simps [simp]:
  "open_fn dict_io path s = (case s path of None \<Rightarrow> Inl (OSFault FileNotFoundError) | Some c \<Rightarrow> Inr c)"
  "write_fn dict_io path content s = (None, s(path \<mapsto> content))"
  "remove_fn dict_io path s = (if s path = None then (Some (OSFault FileNotFoundError), s) else (None, s(path := None)))"
  by (simp_all add: dict_io_def)

lemma load_files_dict:
  "load_files dict_io paths s =
     (if \<forall>q \<in> set paths. s q \<noteq> None then Inr (s |` set paths) else Inl DiffError)"
proof (induction paths)
  case (Cons path paths)
  then show ?case
    by (cases "s path") (auto simp: restrict_map_def fun_eq_iff)
qed simp

text \<open>The paths a commit writes or removes.\<close>

fun touched :: "commit \<Rightarrow> string set" where
  "touched [] = {}"
| "touched ((path, ch) # changes) =
     insert path ((if truthy (change_move_path ch) then {the (change_move_path ch)} else {}) \<union> touched changes)"

definition change_ok :: "(string \<rightharpoonup> string) \<Rightarrow> string \<times> file_change \<Rightarrow> bool" where
  "change_ok s = (\<lambda>(path, ch). if change_type ch = DELETE then s path \<noteq> None
     else new_content ch \<noteq> None \<and> (change_type ch = UPDATE \<longrightarrow> s path \<noteq> None))"

lemma change_ok_pair:
  "change_ok s (path, ch) \<longleftrightarrow> (if change_type ch = DELETE then s path \<noteq> None
     else new_content ch \<noteq> None \<and> (change_type ch = UPDATE \<longrightarrow> s path \<noteq> None))"
  by (simp add: change_ok_def)

lemma patch_to_commit_ok:
  "(\<forall>(path, act) \<in> set acts. if action_type act = ADD then new_file act \<noteq> None else orig path \<noteq> None) \<Longrightarrow>
   only_diff_error (patch_to_commit acts orig) \<and>
   (\<forall>changes. patch_to_commit acts orig = Inr changes \<longrightarrow>
      map fst changes = map fst acts \<and> list_all (change_ok orig) changes)"
proof (induction acts)
  case Nil
  then show ?case by simp
next
  case (Cons a acts)
  obtain path act where a: "a = (path, act)" by (cases a)
  have IH: "only_diff_error (patch_to_commit acts orig)"
    "\<And>changes. patch_to_commit acts orig = Inr changes \<Longrightarrow> map fst changes = map fst acts \<and> list_all (change_ok orig) changes"
    using Cons by auto
  show ?case
  proof (cases "action_type act")
    case ADD
    then show ?thesis using Cons.prems IH
      by (auto simp: a bind_patch_Inr_iff change_ok_pair intro!: only_diff_error_bind)
  next
    case DELETE
    then show ?thesis using Cons.prems IH
      by (auto simp: a bind_patch_Inr_iff change_ok_pair intro!: only_diff_error_bind)
  next
    case UPDATE
    then show ?thesis using Cons.prems IH get_updated_file_errors
      by (auto simp: a bind_patch_Inr_iff change_ok_pair intro!: only_diff_error_bind)
  qed
qed

text \<open>What one change of a commit does to the files, and a whole commit, in its order.\<close>

definition change_effect :: "string \<times> file_change \<Rightarrow> (string \<rightharpoonup> string) \<Rightarrow> string \<rightharpoonup> string" where
  "change_effect c files =
     (let (path, ch) = c
      in case change_type ch of
           DELETE \<Rightarrow> files(path := None)
         | ADD \<Rightarrow> files(path := new_content ch)
         | UPDATE \<Rightarrow>
             if truthy (change_move_path ch)
             then files(the (change_move_path ch) := new_content ch, path := None)
             else files(path := new_content ch))"

definition commit_effect :: "commit \<Rightarrow> (string \<rightharpoonup> string) \<Rightarrow> string \<rightharpoonup> string" where
  "commit_effect commit files = fold change_effect commit files"

lemma apply_change_dict:
  assumes "change_ok s0 (path, ch)" "s0 path \<noteq> None \<longrightarrow> s path \<noteq> None"
  shows "\<exists>s1. apply_change dict_io path ch s = (None, s1) \<and> s1 = change_effect (path, ch) s \<and>
    (\<forall>q. q \<noteq> path \<and> (truthy (change_move_path ch) \<longrightarrow> q \<noteq> the (change_move_path ch)) \<longrightarrow> s1 q = s q) \<and>
    (\<forall>q. q \<noteq> path \<and> s q \<noteq> None \<longrightarrow> s1 q \<noteq> None)"
proof (cases "change_type ch")
  case ADD
  then show ?thesis using assms by (auto simp: apply_change_def change_effect_def change_ok_pair)
next
  case DELETE
  then show ?thesis using assms by (auto simp: apply_change_def change_effect_def change_ok_pair)
next
  case UPDATE
  then obtain content where "new_content ch = Some content" "s path \<noteq> None"
    using assms by (auto simp: change_ok_pair)
  then show ?thesis using UPDATE
    by (cases "truthy (change_move_path ch)") (auto simp: apply_change_def change_effect_def)
qed

lemma apply_commit_dict:
  "distinct (map fst changes) \<Longrightarrow> list_all (change_ok s0) changes \<Longrightarrow>
   (\<forall>path \<in> fst ` set changes. s0 path \<noteq> None \<longrightarrow> s path \<noteq> None) \<Longrightarrow>
   apply_commit dict_io changes s = (None, commit_effect changes s) \<and>
   (\<forall>q. q \<notin> touched changes \<longrightarrow> commit_effect changes s q = s q)"
proof (induction changes arbitrary: s)
  case Nil
  then show ?case by (simp add: commit_effect_def)
next
  case (Cons c changes)
  obtain path ch where c: "c = (path, ch)" by (cases c)
  have ok: "change_ok s0 (path, ch)" and rest: "list_all (change_ok s0) changes" "path \<notin> fst ` set changes"
    using Cons.prems c by (auto simp: image_iff)
  have present: "s0 path \<noteq> None \<longrightarrow> s path \<noteq> None" using Cons.prems(3) c by simp
  from apply_change_dict [where s = s, OF ok present] obtain s1 where s1: "apply_change dict_io path ch s = (None, s1)" "s1 = change_effect (path, ch) s"
    "\<forall>q. q \<noteq> path \<and> (truthy (change_move_path ch) \<longrightarrow> q \<noteq> the (change_move_path ch)) \<longrightarrow> s1 q = s q"
    "\<forall>q. q \<noteq> path \<and> s q \<noteq> None \<longrightarrow> s1 q \<noteq> None"
    by (elim exE conjE)
  have "\<forall>q \<in> fst ` set changes. s0 q \<noteq> None \<longrightarrow> s1 q \<noteq> None"
  proof (intro ballI impI)
    fix q assume q: "q \<in> fst ` set changes" "s0 q \<noteq> None"
    then have "q \<in> fst ` set (c # changes)" by simp
    from bspec [OF Cons.prems(3) this] q(2) have "s q \<noteq> None" by (rule mp)
    moreover have "q \<noteq> path" using q(1) rest(2) by metis
    ultimately show "s1 q \<noteq> None" using s1(4) by simp
  qed
  from Cons.IH [OF _ rest(1) this] Cons.prems(1) c have
    "apply_commit dict_io changes s1 = (None, commit_effect changes s1)"
    "\<forall>q. q \<notin> touched changes \<longrightarrow> commit_effect changes s1 q = s1 q" by simp_all
  moreover have "commit_effect (c # changes) s = commit_effect changes s1"
    by (simp add: commit_effect_def c s1(2))
  ultimately show ?case using s1(1,3) c by auto
qed


section \<open>Paths of a patch\<close>

text \<open>The paths a patch names in its header lines.\<close>

definition names_path :: "string list \<Rightarrow> string \<Rightarrow> bool" where
  "names_path ls path \<longleftrightarrow>
     ''*** Update File: '' @ path \<in> set ls \<or> ''*** Delete File: '' @ path \<in> set ls \<or>
     ''*** Add File: '' @ path \<in> set ls \<or>
     ''*** Move to: '' @ path \<in> set ls \<and> \<not> prefix ''/'' path \<and> ''..'' \<notin> set (split_on (CHR ''/'') path)"

definition actions_named :: "parser \<Rightarrow> bool" where
  "actions_named p \<longleftrightarrow> (\<forall>(path, act) \<in> set (actions p). names_path (plines p) path \<and>
     (truthy (move_path act) \<longrightarrow> names_path (plines p) (the (move_path act))))"

lemma read_str_names:
  assumes "read_str pre False p = Inr (t, p')" "t \<noteq> []"
  shows "pre @ t \<in> set (plines p)"
proof -
  have i: "pindex p < length (plines p)" and t: "prefix pre (plines p ! pindex p)" "t = drop (length pre) (plines p ! pindex p)"
    using assms by (auto simp: read_str_def Let_def split: if_splits)
  have "pre @ t = plines p ! pindex p" using t by (auto simp: prefix_def)
  then show ?thesis using i by simp
qed

lemma parse_action_named:
  assumes "parse_action p = Inr p'" "actions_named p"
  shows "actions_named p'"
proof -
  have step: "actions_named q \<and> plines q = plines p"
    if "read_str pre False r = Inr (t, q)" "actions_named r" "plines r = plines p" for pre r t q
    using parser_after_read [OF that(1)] that by (simp add: actions_named_def parser_after_def)
  have add: "actions_named (q\<lparr>actions := actions q @ [(path, act)]\<rparr>)"
    if "plines q = plines p" "actions q = actions r" "actions_named r" "plines r = plines p" "names_path (plines p) path"
      "truthy (move_path act) \<longrightarrow> names_path (plines p) (the (move_path act))" for q r path act
    using that by (auto simp: actions_named_def)
  obtain t1 p1 where r1: "read_str ''*** Update File: '' False p = Inr (t1, p1)"
    using assms by (auto simp: parse_action_def bind_patch_Inr_iff)
  have n1: "actions_named p1 \<and> plines p1 = plines p" using step [OF r1 assms(2) refl] .
  show ?thesis
  proof (cases "t1 = []")
    case False
    have t1: "names_path (plines p) t1" using read_str_names [OF r1 False] by (simp add: names_path_def)
    have "parse_update_action t1 p1 = Inr p'" using assms(1) r1 False by (simp add: parse_action_def)
    then obtain mv p2 content cs p3 where r: "read_str ''*** Move to: '' False p1 = Inr (mv, p2)"
      "mv \<noteq> [] \<longrightarrow> ''..'' \<notin> set (split_on (CHR ''/'') mv) \<and> \<not> prefix ''/'' mv"
      "update_loop (split_lines content) 0 p2 [] = Inr (cs, p3)"
      "p' = p3\<lparr>actions := actions p3 @ [(t1, \<lparr>action_type = UPDATE, new_file = None, chunks = cs, move_path = Some mv\<rparr>)]\<rparr>"
      by (auto simp: parse_update_action_def parse_update_file_def bind_patch_Inr_iff split: if_splits option.splits)
    have "mv \<noteq> [] \<longrightarrow> names_path (plines p) mv"
      using read_str_names [OF r(1)] r(2) n1 by (simp add: names_path_def)
    moreover have "plines p3 = plines p" "actions p3 = actions p1"
      using parser_after_read [OF r(1)] update_loop_after [OF r(3)] n1 by (simp_all add: parser_after_def)
    ultimately show ?thesis unfolding r(4) using t1 n1 by (intro add [of _ p1]) (simp_all add: truthy_def)
  next
    case True
    then obtain t2 p2 where r2: "read_str ''*** Delete File: '' False p1 = Inr (t2, p2)"
      using assms r1 by (auto simp: parse_action_def bind_patch_Inr_iff)
    have n2: "actions_named p2 \<and> plines p2 = plines p" using step [OF r2] n1 by simp
    show ?thesis
    proof (cases "t2 = []")
      case False
      have t2: "names_path (plines p) t2" using read_str_names [OF r2 False] n1 by (simp add: names_path_def)
      have "parse_delete_action t2 p2 = Inr p'" using assms(1) r1 r2 True False by (simp add: parse_action_def)
      then have "p' = p2\<lparr>actions := actions p2 @ [(t2, \<lparr>action_type = DELETE, new_file = None, chunks = [], move_path = None\<rparr>)]\<rparr>"
        by (auto simp: parse_delete_action_def split: if_splits)
      then show ?thesis using t2 n2 by (simp only:) (intro add [of _ p2], simp_all add: truthy_def)
    next
      case True2: True
      then obtain t3 p3 where r3: "read_str ''*** Add File: '' False p2 = Inr (t3, p3)" "t3 \<noteq> []"
        "parse_add_action t3 p3 = Inr p'"
        using assms r1 r2 True by (auto simp: parse_action_def bind_patch_Inr_iff split: if_splits)
      have n3: "actions_named p3 \<and> plines p3 = plines p" using step [OF r3(1)] n2 by simp
      have t3: "names_path (plines p) t3" using read_str_names [OF r3(1,2)] n2 by (simp add: names_path_def)
      obtain ls p4 where a: "add_loop p3 [] = Inr (ls, p4)"
        "p' = p4\<lparr>actions := actions p4 @ [(t3, \<lparr>action_type = ADD, new_file = Some (join_lines ls), chunks = [], move_path = None\<rparr>)]\<rparr>"
        using r3(3) by (auto simp: parse_add_action_def parse_add_file_def bind_patch_Inr_iff split: if_splits)
      show ?thesis unfolding a(2) using t3 n3 add_loop_after [OF a(1)]
        by (intro add [of _ p3]) (simp_all add: truthy_def parser_after_def)
    qed
  qed
qed

lemma parse_named: "parse p = Inr p' \<Longrightarrow> actions_named p \<Longrightarrow> actions_named p' \<and> plines p' = plines p"
proof (induction p rule: parse.induct)
  case (1 p)
  show ?case
  proof (cases "is_done [end_marker] p")
    case True
    then have "p' = p\<lparr>pindex := pindex p + 1\<rparr>"
      using 1(2) by (subst (asm) parse.simps) (auto simp: bind_patch_Inr_iff split: if_splits)
    then show ?thesis using 1(3) by (simp add: actions_named_def)
  next
    case False
    then obtain q where q: "parse_action p = Inr q" "parse q = Inr p'"
      using 1(2) by (subst (asm) parse.simps) (auto split: sum.splits)
    then show ?thesis using 1(1) [OF False q] parse_action_named [OF q(1) 1(3)] parse_action_advances [OF q(1)]
      by (simp add: parser_after_def)
  qed
qed

lemma patch_to_commit_touched:
  "patch_to_commit acts orig = Inr changes \<Longrightarrow> q \<in> touched changes \<Longrightarrow>
   \<exists>(path, act) \<in> set acts. q = path \<or> truthy (move_path act) \<and> q = the (move_path act)"
proof (induction acts arbitrary: changes)
  case (Cons a acts)
  obtain path act where a: "a = (path, act)" by (cases a)
  then obtain ch changes1 where c: "changes = (path, ch) # changes1" "patch_to_commit acts orig = Inr changes1"
    "change_move_path ch = None \<or> change_move_path ch = move_path act"
    using Cons.prems(1) by (auto simp: bind_patch_Inr_iff split: ActionType.splits option.splits)
  have "q = path \<or> truthy (change_move_path ch) \<and> q = the (change_move_path ch) \<or> q \<in> touched changes1"
    using Cons.prems(2) c(1) by (auto split: if_splits)
  then show ?case
    using Cons.IH [OF c(2)] c(3) a by (auto simp: truthy_def)
qed simp

lemma plan_touches_named:
  assumes "plan_patch io text s = Inr (fuzz, commit)" "q \<in> touched commit"
  shows "names_path (split_lines (strip text)) q"
proof -
  obtain orig acts where t: "text_to_patch text orig = Inr (acts, fuzz)" "patch_to_commit acts orig = Inr commit"
    using assms(1) by (auto simp: plan_patch_def bind_patch_Inr_iff split: if_splits)
  let ?p = "\<lparr>current_files = orig, plines = split_lines (strip text), pindex = 1, actions = [], pfuzz = 0\<rparr>"
  obtain p' where p': "parse ?p = Inr p'" "acts = actions p'"
    using t(1) by (auto simp: text_to_patch_def Let_def bind_patch_Inr_iff split: if_splits)
  have "actions_named ?p" by (simp add: actions_named_def)
  then have named: "actions_named p'" "plines p' = split_lines (strip text)"
    using parse_named [OF p'(1)] by simp_all
  show ?thesis
    using patch_to_commit_touched [OF t(2) assms(2)] named(1) unfolding p'(2) actions_named_def named(2) by blast
qed

lemma apply_commit_executor:
  "apply_commit (executor_io env) changes d = (r, d') \<Longrightarrow> d' q \<noteq> d q \<Longrightarrow>
   \<exists>path \<in> touched changes. resolve_path env path = Inr q"
proof (induction changes arbitrary: d)
  case (Cons c changes)
  obtain path ch where c: "c = (path, ch)" by (cases c)
  obtain r1 d1 where d1: "apply_change (executor_io env) path ch d = (r1, d1)"
    by (cases "apply_change (executor_io env) path ch d")
  have w: "d2 q \<noteq> d3 q \<Longrightarrow> resolve_path env p = Inr q"
    if "write_file env p content d3 = (r2, d2)" for p content d3 r2 d2
    using that by (auto simp: write_file_def split: sum.splits option.splits if_splits)
  have rm: "d2 q \<noteq> d3 q \<Longrightarrow> resolve_path env p = Inr q"
    if "remove_file env p d3 = (r2, d2)" for p d3 r2 d2
    using that by (auto simp: remove_file_def split: sum.splits option.splits if_splits)
  have one: "\<exists>p \<in> touched [(path, ch)]. resolve_path env p = Inr q" if ne: "d1 q \<noteq> d q"
  proof (cases "change_type ch = UPDATE \<and> truthy (change_move_path ch)")
    case True
    then obtain content where "new_content ch = Some content"
      using d1 ne by (auto simp: apply_change_def split: option.splits)
    obtain r2 d2 where wr: "write_file env (the (change_move_path ch)) content d = (r2, d2)" by fastforce
    have "d2 q \<noteq> d q \<or> (\<exists>r3. remove_file env path d2 = (r3, d1) \<and> d1 q \<noteq> d2 q)" (is "_ \<or> (\<exists>r3. ?R r3)")
      using d1 ne True wr \<open>new_content ch = Some content\<close>
      by (auto simp: apply_change_def executor_io_def split: option.splits)
    then show ?thesis
    proof
      assume "d2 q \<noteq> d q"
      then show ?thesis using w [OF wr] True by auto
    next
      assume "\<exists>r3. ?R r3"
      then show ?thesis using rm by auto
    qed
  next
    case False
    then have "(\<exists>content r2. write_file env path content d = (r2, d1)) \<or> (\<exists>r2. remove_file env path d = (r2, d1))"
      using d1 ne by (auto simp: apply_change_def executor_io_def split: ActionType.splits option.splits if_splits)
    then show ?thesis using w rm ne by fastforce
  qed
  show ?case
  proof (cases "d1 q = d q")
    case False
    then show ?thesis using one c by (auto split: if_splits)
  next
    case True
    then have "apply_commit (executor_io env) changes d1 = (r, d')" "d' q \<noteq> d1 q"
      using Cons.prems d1 c by (auto split: option.splits)
    then show ?thesis using Cons.IH c by (auto split: if_splits)
  qed
qed simp


section \<open>Properties\<close>


text \<open>C19: The executor changes only files inside the workspace, and of these only files the patch names
  in a header line; a target of a move is a relative path without \<open>..\<close>.
\<close>

theorem executor_confined:
  assumes "execute_patch env text d = (r, d')" "d' q \<noteq> d q"
  shows "prefix (workspace_root env) q \<and>
    (\<exists>path. names_path (split_lines (strip text)) path \<and> resolve_path env path = Inr q)"
proof -
  have "snd (process_patch (executor_io env) text d) = d'"
    using assms(1) by (auto simp: execute_patch_def split: prod.splits sum.splits if_splits)
  then obtain fuzz commit r1 where p: "plan_patch (executor_io env) text d = Inr (fuzz, commit)"
    "apply_commit (executor_io env) commit d = (r1, d')"
    using assms(2) by (cases "plan_patch (executor_io env) text d")
      (auto simp: process_patch_def split: prod.splits option.splits)
  from apply_commit_executor [OF p(2) assms(2)] obtain path where
    "path \<in> touched commit" "resolve_path env path = Inr q" by blast
  moreover from this(2) have "prefix (workspace_root env) q" by (auto simp: resolve_path_def Let_def split: if_splits)
  ultimately show ?thesis using plan_touches_named [OF p(1)] by blast
qed

definition sample_env :: patch_env where
  "sample_env = \<lparr>workspace_root = [''w''], realpath = (\<lambda>parts. parts), read_error = (\<lambda>_. None),
     write_error = (\<lambda>_. None), remove_error = (\<lambda>_. None)\<rparr>"

definition sample_patch :: string where
  "sample_patch = ''*** Begin Patch'' @ newline @ ''*** Add File: c'' @ newline @ ''+n'' @ newline @ ''*** End Patch''"

theorem executor_confined_witness:
  "\<exists>r d'. execute_patch sample_env sample_patch Map.empty = (r, d') \<and> d' [''w'', ''c''] = Some ''n'' \<and>
     (\<exists>path. names_path (split_lines (strip sample_patch)) path \<and>
        resolve_path sample_env path = Inr [''w'', ''c''])"
proof -
  have "snd (execute_patch sample_env sample_patch Map.empty) [''w'', ''c''] = Some ''n''" by code_simp
  then obtain r d' where p: "execute_patch sample_env sample_patch Map.empty = (r, d')" "d' [''w'', ''c''] = Some ''n''"
    by (cases "execute_patch sample_env sample_patch Map.empty") simp
  then show ?thesis using executor_confined [OF p(1), of "[''w'', ''c'']"] by auto
qed

section \<open>Corner cases of the code\<close>

text \<open>A move of a file to its own path writes the new content and then removes the file.\<close>

lemma self_move_deletes:
  assumes "s path = Some content" "path \<noteq> []"
  shows "apply_change dict_io path
      \<lparr>change_type = UPDATE, old_content = Some content, new_content = Some new, change_move_path = Some path\<rparr> s =
    (None, s(path := None))"
  using assms by (simp add: apply_change_def truthy_def)

text \<open>An empty file that is deleted or added makes \<open>assemble_changes\<close> fail.\<close>

lemma assemble_changes_empty_file:
  "assemble_changes [(path, Some [])] [] = Inl DiffError" "assemble_changes [] [(path, Some [])] = Inl DiffError"
  by (simp_all add: assemble_changes_def dict_get_def truthy_def)

end
