(* ===== verification/Patch_Roundtrip.thy ===== *)
theory Patch_Roundtrip
  imports Patch_Safety
begin

text \<open>
  The round trip of the patch format: file edits printed as a patch and applied by \<open>process_patch\<close>
  (\<open>apply_patch/core.py\<close>) have exactly their effect on the files.
\<close>

section \<open>Printing edits\<close>

datatype file_edit = AddFile "string list" | DeleteFile | UpdateFile "line_edit list" string

fun edit_line :: "line_edit \<Rightarrow> string" where
  "edit_line (Keep s) = CHR '' '' # s"
| "edit_line (Del s) = CHR ''-'' # s"
| "edit_line (Ins s) = CHR ''+'' # s"

fun print_edit :: "string \<times> file_edit \<Rightarrow> string list" where
  "print_edit (path, AddFile ls) = (''*** Add File: '' @ path) # map ((#) (CHR ''+'')) ls"
| "print_edit (path, DeleteFile) = [''*** Delete File: '' @ path]"
| "print_edit (path, UpdateFile es mv) =
     (''*** Update File: '' @ path) # (if mv = [] then [] else [''*** Move to: '' @ mv]) @ map edit_line es"

definition patch_text_lines :: "(string \<times> file_edit) list \<Rightarrow> string list" where
  "patch_text_lines edits = ''*** Begin Patch'' # concat (map print_edit edits) @ [end_marker]"

definition print_patch :: "(string \<times> file_edit) list \<Rightarrow> string" where
  "print_patch edits = join_lines (patch_text_lines edits)"

fun new_of :: "line_edit list \<Rightarrow> string list" where
  "new_of [] = []"
| "new_of (Keep s # es) = s # new_of es"
| "new_of (Del s # es) = new_of es"
| "new_of (Ins s # es) = s # new_of es"

definition one_line :: "string \<Rightarrow> bool" where
  "one_line s \<longleftrightarrow> CHR 0x0A \<notin> set s"

text \<open>An edit that fits the files: what it updates or deletes exists, and an update covers its file.\<close>

fun edit_fits :: "(string \<rightharpoonup> string) \<Rightarrow> string \<times> file_edit \<Rightarrow> bool" where
  "edit_fits s (path, AddFile ls) \<longleftrightarrow> path \<noteq> [] \<and> one_line path \<and> list_all one_line ls"
| "edit_fits s (path, DeleteFile) \<longleftrightarrow> path \<noteq> [] \<and> one_line path \<and> s path \<noteq> None"
| "edit_fits s (path, UpdateFile es mv) \<longleftrightarrow> path \<noteq> [] \<and> one_line path \<and>
     map_option split_lines (s path) = Some (old_of es) \<and> list_all one_line (map edit_line es) \<and>
     one_line mv \<and> (mv \<noteq> [] \<longrightarrow> ''..'' \<notin> set (split_on (CHR ''/'') mv) \<and> \<not> prefix ''/'' mv)"

fun apply_edit :: "string \<times> file_edit \<Rightarrow> (string \<rightharpoonup> string) \<Rightarrow> (string \<rightharpoonup> string)" where
  "apply_edit (path, AddFile ls) s = s(path \<mapsto> join_lines ls)"
| "apply_edit (path, DeleteFile) s = s(path := None)"
| "apply_edit (path, UpdateFile es mv) s =
     (if mv = [] then s(path \<mapsto> join_lines (new_of es))
      else (s(mv \<mapsto> join_lines (new_of es)))(path := None))"

section \<open>Text and lines\<close>

lemma split_on_ne [simp]: "split_on sep s \<noteq> []"
  by (induction s) (auto split: list.splits)

lemma split_on_none: "sep \<notin> set s \<Longrightarrow> split_on sep s = [s]"
  by (induction s) auto

lemma split_on_append: "sep \<notin> set s \<Longrightarrow> split_on sep (s @ sep # t) = s # split_on sep t"
  by (induction s) (auto split: list.splits)

lemma split_join: "ls \<noteq> [] \<Longrightarrow> list_all one_line ls \<Longrightarrow> split_lines (join_lines ls) = ls"
proof (induction ls rule: induct_list012)
  case (2 l)
  then show ?case by (simp add: one_line_def split_on_none)
next
  case (3 l m ls)
  then show ?case by (simp add: one_line_def newline_def split_on_append)
qed simp

lemma strip_id: "s \<noteq> [] \<Longrightarrow> \<not> is_space (hd s) \<Longrightarrow> \<not> is_space (last s) \<Longrightarrow> strip s = s"
proof -
  assume s: "s \<noteq> []" "\<not> is_space (hd s)" "\<not> is_space (last s)"
  have "lstrip s = s" using s(1,2) by (cases s) (simp_all add: lstrip_def)
  moreover have "dropWhile is_space (rev s) = rev s" using s(1,3) by (cases s rule: rev_cases) simp_all
  ultimately show ?thesis by (simp add: strip_def rstrip_def)
qed

lemma join_lines_ends:
  "ls \<noteq> [] \<Longrightarrow> \<exists>t. join_lines (l # ls) = l @ newline @ t"
  "last ls \<noteq> [] \<Longrightarrow> ls \<noteq> [] \<Longrightarrow> join_lines ls \<noteq> [] \<and> last (join_lines ls) = last (last ls)"
proof -
  show "ls \<noteq> [] \<Longrightarrow> \<exists>t. join_lines (l # ls) = l @ newline @ t" by (cases ls) auto
  show "last ls \<noteq> [] \<Longrightarrow> ls \<noteq> [] \<Longrightarrow> join_lines ls \<noteq> [] \<and> last (join_lines ls) = last (last ls)"
    by (induction ls rule: induct_list012) (auto simp: newline_def)
qed

lemma print_edit_lines: "edit_fits s e \<Longrightarrow> list_all one_line (print_edit e)"
  by (cases "(s, e)" rule: edit_fits.cases) (auto simp: one_line_def list_all_iff)

lemma patch_text:
  assumes "list_all (edit_fits s) edits"
  shows "split_lines (strip (print_patch edits)) = patch_text_lines edits"
    "prefix ''*** Begin Patch'' (print_patch edits)"
proof -
  let ?ls = "concat (map print_edit edits) @ [end_marker]"
  obtain t where t: "print_patch edits = ''*** Begin Patch'' @ newline @ t"
    using join_lines_ends(1) [of ?ls "''*** Begin Patch''"] by (auto simp: print_patch_def patch_text_lines_def)
  then show "prefix ''*** Begin Patch'' (print_patch edits)" by simp
  have "last (print_patch edits) = CHR ''h''"
    using join_lines_ends(2) [of "patch_text_lines edits"] by (simp add: print_patch_def patch_text_lines_def)
  then have "strip (print_patch edits) = print_patch edits"
    using t by (intro strip_id) (auto simp: is_space_def)
  moreover have "list_all one_line (patch_text_lines edits)"
    using assms print_edit_lines by (auto simp: patch_text_lines_def list_all_iff one_line_def)
  ultimately show "split_lines (strip (print_patch edits)) = patch_text_lines edits"
    using split_join [of "patch_text_lines edits"] by (simp add: print_patch_def patch_text_lines_def)
qed

lemma needed_edit_line: "needed_path (edit_line e) = None"
  by (cases e) (simp_all add: needed_path_def)

lemma map_filter_none: "\<forall>x \<in> set xs. f x = None \<Longrightarrow> List.map_filter f xs = []"
  by (induction xs) (auto simp: List.map_filter_simps)

lemma needed_append: "List.map_filter f (xs @ ys) = List.map_filter f xs @ List.map_filter f ys"
  by (induction xs) (auto simp: List.map_filter_simps split: option.splits)

lemma needed_print_edit:
  "List.map_filter needed_path (print_edit (path, e)) = (case e of AddFile _ \<Rightarrow> [] | _ \<Rightarrow> [path])"
proof (cases e)
  case (AddFile ls)
  then show ?thesis by (auto simp: List.map_filter_simps needed_path_def intro!: map_filter_none)
next
  case DeleteFile
  then show ?thesis by (simp add: List.map_filter_simps needed_path_def)
next
  case (UpdateFile es mv)
  have "List.map_filter needed_path (map edit_line es) = []"
    by (rule map_filter_none) (simp add: needed_edit_line)
  then show ?thesis using UpdateFile by (simp add: List.map_filter_simps needed_path_def needed_append)
qed

lemma map_filter_concat: "List.map_filter f (concat xss) = concat (map (List.map_filter f) xss)"
  by (induction xss) (simp_all add: needed_append List.map_filter_simps)

lemma needed_iff:
  assumes "list_all (edit_fits s) edits"
  shows "path \<in> set (identify_files_needed (print_patch edits)) \<longleftrightarrow>
    (\<exists>e. (path, e) \<in> set edits \<and> (\<forall>ls. e \<noteq> AddFile ls))"
proof -
  have eq: "set (identify_files_needed (print_patch edits)) =
      (\<Union>e \<in> set edits. set (List.map_filter needed_path (print_edit e)))"
    unfolding identify_files_needed_def patch_text(1) [OF assms(1)] patch_text_lines_def
    by (simp add: List.map_filter_simps needed_path_def needed_append map_filter_concat)
  have one: "path \<in> set (List.map_filter needed_path (print_edit (q, k))) \<longleftrightarrow> q = path \<and> (\<forall>ls. k \<noteq> AddFile ls)"
    for q k by (cases k) (auto simp: needed_print_edit simp del: print_edit.simps)
  show ?thesis unfolding eq UN_iff Bex_def split_paired_Ex one by auto
qed

lemma edit_fits_file:
  "edit_fits s (path, e) \<Longrightarrow> \<forall>ls. e \<noteq> AddFile ls \<Longrightarrow> s path \<noteq> None"
  by (cases e) auto

section \<open>Reading it back\<close>

text \<open>The rest of the patch from the position of the parser on.\<close>

definition rest_is :: "parser \<Rightarrow> string list \<Rightarrow> bool" where
  "rest_is p ls \<longleftrightarrow> drop (pindex p) (plines p) = ls"

lemma rest_isD:
  assumes "rest_is p (l # ls)"
  shows "pindex p < length (plines p)" "plines p ! pindex p = l" "rest_is (p\<lparr>pindex := Suc (pindex p)\<rparr>) ls"
proof -
  show i: "pindex p < length (plines p)" using assms unfolding rest_is_def
    by (metis drop_eq_Nil list.distinct(1) not_le)
  then have "drop (pindex p) (plines p) = plines p ! pindex p # drop (Suc (pindex p)) (plines p)"
    by (simp add: Cons_nth_drop_Suc)
  then show "plines p ! pindex p = l" "rest_is (p\<lparr>pindex := Suc (pindex p)\<rparr>) ls"
    using assms by (simp_all add: rest_is_def)
qed

lemma read_str_rest:
  assumes "rest_is p (l # ls)"
  shows "read_str pre False p =
    (if prefix pre l then Inr (drop (length pre) l, p\<lparr>pindex := Suc (pindex p)\<rparr>) else Inr ([], p))"
  using rest_isD [OF assms] by (simp add: read_str_def)

lemma is_done_rest:
  assumes "rest_is p (l # ls)"
  shows "is_done pres p = starts_with_any pres l"
  using rest_isD [OF assms] by (auto simp: is_done_def)

lemma rest_is_skip: "rest_is p (xs @ ls) \<Longrightarrow> rest_is (p\<lparr>pindex := pindex p + length xs\<rparr>) ls"
proof -
  assume "rest_is p (xs @ ls)"
  moreover have "drop (pindex p + length xs) (plines p) = drop (length xs) (drop (pindex p) (plines p))"
    by (simp add: add.commute)
  ultimately show ?thesis by (simp add: rest_is_def del: drop_drop)
qed

text \<open>The lines at which an action ends.\<close>

definition stop_line :: "string \<Rightarrow> bool" where
  "stop_line l \<longleftrightarrow> l = end_marker \<or> (\<exists>q. l = ''*** Update File: '' @ q \<or> l = ''*** Delete File: '' @ q \<or>
     l = ''*** Add File: '' @ q)"

lemma stop_line_ends:
  assumes "stop_line l"
  shows "starts_with_any UPDATE_END l" "starts_with_any ADD_END l" "starts_with_any SECTION_PREFIXES l"
    "l \<noteq> ''*** End of File''"
  using assms by (auto simp: stop_line_def starts_with_any_def UPDATE_END_def ADD_END_def SECTION_PREFIXES_def)

lemma stop_line_next: "\<exists>l ls. concat (map print_edit edits) @ [end_marker] = l # ls \<and> stop_line l"
proof (cases edits)
  case (Cons e es)
  then show ?thesis by (cases e; cases "snd e") (auto simp: stop_line_def)
qed (simp add: stop_line_def)

lemma add_loop_rest:
  "rest_is p (map ((#) (CHR ''+'')) xs @ l # ls) \<Longrightarrow> stop_line l \<Longrightarrow>
   add_loop p acc = Inr (acc @ xs, p\<lparr>pindex := pindex p + length xs\<rparr>)"
proof (induction xs arbitrary: p acc)
  case Nil
  then show ?case using is_done_rest [of p l ls ADD_END] stop_line_ends
    by (subst add_loop.simps) simp
next
  case (Cons x xs)
  have rest: "rest_is p ((CHR ''+'' # x) # map ((#) (CHR ''+'')) xs @ l # ls)" using Cons.prems by simp
  have "\<not> is_done ADD_END p" using is_done_rest [OF rest] by (simp add: starts_with_any_def ADD_END_def)
  then have "add_loop p acc = add_loop (p\<lparr>pindex := Suc (pindex p)\<rparr>) (acc @ [x])"
    by (subst add_loop.simps) (simp add: read_str_rest [OF rest])
  then show ?case using Cons.IH [OF rest_isD(3) [OF rest] Cons.prems(2)] by simp
qed

lemma section_loop_rest:
  assumes "starts_with_any SECTION_PREFIXES l"
  shows "section_loop (map edit_line es @ l # ls) st = Inr (fold run_edit es st)"
proof (induction es arbitrary: st)
  case Nil
  then show ?case using assms by simp
next
  case (Cons e es)
  then show ?case by (cases e) (simp_all add: starts_with_any_def SECTION_PREFIXES_def Let_def)
qed

lemma sindex_run_edits: "sindex (fold run_edit es st) = sindex st + length es"
proof (induction es arbitrary: st)
  case (Cons e es)
  then show ?case by (cases e) simp_all
qed simp

lemma peek_rest:
  assumes "rest_is p (map edit_line es @ l # ls)" "es \<noteq> []" "stop_line l"
  shows "peek_next_section (plines p) (pindex p) =
    Inr (old_of es, section_chunks es, pindex p + length es, False)"
proof -
  let ?i = "pindex p + length es"
  have st: "section_loop (drop (pindex p) (plines p)) (section_start (pindex p)) =
      Inr (fold run_edit es (section_start (pindex p)))"
    using section_loop_rest [OF stop_line_ends(3) [OF assms(3)]] assms(1) by (simp add: rest_is_def)
  have "rest_is (p\<lparr>pindex := ?i\<rparr>) (l # ls)"
    using rest_is_skip [OF assms(1)] by simp
  note at = rest_isD(1,2) [OF this]
  have i: "sindex (fold run_edit es (section_start (pindex p))) = ?i"
    by (simp add: sindex_run_edits section_start_def)
  have "old (fold run_edit es (section_start (pindex p))) = old_of es"
    using section_invD(1) [OF run_edits_inv] .
  then show ?thesis
    using st i at stop_line_ends(4) [OF assms(3)] assms(2) section_chunks_start
    by (simp add: peek_next_section_def Let_def)
qed

lemma update_loop_rest:
  assumes "rest_is p (map edit_line es @ l # ls)" "old_of es \<noteq> []" "stop_line l"
  shows "update_loop (old_of es) 0 p [] = Inr (section_chunks es, p\<lparr>pindex := pindex p + length es\<rparr>)"
proof -
  have es: "es \<noteq> []" using assms(2) by auto
  then obtain e es' where e: "es = e # es'" by (cases es) auto
  then have rest: "rest_is p (edit_line e # map edit_line es' @ l # ls)" using assms(1) by simp
  have no: "\<not> starts_with_any UPDATE_END (edit_line e)" "\<not> prefix ''@@ '' (edit_line e)" "edit_line e \<noteq> ''@@''"
    by (cases e, simp_all add: starts_with_any_def UPDATE_END_def)+
  have hdr: "read_section_header p = Inr ([], [], p)"
    using no rest_isD [OF rest] by (simp add: read_section_header_def read_str_rest [OF rest] current_line_def)
  have find: "find_context (old_of es) (old_of es) 0 False = (0, 0)"
  proof -
    obtain x xs where "old_of es = x # xs" using assms(2) by (cases "old_of es") auto
    moreover have "[0..int (length (x # xs)) - 1] = 0 # [1..int (length (x # xs)) - 1]"
      by (subst upto.simps) simp
    ultimately show ?thesis
      by (simp add: find_context_def find_context_core_def Let_def py_slice_def py_bound_def)
  qed
  have shift: "map (\<lambda>ch. ch\<lparr>orig_index := orig_index ch + 0\<rparr>) cs = cs" for cs :: "chunk list" by simp
  let ?p = "p\<lparr>pindex := pindex p + length es\<rparr>"
  have "seek_def [] (old_of es) 0 (pfuzz p) = (0, pfuzz p)"
    by (simp add: seek_def_def strip_def lstrip_def rstrip_def)
  then have sec: "update_section (old_of es) 0 p = Inr (section_chunks es, length (old_of es), ?p)"
    using peek_rest [OF assms(1) es assms(3)] find shift by (simp add: update_section_def hdr)
  have "rest_is ?p (l # ls)" using rest_is_skip [OF assms(1)] by simp
  then have fin: "is_done UPDATE_END ?p" using is_done_rest stop_line_ends(1) [OF assms(3)] by blast
  have "\<not> is_done UPDATE_END p" using is_done_rest [OF rest] no(1) by simp
  then have "update_loop (old_of es) 0 p [] = update_loop (old_of es) (length (old_of es)) ?p (section_chunks es)"
    using sec by (subst update_loop.simps) simp
  also have "\<dots> = Inr (section_chunks es, ?p)" using fin by (subst update_loop.simps) simp
  finally show ?thesis .
qed


section \<open>The round trip\<close>

fun action_of :: "string \<times> file_edit \<Rightarrow> string \<times> patch_action" where
  "action_of (path, AddFile ls) =
     (path, \<lparr>action_type = ADD, new_file = Some (join_lines ls), chunks = [], move_path = None\<rparr>)"
| "action_of (path, DeleteFile) =
     (path, \<lparr>action_type = DELETE, new_file = None, chunks = [], move_path = None\<rparr>)"
| "action_of (path, UpdateFile es mv) =
     (path, \<lparr>action_type = UPDATE, new_file = None, chunks = section_chunks es, move_path = Some mv\<rparr>)"

lemma fst_action_of [simp]: "fst (action_of e) = fst e"
  by (cases e rule: action_of.cases) simp_all

definition parsed_action :: "parser \<Rightarrow> string \<times> file_edit \<Rightarrow> parser" where
  "parsed_action p e = p\<lparr>pindex := pindex p + length (print_edit e), actions := actions p @ [action_of e]\<rparr>"

lemma parse_action_rest:
  assumes rest: "rest_is p (print_edit e @ l # ls)" and stop: "stop_line l"
    and fits: "edit_fits s e" and files: "current_files p (fst e) = s (fst e) \<or> (\<exists>xs. snd e = AddFile xs)"
    and new: "fst e \<notin> set (map fst (actions p))"
  shows "parse_action p = Inr (parsed_action p e)"
proof (cases e rule: print_edit.cases)
  case (1 path xs)
  have rest: "rest_is p ((''*** Add File: '' @ path) # map ((#) (CHR ''+'')) xs @ l # ls)"
    using assms(1) 1 by simp
  note r = read_str_rest [OF rest]
  let ?p = "p\<lparr>pindex := Suc (pindex p)\<rparr>"
  have "parse_action p = parse_add_action path ?p"
    using fits 1 by (simp add: parse_action_def r)
  also have "\<dots> = Inr (parsed_action p e)"
    using add_loop_rest [OF rest_isD(3) [OF rest] stop, of "[]"] new 1
    by (simp add: parse_add_action_def parse_add_file_def parsed_action_def)
  finally show ?thesis .
next
  case (2 path)
  have rest: "rest_is p ((''*** Delete File: '' @ path) # l # ls)" using assms(1) 2 by simp
  note r = read_str_rest [OF rest]
  have "parse_action p = parse_delete_action path (p\<lparr>pindex := Suc (pindex p)\<rparr>)"
    using fits 2 by (simp add: parse_action_def r)
  also have "\<dots> = Inr (parsed_action p e)"
    using fits files new 2 by (simp add: parse_delete_action_def parsed_action_def)
  finally show ?thesis .
next
  case (3 path es mv)
  let ?mv = "if mv = [] then [] else [''*** Move to: '' @ mv]"
  have rest: "rest_is p ((''*** Update File: '' @ path) # ?mv @ map edit_line es @ l # ls)"
    using assms(1) 3 by simp
  note r = read_str_rest [OF rest]
  let ?p = "p\<lparr>pindex := Suc (pindex p)\<rparr>" and ?q = "p\<lparr>pindex := Suc (pindex p) + length ?mv\<rparr>"
  have p: "parse_action p = parse_update_action path ?p" using fits 3 by (simp add: parse_action_def r)
  obtain content where c: "s path = Some content" "split_lines content = old_of es" using fits 3 by auto
  then have old: "old_of es \<noteq> []" by (metis split_on_ne)
  have mv: "read_str ''*** Move to: '' False ?p = Inr (mv, ?q)"
  proof (cases "mv = []")
    case True
    obtain e1 es1 where "es = e1 # es1" using old by (cases es) auto
    then have "rest_is ?p (edit_line e1 # map edit_line es1 @ l # ls)"
      using rest_isD(3) [OF rest] True by simp
    moreover have "\<not> prefix ''*** Move to: '' (edit_line e1)" by (cases e1) simp_all
    ultimately show ?thesis using True read_str_rest by fastforce
  next
    case False
    then have "rest_is ?p ((''*** Move to: '' @ mv) # map edit_line es @ l # ls)"
      using rest_isD(3) [OF rest] by simp
    from read_str_rest [OF this] show ?thesis using False by simp
  qed
  have "rest_is ?q (map edit_line es @ l # ls)"
    using rest_is_skip [OF rest_isD(3) [OF rest]] by simp
  note loop = update_loop_rest [OF this old stop]
  have "parse_update_action path ?p = Inr (parsed_action p e)"
    using fits files new 3 c loop mv
    by (cases "mv = []") (simp_all add: parse_update_action_def parse_update_file_def parsed_action_def)
  then show ?thesis using p by simp
qed

lemma parse_rest:
  "rest_is p (concat (map print_edit edits) @ [end_marker]) \<Longrightarrow> list_all (edit_fits s) edits \<Longrightarrow>
   (\<forall>e \<in> set edits. current_files p (fst e) = s (fst e) \<or> (\<exists>xs. snd e = AddFile xs)) \<Longrightarrow>
   distinct (map fst edits) \<Longrightarrow> set (map fst edits) \<inter> set (map fst (actions p)) = {} \<Longrightarrow>
   \<exists>p'. parse p = Inr p' \<and> actions p' = actions p @ map action_of edits \<and> pfuzz p' = pfuzz p"
proof (induction edits arbitrary: p)
  case Nil
  then have rest: "rest_is p [end_marker]" by simp
  then show ?case using is_done_rest [OF rest] rest_isD(1,2) [OF rest]
    by (subst parse.simps) (simp add: startswith_def starts_with_any_def)
next
  case (Cons e edits)
  obtain l ls where l: "concat (map print_edit edits) @ [end_marker] = l # ls" "stop_line l"
    using stop_line_next by blast
  have rest: "rest_is p (print_edit e @ l # ls)" using Cons.prems(1) l(1) by simp
  have act: "parse_action p = Inr (parsed_action p e)"
    using Cons.prems by (intro parse_action_rest [OF rest l(2), of s]) auto
  have "rest_is (parsed_action p e) (concat (map print_edit edits) @ [end_marker])"
    using rest_is_skip [OF rest] l(1) by (simp add: parsed_action_def rest_is_def)
  then obtain p' where p': "parse (parsed_action p e) = Inr p'"
    "actions p' = actions (parsed_action p e) @ map action_of edits" "pfuzz p' = pfuzz (parsed_action p e)"
    using Cons.IH [of "parsed_action p e"] Cons.prems by (auto simp: parsed_action_def)
  have "\<not> is_done [end_marker] p"
    using rest by (cases e rule: print_edit.cases)
      (auto dest!: is_done_rest [where pres = "[end_marker]"] simp: starts_with_any_def)
  then have "parse p = parse (parsed_action p e)" using act by (subst parse.simps) simp
  then show ?case using p' by (simp add: parsed_action_def)
qed


lemma splice_old: "splice_edits es (old_of es) = new_of es"
proof (induction es)
  case (Cons e es)
  then show ?case by (cases e) simp_all
qed simp

lemma updated_file:
  assumes "split_lines content = old_of es"
  shows "get_updated_file content \<lparr>action_type = UPDATE, new_file = None, chunks = section_chunks es, move_path = mv\<rparr>
    = Inr (join_lines (new_of es))"
proof -
  let ?ls = "old_of es"
  have chunks: "section_chunks es = concat (map hunk_chunks [(0, es)])" by (simp add: hunk_chunks_def)
  have ok: "hunks_ok (length ?ls) 0 [(0, es)]" by simp
  have "update_chunks ?ls (section_chunks es) [] 0 0 = Inr (apply_hunks ?ls 0 [(0, es)])"
    using update_chunks_in_order [of ?ls 0 "section_chunks es" "[]"] hunks_apply [OF ok] unfolding chunks by simp
  moreover have "apply_hunks ?ls 0 [(0, es)] = new_of es" by (simp add: splice_old)
  ultimately show ?thesis using assms by (simp add: get_updated_file_def)
qed

fun change_of :: "(string \<rightharpoonup> string) \<Rightarrow> string \<times> file_edit \<Rightarrow> string \<times> file_change" where
  "change_of s (path, AddFile ls) =
     (path, \<lparr>change_type = ADD, old_content = None, new_content = Some (join_lines ls), change_move_path = None\<rparr>)"
| "change_of s (path, DeleteFile) =
     (path, \<lparr>change_type = DELETE, old_content = s path, new_content = None, change_move_path = None\<rparr>)"
| "change_of s (path, UpdateFile es mv) =
     (path, \<lparr>change_type = UPDATE, old_content = s path, new_content = Some (join_lines (new_of es)),
             change_move_path = Some mv\<rparr>)"

lemma patch_to_commit_actions:
  "list_all (edit_fits s) edits \<Longrightarrow> (\<forall>e \<in> set edits. orig (fst e) = s (fst e) \<or> (\<exists>xs. snd e = AddFile xs)) \<Longrightarrow>
   patch_to_commit (map action_of edits) orig = Inr (map (change_of s) edits)"
proof (induction edits)
  case (Cons e edits)
  then show ?case
    by (cases e rule: print_edit.cases) (auto simp: updated_file)
qed simp

lemma apply_change_of:
  assumes "edit_fits s0 e" "\<forall>ls. snd e \<noteq> AddFile ls \<longrightarrow> s (fst e) \<noteq> None"
  shows "apply_change dict_io (fst e) (snd (change_of s0 e)) s = (None, apply_edit e s)"
  using assms by (cases e rule: print_edit.cases) (auto simp: apply_change_def truthy_def fun_upd_twist)

text \<open>An edit leaves the files of the edits behind it, whose paths are different.\<close>

lemma apply_edit_keeps: "q \<noteq> fst e \<Longrightarrow> s q \<noteq> None \<Longrightarrow> apply_edit e s q \<noteq> None"
  by (cases e rule: print_edit.cases) auto

lemma apply_commit_edits:
  "list_all (edit_fits s0) edits \<Longrightarrow> distinct (map fst edits) \<Longrightarrow>
   (\<forall>e \<in> set edits. (\<forall>ls. snd e \<noteq> AddFile ls) \<longrightarrow> s (fst e) \<noteq> None) \<Longrightarrow>
   apply_commit dict_io (map (change_of s0) edits) s = (None, fold apply_edit edits s)"
proof (induction edits arbitrary: s)
  case (Cons e edits)
  have "fst (change_of s0 e) = fst e" by (cases e rule: print_edit.cases) simp_all
  then obtain ch where ch: "change_of s0 e = (fst e, ch)" by (cases "change_of s0 e") simp
  have "apply_change dict_io (fst e) ch s = (None, apply_edit e s)"
  proof (cases "\<exists>ls. snd e = AddFile ls")
    case True
    then show ?thesis using Cons.prems(1) ch by (cases e rule: print_edit.cases) (auto simp: apply_change_def)
  next
    case False
    then show ?thesis using apply_change_of [of s0 e s] Cons.prems(1,3) ch by simp
  qed
  moreover have "\<forall>f \<in> set edits. (\<forall>ls. snd f \<noteq> AddFile ls) \<longrightarrow> apply_edit e s (fst f) \<noteq> None"
  proof (intro ballI impI)
    fix f assume f: "f \<in> set edits" "\<forall>ls. snd f \<noteq> AddFile ls"
    have "fst f \<in> set (map fst edits)" using f(1) by simp
    then have "fst f \<noteq> fst e" using Cons.prems(2) by (cases "fst f = fst e") simp_all
    then show "apply_edit e s (fst f) \<noteq> None" using apply_edit_keeps Cons.prems(3) f by simp
  qed
  ultimately show ?case using Cons.IH Cons.prems(1,2) ch by simp
qed simp

text \<open>C16: Edits of files with different paths, printed as a patch and processed, succeed without fuzz and
  have exactly the effect of the edits, one after the other: files are added, deleted, updated line by
  line and moved.
\<close>

theorem patch_roundtrip:
  assumes "list_all (edit_fits s) edits" "distinct (map fst edits)"
  shows "\<exists>commit. process_patch dict_io (print_patch edits) s = (Inr (''Done!'', 0, commit), fold apply_edit edits s)"
proof -
  let ?text = "print_patch edits"
  let ?orig = "s |` set (identify_files_needed ?text)"
  have source: "s (fst e) \<noteq> None \<and> ?orig (fst e) = s (fst e)" if "e \<in> set edits" "\<forall>ls. snd e \<noteq> AddFile ls" for e
  proof (cases e)
    case (Pair q k)
    then have "q \<in> set (identify_files_needed ?text)" using that needed_iff [OF assms(1), of q] by auto
    moreover have "s q \<noteq> None"
      using edit_fits_file [of s q k] assms(1) that Pair by (auto simp: list_all_iff)
    ultimately show ?thesis using Pair by (simp add: restrict_map_def)
  qed
  have load: "load_files dict_io (identify_files_needed ?text) s = Inr ?orig"
  proof -
    have "s q \<noteq> None" if "q \<in> set (identify_files_needed ?text)" for q
      using that needed_iff [OF assms(1)] source by fastforce
    then show ?thesis by (simp add: load_files_dict)
  qed
  let ?p = "\<lparr>current_files = ?orig, plines = patch_text_lines edits, pindex = 1, actions = [], pfuzz = 0\<rparr>"
  have "rest_is ?p (concat (map print_edit edits) @ [end_marker])" by (simp add: rest_is_def patch_text_lines_def)
  moreover have files: "\<forall>e \<in> set edits. ?orig (fst e) = s (fst e) \<or> (\<exists>xs. snd e = AddFile xs)"
    using source by blast
  ultimately obtain p' where p': "parse ?p = Inr p'" "actions p' = map action_of edits" "pfuzz p' = 0"
    using parse_rest [of ?p edits s] assms by auto
  have "text_to_patch ?text ?orig = Inr (map action_of edits, 0)"
    unfolding text_to_patch_def patch_text(1) [OF assms(1)] Let_def
    using p' by (simp add: patch_text_lines_def)
  moreover have "patch_to_commit (map action_of edits) ?orig = Inr (map (change_of s) edits)"
    by (rule patch_to_commit_actions [OF assms(1) files])
  ultimately have "plan_patch dict_io ?text s = Inr (0, map (change_of s) edits)"
    using load patch_text(2) [OF assms(1)] by (simp add: plan_patch_def)
  moreover have "apply_commit dict_io (map (change_of s) edits) s = (None, fold apply_edit edits s)"
    using source by (intro apply_commit_edits assms) simp
  ultimately show ?thesis by (simp add: process_patch_def)
qed

definition sample_files :: "string \<rightharpoonup> string" where
  "sample_files = [''a'' \<mapsto> ''x'' @ newline @ ''y'', ''b'' \<mapsto> ''z'']"

definition sample_edits :: "(string \<times> file_edit) list" where
  "sample_edits = [(''a'', UpdateFile [Keep ''x'', Del ''y'', Ins ''w''] ''m''), (''b'', DeleteFile), (''c'', AddFile [''n''])]"

theorem patch_roundtrip_witness:
  "\<exists>commit s'. process_patch dict_io (print_patch sample_edits) sample_files = (Inr (''Done!'', 0, commit), s') \<and>
     s' ''a'' = None \<and> s' ''m'' = Some (''x'' @ newline @ ''w'') \<and> s' ''b'' = None \<and> s' ''c'' = Some ''n''"
proof -
  have "list_all (edit_fits sample_files) sample_edits" by code_simp
  moreover have "distinct (map fst sample_edits)" by code_simp
  ultimately show ?thesis using patch_roundtrip [of sample_files sample_edits]
    by (auto simp: sample_edits_def)
qed

end
