(* ===== verification/Tool_Calls.thy ===== *)
theory Tool_Calls
  imports Events "HOL-Library.Char_ord"
begin

text \<open>
  Reading the tool calls of an LLM (\<open>agent/utils.py\<close>): the arguments as JSON with stray control
  characters repaired, misspelt keys, arguments of the wrong shape against the tool's schema, and the
  normalization of the name and the arguments a tool is called with (aliases, names with markup
  behind them, the fallback to the terminal, the inferred command of the file editor), with
  \<open>_extract_summary\<close> of \<open>agent/agent.py\<close>.

  A dictionary is a finite map: the order of its keys shows only in the texts \<open>json.dumps\<close> writes.
  The JSON parser (strict, and with control characters allowed) and printer are parameters, with
  \<open>str\<close> of a value that is not a string, the platform, the programs on its path, and the order in
  which Python runs through the keys of a dictionary, which is that of their insertion, and through a
  set of strings, which differs from process to process.
\<close>

type_synonym arguments = "(string, json) fmap"

record call_platform =
  json_loads :: "string \<Rightarrow> json result"
  json_loads_lax :: "string \<Rightarrow> json result"
  json_dumps :: "json \<Rightarrow> string"
  py_str :: "json \<Rightarrow> string"
  typo_order :: "string list"
  key_order :: "arguments \<Rightarrow> string list"
  is_windows :: bool
  has_program :: "string \<Rightarrow> bool"
  grep_fallback_script :: string

abbreviation json_none :: json where
  "json_none \<equiv> JScalar ''null''"

text \<open>Python's truth of a value; zero and \<open>False\<close> are equal, so they share a spelling.\<close>

fun json_truthy :: "json \<Rightarrow> bool" where
  "json_truthy (JScalar s) \<longleftrightarrow> s \<notin> {''null'', ''false'', ''0''}"
| "json_truthy (JStr s) \<longleftrightarrow> s \<noteq> []"
| "json_truthy (JList xs) \<longleftrightarrow> xs \<noteq> []"
| "json_truthy (JDict d) \<longleftrightarrow> d \<noteq> fmempty"

section \<open>Parsing the arguments\<close>

definition is_control :: "char \<Rightarrow> bool" where
  "is_control c \<longleftrightarrow> (of_char c :: nat) < 0x20"

definition hex_digit :: "nat \<Rightarrow> char" where
  "hex_digit n = ''0123456789abcdef'' ! n"

definition backslash :: char where
  "backslash = CHR 0x5C"

definition escape_control_char :: "char \<Rightarrow> string" where
  "escape_control_char c =
     (if c = CHR 0x08 then [backslash, CHR ''b'']
      else if c = CHR 0x09 then [backslash, CHR ''t'']
      else if c = CHR 0x0A then [backslash, CHR ''n'']
      else if c = CHR 0x0C then [backslash, CHR ''f'']
      else if c = CHR 0x0D then [backslash, CHR ''r'']
      else [backslash, CHR ''u'', CHR ''0'', CHR ''0'', hex_digit (of_char c div 16), hex_digit (of_char c mod 16)])"

definition sanitize_json_control_chars :: "string \<Rightarrow> string" where
  "sanitize_json_control_chars raw =
     concat (map (\<lambda>c. if is_control c then escape_control_char c else [c]) raw)"

definition security_risk_typos :: "string set" where
  "security_risk_typos = {''security_rort'', ''securtiy_risk'', ''security_riks''}"

fun fix_typos :: "string list \<Rightarrow> arguments \<Rightarrow> arguments" where
  "fix_typos [] args = args"
| "fix_typos (typo # typos) args =
     (case fmlookup args typo of
        Some v \<Rightarrow> fmupd ''security_risk'' v (fmdrop typo args)
      | None \<Rightarrow> fix_typos typos args)"

definition normalize_arguments :: "call_platform \<Rightarrow> arguments \<Rightarrow> arguments" where
  "normalize_arguments pf args =
     (let normalized = fix_typos (typo_order pf) args
      in fmfilter (\<lambda>k. fmlookup normalized k \<noteq> Some json_none) normalized)"

definition parse_tool_call_arguments :: "call_platform \<Rightarrow> string \<Rightarrow> arguments result" where
  "parse_tool_call_arguments pf raw =
     bind_result
       (case json_loads pf raw of
          Inl e \<Rightarrow> if e = JSONDecodeError then json_loads pf (sanitize_json_control_chars raw) else Inl e
        | Inr parsed \<Rightarrow> Inr parsed)
       (\<lambda>parsed. Inr (normalize_arguments pf (case parsed of JDict d \<Rightarrow> d | _ \<Rightarrow> fmempty)))"

section \<open>Arguments of the wrong shape\<close>

text \<open>
  The types a schema can ask for, and the annotations of a pydantic model as \<open>get_origin\<close> and
  \<open>get_args\<close> take them apart.
\<close>

datatype py_type = PyStr | PyList | PyDict | PyBool | PyInt | PyFloat | PyOtherType string

datatype annotation =
    AnnPlain py_type
  | AnnGeneric py_type "annotation list"
  | AnnUnion "annotation list"
  | AnnAnnotated annotation

record field_info =
  fi_name :: string
  fi_alias :: "string option"
  fi_annotation :: annotation

datatype argument_schema =
    ModelFields "field_info list"
  | JsonSchema arguments

fun origin_of :: "annotation \<Rightarrow> py_type option" where
  "origin_of (AnnPlain t) = None"
| "origin_of (AnnGeneric t _) = Some t"
| "origin_of (AnnUnion _) = Some (PyOtherType ''Union'')"
| "origin_of (AnnAnnotated _) = Some (PyOtherType ''Annotated'')"

text \<open>\<open>get_origin(arg) or arg\<close>.\<close>

fun origin_or_self :: "annotation \<Rightarrow> py_type" where
  "origin_or_self (AnnPlain t) = t"
| "origin_or_self a = the (origin_of a)"

definition field_origins :: "field_info \<Rightarrow> py_type list" where
  "field_origins f =
     (let expected = (case fi_annotation f of AnnAnnotated a \<Rightarrow> a | a \<Rightarrow> a)
      in case expected of
           AnnUnion args \<Rightarrow> map origin_or_self args
         | _ \<Rightarrow> [origin_or_self expected])"

definition data_key :: "field_info \<Rightarrow> string" where
  "data_key f = (case fi_alias f of Some a \<Rightarrow> if a \<noteq> [] then a else fi_name f | None \<Rightarrow> fi_name f)"

definition json_type_map :: "string \<Rightarrow> py_type option" where
  "json_type_map = map_of [(''array'', PyList), (''boolean'', PyBool), (''integer'', PyInt),
     (''number'', PyFloat), (''object'', PyDict), (''string'', PyStr)]"

text \<open>The elements \<open>for\<close> runs through: those of a list, the keys of a dictionary, the characters of a string.\<close>

fun dict_options :: "json \<Rightarrow> arguments list result" where
  "dict_options (JList xs) = Inr (List.map_filter (\<lambda>x. case x of JDict d \<Rightarrow> Some d | _ \<Rightarrow> None) xs)"
| "dict_options (JDict _) = Inr []"
| "dict_options (JStr _) = Inr []"
| "dict_options (JScalar _) = Inl TypeErr"

fun named_types :: "json list \<Rightarrow> py_type list result" where
  "named_types [] = Inr []"
| "named_types (t # ts) =
     (case t of
        JStr s \<Rightarrow>
          bind_result (named_types ts) (\<lambda>r. Inr ((case json_type_map s of Some p \<Rightarrow> [p] | None \<Rightarrow> []) @ r))
      | JScalar _ \<Rightarrow> named_types ts
      | _ \<Rightarrow> Inl TypeErr)"

definition schema_get :: "arguments \<Rightarrow> string \<Rightarrow> json \<Rightarrow> json" where
  "schema_get schema key default_val = (case fmlookup schema key of Some v \<Rightarrow> v | None \<Rightarrow> default_val)"

definition after_last_slash :: "string \<Rightarrow> string" where
  "after_last_slash s = rev (takeWhile (\<lambda>c. c \<noteq> CHR ''/'') (rev s))"

text \<open>The definition a \<open>$ref\<close> leads to; \<open>defs\<close> without a \<open>get\<close> raises.\<close>

definition ref_target :: "arguments \<Rightarrow> json \<Rightarrow> arguments option result" where
  "ref_target schema defs =
     (case fmlookup schema ''$ref'' of
        Some (JStr ref) \<Rightarrow>
          if prefix ''#/$defs/'' ref then
            (case defs of
               JDict ds \<Rightarrow> Inr (case fmlookup ds (after_last_slash ref) of Some (JDict d) \<Rightarrow> Some d | _ \<Rightarrow> None)
             | _ \<Rightarrow> Inl AttributeErr)
          else Inr None
      | _ \<Rightarrow> Inr None)"

fun concat_results :: "'a list result list \<Rightarrow> 'a list result" where
  "concat_results [] = Inr []"
| "concat_results (r # rs) = bind_result r (\<lambda>xs. bind_result (concat_results rs) (\<lambda>ys. Inr (xs @ ys)))"

text \<open>
  \<open>_json_schema_expected_types\<close>. Definitions may refer to each other in a cycle, which the code does
  not guard against: \<open>depth\<close> is what is left of the interpreter's recursion limit.
\<close>

fun json_schema_expected_types :: "nat \<Rightarrow> json \<Rightarrow> arguments \<Rightarrow> py_type list result" where
  "json_schema_expected_types 0 defs schema = Inl RecursionErr"
| "json_schema_expected_types (Suc depth) defs schema =
     bind_result (ref_target schema defs) (\<lambda>target.
       case target of
         Some d \<Rightarrow> json_schema_expected_types depth defs d
       | None \<Rightarrow>
           bind_result (dict_options (schema_get schema ''anyOf'' (JList []))) (\<lambda>any_of.
           bind_result (concat_results (map (json_schema_expected_types depth defs) any_of)) (\<lambda>expected1.
           bind_result (dict_options (schema_get schema ''oneOf'' (JList []))) (\<lambda>one_of.
           bind_result (concat_results (map (json_schema_expected_types depth defs) one_of)) (\<lambda>expected2.
           bind_result
             (case fmlookup schema ''type'' of
                Some (JStr t) \<Rightarrow> named_types [JStr t]
              | Some (JList ts) \<Rightarrow> named_types ts
              | _ \<Rightarrow> Inr [])
             (\<lambda>expected3. Inr (expected1 @ expected2 @ expected3)))))))"

definition field_types :: "call_platform \<Rightarrow> nat \<Rightarrow> argument_schema \<Rightarrow> (string \<times> py_type list) list result" where
  "field_types pf depth schema =
     (case schema of
        ModelFields fs \<Rightarrow> Inr (map (\<lambda>f. (data_key f, field_origins f)) fs)
      | JsonSchema s \<Rightarrow>
          (case schema_get s ''properties'' (JDict fmempty) of
             JDict props \<Rightarrow>
               concat_results (map (\<lambda>k.
                 case fmlookup props k of
                   Some (JDict d) \<Rightarrow>
                     bind_result (json_schema_expected_types depth (schema_get s ''$defs'' (JDict fmempty)) d)
                       (\<lambda>ts. Inr [(k, ts)])
                 | _ \<Rightarrow> Inr []) (key_order pf props))
           | _ \<Rightarrow> Inl AttributeErr))"

fun all_strings :: "json list \<Rightarrow> string list option" where
  "all_strings [] = Some []"
| "all_strings (JStr s # xs) = map_option (Cons s) (all_strings xs)"
| "all_strings _ = None"

definition wants_collection :: "py_type list \<Rightarrow> bool" where
  "wants_collection origins \<longleftrightarrow> PyList \<in> set origins \<or> PyDict \<in> set origins"

text \<open>The chunks of a field that holds a list where only a string can be meant.\<close>

definition is_chunked_str_field :: "json \<Rightarrow> py_type list \<Rightarrow> string list option" where
  "is_chunked_str_field v origins =
     (case v of
        JList parts \<Rightarrow> if PyStr \<in> set origins \<and> \<not> wants_collection origins then all_strings parts else None
      | _ \<Rightarrow> None)"

fun is_collection :: "json \<Rightarrow> bool" where
  "is_collection (JList _) = True"
| "is_collection (JDict _) = True"
| "is_collection _ = False"

text \<open>The text up to the last occurrence of a character, which \<open>rfind\<close> locates.\<close>

definition up_to_last :: "char \<Rightarrow> string \<Rightarrow> string option" where
  "up_to_last c s = (if c \<in> set s then Some (rev (dropWhile (\<lambda>d. d \<noteq> c) (rev s))) else None)"

fun decode_truncated :: "call_platform \<Rightarrow> string \<Rightarrow> char list \<Rightarrow> json option result" where
  "decode_truncated pf val [] = Inr None"
| "decode_truncated pf val (end_char # end_chars) =
     (case up_to_last end_char val of
        None \<Rightarrow> decode_truncated pf val end_chars
      | Some start \<Rightarrow>
          (case json_loads_lax pf start of
             Inr parsed \<Rightarrow> if is_collection parsed then Inr (Some parsed) else decode_truncated pf val end_chars
           | Inl e \<Rightarrow> if is_value_error e then decode_truncated pf val end_chars else Inl e))"

definition decode_collection :: "call_platform \<Rightarrow> string \<Rightarrow> json option result" where
  "decode_collection pf val =
     (case json_loads_lax pf val of
        Inr parsed \<Rightarrow> Inr (if is_collection parsed then Some parsed else None)
      | Inl e \<Rightarrow> if is_value_error e then decode_truncated pf val [CHR ''}'', CHR '']''] else Inl e)"

definition fix_field :: "call_platform \<Rightarrow> string \<times> py_type list \<Rightarrow> arguments \<Rightarrow> arguments result" where
  "fix_field pf field args =
     (case fmlookup args (fst field) of
        None \<Rightarrow> Inr args
      | Some val \<Rightarrow>
          (case is_chunked_str_field val (snd field) of
             Some parts \<Rightarrow> Inr (fmupd (fst field) (JStr (concat parts)) args)
           | None \<Rightarrow>
               (case val of
                  JStr s \<Rightarrow>
                    if wants_collection (snd field) then
                      bind_result (decode_collection pf s) (\<lambda>parsed.
                        Inr (case parsed of None \<Rightarrow> args | Some v \<Rightarrow> fmupd (fst field) v args))
                    else Inr args
                | _ \<Rightarrow> Inr args)))"

fun fix_fields :: "call_platform \<Rightarrow> (string \<times> py_type list) list \<Rightarrow> arguments \<Rightarrow> arguments result" where
  "fix_fields pf [] args = Inr args"
| "fix_fields pf (f # fs) args = bind_result (fix_field pf f args) (fix_fields pf fs)"

definition fix_malformed_tool_arguments ::
  "call_platform \<Rightarrow> nat \<Rightarrow> arguments \<Rightarrow> argument_schema \<Rightarrow> arguments result" where
  "fix_malformed_tool_arguments pf depth args schema =
     bind_result (field_types pf depth schema) (\<lambda>fs. fix_fields pf fs args)"

section \<open>Shell commands\<close>

text \<open>
  \<open>shlex.join\<close> for POSIX shells: a word that is not of safe characters alone stands in single quotes,
  a single quote inside it in double quotes.
\<close>

abbreviation in_char_range :: "char \<Rightarrow> char \<Rightarrow> char \<Rightarrow> bool" where
  "in_char_range lo hi c \<equiv> lo \<le> c \<and> c \<le> hi"

definition is_ident_char :: "char \<Rightarrow> bool" where
  "is_ident_char c \<longleftrightarrow> in_char_range (CHR ''a'') (CHR ''z'') c \<or> in_char_range (CHR ''A'') (CHR ''Z'') c \<or>
     in_char_range (CHR ''0'') (CHR ''9'') c \<or> c = CHR ''_''"

definition is_safe_char :: "char \<Rightarrow> bool" where
  "is_safe_char c \<longleftrightarrow> is_ident_char c \<or> c \<in> set ''@%+=:,./-''"

abbreviation squote :: char where
  "squote \<equiv> CHR 0x27"

abbreviation dquote :: char where
  "dquote \<equiv> CHR 0x22"

definition shlex_quote :: "string \<Rightarrow> string" where
  "shlex_quote s =
     (if s = [] then [squote, squote]
      else if list_all is_safe_char s then s
      else [squote] @ concat (map (\<lambda>c. if c = squote then [squote, dquote, squote, dquote, squote] else [c]) s) @ [squote])"

fun join_words :: "string list \<Rightarrow> string" where
  "join_words [] = []"
| "join_words [w] = w"
| "join_words (w # ws) = w @ '' '' @ join_words ws"

definition shlex_join :: "string list \<Rightarrow> string" where
  "shlex_join parts = join_words (map shlex_quote parts)"

text \<open>
  \<open>subprocess.list2cmdline\<close> for Windows: backslashes are doubled before a double quote, which is
  escaped itself, and at the end of a quoted word.
\<close>

fun list2cmdline_chars :: "nat \<Rightarrow> string \<Rightarrow> string \<times> nat" where
  "list2cmdline_chars n [] = (replicate n backslash, n)"
| "list2cmdline_chars n (c # cs) =
     (if c = backslash then list2cmdline_chars (Suc n) cs
      else (let (r, m) = list2cmdline_chars 0 cs
            in ((if c = dquote then replicate (2 * n) backslash @ [backslash, dquote]
                 else replicate n backslash @ [c]) @ r, m)))"

definition list2cmdline_word :: "string \<Rightarrow> string" where
  "list2cmdline_word w =
     (let (body, n) = list2cmdline_chars 0 w
      in if CHR '' '' \<in> set w \<or> CHR 0x09 \<in> set w \<or> w = [] then [dquote] @ body @ replicate n backslash @ [dquote]
         else body)"

definition join_shell_command :: "call_platform \<Rightarrow> string list \<Rightarrow> string" where
  "join_shell_command pf parts =
     (if is_windows pf then join_words (map list2cmdline_word parts) else shlex_join parts)"

definition build_ripgrep_terminal_command :: "call_platform \<Rightarrow> string \<Rightarrow> string \<Rightarrow> string option \<Rightarrow> string" where
  "build_ripgrep_terminal_command pf pattern search_path glob =
     join_shell_command pf ([''rg'', ''-n'', ''-i'', pattern, search_path, ''--sortr=modified''] @
       (case glob of Some g \<Rightarrow> [''-g'', g] | None \<Rightarrow> []))"

definition build_system_grep_terminal_command :: "call_platform \<Rightarrow> string \<Rightarrow> string \<Rightarrow> string option \<Rightarrow> string" where
  "build_system_grep_terminal_command pf pattern search_path glob =
     join_shell_command pf ([''grep'', ''-R'', ''-I'', ''-n'', ''-i'', pattern, search_path] @
       (case glob of Some g \<Rightarrow> [''--include='' @ g] | None \<Rightarrow> []))"

definition build_python_grep_terminal_command :: "call_platform \<Rightarrow> string \<Rightarrow> string \<Rightarrow> string option \<Rightarrow> string" where
  "build_python_grep_terminal_command pf pattern search_path glob =
     join_shell_command pf ([''python'', ''-c'', ''exec('' @ grep_fallback_script pf @ '')'', pattern, search_path] @
       (case glob of Some g \<Rightarrow> [g] | None \<Rightarrow> []))"

text \<open>A string argument with something in it.\<close>

definition nonblank :: "arguments \<Rightarrow> string \<Rightarrow> string option" where
  "nonblank args key =
     (case fmlookup args key of Some (JStr s) \<Rightarrow> if strip s \<noteq> [] then Some s else None | _ \<Rightarrow> None)"

definition build_grep_terminal_command :: "call_platform \<Rightarrow> arguments \<Rightarrow> string option" where
  "build_grep_terminal_command pf args =
     (case nonblank args ''pattern'' of
        None \<Rightarrow> None
      | Some pattern \<Rightarrow>
          (let search_path = (case nonblank args ''path'' of Some p \<Rightarrow> p | None \<Rightarrow> ''.'');
               glob = nonblank args ''include''
           in Some (if has_program pf ''rg'' then build_ripgrep_terminal_command pf pattern search_path glob
                    else if has_program pf ''grep'' then build_system_grep_terminal_command pf pattern search_path glob
                    else build_python_grep_terminal_command pf pattern search_path glob)))"

section \<open>Normalization\<close>

definition TOOL_NAME_ALIASES :: "string \<Rightarrow> string option" where
  "TOOL_NAME_ALIASES = map_of
     [(''bash'', ''terminal''), (''command'', ''terminal''), (''execute'', ''terminal''),
      (''execute_bash'', ''terminal''), (''git'', ''terminal''), (''reset'', ''terminal''),
      (''str_replace'', ''file_editor''), (''str_replace_editor'', ''file_editor'')]"

definition terminal_prefix_aliases :: "string set" where
  "terminal_prefix_aliases = {''git'', ''reset''}"

definition shell_fallback_commands :: "string set" where
  "shell_fallback_commands = {''find'', ''git'', ''ls'', ''pwd''}"

text \<open>The regular expression \<open>^([a-zA-Z_][a-zA-Z0-9_]*)\<close>.\<close>

definition extract_tool_name_base :: "string \<Rightarrow> string" where
  "extract_tool_name_base name =
     (case name of
        [] \<Rightarrow> name
      | c # cs \<Rightarrow>
          if is_ident_char c \<and> \<not> (CHR ''0'' \<le> c \<and> c \<le> CHR ''9'') then takeWhile is_ident_char name
          else name)"

definition maybe_rewrite_as_terminal_command :: "call_platform \<Rightarrow> string \<Rightarrow> arguments \<Rightarrow> string option" where
  "maybe_rewrite_as_terminal_command pf name args =
     (if name = ''grep'' then build_grep_terminal_command pf args
      else if args \<noteq> fmempty \<or> name \<notin> shell_fallback_commands then None
      else Some name)"

definition infer_file_editor_command :: "arguments \<Rightarrow> string option" where
  "infer_file_editor_command args =
     (if ''command'' |\<in>| fmdom args then None
      else if ''old_str'' |\<in>| fmdom args then Some ''str_replace''
      else if ''insert_line'' |\<in>| fmdom args then Some ''insert''
      else if ''file_text'' |\<in>| fmdom args then Some ''create''
      else if ''path'' |\<in>| fmdom args then Some ''view''
      else None)"

definition has_file_editor_hint :: "arguments \<Rightarrow> bool" where
  "has_file_editor_hint args \<longleftrightarrow>
     list_ex (\<lambda>k. k |\<in>| fmdom args) [''old_str'', ''new_str'', ''insert_line'', ''file_text'', ''path'', ''view_range'']"

text \<open>\<open>split(maxsplit=1)[:1]\<close>.\<close>

definition first_word :: "string \<Rightarrow> string list" where
  "first_word s = (let w = takeWhile (\<lambda>c. \<not> is_space c) (lstrip s) in if w = [] then [] else [w])"

definition json_str :: "call_platform \<Rightarrow> json \<Rightarrow> string" where
  "json_str pf v = (case v of JStr s \<Rightarrow> s | _ \<Rightarrow> py_str pf v)"

definition keep_call_fields :: "arguments \<Rightarrow> arguments" where
  "keep_call_fields args = fmfilter (\<lambda>k. k \<in> {''security_risk'', ''summary''}) args"

text \<open>The command a call of \<open>git\<close> or \<open>reset\<close> becomes.\<close>

definition prefixed_command :: "call_platform \<Rightarrow> string \<Rightarrow> json option \<Rightarrow> json" where
  "prefixed_command pf base_name original =
     (case original of
        None \<Rightarrow> JStr base_name
      | Some v \<Rightarrow>
          if \<not> json_truthy v then JStr base_name
          else if first_word (json_str pf v) = [base_name] then v
          else JStr (base_name @ '' '' @ json_str pf v))"

definition resolve_unknown_tool :: "call_platform \<Rightarrow> string \<Rightarrow> arguments \<Rightarrow> string set \<Rightarrow> string \<times> arguments" where
  "resolve_unknown_tool pf name args available =
     (let base_name = extract_tool_name_base name;
          alias_target = TOOL_NAME_ALIASES base_name
      in if base_name \<noteq> name \<and> base_name \<in> available then (base_name, args)
         else if alias_target \<noteq> None \<and> the alias_target \<in> available then
           (the alias_target,
            if the alias_target = ''terminal'' \<and> base_name \<in> terminal_prefix_aliases
            then fmupd ''command'' (prefixed_command pf base_name (fmlookup args ''command'')) (keep_call_fields args)
            else args)
         else if ''terminal'' \<in> available then
           (case maybe_rewrite_as_terminal_command pf name args of
              Some cmd \<Rightarrow> (''terminal'', fmupd ''command'' (JStr cmd) (keep_call_fields args))
            | None \<Rightarrow> (name, args))
         else (name, args))"

definition complete_file_editor_call :: "arguments \<Rightarrow> arguments result" where
  "complete_file_editor_call args =
     (case infer_file_editor_command args of
        Some cmd \<Rightarrow> Inr (fmupd ''command'' (JStr cmd) args)
      | None \<Rightarrow>
          if args = fmempty \<or> ''command'' |\<notin>| fmdom args \<and> \<not> has_file_editor_hint args then Inl ValueError
          else Inr args)"

definition normalize_tool_call ::
  "call_platform \<Rightarrow> string \<Rightarrow> arguments \<Rightarrow> string set \<Rightarrow> (string \<times> arguments) result" where
  "normalize_tool_call pf name args available =
     (let (name', args') = (if name \<in> available then (name, args) else resolve_unknown_tool pf name args available)
      in if name' = ''file_editor'' then bind_result (complete_file_editor_call args') (\<lambda>a. Inr (name', a))
         else Inr (name', args'))"

section \<open>Fields of the call\<close>

record tool_spec =
  ts_name :: string
  ts_action_type :: "field_info list"
  ts_response_schema :: "argument_schema option"
  ts_mcp_input_schema :: "arguments option"
  ts_read_only_hint :: bool
  action_from_arguments :: "arguments \<Rightarrow> py_model result"

definition declares_summary :: "tool_spec \<Rightarrow> bool" where
  "declares_summary tool \<longleftrightarrow>
     ''summary'' \<in> fi_name ` set (ts_action_type tool) \<or>
     (case ts_mcp_input_schema tool of
        Some schema \<Rightarrow>
          (case schema_get schema ''properties'' (JDict fmempty) of
             JDict props \<Rightarrow> ''summary'' |\<in>| fmdom props
           | _ \<Rightarrow> False)
      | None \<Rightarrow> False)"

definition default_summary :: "call_platform \<Rightarrow> string \<Rightarrow> arguments \<Rightarrow> string" where
  "default_summary pf name args = name @ '': '' @ json_dumps pf (JDict args)"

definition extract_summary :: "call_platform \<Rightarrow> string \<Rightarrow> arguments \<Rightarrow> tool_spec \<Rightarrow> string \<times> arguments" where
  "extract_summary pf name args tool =
     (if declares_summary tool then
        ((case nonblank args ''summary'' of Some s \<Rightarrow> strip s | None \<Rightarrow> default_summary pf name args), args)
      else
        (case nonblank args ''summary'' of
           Some s \<Rightarrow> (s, fmdrop ''summary'' args)
         | None \<Rightarrow> (default_summary pf name (fmdrop ''summary'' args), fmdrop ''summary'' args)))"

section \<open>Lemmas\<close>

lemma fmupd_same: "fmlookup m k = Some v \<Longrightarrow> fmupd k v m = m"
  by (rule fmap_ext) auto

text \<open>What the repair of a field does to its valueue.\<close>

definition fix_value :: "call_platform \<Rightarrow> py_type list \<Rightarrow> json \<Rightarrow> json result" where
  "fix_value pf origins val =
     (case is_chunked_str_field val origins of
        Some parts \<Rightarrow> Inr (JStr (concat parts))
      | None \<Rightarrow>
          (case val of
             JStr s \<Rightarrow>
               if wants_collection origins then
                 bind_result (decode_collection pf s) (\<lambda>parsed.
                   Inr (case parsed of None \<Rightarrow> val | Some v \<Rightarrow> v))
               else Inr val
           | _ \<Rightarrow> Inr val))"

lemma fix_field_value:
  "fix_field pf field args =
     (case fmlookup args (fst field) of
        None \<Rightarrow> Inr args
      | Some val \<Rightarrow> bind_result (fix_value pf (snd field) val) (\<lambda>v. Inr (fmupd (fst field) v args)))"
proof (cases "fmlookup args (fst field)")
  case (Some val)
  note same = fmupd_same [OF Some]
  show ?thesis
  proof (cases "is_chunked_str_field val (snd field)")
    case None
    show ?thesis
    proof (cases val)
      case (JStr s)
      then show ?thesis
        using Some None same
        by (cases "decode_collection pf s") (auto simp: fix_field_def fix_value_def split: option.splits)
    qed (use Some None same in \<open>simp_all add: fix_field_def fix_value_def\<close>)
  qed (use Some in \<open>simp add: fix_field_def fix_value_def\<close>)
qed (simp add: fix_field_def)

lemma decode_truncated_collection:
  "decode_truncated pf s cs = Inr (Some v) \<Longrightarrow> is_collection v"
  by (induction pf s cs rule: decode_truncated.induct) (auto split: option.splits sum.splits if_splits)

lemma decode_collection_collection: "decode_collection pf s = Inr (Some v) \<Longrightarrow> is_collection v"
  by (auto simp: decode_collection_def dest: decode_truncated_collection split: sum.splits if_splits
      simp del: decode_truncated.simps)

lemma chunked_wants: "is_chunked_str_field v origins = Some parts \<Longrightarrow> \<not> wants_collection origins"
  by (auto simp: is_chunked_str_field_def split: json.splits if_splits)

lemma chunked_JStr [simp]: "is_chunked_str_field (JStr s) origins = None"
  by (simp add: is_chunked_str_field_def)

lemma fix_value_idem:
  assumes "fix_value pf origins v = Inr v'"
  shows "fix_value pf origins v' = Inr v'"
proof (cases "is_chunked_str_field v origins")
  case (Some parts)
  then show ?thesis using assms chunked_wants [OF Some] by (auto simp: fix_value_def)
next
  case None
  show ?thesis
  proof (cases "v' = v")
    case False
    then obtain s where s: "v = JStr s" "wants_collection origins" "decode_collection pf s = Inr (Some v')"
      using assms None by (auto simp: fix_value_def result_simps split: json.splits if_splits option.splits)
    then have "is_chunked_str_field v' origins = None" using chunked_wants by (metis not_None_eq)
    then show ?thesis using decode_collection_collection [OF s(3)] by (cases v') (simp_all add: fix_value_def)
  qed (use assms in simp)
qed

lemma fixed_shape:
  assumes "fmlookup args k = Some v0 \<and> fix_value pf origins v0 = Inr v"
  shows "is_chunked_str_field v origins = None"
    and "wants_collection origins \<longrightarrow> is_collection v \<or> fmlookup args k = Some v"
    and "\<forall>s. wants_collection origins \<and> v = JStr s \<longrightarrow> decode_collection pf s = Inr None"
proof -
  show 1: "is_chunked_str_field v origins = None"
  proof (cases "is_chunked_str_field v origins")
    case (Some parts)
    then obtain ps where "v = JList ps" "v = JStr (concat parts)"
      using fix_value_idem [OF conjunct2 [OF assms]]
      by (auto simp: fix_value_def is_chunked_str_field_def split: json.splits if_splits)
    then show ?thesis by simp
  qed simp
  show "wants_collection origins \<longrightarrow> is_collection v \<or> fmlookup args k = Some v"
    using assms chunked_wants decode_collection_collection
    by (auto simp: fix_value_def result_simps split: option.splits json.splits if_splits)
  show "\<forall>s. wants_collection origins \<and> v = JStr s \<longrightarrow> decode_collection pf s = Inr None"
  proof (intro allI impI)
    fix s assume s: "wants_collection origins \<and> v = JStr s"
    then obtain parsed where p: "decode_collection pf s = Inr parsed" "case parsed of None \<Rightarrow> True | Some w \<Rightarrow> w = JStr s"
      using fix_value_idem [OF conjunct2 [OF assms]]
      by (auto simp: fix_value_def result_simps split: option.splits)
    then show "decode_collection pf s = Inr None"
      using decode_collection_collection [of pf s] by (cases parsed) fastforce+
  qed
qed

text \<open>
  What a repair should be, without the code: \<open>t\<close> is the text up to and with the last \<open>c\<close>, and a
  field holds afterwards the join of its chunks, or the list or dictionary its text is, or failing
  that the one its text is up to the last closing brace, or else bracket; any other value is kept.
\<close>

definition cut_at_last :: "char \<Rightarrow> string \<Rightarrow> string \<Rightarrow> bool" where
  "cut_at_last c s t \<longleftrightarrow> (\<exists>rest. s = t @ rest \<and> t \<noteq> [] \<and> last t = c \<and> c \<notin> set rest)"

definition collection_text :: "call_platform \<Rightarrow> string \<Rightarrow> json \<Rightarrow> bool" where
  "collection_text pf t v \<longleftrightarrow> json_loads_lax pf t = Inr v \<and> is_collection v"

definition repair_of :: "call_platform \<Rightarrow> py_type list \<Rightarrow> json \<Rightarrow> json \<Rightarrow> bool" where
  "repair_of pf origins v0 v \<longleftrightarrow>
     (case v0 of
        JList parts \<Rightarrow>
          if PyStr \<in> set origins \<and> \<not> wants_collection origins \<and> parts \<in> range (map JStr)
          then \<exists>ss. parts = map JStr ss \<and> v = JStr (concat ss) else v = v0
      | JStr s \<Rightarrow>
          if \<not> wants_collection origins then v = v0
          else (case json_loads_lax pf s of
                  Inr w \<Rightarrow> v = (if is_collection w then w else v0)
                | Inl e \<Rightarrow>
                    if \<exists>t w. cut_at_last (CHR ''}'') s t \<and> collection_text pf t w
                    then \<exists>t. cut_at_last (CHR ''}'') s t \<and> collection_text pf t v
                    else if \<exists>t w. cut_at_last (CHR '']'') s t \<and> collection_text pf t w
                    then \<exists>t. cut_at_last (CHR '']'') s t \<and> collection_text pf t v
                    else v = v0)
      | _ \<Rightarrow> v = v0)"

lemma up_to_last_iff: "up_to_last c s = Some t \<longleftrightarrow> cut_at_last c s t"
proof
  assume "up_to_last c s = Some t"
  then have c: "c \<in> set (rev s)" and t: "t = rev (dropWhile (\<lambda>d. d \<noteq> c) (rev s))"
    by (simp_all add: up_to_last_def split: if_splits)
  have "rev s = takeWhile (\<lambda>d. d \<noteq> c) (rev s) @ rev t" by (simp add: t)
  then have "s = t @ rev (takeWhile (\<lambda>d. d \<noteq> c) (rev s))" by (metis rev_append rev_rev_ident)
  moreover have ne: "dropWhile (\<lambda>d. d \<noteq> c) (rev s) \<noteq> []" using c by (auto simp: dropWhile_eq_Nil_conv)
  moreover have "last t = c" using hd_dropWhile [OF ne] ne by (simp add: t last_rev)
  ultimately show "cut_at_last c s t"
    unfolding cut_at_last_def t by (metis (mono_tags, lifting) rev_is_Nil_conv set_rev set_takeWhileD)
next
  assume "cut_at_last c s t"
  then obtain rest where r: "s = t @ rest" "t \<noteq> []" "last t = c" "c \<notin> set rest" by (auto simp: cut_at_last_def)
  then obtain t0 where t0: "t = t0 @ [c]" by (metis append_butlast_last_id)
  have "dropWhile (\<lambda>d. d \<noteq> c) (rev rest @ c # rev t0) = c # rev t0"
    using r(4) by (subst dropWhile_append2) auto
  then show "up_to_last c s = Some t" by (simp add: up_to_last_def r(1) t0)
qed

lemma cut_at_last_unique: "cut_at_last c s t \<Longrightarrow> cut_at_last c s t' \<Longrightarrow> t = t'"
  by (simp flip: up_to_last_iff)

lemma all_strings_iff: "all_strings parts = Some ss \<longleftrightarrow> parts = map JStr ss"
proof (induction parts arbitrary: ss)
  case (Cons p parts)
  then show ?case by (cases p; cases ss) auto
qed auto

lemma all_strings_None: "all_strings parts = None \<longleftrightarrow> parts \<notin> range (map JStr)"
  using all_strings_iff by (metis (no_types, lifting) image_iff not_None_eq rangeE rangeI)

text \<open>One candidate of the truncated text.\<close>

lemma decode_truncated_step:
  "decode_truncated pf s (c # cs) = Inr x \<Longrightarrow>
   (\<exists>t w. cut_at_last c s t \<and> collection_text pf t w \<and> x = Some w) \<or>
   (\<nexists>t w. cut_at_last c s t \<and> collection_text pf t w) \<and> decode_truncated pf s cs = Inr x"
  using cut_at_last_unique [of c s]
  by (auto simp: collection_text_def up_to_last_iff split: option.splits sum.splits if_splits)
    (simp flip: up_to_last_iff)+

lemma repair_of_other:
  "\<nexists>s. v0 = JStr s \<Longrightarrow> \<nexists>ps. v0 = JList ps \<Longrightarrow>
   fix_value pf origins v0 = Inr v0 \<and> (repair_of pf origins v0 v \<longleftrightarrow> v = v0)"
  by (cases v0) (simp_all add: repair_of_def fix_value_def is_chunked_str_field_def)

lemma fix_value_repair:
  assumes "fix_value pf origins v0 = Inr v"
  shows "repair_of pf origins v0 v"
proof (cases v0)
  case (JStr s)
  show ?thesis
  proof (cases "wants_collection origins")
    case True
    then obtain x where x: "decode_collection pf s = Inr x" "v = (case x of None \<Rightarrow> v0 | Some w \<Rightarrow> w)"
      using assms JStr by (auto simp: fix_value_def bind_result_Inr_iff)
    show ?thesis
    proof (cases "json_loads_lax pf s")
      case (Inr w)
      then show ?thesis using x True JStr by (cases "is_collection w") (auto simp: repair_of_def decode_collection_def)
    next
      case (Inl e)
      then have d: "decode_truncated pf s [CHR ''}'', CHR '']''] = Inr x"
        using x(1) by (simp add: decode_collection_def split: if_splits)
      have repair: "repair_of pf origins v0 v \<longleftrightarrow>
          (if \<exists>t w. cut_at_last (CHR ''}'') s t \<and> collection_text pf t w
           then \<exists>t. cut_at_last (CHR ''}'') s t \<and> collection_text pf t v
           else if \<exists>t w. cut_at_last (CHR '']'') s t \<and> collection_text pf t w
           then \<exists>t. cut_at_last (CHR '']'') s t \<and> collection_text pf t v
           else v = v0)"
        unfolding repair_of_def JStr json.case Inl sum.case using True by (simp only: not_True_eq_False if_False)
      from decode_truncated_step [OF d] consider
        (brace) t w where "cut_at_last (CHR ''}'') s t" "collection_text pf t w" "x = Some w"
        | (other) "\<nexists>t w. cut_at_last (CHR ''}'') s t \<and> collection_text pf t w" "decode_truncated pf s [CHR '']''] = Inr x"
        by blast
      then show ?thesis
      proof cases
        case brace
        then have "v = w" using x(2) by simp
        then show ?thesis unfolding repair using brace by auto
      next
        case other
        have "decode_truncated pf s [] = Inr None" by simp
        with decode_truncated_step [OF other(2)] consider
          (bracket) t w where "cut_at_last (CHR '']'') s t" "collection_text pf t w" "x = Some w"
          | (none) "\<nexists>t w. cut_at_last (CHR '']'') s t \<and> collection_text pf t w" "x = None"
          by auto
        then show ?thesis
        proof cases
          case bracket
          then have "v = w" using x(2) by simp
          then show ?thesis unfolding repair using bracket other(1) by auto
        next
          case none
          then have "v = v0" using x(2) by simp
          then show ?thesis unfolding repair if_not_P [OF other(1)] if_not_P [OF none(1)] .
        qed
      qed
    qed
  next
    case False
    then have "v = JStr s" using assms JStr by (simp add: fix_value_def)
    then show ?thesis using False unfolding repair_of_def JStr json.case by simp
  qed
next
  case (JList parts)
  then show ?thesis
    using assms
    by (auto simp: fix_value_def repair_of_def is_chunked_str_field_def all_strings_iff all_strings_None
        split: if_splits option.splits)
qed (use assms repair_of_other [of v0] in simp_all)

lemma fix_fields_spec:
  assumes "distinct (map fst fs)" "fix_fields pf fs args = Inr args'"
  shows "\<forall>k. k \<notin> fst ` set fs \<longrightarrow> fmlookup args' k = fmlookup args k"
    and "\<forall>f \<in> set fs. case fmlookup args (fst f) of
           None \<Rightarrow> fmlookup args' (fst f) = None
         | Some v \<Rightarrow> \<exists>v'. fix_value pf (snd f) v = Inr v' \<and> fmlookup args' (fst f) = Some v'"
proof -
  have "(\<forall>k. k \<notin> fst ` set fs \<longrightarrow> fmlookup args' k = fmlookup args k) \<and>
    (\<forall>f \<in> set fs. case fmlookup args (fst f) of
           None \<Rightarrow> fmlookup args' (fst f) = None
         | Some v \<Rightarrow> \<exists>v'. fix_value pf (snd f) v = Inr v' \<and> fmlookup args' (fst f) = Some v')"
    using assms
  proof (induction fs arbitrary: args)
    case (Cons f fs)
    obtain args1 where 1: "fix_field pf f args = Inr args1" "fix_fields pf fs args1 = Inr args'"
      using Cons.prems(2) by (auto simp: bind_result_Inr_iff)
    have other: "fmlookup args1 k = fmlookup args k" if "k \<noteq> fst f" for k
      using 1(1) that by (auto simp: fix_field_value bind_result_Inr_iff split: option.splits)
    have this_field: "case fmlookup args (fst f) of
           None \<Rightarrow> fmlookup args1 (fst f) = None
         | Some v \<Rightarrow> \<exists>v'. fix_value pf (snd f) v = Inr v' \<and> fmlookup args1 (fst f) = Some v'"
      using 1(1) by (auto simp: fix_field_value bind_result_Inr_iff split: option.splits)
    have d: "distinct (map fst fs)" "fst f \<notin> fst ` set fs" using Cons.prems(1) by auto
    note IH = Cons.IH [OF d(1) 1(2)]
    have "fmlookup args' (fst f) = fmlookup args1 (fst f)" using IH d(2) by blast
    moreover have "fst g \<noteq> fst f" if "g \<in> set fs" for g using that d(2) by (metis image_eqI)
    ultimately show ?case using IH other this_field by (auto split: option.splits)
  qed simp
  then show "\<forall>k. k \<notin> fst ` set fs \<longrightarrow> fmlookup args' k = fmlookup args k"
    and "\<forall>f \<in> set fs. case fmlookup args (fst f) of
           None \<Rightarrow> fmlookup args' (fst f) = None
         | Some v \<Rightarrow> \<exists>v'. fix_value pf (snd f) v = Inr v' \<and> fmlookup args' (fst f) = Some v'"
    by blast+
qed

lemma fix_fields_stable:
  assumes "\<forall>f \<in> set fs. \<forall>v. fmlookup args (fst f) = Some v \<longrightarrow> fix_value pf (snd f) v = Inr v"
  shows "fix_fields pf fs args = Inr args"
  using assms
proof (induction fs)
  case (Cons f fs)
  then have "fix_field pf f args = Inr args"
    by (auto simp: fix_field_value fmupd_same split: option.splits)
  then show ?case using Cons by simp
qed simp

text \<open>Words of a shell: a reference for what \<open>shlex_join\<close> promises. A character that is neither safe
  nor quoted may mean something to the shell, and then there is no answer.\<close>

datatype quoting = Unquoted | InSingle | InDouble

definition word_so_far :: "string option \<Rightarrow> string" where
  "word_so_far cur = (case cur of None \<Rightarrow> [] | Some w \<Rightarrow> w)"

fun shell_words :: "quoting \<Rightarrow> string option \<Rightarrow> string \<Rightarrow> string list option" where
  "shell_words Unquoted cur [] = Some (case cur of None \<Rightarrow> [] | Some w \<Rightarrow> [w])"
| "shell_words InSingle cur [] = None"
| "shell_words InDouble cur [] = None"
| "shell_words Unquoted cur (c # cs) =
     (if c = CHR '' '' then
        map_option ((@) (case cur of None \<Rightarrow> [] | Some w \<Rightarrow> [w])) (shell_words Unquoted None cs)
      else if c = squote then shell_words InSingle (Some (word_so_far cur)) cs
      else if c = dquote then shell_words InDouble (Some (word_so_far cur)) cs
      else if is_safe_char c then shell_words Unquoted (Some (word_so_far cur @ [c])) cs
      else None)"
| "shell_words InSingle cur (c # cs) =
     (if c = squote then shell_words Unquoted cur cs
      else shell_words InSingle (Some (word_so_far cur @ [c])) cs)"
| "shell_words InDouble cur (c # cs) =
     (if c = dquote then shell_words Unquoted cur cs
      else if c \<in> {CHR ''$'', CHR 0x60, backslash} then None
      else shell_words InDouble (Some (word_so_far cur @ [c])) cs)"

lemma word_so_far_simps [simp]: "word_so_far None = []" "word_so_far (Some w) = w"
  by (simp_all add: word_so_far_def)

lemma safe_not_special: "is_safe_char c \<Longrightarrow> c \<noteq> CHR '' '' \<and> c \<noteq> squote \<and> c \<noteq> dquote"
  by (auto simp: is_safe_char_def is_ident_char_def less_eq_char_def)

lemma shell_words_safe:
  "list_all is_safe_char s \<Longrightarrow> s \<noteq> [] \<Longrightarrow>
   shell_words Unquoted cur (s @ rest) = shell_words Unquoted (Some (word_so_far cur @ s)) rest"
proof (induction s arbitrary: cur)
  case (Cons c s)
  then show ?case using safe_not_special [of c] by (cases s) simp_all
qed simp

lemma shell_words_quoted:
  "shell_words InSingle (Some w)
     (concat (map (\<lambda>c. if c = squote then [squote, dquote, squote, dquote, squote] else [c]) s) @ [squote] @ rest) =
   shell_words Unquoted (Some (w @ s)) rest"
  by (induction s arbitrary: w) (auto simp: backslash_def)

lemma shell_words_quote:
  "shell_words Unquoted cur (shlex_quote s @ rest) = shell_words Unquoted (Some (word_so_far cur @ s)) rest"
proof (cases "s \<noteq> [] \<and> list_all is_safe_char s")
  case True
  then show ?thesis by (simp add: shlex_quote_def shell_words_safe)
next
  case False
  then show ?thesis using shell_words_quoted [of "word_so_far cur" s rest] by (auto simp: shlex_quote_def)
qed

lemma shell_words_join: "shell_words Unquoted None (shlex_join parts) = Some parts"
proof (induction parts rule: induct_list012)
  case (2 w)
  then show ?case using shell_words_quote [of None w "[]"] by (simp add: shlex_join_def)
next
  case (3 w x ws)
  then show ?case using shell_words_quote [of None w "'' '' @ shlex_join (x # ws)"] by (simp add: shlex_join_def)
qed (simp add: shlex_join_def)

lemma complete_file_editor_call_stable:
  assumes "complete_file_editor_call args = Inr args'"
  shows "complete_file_editor_call args' = Inr args'"
proof (cases "infer_file_editor_command args")
  case (Some cmd)
  then have args': "args' = fmupd ''command'' (JStr cmd) args" using assms by (simp add: complete_file_editor_call_def)
  then have "args' \<noteq> fmempty" by (metis fmempty_lookup fmupd_lookup option.simps(3))
  then show ?thesis using args' by (simp add: complete_file_editor_call_def infer_file_editor_command_def)
next
  case None
  then show ?thesis using assms by (auto simp: complete_file_editor_call_def split: if_splits)
qed

lemma complete_file_editor_call_spec:
  assumes "complete_file_editor_call args = Inr args'"
  shows "''command'' |\<in>| fmdom args' \<or> has_file_editor_hint args'"
    and "fmlookup args k = Some v \<Longrightarrow> fmlookup args' k = Some v"
  using assms
  by (auto simp: complete_file_editor_call_def infer_file_editor_command_def fmdom_notD split: option.splits if_splits)

text \<open>An unknown name stays, with its arguments, or becomes the name of a tool there is.\<close>

lemma resolve_unknown_tool_cases:
  assumes "name \<notin> available"
  obtains "resolve_unknown_tool pf name args available = (name, args)"
  | name' args' where "resolve_unknown_tool pf name args available = (name', args')" "name' \<in> available"
proof (cases "resolve_unknown_tool pf name args available = (name, args)")
  case False
  obtain name' args' where r: "resolve_unknown_tool pf name args available = (name', args')" by fastforce
  have "name' \<in> available"
    using r False by (auto simp: resolve_unknown_tool_def Let_def split: if_splits option.splits)
  then show ?thesis using that(2) r by blast
qed (use that(1) in blast)

lemma resolve_file_editor:
  "resolve_unknown_tool pf ''file_editor'' args available = (''file_editor'', args)"
proof -
  have "extract_tool_name_base ''file_editor'' = ''file_editor''"
    "TOOL_NAME_ALIASES ''file_editor'' = None" by code_simp+
  then show ?thesis
    by (simp add: resolve_unknown_tool_def Let_def maybe_rewrite_as_terminal_command_def shell_fallback_commands_def)
qed

lemma first_word_prefix:
  assumes "w \<noteq> []" "list_all (\<lambda>c. \<not> is_space c) w"
  shows "first_word (w @ '' '' @ s) = [w]" "first_word w = [w]"
proof -
  have l: "lstrip (w @ r) = w @ r" for r using assms by (cases w) (simp_all add: lstrip_def)
  have "takeWhile (\<lambda>c. \<not> is_space c) (w @ '' '' @ s) = w"
    using assms(2) by (subst takeWhile_append2) (auto simp: list_all_iff is_space_def)
  then show "first_word (w @ '' '' @ s) = [w]" using assms(1) l by (simp add: first_word_def)
  have all: "takeWhile (\<lambda>c. \<not> is_space c) w = w" using assms(2) by (simp add: list_all_iff)
  show "first_word w = [w]"
    unfolding first_word_def l [of "[]", simplified] all using assms(1) by simp
qed

lemma prefix_alias_facts:
  assumes "name \<in> terminal_prefix_aliases"
  shows "name \<noteq> []" "list_all (\<lambda>c. \<not> is_space c) name" "extract_tool_name_base name = name"
    "TOOL_NAME_ALIASES name = Some ''terminal''"
proof -
  have "name = ''git'' \<or> name = ''reset''" using assms by (simp add: terminal_prefix_aliases_def)
  moreover have "extract_tool_name_base ''git'' = ''git''" "extract_tool_name_base ''reset'' = ''reset''"
    "TOOL_NAME_ALIASES ''git'' = Some ''terminal''" "TOOL_NAME_ALIASES ''reset'' = Some ''terminal''"
    by code_simp+
  ultimately show "name \<noteq> []" "list_all (\<lambda>c. \<not> is_space c) name" "extract_tool_name_base name = name"
    "TOOL_NAME_ALIASES name = Some ''terminal''"
    by (auto simp: is_space_def)
qed

text \<open>The content of a JSON string literal, as a strict parser reads it: no raw control characters.\<close>

definition hex_value :: "char \<Rightarrow> nat option" where
  "hex_value c = first_index ((=) c) ''0123456789abcdef''"

fun unescape_simple :: "char \<Rightarrow> char option" where
  "unescape_simple e = map_of [(CHR ''b'', CHR 0x08), (CHR ''t'', CHR 0x09), (CHR ''n'', CHR 0x0A), (CHR ''f'', CHR 0x0C),
     (CHR ''r'', CHR 0x0D), (CHR ''/'', CHR ''/''), (dquote, dquote), (backslash, backslash)] e"

fun json_unescape :: "string \<Rightarrow> string option" where
  "json_unescape [] = Some []"
| "json_unescape (c # cs) =
     (if c = backslash then
        (case cs of
           e # rest \<Rightarrow>
             if e = CHR ''u'' then
               (case map hex_value (take 4 rest) of
                  [Some a, Some b, Some d, Some g] \<Rightarrow>
                    map_option ((#) (char_of (4096 * a + 256 * b + 16 * d + g))) (json_unescape (drop 4 rest))
                | _ \<Rightarrow> None)
             else
               (case unescape_simple e of
                  Some d \<Rightarrow> map_option ((#) d) (json_unescape rest)
                | None \<Rightarrow> None)
         | [] \<Rightarrow> None)
      else if is_control c then None
      else map_option ((#) c) (json_unescape cs))"

lemma control_chars:
  assumes "is_control c"
  shows "c \<in> set (map char_of [0..<32::nat])"
proof -
  have "(of_char c :: nat) \<in> {0..<32}" using assms by (simp add: is_control_def)
  then have "char_of (of_char c :: nat) \<in> char_of ` {0..<32::nat}" by (rule imageI)
  then show ?thesis by simp
qed

text \<open>The escapes: five short ones, and the code point in four digits.\<close>

definition escape_ok :: "char \<Rightarrow> bool" where
  "escape_ok c \<longleftrightarrow>
     (case escape_control_char c of
        b # e # rest \<Rightarrow> b = backslash \<and>
          (rest = [] \<and> e \<noteq> CHR ''u'' \<and> unescape_simple e = Some c \<or>
           e = CHR ''u'' \<and> length rest = 4 \<and>
           map hex_value rest = [Some 0, Some 0, Some (of_char c div 16), Some (of_char c mod 16)])
      | _ \<Rightarrow> False)"

lemma escapes_ok: "is_control c \<Longrightarrow> escape_ok c"
proof -
  have "list_all escape_ok (map char_of [0..<32::nat])" by code_simp
  then show "is_control c \<Longrightarrow> escape_ok c" using control_chars by (auto simp only: list_all_iff)
qed

lemma json_unescape_escape:
  assumes "is_control c"
  shows "json_unescape (escape_control_char c @ rest) = map_option ((#) c) (json_unescape rest)"
proof -
  obtain e ds where e: "escape_control_char c = backslash # e # ds"
    and d: "ds = [] \<and> e \<noteq> CHR ''u'' \<and> unescape_simple e = Some c \<or>
      e = CHR ''u'' \<and> length ds = 4 \<and> map hex_value ds = [Some 0, Some 0, Some (of_char c div 16), Some (of_char c mod 16)]"
    using escapes_ok [OF assms] by (auto simp: escape_ok_def split: list.splits)
  have "char_of (16 * (of_char c div 16) + of_char c mod 16 :: nat) = c" by simp
  then show ?thesis using e d by (auto simp del: unescape_simple.simps)
qed

text \<open>
  A repaired text has no raw control character left, and where the original had no escapes a strict
  parser reads from it what the original said.
\<close>

lemma sanitize_clean: "list_all (\<lambda>c. \<not> is_control c) (sanitize_json_control_chars raw)"
proof -
  have "list_all (\<lambda>c. list_all (\<lambda>c. \<not> is_control c) (escape_control_char c)) (map char_of [0..<32::nat])"
    by code_simp
  then have "list_all (\<lambda>c. \<not> is_control c) (escape_control_char c)" if "is_control c" for c
    using control_chars [OF that] by (auto simp only: list_all_iff)
  then show ?thesis by (induction raw) (auto simp: sanitize_json_control_chars_def)
qed

lemma sanitize_read_back:
  "backslash \<notin> set raw \<Longrightarrow> json_unescape (sanitize_json_control_chars raw) = Some raw"
proof (induction raw)
  case (Cons c raw)
  then show ?case
    using json_unescape_escape [of c "sanitize_json_control_chars raw"]
    by (auto simp: sanitize_json_control_chars_def)
qed (simp add: sanitize_json_control_chars_def)

text \<open>
  A misspelt risk takes the place of a correct one, and of two misspelt ones the order of a set
  decides.
\<close>

lemma misspelt_risk_wins:
  "fmlookup (fix_typos [''securtiy_risk''] (fmap_of_list [(''security_risk'', high), (''securtiy_risk'', low)])) ''security_risk'' = Some low"
  "fmlookup (fix_typos [''securtiy_risk'', ''security_riks''] (fmap_of_list [(''securtiy_risk'', low), (''security_riks'', high)]))
     ''security_risk'' = Some low"
  "fmlookup (fix_typos [''security_riks'', ''securtiy_risk''] (fmap_of_list [(''securtiy_risk'', low), (''security_riks'', high)]))
     ''security_risk'' = Some high"
  by (simp_all add: fmlookup_of_list)

section \<open>Properties\<close>

text \<open>C33: Normalizing a call keeps the name of a registered tool and never makes up one: another name
  is that of an available tool. Under its own name a call keeps all its arguments. A call of the file
  editor leaves with a command or with an argument that hints at one. Normalizing twice is
  normalizing once.\<close>

theorem normalize_tool_call_sound:
  assumes "normalize_tool_call pf name args available = Inr (name', args')"
  shows "(name' = name \<or> name \<notin> available \<and> name' \<in> available) \<and>
    (name' = name \<longrightarrow> (\<forall>k v. fmlookup args k = Some v \<longrightarrow> fmlookup args' k = Some v)) \<and>
    (name' = ''file_editor'' \<longrightarrow> ''command'' |\<in>| fmdom args' \<or> has_file_editor_hint args') \<and>
    normalize_tool_call pf name' args' available = Inr (name', args')"
proof -
  define r where "r = (if name \<in> available then (name, args) else resolve_unknown_tool pf name args available)"
  obtain args1 where r: "r = (name', args1)"
    and fin: "(if name' = ''file_editor'' then complete_file_editor_call args1 else Inr args1) = Inr args'"
    using assms by (cases r) (auto simp: normalize_tool_call_def r_def [symmetric] bind_result_Inr_iff split: if_splits)
  have kept: "name' = name \<and> args1 = args \<or> name \<notin> available \<and> name' \<in> available"
  proof (cases "name \<in> available")
    case False
    then have "resolve_unknown_tool pf name args available = (name', args1)" using r by (simp add: r_def)
    then show ?thesis
      using False by (cases rule: resolve_unknown_tool_cases [OF False, of pf args]) auto
  qed (use r in \<open>simp add: r_def\<close>)
  have again: "(if name' \<in> available then (name', args') else resolve_unknown_tool pf name' args' available) = (name', args')"
  proof (cases "name' \<in> available")
    case False
    then have "name' = name" "args1 = args" using kept by blast+
    then show ?thesis
      using False r fin by (cases "name' = ''file_editor''") (auto simp: r_def resolve_file_editor split: if_splits)
  qed simp
  have "normalize_tool_call pf name' args' available = Inr (name', args')"
    using again fin by (auto simp: normalize_tool_call_def complete_file_editor_call_stable split: if_splits)
  moreover have "\<forall>k v. fmlookup args1 k = Some v \<longrightarrow> fmlookup args' k = Some v"
    "name' = ''file_editor'' \<longrightarrow> ''command'' |\<in>| fmdom args' \<or> has_file_editor_hint args'"
    using fin complete_file_editor_call_spec by (auto split: if_splits)
  ultimately show ?thesis using kept by auto
qed

text \<open>A call of an unknown \<open>git\<close> or \<open>reset\<close> becomes a terminal command that runs this program and
  nothing in front of it, with the command the call came with; besides the command only the risk and
  the summary of the call are passed on.\<close>

theorem prefixed_call_runs_its_program:
  assumes "name \<in> terminal_prefix_aliases" "name \<notin> available" "''terminal'' \<in> available"
  shows "\<exists>args' cmd. normalize_tool_call pf name args available = Inr (''terminal'', args') \<and>
    fmlookup args' ''command'' = Some cmd \<and> first_word (json_str pf cmd) = [name] \<and>
    fset (fmdom args') \<subseteq> {''command'', ''security_risk'', ''summary''} \<and>
    (case fmlookup args ''command'' of
       Some (JStr s) \<Rightarrow> cmd \<in> {JStr name, JStr s, JStr (name @ '' '' @ s)} \<and> suffix s (json_str pf cmd) | _ \<Rightarrow> True)"
proof -
  note n = prefix_alias_facts [OF assms(1)]
  let ?cmd = "prefixed_command pf name (fmlookup args ''command'')"
  let ?args = "fmupd ''command'' ?cmd (keep_call_fields args)"
  have "normalize_tool_call pf name args available = Inr (''terminal'', ?args)"
    using assms n by (simp add: normalize_tool_call_def resolve_unknown_tool_def Let_def)
  moreover have "first_word (json_str pf ?cmd) = [name]"
    using first_word_prefix [OF n(1,2)] by (auto simp: prefixed_command_def json_str_def split: option.splits)
  moreover have "fset (fmdom ?args) \<subseteq> {''command'', ''security_risk'', ''summary''}"
    by (auto simp: keep_call_fields_def)
  moreover have "case fmlookup args ''command'' of
       Some (JStr s) \<Rightarrow> ?cmd \<in> {JStr name, JStr s, JStr (name @ '' '' @ s)} \<and> suffix s (json_str pf ?cmd) | _ \<Rightarrow> True"
    by (auto simp: prefixed_command_def json_str_def suffix_def split: option.splits json.splits)
  ultimately show ?thesis by (intro exI [of _ ?args] exI [of _ ?cmd]) simp
qed

text \<open>The terminal command a \<open>grep\<close> call is rewritten to cannot be broken out of: a POSIX shell
  reads from it exactly the program, its fixed options, the pattern, the path, and the file pattern if
  there is one, each as one word, whatever characters they hold. There is no option marker in front of
  the pattern, so one that begins with a dash is not read as a pattern by the program.\<close>

theorem grep_fallback_words:
  assumes "build_grep_terminal_command pf args = Some cmd" "\<not> is_windows pf"
  shows "\<exists>pattern. fmlookup args ''pattern'' = Some (JStr pattern) \<and> strip pattern \<noteq> [] \<and>
    (let search_path = (case nonblank args ''path'' of Some p \<Rightarrow> p | None \<Rightarrow> ''.''); glob = nonblank args ''include''
     in shell_words Unquoted None cmd = Some
       (if has_program pf ''rg'' then
          [''rg'', ''-n'', ''-i'', pattern, search_path, ''--sortr=modified''] @
            (case glob of Some g \<Rightarrow> [''-g'', g] | None \<Rightarrow> [])
        else if has_program pf ''grep'' then
          [''grep'', ''-R'', ''-I'', ''-n'', ''-i'', pattern, search_path] @
            (case glob of Some g \<Rightarrow> [''--include='' @ g] | None \<Rightarrow> [])
        else [''python'', ''-c'', ''exec('' @ grep_fallback_script pf @ '')'', pattern, search_path] @
            (case glob of Some g \<Rightarrow> [g] | None \<Rightarrow> [])))"
proof -
  obtain pattern where p: "nonblank args ''pattern'' = Some pattern"
    using assms(1) by (auto simp: build_grep_terminal_command_def split: option.splits)
  then have "fmlookup args ''pattern'' = Some (JStr pattern) \<and> strip pattern \<noteq> []"
    by (auto simp: nonblank_def split: option.splits json.splits if_splits)
  then show ?thesis
    using assms p
    by (auto simp: build_grep_terminal_command_def build_ripgrep_terminal_command_def join_shell_command_def
        build_system_grep_terminal_command_def build_python_grep_terminal_command_def shell_words_join Let_def)
qed

text \<open>C34: The repair of malformed arguments, exactly: no key is added or lost, a field the schema does not
  name is kept, and each field it names holds its repair: a list of strings where only a string can
  be meant becomes their concatenation, a string where a list or dictionary is wanted becomes the
  one its text is, or the one it is up to its last closing brace or bracket, and any other value is
  kept. After it a field that can only be a string holds no list of strings, a string in a field for
  a list or a dictionary cannot be decoded to either, and repeating the repair changes nothing.\<close>

theorem repaired_arguments_shape:
  assumes "field_types pf depth schema = Inr fts" "distinct (map fst fts)"
    "fix_malformed_tool_arguments pf depth args schema = Inr args'"
  shows "fmdom args' = fmdom args \<and> (\<forall>k. k \<notin> fst ` set fts \<longrightarrow> fmlookup args' k = fmlookup args k) \<and>
    (\<forall>(k, origins) \<in> set fts. \<forall>v0. fmlookup args k = Some v0 \<longrightarrow>
       (\<exists>v. fmlookup args' k = Some v \<and> repair_of pf origins v0 v)) \<and>
    (\<forall>(k, origins) \<in> set fts. \<forall>v. fmlookup args' k = Some v \<longrightarrow>
       is_chunked_str_field v origins = None \<and>
       (wants_collection origins \<longrightarrow> is_collection v \<or> fmlookup args k = Some v) \<and>
       (\<forall>s. wants_collection origins \<and> v = JStr s \<longrightarrow> decode_collection pf s = Inr None)) \<and>
    fix_malformed_tool_arguments pf depth args' schema = Inr args'"
proof -
  have fixed: "fix_fields pf fts args = Inr args'"
    using assms(1,3) by (simp add: fix_malformed_tool_arguments_def)
  note spec = fix_fields_spec [OF assms(2) fixed]
  have from_val: "\<exists>v0. fmlookup args k = Some v0 \<and> fix_value pf origins v0 = Inr v"
    if "(k, origins) \<in> set fts" "fmlookup args' k = Some v" for k origins v
    using bspec [OF spec(2) that(1)] that(2) by (auto split: option.splits)
  have dom: "fmlookup args' k = None \<longleftrightarrow> fmlookup args k = None" for k
  proof (cases "k \<in> fst ` set fts")
    case True
    then obtain f where "f \<in> set fts" "k = fst f" by auto
    then show ?thesis using spec(2) by (force split: option.splits)
  qed (use spec(1) in simp)
  have "fmdom args' = fmdom args" using dom by (metis (no_types) fmdom_notD fmdom_notI fset_eqI)
  moreover have "is_chunked_str_field v origins = None \<and>
       (wants_collection origins \<longrightarrow> is_collection v \<or> fmlookup args k = Some v) \<and>
       (\<forall>s. wants_collection origins \<and> v = JStr s \<longrightarrow> decode_collection pf s = Inr None)"
    if "(k, origins) \<in> set fts" "fmlookup args' k = Some v" for k origins v
  proof -
    note origin = from_val [OF that]
    then obtain v0 where "fmlookup args k = Some v0 \<and> fix_value pf origins v0 = Inr v" by blast
    from fixed_shape [OF this] show ?thesis by blast
  qed
  moreover have "\<exists>v. fmlookup args' k = Some v \<and> repair_of pf origins v0 v"
    if "(k, origins) \<in> set fts" "fmlookup args k = Some v0" for k origins v0
    using bspec [OF spec(2) that(1)] that(2) fix_value_repair by fastforce
  moreover have "fix_fields pf fts args' = Inr args'"
    using from_val fix_value_idem by (intro fix_fields_stable) fastforce
  ultimately show ?thesis
    using spec(1) assms(1) by (auto simp: fix_malformed_tool_arguments_def)
qed

section \<open>Witnesses\<close>

text \<open>A platform whose parser knows one list.\<close>

definition sample_platform :: call_platform where
  "sample_platform =
     \<lparr>json_loads = (\<lambda>_. Inl JSONDecodeError),
      json_loads_lax = (\<lambda>s. if s = ''[]'' then Inr (JList []) else Inl JSONDecodeError),
      json_dumps = (\<lambda>_. ''{}''), py_str = (\<lambda>_. []), typo_order = [''security_riks''],
      key_order = (\<lambda>_. []), is_windows = False, has_program = (\<lambda>p. p = ''rg''), grep_fallback_script = []\<rparr>"

theorem normalize_tool_call_sound_witness:
  "normalize_tool_call sample_platform ''str_replace</function>'' (fmap_of_list [(''path'', JStr ''/a'')]) {''file_editor''} =
     Inr (''file_editor'', fmap_of_list [(''command'', JStr ''view''), (''path'', JStr ''/a'')]) \<and>
   normalize_tool_call sample_platform ''file_editor'' (fmap_of_list [(''command'', JStr ''view''), (''path'', JStr ''/a'')]) {''file_editor''} =
     Inr (''file_editor'', fmap_of_list [(''command'', JStr ''view''), (''path'', JStr ''/a'')])"
proof -
  have base: "extract_tool_name_base ''str_replace</function>'' = ''str_replace''"
    "TOOL_NAME_ALIASES ''str_replace'' = Some ''file_editor''" by code_simp+
  have "normalize_tool_call sample_platform ''str_replace</function>'' (fmap_of_list [(''path'', JStr ''/a'')]) {''file_editor''} =
     Inr (''file_editor'', fmap_of_list [(''command'', JStr ''view''), (''path'', JStr ''/a'')])"
    unfolding normalize_tool_call_def resolve_unknown_tool_def base Let_def
    by (simp add: complete_file_editor_call_def infer_file_editor_command_def)
  from this normalize_tool_call_sound [OF this, THEN conjunct2, THEN conjunct2, THEN conjunct2] show ?thesis by (rule conjI)
qed

theorem prefixed_call_runs_its_program_witness:
  "\<exists>args' cmd. normalize_tool_call sample_platform ''git'' (fmap_of_list [(''command'', JStr ''status'')]) {''terminal''} =
     Inr (''terminal'', args') \<and> fmlookup args' ''command'' = Some cmd \<and> first_word (json_str sample_platform cmd) = [''git'']"
  using prefixed_call_runs_its_program [of "''git''" "{''terminal''}" sample_platform "fmap_of_list [(''command'', JStr ''status'')]"]
  by (auto simp: terminal_prefix_aliases_def)

theorem grep_fallback_words_witness:
  "\<exists>cmd. build_grep_terminal_command sample_platform (fmap_of_list [(''pattern'', JStr ''-> $(x)'')]) = Some cmd \<and>
     shell_words Unquoted None cmd = Some [''rg'', ''-n'', ''-i'', ''-> $(x)'', ''.'', ''--sortr=modified'']"
proof -
  let ?args = "fmap_of_list [(''pattern'', JStr ''-> $(x)'')]"
  have look: "nonblank ?args ''pattern'' = Some ''-> $(x)''" "nonblank ?args ''path'' = None" "nonblank ?args ''include'' = None"
    by (simp_all add: nonblank_def strip_def lstrip_def rstrip_def is_space_def fmlookup_of_list)
  then obtain cmd where "build_grep_terminal_command sample_platform ?args = Some cmd"
    by (auto simp: build_grep_terminal_command_def Let_def)
  moreover have "\<not> is_windows sample_platform" "has_program sample_platform ''rg''" by (simp_all add: sample_platform_def)
  ultimately show ?thesis
    using grep_fallback_words [of sample_platform ?args cmd] look by (auto simp: Let_def fmlookup_of_list)
qed

theorem repaired_arguments_shape_witness:
  "\<exists>args'. fix_malformed_tool_arguments sample_platform 9
       (fmap_of_list [(''view_range'', JStr ''[]</arg>''), (''old_str'', JList [JStr ''a'', JStr ''b''])])
       (ModelFields [\<lparr>fi_name = ''view_range'', fi_alias = None, fi_annotation = AnnGeneric PyList [AnnPlain PyInt]\<rparr>,
          \<lparr>fi_name = ''old_str'', fi_alias = None, fi_annotation = AnnUnion [AnnPlain PyStr, AnnPlain (PyOtherType ''None'')]\<rparr>]) = Inr args' \<and>
     args' = fmap_of_list [(''view_range'', JList []), (''old_str'', JStr ''ab'')] \<and>
     fmdom args' = {|''view_range'', ''old_str''|}"
proof -
  let ?args = "fmap_of_list [(''view_range'', JStr ''[]</arg>''), (''old_str'', JList [JStr ''a'', JStr ''b''])]"
  let ?schema = "ModelFields [\<lparr>fi_name = ''view_range'', fi_alias = None, fi_annotation = AnnGeneric PyList [AnnPlain PyInt]\<rparr>,
          \<lparr>fi_name = ''old_str'', fi_alias = None, fi_annotation = AnnUnion [AnnPlain PyStr, AnnPlain (PyOtherType ''None'')]\<rparr>]"
  let ?fts = "[(''view_range'', [PyList]), (''old_str'', [PyStr, PyOtherType ''None''])]"
  have f: "field_types sample_platform 9 ?schema = Inr ?fts"
    by (simp add: field_types_def data_key_def field_origins_def)
  have up: "up_to_last CHR ''}'' ''[]</arg>'' = None" "up_to_last CHR '']'' ''[]</arg>'' = Some ''[]''" by code_simp+
  have d: "decode_collection sample_platform ''[]</arg>'' = Inr (Some (JList []))"
    by (simp add: decode_collection_def sample_platform_def up)
  have "fix_fields sample_platform ?fts ?args = Inr (fmap_of_list [(''view_range'', JList []), (''old_str'', JStr ''ab'')])"
    by (simp add: fix_field_def wants_collection_def d is_chunked_str_field_def fmlookup_of_list) (rule fmap_ext, auto)
  then have r: "fix_malformed_tool_arguments sample_platform 9 ?args ?schema =
      Inr (fmap_of_list [(''view_range'', JList []), (''old_str'', JStr ''ab'')])"
    using f by (simp add: fix_malformed_tool_arguments_def)
  show ?thesis using repaired_arguments_shape [OF f _ r] r by auto
qed

end
