(* ===== verification/Event_Log.thy ===== *)
theory Event_Log
  imports Text_Utils "HOL-Library.AList" "HOL-Library.Char_ord" "HOL-Library.List_Lexorder"
    "HOL-Library.Product_Lexorder"
begin

text \<open>
  \<open>EventLog\<close> (\<open>conversation/event_store.py\<close>) with the file names of
  \<open>persistence_const.py\<close>: one file per event, named by a durable index and the event's
  identifier, an in-memory index over the files, a marker file that names the number of events,
  appends under a lock, and the branch from an event to the root of the conversation tree.

  The directory of the log is the list of its files, in listing order, with their contents.
  Serialization of events is a parameter with its round trip, and so are the faults of the file
  store: the lock may time out, listing may raise, reading or writing the marker may raise (deleting
  it does not: the stores swallow that error), and the write guard may refuse. The bookkeeping that keeps warnings from repeating is left out: only the logger sees it.
\<close>

section \<open>File names\<close>

definition is_digit :: "char \<Rightarrow> bool" where
  "is_digit c \<longleftrightarrow> CHR ''0'' \<le> c \<and> c \<le> CHR ''9''"

text \<open>The character class of the identifier in the name pattern.\<close>

definition is_id_char :: "char \<Rightarrow> bool" where
  "is_id_char c \<longleftrightarrow>
     is_digit c \<or> (CHR ''a'' \<le> c \<and> c \<le> CHR ''f'') \<or> (CHR ''A'' \<le> c \<and> c \<le> CHR ''F'') \<or> c = CHR ''-''"

definition int_of_digits :: "string \<Rightarrow> nat" where
  "int_of_digits ds = foldl (\<lambda>n c. 10 * n + (of_char c - 48)) 0 ds"

text \<open>\<open>{idx:05d}\<close>.\<close>

definition pad5 :: "nat \<Rightarrow> string" where
  "pad5 n = replicate (5 - length (show_nat n)) (CHR ''0'') @ show_nat n"

definition event_file_name :: "nat \<Rightarrow> string \<Rightarrow> string" where
  "event_file_name idx eid = ''event-'' @ pad5 idx @ ''-'' @ eid @ ''.json''"

text \<open>\<open>EVENT_NAME_RE.match\<close>, whose \<open>$\<close> also matches before a final line feed.\<close>

definition parse_event_name :: "string \<Rightarrow> (nat \<times> string) option" where
  "parse_event_name name =
     (if take 6 name \<noteq> ''event-'' then None
      else
        (let r = drop 6 name; ds = takeWhile is_digit r; r' = dropWhile is_digit r
         in if length ds < 5 then None
            else (case r' of
                    [] \<Rightarrow> None
                  | c # r'' \<Rightarrow>
                      if c \<noteq> CHR ''-'' then None
                      else
                        (let eid = takeWhile is_id_char r''; suffix = dropWhile is_id_char r''
                         in if length eid \<ge> 8 \<and> (suffix = ''.json'' \<or> suffix = ''.json'' @ newline)
                            then Some (int_of_digits ds, eid) else None))))"

text \<open>Identifiers the pattern accepts; those of new events are UUIDs.\<close>

definition valid_event_id :: "string \<Rightarrow> bool" where
  "valid_event_id eid \<longleftrightarrow> length eid \<ge> 8 \<and> list_all is_id_char eid"

definition marker_name :: "nat \<Rightarrow> string" where
  "marker_name n = ''.eventlog-len-'' @ show_nat n @ ''.marker''"

section \<open>The store and the log\<close>

type_synonym store = "(string \<times> string) list"

definition store_delete :: "string \<Rightarrow> store \<Rightarrow> store" where
  "store_delete name st = filter (\<lambda>(n, _). n \<noteq> name) st"

record log_env =
  dump_event :: "event \<Rightarrow> string"
  load_event :: "string \<Rightarrow> event option"
  lock_timeout :: bool
  list_error :: "py_error option"
  marker_error :: bool
  delete_error :: bool
  guard_error :: "py_error option"

record event_log =
  id_to_idx :: "(string, nat) fmap"
  idx_to_id :: "(nat \<times> string) list"
  disk_idx :: "nat \<rightharpoonup> nat"
  next_disk_idx :: nat
  event_cache :: "nat \<rightharpoonup> event"
  el_length :: nat

definition reset_index :: "event_log \<Rightarrow> event_log" where
  "reset_index L = L\<lparr>id_to_idx := fmempty, idx_to_id := [], disk_idx := Map.empty,
     event_cache := Map.empty, next_disk_idx := 0\<rparr>"

text \<open>The loop that indexes the sorted files, from position \<open>i\<close>.\<close>

fun index_files :: "nat \<Rightarrow> (nat \<times> string) list \<Rightarrow> event_log \<Rightarrow> event_log" where
  "index_files i [] L = L"
| "index_files i ((d, eid) # found) L =
     index_files (Suc i) found (L\<lparr>
       next_disk_idx := d + 1,
       idx_to_id := AList.update i eid (idx_to_id L),
       disk_idx := (if d \<noteq> i then (disk_idx L)(i \<mapsto> d) else disk_idx L),
       id_to_idx := (if eid |\<in>| fmdom (id_to_idx L) then id_to_idx L else fmupd eid i (id_to_idx L))\<rparr>)"

definition found_files :: "store \<Rightarrow> (nat \<times> string) list" where
  "found_files st = sort (List.map_filter (parse_event_name \<circ> fst) st)"

definition scan_and_build_index :: "log_env \<Rightarrow> store \<Rightarrow> event_log \<Rightarrow> event_log \<times> nat" where
  "scan_and_build_index env st L =
     (case list_error env of
        Some e \<Rightarrow> (reset_index L, 0)
      | None \<Rightarrow> (index_files 0 (found_files st) (reset_index L), length (found_files st)))"

definition rescan :: "log_env \<Rightarrow> store \<Rightarrow> event_log \<Rightarrow> event_log" where
  "rescan env st L = (let (L', n) = scan_and_build_index env st L in L'\<lparr>el_length := n\<rparr>)"

definition new_event_log :: "log_env \<Rightarrow> store \<Rightarrow> event_log" where
  "new_event_log env st = rescan env st
     \<lparr>id_to_idx = fmempty, idx_to_id = [], disk_idx = Map.empty, next_disk_idx = 0,
      event_cache = Map.empty, el_length = 0\<rparr>"

section \<open>Reading\<close>

definition get_index :: "event_log \<Rightarrow> string \<Rightarrow> nat result" where
  "get_index L eid = (case fmlookup (id_to_idx L) eid of Some i \<Rightarrow> Inr i | None \<Rightarrow> Inl KeyError)"

text \<open>A Python index, negative ones counted from the end.\<close>

definition norm_index :: "nat \<Rightarrow> int \<Rightarrow> nat result" where
  "norm_index n idx =
     (let i = (if idx < 0 then idx + int n else idx)
      in if i < 0 \<or> int n \<le> i then Inl IndexError else Inr (nat i))"

definition get_id :: "event_log \<Rightarrow> int \<Rightarrow> string result" where
  "get_id L idx =
     bind_result (norm_index (el_length L) idx) (\<lambda>i.
       case map_of (idx_to_id L) i of Some eid \<Rightarrow> Inr eid | None \<Rightarrow> Inl KeyError)"

definition seq_of :: "event_log \<Rightarrow> nat \<Rightarrow> nat" where
  "seq_of L i = (case disk_idx L i of Some d \<Rightarrow> d | None \<Rightarrow> i)"

definition get_seq :: "event_log \<Rightarrow> int \<Rightarrow> nat result" where
  "get_seq L idx = bind_result (norm_index (el_length L) idx) (\<lambda>i. Inr (seq_of L i))"

text \<open>\<open>bisect.bisect_right\<close> over the sequence numbers of \<open>lo..<hi\<close>.\<close>

function bisect_right :: "(nat \<Rightarrow> nat) \<Rightarrow> int \<Rightarrow> nat \<Rightarrow> nat \<Rightarrow> nat" where
  "bisect_right key x lo hi =
     (if lo < hi then
        (let mid = (lo + hi) div 2
         in if x < int (key mid) then bisect_right key x lo mid else bisect_right key x (mid + 1) hi)
      else lo)"
  by pat_completeness auto
termination
  by (relation "measure (\<lambda>(key, x, lo, hi). hi - lo)") auto

declare bisect_right.simps [simp del]

definition index_after_seq :: "event_log \<Rightarrow> int \<Rightarrow> nat" where
  "index_after_seq L s = bisect_right (seq_of L) s 0 (el_length L)"

definition contains_id :: "event_log \<Rightarrow> string \<Rightarrow> bool" where
  "contains_id L eid \<longleftrightarrow> eid |\<in>| fmdom (id_to_idx L)"

text \<open>\<open>_path\<close> without the directory; \<open>KeyError\<close> when the index has no identifier.\<close>

definition item_file :: "event_log \<Rightarrow> nat \<Rightarrow> string result" where
  "item_file L i =
     (case map_of (idx_to_id L) i of
        Some eid \<Rightarrow> Inr (event_file_name (seq_of L i) eid)
      | None \<Rightarrow> Inl KeyError)"

definition read_item :: "log_env \<Rightarrow> store \<Rightarrow> string \<Rightarrow> event result" where
  "read_item env st name =
     (case map_of st name of
        None \<Rightarrow> Inl FileNotFoundError
      | Some txt \<Rightarrow>
          if txt = [] then Inl FileNotFoundError
          else (case load_event env txt of Some e \<Rightarrow> Inr e | None \<Rightarrow> Inl ValueError))"

text \<open>\<open>_get_single_item\<close>, with the rebuild of a stale index.\<close>

definition load_item :: "log_env \<Rightarrow> store \<Rightarrow> event_log \<Rightarrow> nat \<Rightarrow> string \<Rightarrow> event result \<times> event_log" where
  "load_item env st L i name =
     (case read_item env st name of
        Inl e \<Rightarrow> (Inl e, L)
      | Inr evt \<Rightarrow> (Inr evt, L\<lparr>event_cache := (event_cache L)(i \<mapsto> evt)\<rparr>))"

definition get_single_item :: "log_env \<Rightarrow> store \<Rightarrow> event_log \<Rightarrow> int \<Rightarrow> event result \<times> event_log" where
  "get_single_item env st L idx =
     (case norm_index (el_length L) idx of
        Inl e \<Rightarrow> (Inl e, L)
      | Inr i \<Rightarrow>
          (case event_cache L i of
             Some evt \<Rightarrow> (Inr evt, L)
           | None \<Rightarrow>
               (case item_file L i of
                  Inr name \<Rightarrow> load_item env st L i name
                | Inl _ \<Rightarrow>
                    (let L' = rescan env st L
                     in if i \<ge> el_length L' then (Inl IndexError, L')
                        else (case item_file L' i of
                                Inr name \<Rightarrow> load_item env st L' i name
                              | Inl e \<Rightarrow> (Inl e, L'))))))"

text \<open>\<open>__iter__\<close> as the list of what it yields; a file that is gone raises, an empty one is skipped.\<close>

fun iter_from :: "nat \<Rightarrow> nat \<Rightarrow> log_env \<Rightarrow> store \<Rightarrow> event_log \<Rightarrow> event list result \<times> event_log" where
  "iter_from 0 i env st L = (Inr [], L)"
| "iter_from (Suc n) i env st L =
     (case event_cache L i of
        Some evt \<Rightarrow>
          (case iter_from n (Suc i) env st L of (r, L') \<Rightarrow> (bind_result r (\<lambda>es. Inr (evt # es)), L'))
      | None \<Rightarrow>
          (case item_file L i of
             Inl e \<Rightarrow> (Inl e, L)
           | Inr name \<Rightarrow>
               if map_of st name = Some [] then iter_from n (Suc i) env st L
               else (case read_item env st name of
                       Inl e \<Rightarrow> (Inl e, L)
                     | Inr evt \<Rightarrow>
                         (case iter_from n (Suc i) env st (L\<lparr>event_cache := (event_cache L)(i \<mapsto> evt)\<rparr>) of
                            (r, L') \<Rightarrow> (bind_result r (\<lambda>es. Inr (evt # es)), L')))))"

definition iter_events :: "log_env \<Rightarrow> store \<Rightarrow> event_log \<Rightarrow> event list result \<times> event_log" where
  "iter_events env st L = iter_from (el_length L) 0 env st L"

section \<open>The tree\<close>

definition ROOT_PARENT_ID :: string where
  "ROOT_PARENT_ID = ''__root__''"

definition effective_parent_id :: "event_log \<Rightarrow> nat \<Rightarrow> event \<Rightarrow> string option result" where
  "effective_parent_id L idx e =
     (if ev_parent_id e = Some ROOT_PARENT_ID then Inr None
      else if ev_parent_id e \<noteq> None \<and> contains_id L (the (ev_parent_id e)) then Inr (ev_parent_id e)
      else if idx = 0 then Inr None
      else bind_result (get_id L (int idx - 1)) (\<lambda>eid. Inr (Some eid)))"

text \<open>
  The walk to the root; \<open>chain\<close> is the branch collected so far, root first. Each step marks an
  identifier of the index as seen, so the walk ends.
\<close>

function path_loop ::
  "log_env \<Rightarrow> store \<Rightarrow> event_log \<Rightarrow> nat option \<Rightarrow> string option \<Rightarrow> string fset \<Rightarrow> event list \<Rightarrow> event list result" where
  "path_loop env st L limit cur seen chain =
     (case cur of
        None \<Rightarrow> Inr chain
      | Some c \<Rightarrow>
          if \<not> (case limit of None \<Rightarrow> True | Some l \<Rightarrow> length chain < l) then Inr chain
          else if c |\<in>| seen then Inl ValueError
          else (case fmlookup (id_to_idx L) c of
                  None \<Rightarrow> Inr chain
                | Some idx \<Rightarrow>
                    bind_result (fst (get_single_item env st L (int idx))) (\<lambda>evt.
                    bind_result (effective_parent_id L idx evt) (\<lambda>parent.
                      path_loop env st L limit parent (finsert c seen) (evt # chain)))))"
  by pat_completeness auto
termination
proof (relation "measure (\<lambda>(env, st, L, limit, cur, seen, chain). fcard (fmdom (id_to_idx L) |-| seen))", goal_cases)
  case 1
  then show ?case by simp
next
  case (2 env st L limit cur seen chain c idx evt parent)
  then have "c |\<in>| fmdom (id_to_idx L)" by (auto intro: fmdomI)
  then have "fmdom (id_to_idx L) |-| finsert c seen |\<subset>| fmdom (id_to_idx L) |-| seen" using 2 by auto
  then show ?case by (simp add: pfsubset_fcard_mono)
qed

declare path_loop.simps [simp del]

definition path_to_root ::
  "log_env \<Rightarrow> store \<Rightarrow> event_log \<Rightarrow> string option \<Rightarrow> nat option \<Rightarrow> event list result" where
  "path_to_root env st L leaf limit = path_loop env st L limit leaf {||} []"

section \<open>Appending\<close>

definition count_events_on_disk :: "log_env \<Rightarrow> store \<Rightarrow> nat" where
  "count_events_on_disk env st =
     (case list_error env of
        Some e \<Rightarrow> 0
      | None \<Rightarrow> length (filter (\<lambda>(n, _). prefix ''event-'' n \<and> suffix ''.json'' n) st))"

text \<open>The loop that restores mappings a scan cannot see.\<close>

fun restore_mappings :: "(nat \<times> string \<times> nat) list \<Rightarrow> event_log \<Rightarrow> event_log" where
  "restore_mappings [] L = L"
| "restore_mappings ((i, eid, d) # ms) L =
     restore_mappings ms
       (if map_of (idx_to_id L) i \<noteq> None \<or> eid |\<in>| fmdom (id_to_idx L) then L
        else L\<lparr>idx_to_id := AList.update i eid (idx_to_id L),
               id_to_idx := fmupd eid i (id_to_idx L),
               disk_idx := (if d \<noteq> i then (disk_idx L)(i \<mapsto> d) else disk_idx L),
               next_disk_idx := max (next_disk_idx L) (d + 1)\<rparr>)"

definition sync_from_disk :: "log_env \<Rightarrow> store \<Rightarrow> nat \<Rightarrow> event_log \<Rightarrow> event_log" where
  "sync_from_disk env st disk_length L =
     (let existing = map (\<lambda>(i, eid). (i, eid, seq_of L i)) (idx_to_id L);
          (L', scanned_length) = scan_and_build_index env st L;
          L'' = restore_mappings existing L'
      in L''\<lparr>el_length := max scanned_length disk_length\<rparr>)"

definition marker_matches_length :: "log_env \<Rightarrow> store \<Rightarrow> event_log \<Rightarrow> bool" where
  "marker_matches_length env st L \<longleftrightarrow>
     \<not> marker_error env \<and> map_of st (marker_name (el_length L)) \<noteq> None"

text \<open>
  The old marker is deleted before the new one is written, so that an interrupted update leaves no
  marker. The local file store swallows a delete that fails (\<open>io/local.py\<close>): the old marker then stays,
  and the new one is written beside it.
\<close>

definition advance_length_marker :: "log_env \<Rightarrow> nat \<Rightarrow> nat \<Rightarrow> store \<Rightarrow> store" where
  "advance_length_marker env previous_length new_length st =
     (let st' = (if delete_error env then st else store_delete (marker_name previous_length) st)
      in if marker_error env then st' else AList.update (marker_name new_length) [] st')"

definition synced :: "log_env \<Rightarrow> store \<Rightarrow> event_log \<Rightarrow> event_log" where
  "synced env st L =
     (if marker_matches_length env st L then L
      else (let disk_length = count_events_on_disk env st
            in if disk_length > el_length L then sync_from_disk env st disk_length L else L))"

definition append_log :: "log_env \<Rightarrow> store \<Rightarrow> event_log \<Rightarrow> event \<Rightarrow> nat result \<times> event_log \<times> store" where
  "append_log env st L0 e =
     (if lock_timeout env then (Inl TimeoutErr, L0, st)
      else
        (let L = synced env st L0
         in if contains_id L (ev_id e) then (Inl ValueError, L, st)
            else if ev_parent_id e \<notin> {None, Some ROOT_PARENT_ID} \<and>
                    \<not> contains_id L (the (ev_parent_id e)) then (Inl ValueError, L, st)
            else
              (let idx = el_length L; d = max idx (next_disk_idx L)
               in case guard_error env of
                    Some err \<Rightarrow> (Inl err, L, st)
                  | None \<Rightarrow>
                      (let st1 = AList.update (event_file_name d (ev_id e)) (dump_event env e) st;
                           L' = L\<lparr>disk_idx := (if d \<noteq> idx then (disk_idx L)(idx \<mapsto> d) else disk_idx L),
                                  next_disk_idx := d + 1,
                                  idx_to_id := AList.update idx (ev_id e) (idx_to_id L),
                                  id_to_idx := fmupd (ev_id e) idx (id_to_idx L),
                                  event_cache := (event_cache L)(idx \<mapsto> e),
                                  el_length := idx + 1\<rparr>
                       in (Inr idx, L', advance_length_marker env idx (idx + 1) st1)))))"

section \<open>Lemmas on file names\<close>

lemma char_le_iff: "c \<le> d \<longleftrightarrow> (of_char c :: nat) \<le> of_char d" for c d :: char
  by (simp add: less_eq_char_def)

lemma of_digit: "k < 10 \<Longrightarrow> (of_char (char_of (48 + k) :: char) :: nat) = 48 + k"
  by simp

lemma is_digit_iff: "is_digit c \<longleftrightarrow> 48 \<le> (of_char c :: nat) \<and> (of_char c :: nat) \<le> 57"
  by (simp add: is_digit_def char_le_iff)

lemma show_nat_digits: "list_all is_digit (show_nat n)"
proof (induction n rule: show_nat.induct)
  case (1 n)
  have "is_digit (char_of (48 + k))" if "k < 10" for k :: nat
    unfolding is_digit_iff of_digit [OF that] using that by simp
  then show ?case
    using 1 by (subst show_nat.simps) (simp add: list_all_iff)
qed

lemma int_of_digits_snoc: "int_of_digits (ds @ [c]) = 10 * int_of_digits ds + (of_char c - 48)"
  by (simp add: int_of_digits_def)

lemma int_of_digits_show_nat: "int_of_digits (show_nat n) = n"
proof (induction n rule: show_nat.induct)
  case (1 n)
  show ?case
  proof (cases "n < 10")
    case True
    then have "show_nat n = [] @ [char_of (48 + n)]" by (simp add: show_nat.simps [of n])
    then show ?thesis unfolding int_of_digits_snoc using of_digit [OF True] by (simp add: int_of_digits_def)
  next
    case False
    then have eq: "show_nat n = show_nat (n div 10) @ [char_of (48 + n mod 10)]"
      by (simp add: show_nat.simps [of n])
    show ?thesis
      unfolding eq int_of_digits_snoc using 1 False of_digit [of "n mod 10"] by simp
  qed
qed

lemma int_of_digits_zeros: "int_of_digits (replicate k (CHR ''0'') @ ds) = int_of_digits ds"
  by (induction k) (simp_all add: int_of_digits_def)

lemma pad5_props:
  "list_all is_digit (pad5 n)" "length (pad5 n) \<ge> 5" "int_of_digits (pad5 n) = n"
  using show_nat_digits [of n]
  by (auto simp: pad5_def int_of_digits_zeros int_of_digits_show_nat list_all_iff is_digit_def)

lemma takeWhile_all_stop:
  "list_all P xs \<Longrightarrow> \<not> P y \<Longrightarrow> takeWhile P (xs @ y # ys) = xs \<and> dropWhile P (xs @ y # ys) = y # ys"
  by (induction xs) auto

lemma parse_event_file_name:
  assumes "valid_event_id eid"
  shows "parse_event_name (event_file_name d eid) = Some (d, eid)"
proof -
  have "\<not> is_digit (CHR ''-'')" "\<not> is_id_char (CHR ''.'')"
    by (simp_all add: is_id_char_def is_digit_def char_le_iff)
  moreover have "list_all is_id_char eid" "length eid \<ge> 8" using assms by (simp_all add: valid_event_id_def)
  ultimately show ?thesis
    using pad5_props [of d]
      takeWhile_all_stop [of is_digit "pad5 d" "CHR ''-''" "eid @ ''.json''"]
      takeWhile_all_stop [of is_id_char eid "CHR ''.''" "''json''"]
    by (simp add: parse_event_name_def event_file_name_def Let_def)
qed

lemma parse_event_name_shape:
  assumes "parse_event_name n = Some (d, eid)"
  shows "prefix ''event-'' n" "valid_event_id eid"
proof -
  from assms show "prefix ''event-'' n"
    by (auto simp: parse_event_name_def split: if_splits) (metis take_is_prefix)
  show "valid_event_id eid"
    using assms
    by (auto simp: parse_event_name_def valid_event_id_def Let_def list_all_iff
        dest: set_takeWhileD split: if_splits list.splits)
qed

lemma event_file_name_inj:
  "valid_event_id a \<Longrightarrow> valid_event_id b \<Longrightarrow> event_file_name d a = event_file_name d' b \<Longrightarrow> d = d' \<and> a = b"
  by (metis parse_event_file_name option.inject prod.inject)

lemma event_file_name_shape: "prefix ''event-'' (event_file_name d a)" "suffix ''.json'' (event_file_name d a)"
  by (simp_all add: event_file_name_def suffix_def)

lemma marker_not_event: "\<not> prefix ''event-'' (marker_name n)"
  by (simp add: marker_name_def)

lemma parse_marker: "parse_event_name (marker_name n) = None"
  using parse_event_name_shape(1) [of "marker_name n"] marker_not_event
  by (cases "parse_event_name (marker_name n)") auto

lemma marker_name_inj: "marker_name n = marker_name m \<longleftrightarrow> n = m"
proof
  assume "marker_name n = marker_name m"
  then have "show_nat n = show_nat m" by (simp add: marker_name_def)
  then show "n = m" by (metis int_of_digits_show_nat)
qed simp

section \<open>Lemmas on the index\<close>

text \<open>The index of a list of files, in order: what every scan builds and every append keeps.\<close>

definition indexes :: "event_log \<Rightarrow> (nat \<times> string) list \<Rightarrow> bool" where
  "indexes L F \<longleftrightarrow>
     idx_to_id L = enumerate 0 (map snd F) \<and>
     (\<forall>i. disk_idx L i = (if i < length F \<and> fst (F ! i) \<noteq> i then Some (fst (F ! i)) else None)) \<and>
     next_disk_idx L = (if F = [] then 0 else fst (last F) + 1) \<and>
     (\<forall>eid. fmlookup (id_to_idx L) eid = first_index ((=) eid) (map snd F))"

lemma map_of_enumerate: "map_of (enumerate n xs) i = (if n \<le> i \<and> i < n + length xs then Some (xs ! (i - n)) else None)"
proof (induction xs arbitrary: n)
  case (Cons x xs)
  then show ?case by (auto simp: nth_Cons' Suc_diff_le)
qed simp

lemma update_enumerate: "AList.update (n + length xs) x (enumerate n xs) = enumerate n (xs @ [x])"
proof (induction xs arbitrary: n)
  case (Cons y ys)
  then show ?case using Cons.IH [of "Suc n"] by simp
qed simp

lemma first_index_append:
  "first_index P (xs @ ys) =
     (case first_index P xs of Some i \<Rightarrow> Some i | None \<Rightarrow> map_option (\<lambda>i. length xs + i) (first_index P ys))"
proof (induction xs)
  case Nil
  then show ?case by (cases "first_index P ys") auto
next
  case (Cons x xs)
  then show ?case by (cases "first_index P xs"; cases "first_index P ys") auto
qed

lemma indexes_snoc:
  assumes "indexes L F"
  shows "indexes (L\<lparr>next_disk_idx := d + 1,
       idx_to_id := AList.update (length F) eid (idx_to_id L),
       disk_idx := (if d \<noteq> length F then (disk_idx L)(length F \<mapsto> d) else disk_idx L),
       id_to_idx := (if eid |\<in>| fmdom (id_to_idx L) then id_to_idx L
                     else fmupd eid (length F) (id_to_idx L))\<rparr>) (F @ [(d, eid)])"
proof -
  have ids: "AList.update (length F) eid (idx_to_id L) = enumerate 0 (map snd (F @ [(d, eid)]))"
    using assms update_enumerate [of 0 "map snd F" eid] by (simp add: indexes_def)
  have "eid |\<in>| fmdom (id_to_idx L) \<longleftrightarrow> first_index ((=) eid) (map snd F) \<noteq> None"
    using assms by (auto simp: indexes_def fmlookup_dom_iff)
  then have "fmlookup (if eid |\<in>| fmdom (id_to_idx L) then id_to_idx L
        else fmupd eid (length F) (id_to_idx L)) x = first_index ((=) x) (map snd (F @ [(d, eid)]))" for x
    using assms by (auto simp: indexes_def first_index_append split: option.splits)
  then show ?thesis
    using assms ids by (auto simp: indexes_def nth_append less_Suc_eq)
qed

lemma indexes_irrelevant [simp]:
  "indexes (L\<lparr>el_length := n\<rparr>) F = indexes L F"
  "indexes (L\<lparr>event_cache := c\<rparr>) F = indexes L F"
  by (simp_all add: indexes_def)

lemma index_files_indexes: "indexes L F \<Longrightarrow> indexes (index_files (length F) G L) (F @ G)"
proof (induction G arbitrary: L F)
  case (Cons g G)
  obtain d eid where g: "g = (d, eid)" by fastforce
  show ?case
    using Cons.IH [OF indexes_snoc [OF Cons.prems, where d = d and eid = eid]] by (simp add: g)
qed simp

lemma indexes_reset: "indexes (reset_index L) []"
  by (simp add: indexes_def reset_index_def)

lemma index_files_cache [simp]: "event_cache (index_files i G L) = event_cache L"
  by (induction i G L rule: index_files.induct) simp_all

lemma indexes_scan: "indexes (index_files 0 F (reset_index L)) F"
  using index_files_indexes [OF indexes_reset, of F L] by simp

lemma rescan_spec:
  assumes "list_error env = None"
  shows "indexes (rescan env st L) (found_files st)" "el_length (rescan env st L) = length (found_files st)"
    "event_cache (rescan env st L) = Map.empty"
  using assms indexes_scan [of "found_files st" L]
  by (simp_all add: rescan_def scan_and_build_index_def) (simp add: reset_index_def)

lemma indexes_seq_of: "indexes L F \<Longrightarrow> i < length F \<Longrightarrow> seq_of L i = fst (F ! i)"
  by (auto simp: indexes_def seq_of_def)

lemma indexes_item_file:
  "indexes L F \<Longrightarrow> i < length F \<Longrightarrow> item_file L i = Inr (event_file_name (fst (F ! i)) (snd (F ! i)))"
  using indexes_seq_of [of L F i] by (simp add: item_file_def) (simp add: indexes_def map_of_enumerate)

lemma indexes_contains: "indexes L F \<Longrightarrow> contains_id L eid \<longleftrightarrow> eid \<in> snd ` set F"
proof -
  assume "indexes L F"
  then have "contains_id L eid \<longleftrightarrow> first_index ((=) eid) (map snd F) \<noteq> None"
    by (auto simp: indexes_def contains_id_def fmlookup_dom_iff)
  then show ?thesis by (auto simp: first_index_None_iff simp del: not_None_eq)
qed

lemma restore_mappings_known:
  "\<forall>(i, eid, d) \<in> set ms. map_of (idx_to_id L) i \<noteq> None \<Longrightarrow> restore_mappings ms L = L"
  by (induction ms) auto

section \<open>Lemmas on the directory\<close>

text \<open>
  A directory the log wrote: every file whose name begins like an event file is one, durable
  indices and identifiers do not repeat, and a marker tells the number of events.
\<close>

definition store_inv :: "store \<Rightarrow> bool" where
  "store_inv st \<longleftrightarrow>
     distinct (map fst st) \<and>
     (\<forall>n \<in> fst ` set st. prefix ''event-'' n \<longrightarrow> (\<exists>d eid. valid_event_id eid \<and> n = event_file_name d eid)) \<and>
     distinct (map fst (found_files st)) \<and> distinct (map snd (found_files st)) \<and>
     (\<forall>n. marker_name n \<in> fst ` set st \<longrightarrow> n = length (found_files st))"

lemma found_files_names: "found_files st = sort (List.map_filter parse_event_name (map fst st))"
  by (simp add: found_files_def List.map_filter_def comp_def filter_map)

lemma in_found_iff:
  assumes "store_inv st"
  shows "(d, eid) \<in> set (found_files st) \<longleftrightarrow> valid_event_id eid \<and> event_file_name d eid \<in> fst ` set st"
proof -
  have "(d, eid) \<in> set (found_files st) \<longleftrightarrow> (\<exists>n \<in> fst ` set st. parse_event_name n = Some (d, eid))"
    by (force simp: found_files_def List.map_filter_def)
  also have "\<dots> \<longleftrightarrow> valid_event_id eid \<and> event_file_name d eid \<in> fst ` set st"
  proof
    assume "\<exists>n \<in> fst ` set st. parse_event_name n = Some (d, eid)"
    then obtain n where n: "n \<in> fst ` set st" "parse_event_name n = Some (d, eid)" by blast
    note shape = parse_event_name_shape [OF n(2)]
    with n(1) assms obtain d' eid' where "valid_event_id eid'" "n = event_file_name d' eid'"
      unfolding store_inv_def by blast
    with n parse_event_file_name show "valid_event_id eid \<and> event_file_name d eid \<in> fst ` set st" by auto
  next
    assume "valid_event_id eid \<and> event_file_name d eid \<in> fst ` set st"
    then show "\<exists>n \<in> fst ` set st. parse_event_name n = Some (d, eid)" using parse_event_file_name by blast
  qed
  finally show ?thesis .
qed

lemma count_eq_found:
  assumes "store_inv st" "list_error env = None"
  shows "count_events_on_disk env st = length (found_files st)"
proof -
  have "prefix ''event-'' n \<and> suffix ''.json'' n \<longleftrightarrow> parse_event_name n \<noteq> None"
    if n: "n \<in> fst ` set st" for n
  proof
    assume "prefix ''event-'' n \<and> suffix ''.json'' n"
    then obtain d eid where "valid_event_id eid" "n = event_file_name d eid"
      using assms(1) n unfolding store_inv_def by blast
    then show "parse_event_name n \<noteq> None" by (simp add: parse_event_file_name)
  next
    assume "parse_event_name n \<noteq> None"
    then have "prefix ''event-'' n" using parse_event_name_shape(1) by fastforce
    then obtain d eid where "n = event_file_name d eid" using assms(1) n unfolding store_inv_def by blast
    then show "prefix ''event-'' n \<and> suffix ''.json'' n" using event_file_name_shape by simp
  qed
  then have "filter (\<lambda>(n, _). prefix ''event-'' n \<and> suffix ''.json'' n) st =
      filter (\<lambda>p. parse_event_name (fst p) \<noteq> None) st"
    by (intro filter_cong refl) (metis (no_types, lifting) case_prod_unfold image_eqI)
  then show ?thesis
    using assms(2) by (simp add: count_events_on_disk_def found_files_def List.map_filter_def comp_def)
qed

lemma found_files_sorted:
  assumes "store_inv st" "i < j" "j < length (found_files st)"
  shows "fst (found_files st ! i) < fst (found_files st ! j)"
proof -
  have "sorted (found_files st)" by (simp add: found_files_def)
  then have "found_files st ! i \<le> found_files st ! j" using assms(2,3) by (simp add: sorted_nth_mono)
  moreover have "fst (found_files st ! i) \<noteq> fst (found_files st ! j)"
    using assms by (simp add: store_inv_def distinct_conv_nth)
  ultimately show ?thesis by (auto simp: less_eq_prod_def)
qed

lemma found_index_ge:
  assumes "store_inv st" "i < length (found_files st)"
  shows "i \<le> fst (found_files st ! i)"
  using assms(2)
proof (induction i)
  case (Suc i)
  then have "i \<le> fst (found_files st ! i)" by simp
  also have "\<dots> < fst (found_files st ! Suc i)" using found_files_sorted [OF assms(1)] Suc.prems by simp
  finally show ?case by simp
qed simp

text \<open>Writing the marker does not touch the event files.\<close>

lemma map_filter_append: "List.map_filter f (xs @ ys) = List.map_filter f xs @ List.map_filter f ys"
  by (simp add: List.map_filter_def)

lemma update_names: "map fst (AList.update k v st) = (if k \<in> fst ` set st then map fst st else map fst st @ [k])"
  by (simp add: update_keys)

lemma found_update_marker: "found_files (AList.update (marker_name n) v st) = found_files st"
  by (simp add: found_files_names update_names map_filter_append List.map_filter_simps parse_marker)

lemma found_delete_marker: "found_files (store_delete (marker_name n) st) = found_files st"
proof -
  have "filter (\<lambda>p. parse_event_name (fst p) \<noteq> None) (store_delete (marker_name n) st) =
      filter (\<lambda>p. parse_event_name (fst p) \<noteq> None) st"
    by (auto simp: store_delete_def parse_marker intro!: filter_cong)
  then show ?thesis by (simp add: found_files_def List.map_filter_def comp_def)
qed

lemma found_advance_marker: "found_files (advance_length_marker env n m st) = found_files st"
  by (simp add: advance_length_marker_def Let_def found_update_marker found_delete_marker)

lemma map_of_delete: "map_of (store_delete k st) n = (if n = k then None else map_of st n)"
  by (induction st) (auto simp: store_delete_def)

lemma map_of_advance_marker:
  "prefix ''event-'' n \<Longrightarrow> map_of (advance_length_marker env k m st) n = map_of st n"
  using marker_not_event
  by (auto simp: advance_length_marker_def Let_def update_conv' map_of_delete)

text \<open>A new event file goes behind all others.\<close>

lemma sort_snoc:
  fixes y :: "'a::linorder"
  assumes "\<forall>x \<in> set xs. x \<le> y"
  shows "sort (xs @ [y]) = sort xs @ [y]"
  by (rule properties_for_sort) (use assms in \<open>auto simp: sorted_append\<close>)

lemma found_new_file:
  assumes "store_inv st" "valid_event_id eid" "\<forall>x \<in> set (found_files st). fst x < d"
  shows "event_file_name d eid \<notin> fst ` set st"
    and "found_files (AList.update (event_file_name d eid) v st) = found_files st @ [(d, eid)]"
proof -
  show new: "event_file_name d eid \<notin> fst ` set st"
    using in_found_iff [OF assms(1), of d eid] assms(2,3) by fastforce
  have "\<forall>x \<in> set (List.map_filter parse_event_name (map fst st)). x \<le> (d, eid)"
    using assms(3) by (force simp: found_files_names less_eq_prod_def)
  from sort_snoc [OF this] new
  show "found_files (AList.update (event_file_name d eid) v st) = found_files st @ [(d, eid)]"
    by (simp add: found_files_names update_names map_filter_append List.map_filter_simps
        parse_event_file_name assms(2))
qed

lemma store_inv_append:
  assumes inv: "store_inv st" and id: "valid_event_id eid" "eid \<notin> snd ` set (found_files st)"
    and d: "\<forall>x \<in> set (found_files st). fst x < d" and del: "\<not> delete_error env"
  shows "store_inv (advance_length_marker env (length (found_files st)) (Suc (length (found_files st)))
           (AList.update (event_file_name d eid) v st))"
proof -
  let ?n = "length (found_files st)"
  let ?st1 = "AList.update (event_file_name d eid) v st"
  let ?st2 = "store_delete (marker_name ?n) ?st1"
  let ?st3 = "advance_length_marker env ?n (Suc ?n) ?st1"
  note new = found_new_file [OF inv id(1) d]
  have found: "found_files ?st3 = found_files st @ [(d, eid)]"
    using new by (simp add: found_advance_marker)
  have names1: "fst ` set ?st1 = insert (event_file_name d eid) (fst ` set st)" "distinct (map fst ?st1)"
    using inv new(1) update_names [of "event_file_name d eid" v st]
    by (auto simp: store_inv_def simp flip: set_map)
  have names2: "fst ` set ?st2 = fst ` set ?st1 - {marker_name ?n}" "distinct (map fst ?st2)"
    using names1(2) by (auto simp: store_delete_def distinct_map intro: inj_on_subset)
  have names3: "distinct (map fst ?st3)" "fst ` set ?st3 \<subseteq> insert (marker_name (Suc ?n)) (fst ` set ?st2)"
    using names2(2) update_names [of "marker_name (Suc ?n)" "[]" ?st2]
    by (auto simp: advance_length_marker_def Let_def del distinct_update simp flip: set_map)
  have names: "fst ` set ?st3 \<subseteq>
      insert (marker_name (Suc ?n)) (insert (event_file_name d eid) (fst ` set st) - {marker_name ?n})"
    using names3(2) unfolding names2(1) names1(1) .
  have "\<exists>d' eid'. valid_event_id eid' \<and> m = event_file_name d' eid'"
    if "m \<in> fst ` set ?st3" "prefix ''event-'' m" for m
  proof -
    have "m \<noteq> marker_name (Suc ?n)" using that(2) marker_not_event by blast
    then have "m = event_file_name d eid \<or> m \<in> fst ` set st" using subsetD [OF names that(1)] by blast
    then show ?thesis
    proof
      assume "m \<in> fst ` set st"
      then show ?thesis using that(2) inv unfolding store_inv_def by blast
    qed (use id(1) in blast)
  qed
  moreover have "m = Suc ?n" if "marker_name m \<in> fst ` set ?st3" for m
  proof (rule ccontr)
    assume "m \<noteq> Suc ?n"
    moreover have "marker_name m \<noteq> event_file_name d eid"
      using marker_not_event event_file_name_shape(1) by metis
    ultimately have "marker_name m \<in> fst ` set st" "m \<noteq> ?n"
      using subsetD [OF names that] by (simp_all add: marker_name_inj)
    then show False using inv unfolding store_inv_def by blast
  qed
  moreover have "distinct (map fst (found_files ?st3))" "distinct (map snd (found_files ?st3))"
    using inv id(2) d by (auto simp: found store_inv_def)
  ultimately show ?thesis using names3(1) by (auto simp: store_inv_def found)
qed

section \<open>Several writers\<close>

text \<open>
  One process's log against the directory: it indexes a prefix of the event files, and what it has
  cached is what the files hold.
\<close>

definition file_at :: "store \<Rightarrow> nat \<Rightarrow> string" where
  "file_at st i = (let (d, eid) = found_files st ! i in event_file_name d eid)"

text \<open>A directory that can be listed, and in which the delete of an old marker does not fail unnoticed.\<close>

definition reliable :: "log_env \<Rightarrow> bool" where
  "reliable env \<longleftrightarrow> list_error env = None \<and> \<not> delete_error env"

lemma reliable_listed [dest]: "reliable env \<Longrightarrow> list_error env = None"
  by (simp add: reliable_def)

definition log_inv :: "log_env \<Rightarrow> store \<Rightarrow> event_log \<Rightarrow> bool" where
  "log_inv env st L \<longleftrightarrow>
     el_length L \<le> length (found_files st) \<and> indexes L (take (el_length L) (found_files st)) \<and>
     (\<forall>i e. event_cache L i = Some e \<longrightarrow> i < el_length L \<and> read_item env st (file_at st i) = Inr e)"

definition complete_log :: "store \<Rightarrow> event_log \<Rightarrow> bool" where
  "complete_log st L \<longleftrightarrow> el_length L = length (found_files st)"

text \<open>The steps of processes \<open>p\<close> that share a directory; appends are atomic under the lock, and
  no delete of an old marker fails unnoticed.\<close>

inductive log_step :: "log_env \<Rightarrow> store \<times> (nat \<Rightarrow> event_log) \<Rightarrow> store \<times> (nat \<Rightarrow> event_log) \<Rightarrow> bool"
  for env :: log_env where
  step_open: "log_step env (st, ls) (st, ls(p := new_event_log env st))"
| step_read: "get_single_item env st (ls p) i = (r, L') \<Longrightarrow> log_step env (st, ls) (st, ls(p := L'))"
| step_append:
    "env' = env\<lparr>lock_timeout := t, marker_error := m, guard_error := g, delete_error := False\<rparr> \<Longrightarrow>
     valid_event_id (ev_id e) \<Longrightarrow> dump_event env e \<noteq> [] \<Longrightarrow> load_event env (dump_event env e) = Some e \<Longrightarrow>
     append_log env' st (ls p) e = (r, L', st') \<Longrightarrow>
     log_step env (st, ls) (st', ls(p := L'))"

inductive_cases log_stepE: "log_step env s s'"

lemma new_event_log_inv:
  assumes "list_error env = None"
  shows "log_inv env st (new_event_log env st)"
  unfolding log_inv_def new_event_log_def using rescan_spec [OF assms] by simp

lemma rescan_inv: "list_error env = None \<Longrightarrow> log_inv env st (rescan env st L)"
  unfolding log_inv_def using rescan_spec [of env st L] by simp

lemma log_inv_item_file:
  assumes "log_inv env st L" "i < el_length L"
  shows "item_file L i = Inr (file_at st i)"
  using assms indexes_item_file [of L "take (el_length L) (found_files st)" i]
  by (simp add: log_inv_def file_at_def case_prod_unfold Let_def)

lemma log_inv_cache:
  assumes "log_inv env st L" "i < el_length L" "read_item env st (file_at st i) = Inr e"
  shows "log_inv env st (L\<lparr>event_cache := (event_cache L)(i \<mapsto> e)\<rparr>)"
  using assms by (auto simp: log_inv_def)

lemma get_single_item_inv:
  assumes inv: "log_inv env st L" and r: "get_single_item env st L idx = (r, L')"
  shows "log_inv env st L'"
proof (cases "norm_index (el_length L) idx")
  case (Inr i)
  then have i: "i < el_length L" by (auto simp: norm_index_def Let_def split: if_splits)
  show ?thesis
    using r inv i log_inv_item_file [OF inv i] log_inv_cache [OF inv i] Inr
    by (auto simp: get_single_item_def load_item_def split: option.splits sum.splits)
qed (use r inv in \<open>simp add: get_single_item_def\<close>)

lemma log_inv_read:
  assumes inv: "log_inv env st L" and i: "i < el_length L"
  shows "fst (get_single_item env st L (int i)) = read_item env st (file_at st i)"
  using inv i log_inv_item_file [OF inv i]
  by (auto simp: get_single_item_def norm_index_def load_item_def log_inv_def split: option.splits sum.splits)

lemma synced_spec:
  assumes st: "store_inv st" and inv: "log_inv env st L" and le: "list_error env' = None"
  shows "log_inv env st (synced env' st L) \<and> complete_log st (synced env' st L)"
proof (cases "el_length L < length (found_files st)")
  case True
  let ?F = "found_files st" and ?ex = "map (\<lambda>(i, eid). (i, eid, seq_of L i)) (idx_to_id L)"
  let ?L1 = "index_files 0 ?F (reset_index L)"
  have no_marker: "\<not> marker_matches_length env' st L"
    using st True unfolding marker_matches_length_def store_inv_def
    by (metis less_irrefl map_of_eq_None_iff)
  have "restore_mappings ?ex ?L1 = ?L1"
  proof (rule restore_mappings_known)
    have ids: "idx_to_id ?L1 = enumerate 0 (map snd ?F)" using indexes_scan by (simp add: indexes_def)
    have "idx_to_id L = enumerate 0 (map snd (take (el_length L) ?F))" using inv by (simp add: log_inv_def indexes_def)
    then show "\<forall>(i, eid, d) \<in> set ?ex. map_of (idx_to_id ?L1) i \<noteq> None"
      unfolding ids map_of_enumerate by (auto simp: in_set_enumerate_eq)
  qed
  then have "synced env' st L = ?L1\<lparr>el_length := length ?F\<rparr>"
    using no_marker True le count_eq_found [OF st le]
    by (simp add: synced_def sync_from_disk_def scan_and_build_index_def)
  then show ?thesis
    using indexes_scan [of ?F L] by (simp add: log_inv_def complete_log_def reset_index_def)
next
  case False
  then have "el_length L = length (found_files st)" using inv by (simp add: log_inv_def)
  then show ?thesis
    using inv count_eq_found [OF st le] by (simp add: synced_def complete_log_def)
qed

text \<open>The durable index of a new event is above all others.\<close>

lemma fresh_disk_index:
  assumes "store_inv st" "indexes L (found_files st)" "x \<in> set (found_files st)"
  shows "fst x < next_disk_idx L"
proof -
  let ?F = "found_files st"
  obtain i where i: "i < length ?F" "x = ?F ! i" using assms(3) by (metis in_set_conv_nth)
  then have "?F \<noteq> []" by auto
  then have last: "last ?F = ?F ! (length ?F - 1)" by (rule last_conv_nth)
  have "fst x \<le> fst (last ?F)"
  proof (cases "i = length ?F - 1")
    case False
    then have "i < length ?F - 1" "length ?F - 1 < length ?F" using i(1) by linarith+
    from found_files_sorted [OF assms(1) this] show ?thesis by (simp add: last i(2))
  qed (simp add: last i(2))
  then show ?thesis using assms(2) i by (auto simp: indexes_def)
qed

lemma read_item_extends:
  assumes "store_inv st" "valid_event_id eid" "\<forall>x \<in> set (found_files st). fst x < d"
    and st': "st' = advance_length_marker env k m (AList.update (event_file_name d eid) v st)"
  shows "found_files st' = found_files st @ [(d, eid)]"
    and "i < length (found_files st) \<Longrightarrow> file_at st' i = file_at st i"
    and "i < length (found_files st) \<Longrightarrow> map_of st' (file_at st i) = map_of st (file_at st i)"
    and "map_of st' (event_file_name d eid) = Some v"
proof -
  note new = found_new_file [OF assms(1-3)]
  show found: "found_files st' = found_files st @ [(d, eid)]"
    using new by (simp add: st' found_advance_marker)
  show "i < length (found_files st) \<Longrightarrow> file_at st' i = file_at st i"
    by (simp add: file_at_def found nth_append)
  show "map_of st' (event_file_name d eid) = Some v"
    by (simp add: st' map_of_advance_marker event_file_name_shape update_conv')
  assume "i < length (found_files st)"
  then have "found_files st ! i \<in> set (found_files st)" by simp
  then have "file_at st i \<in> fst ` set st"
    using in_found_iff [OF assms(1), of "fst (found_files st ! i)" "snd (found_files st ! i)"]
    by (simp add: file_at_def case_prod_unfold Let_def)
  moreover have "prefix ''event-'' (file_at st i)"
    by (simp add: file_at_def case_prod_unfold Let_def event_file_name_shape)
  moreover have "file_at st i \<noteq> event_file_name d eid" using new(1) calculation(1) by metis
  ultimately show "map_of st' (file_at st i) = map_of st (file_at st i)"
    by (simp add: st' map_of_advance_marker update_conv')
qed

lemma log_inv_extends:
  assumes "log_inv env st L" "store_inv st" "valid_event_id eid" "\<forall>x \<in> set (found_files st). fst x < d"
    and "st' = advance_length_marker env' k m (AList.update (event_file_name d eid) v st)"
  shows "log_inv env st' L"
proof -
  note ext = read_item_extends [OF assms(2-5)]
  have "read_item env st' (file_at st' i) = read_item env st (file_at st i)"
    if "i < length (found_files st)" for i
    unfolding read_item_def ext(2) [OF that] ext(3) [OF that] ..
  then have "event_cache L i = Some e \<Longrightarrow> i < el_length L \<and> read_item env st' (file_at st' i) = Inr e" for i e
    using assms(1) unfolding log_inv_def by (metis less_le_trans)
  then show ?thesis using assms(1) unfolding log_inv_def ext(1) by simp
qed

text \<open>What an append does: nothing to the files, or one new file behind all others.\<close>

definition appended ::
  "log_env \<Rightarrow> store \<Rightarrow> event \<Rightarrow> nat \<Rightarrow> event_log \<Rightarrow> store \<Rightarrow> bool" where
  "appended env st e idx L' st' \<longleftrightarrow>
     idx = length (found_files st) \<and> complete_log st' L' \<and> ev_id e \<notin> snd ` set (found_files st) \<and>
     (\<exists>d. (\<forall>x \<in> set (found_files st). fst x < d) \<and> found_files st' = found_files st @ [(d, ev_id e)]) \<and>
     (\<forall>i < length (found_files st). file_at st' i = file_at st i \<and>
        map_of st' (file_at st i) = map_of st (file_at st i)) \<and>
     map_of st' (file_at st' idx) = Some (dump_event env e) \<and> event_cache L' idx = Some e"

lemma append_log_spec:
  assumes st: "store_inv st" and inv: "log_inv env st L"
    and env': "env' = env\<lparr>lock_timeout := t, marker_error := m, guard_error := g, delete_error := de\<rparr>" "list_error env = None"
    and e: "valid_event_id (ev_id e)" "dump_event env e \<noteq> []" "load_event env (dump_event env e) = Some e"
    and r: "append_log env' st L e = (r, L', st')"
  shows "(case r of Inl _ \<Rightarrow> st' = st | Inr idx \<Rightarrow> appended env st e idx L' st') \<and>
         (de \<or> store_inv st') \<and> log_inv env st' L' \<and> (\<forall>L2. log_inv env st L2 \<longrightarrow> log_inv env st' L2)"
proof (cases r)
  case (Inl err)
  have "log_inv env st (synced env' st L)" using synced_spec [OF st inv, of env'] env' by simp
  then show ?thesis
    using r st inv Inl
    by (auto simp: append_log_def Let_def split: if_splits option.splits)
next
  case (Inr idx)
  let ?F = "found_files st"
  define L1 where "L1 = synced env' st L"
  have L1: "log_inv env st L1" "el_length L1 = length ?F"
    using synced_spec [OF st inv, of env'] env' by (auto simp: L1_def complete_log_def)
  then have ix: "indexes L1 ?F" by (simp add: log_inv_def)
  define d where "d = max (length ?F) (next_disk_idx L1)"
  have d: "\<forall>x \<in> set ?F. fst x < d" using fresh_disk_index [OF st ix] by (fastforce simp: d_def)
  have new: "\<not> contains_id L1 (ev_id e)" and idx: "idx = length ?F"
    and L': "L' = L1\<lparr>disk_idx := (if d \<noteq> length ?F then (disk_idx L1)(length ?F \<mapsto> d) else disk_idx L1),
        next_disk_idx := d + 1, idx_to_id := AList.update (length ?F) (ev_id e) (idx_to_id L1),
        id_to_idx := fmupd (ev_id e) (length ?F) (id_to_idx L1),
        event_cache := (event_cache L1)(length ?F \<mapsto> e), el_length := length ?F + 1\<rparr>"
    and st': "st' = advance_length_marker env' (length ?F) (length ?F + 1)
        (AList.update (event_file_name d (ev_id e)) (dump_event env e) st)"
    using r Inr env' L1(2)
    by (auto simp: append_log_def Let_def d_def L1_def split: if_splits option.splits)
  have fresh: "ev_id e \<notin> snd ` set ?F" using new indexes_contains [OF ix] by simp
  note ext = read_item_extends [OF st e(1) d st']
  have at: "file_at st' (length ?F) = event_file_name d (ev_id e)" by (simp add: file_at_def ext(1) nth_append)
  have "indexes L' (found_files st')"
    unfolding ext(1) L'
    using indexes_snoc [OF ix, where d = d and eid = "ev_id e"] new
    by (simp add: indexes_def contains_id_def)
  moreover have "read_item env st' (file_at st' (length ?F)) = Inr e"
    using e by (simp add: at read_item_def ext(4))
  ultimately have "log_inv env st' L'"
    using log_inv_extends [OF L1(1) st e(1) d st'] L1(2)
    by (auto simp: log_inv_def L' ext(1) less_Suc_eq)
  moreover have "appended env st e idx L' st'"
    unfolding appended_def complete_log_def
    using d ext fresh idx at by (auto simp: L')
  moreover have "de \<or> store_inv st'" using store_inv_append [OF st e(1) fresh d, of env'] by (cases de) (simp_all add: st' env'(1))
  ultimately show ?thesis using Inr log_inv_extends [OF _ st e(1) d st'] by simp
qed

text \<open>The invariant of the whole system.\<close>

definition system_inv :: "log_env \<Rightarrow> store \<Rightarrow> store \<times> (nat \<Rightarrow> event_log) \<Rightarrow> bool" where
  "system_inv env st0 s \<longleftrightarrow>
     (case s of (st, ls) \<Rightarrow> store_inv st \<and> (\<forall>p. log_inv env st (ls p)) \<and>
        prefix (found_files st0) (found_files st) \<and>
        (\<forall>i < length (found_files st0). map_of st (file_at st0 i) = map_of st0 (file_at st0 i)))"

lemma file_at_prefix:
  "prefix (found_files st0) (found_files st) \<Longrightarrow> i < length (found_files st0) \<Longrightarrow> file_at st i = file_at st0 i"
  by (auto simp: file_at_def prefix_def nth_append)

lemma log_step_inv:
  assumes "log_step env s s'" "list_error env = None" "system_inv env st0 s"
  shows "system_inv env st0 s'"
  using assms
proof (cases rule: log_step.cases)
  case (step_open st ls p)
  then show ?thesis using assms(3) new_event_log_inv [OF assms(2)] by (simp add: system_inv_def)
next
  case (step_read st ls p i r L')
  then have "log_inv env st L'" using assms(3) get_single_item_inv by (fastforce simp: system_inv_def)
  then show ?thesis using assms(3) step_read by (simp add: system_inv_def)
next
  case (step_append env' t m g e st ls p r L' st')
  then have st: "store_inv st" and ls: "\<And>q. log_inv env st (ls q)"
    and pre: "prefix (found_files st0) (found_files st)"
    and old: "\<forall>i < length (found_files st0). map_of st (file_at st0 i) = map_of st0 (file_at st0 i)"
    using assms(3) by (auto simp: system_inv_def)
  note spec = append_log_spec [OF st ls step_append(3) assms(2) step_append(4-7)]
  have "prefix (found_files st) (found_files st') \<and>
      (\<forall>i < length (found_files st). map_of st' (file_at st i) = map_of st (file_at st i))"
    using spec by (cases r) (auto simp: appended_def)
  then have "prefix (found_files st0) (found_files st') \<and>
      (\<forall>i < length (found_files st0). map_of st' (file_at st0 i) = map_of st0 (file_at st0 i))"
    using pre old file_at_prefix [OF pre]
    by (metis (no_types, lifting) less_le_trans prefix_length_le prefix_order.trans)
  then show ?thesis using spec ls by (simp add: step_append system_inv_def)
qed

lemma log_steps_inv:
  "(log_step env)\<^sup>*\<^sup>* s s' \<Longrightarrow> list_error env = None \<Longrightarrow> system_inv env st0 s \<Longrightarrow> system_inv env st0 s'"
  by (induction rule: rtranclp_induct) (auto intro: log_step_inv)

section \<open>Lemmas on the tree\<close>

text \<open>
  A log whose files can all be read, hold the event they are named after, and whose known explicit
  parents stand before their children, which is what appending ensures.
\<close>

definition tree_ok :: "log_env \<Rightarrow> store \<Rightarrow> event_log \<Rightarrow> (nat \<Rightarrow> event) \<Rightarrow> bool" where
  "tree_ok env st L evt \<longleftrightarrow>
     log_inv env st L \<and> store_inv st \<and>
     (\<forall>i < el_length L. read_item env st (file_at st i) = Inr (evt i) \<and> ev_id (evt i) = snd (found_files st ! i)) \<and>
     (\<forall>i < el_length L. \<forall>p j. ev_parent_id (evt i) = Some p \<and> fmlookup (id_to_idx L) p = Some j \<longrightarrow> j < i)"

text \<open>The branch that ends at an index: the event, behind the branch of its effective parent.\<close>

inductive branch :: "event_log \<Rightarrow> (nat \<Rightarrow> event) \<Rightarrow> nat \<Rightarrow> event list \<Rightarrow> bool"
  for L :: event_log and evt :: "nat \<Rightarrow> event" where
  branch_root: "effective_parent_id L i (evt i) = Inr None \<Longrightarrow> branch L evt i [evt i]"
| branch_child: "effective_parent_id L i (evt i) = Inr (Some p) \<Longrightarrow> fmlookup (id_to_idx L) p = Some j \<Longrightarrow>
    branch L evt j b \<Longrightarrow> branch L evt i (b @ [evt i])"

lemma lookup_found:
  assumes "log_inv env st L" "store_inv st" "i < el_length L"
  shows "fmlookup (id_to_idx L) (snd (found_files st ! i)) = Some i"
proof -
  let ?F = "take (el_length L) (found_files st)"
  have d: "distinct (map snd (found_files st))" and len: "i < length (found_files st)"
    using assms by (auto simp: store_inv_def log_inv_def)
  have "first_index ((=) (snd (found_files st ! i))) (map snd ?F) = Some i"
    using assms d len by (auto simp: first_index_Some_iff log_inv_def distinct_conv_nth)
  then show ?thesis using assms(1) by (simp add: log_inv_def indexes_def)
qed

lemma lookup_index:
  assumes "log_inv env st L" "fmlookup (id_to_idx L) p = Some j"
  shows "j < el_length L" "snd (found_files st ! j) = p"
proof -
  have "first_index ((=) p) (map snd (take (el_length L) (found_files st))) = Some j"
    using assms by (simp add: log_inv_def indexes_def)
  then show "j < el_length L" "snd (found_files st ! j) = p"
    by (auto simp: first_index_Some_iff)
qed

lemma effective_parent_spec:
  assumes ok: "tree_ok env st L evt" and i: "i < el_length L"
  shows "effective_parent_id L i (evt i) = Inr None \<or>
    (\<exists>p j. effective_parent_id L i (evt i) = Inr (Some p) \<and> fmlookup (id_to_idx L) p = Some j \<and> j < i)"
proof -
  have inv: "log_inv env st L" "store_inv st" using ok by (auto simp: tree_ok_def)
  consider (root) "ev_parent_id (evt i) = Some ROOT_PARENT_ID"
    | (known) p j where "ev_parent_id (evt i) = Some p" "p \<noteq> ROOT_PARENT_ID" "fmlookup (id_to_idx L) p = Some j"
    | (chain) "ev_parent_id (evt i) \<noteq> Some ROOT_PARENT_ID"
        "\<not> (ev_parent_id (evt i) \<noteq> None \<and> contains_id L (the (ev_parent_id (evt i))))"
    by (cases "ev_parent_id (evt i)") (auto simp: contains_id_def fmlookup_dom_iff)
  then show ?thesis
  proof cases
    case known
    then have "j < i" using ok i unfolding tree_ok_def by blast
    with known show ?thesis by (auto simp: effective_parent_id_def contains_id_def fmlookup_dom_iff)
  next
    case chain
    show ?thesis
    proof (cases i)
      case 0
      with chain show ?thesis by (auto simp: effective_parent_id_def)
    next
      case (Suc k)
      let ?p = "snd (found_files st ! k)"
      have k: "k < el_length L" "k < length (found_files st)" using i Suc inv by (auto simp: log_inv_def)
      then have "get_id L (int i - 1) = Inr ?p"
        using inv by (simp add: get_id_def norm_index_def Suc log_inv_def indexes_def map_of_enumerate)
      then have "effective_parent_id L i (evt i) = Inr (Some ?p)"
        using chain Suc by (auto simp: effective_parent_id_def)
      then show ?thesis using lookup_found [OF inv k(1)] Suc by auto
    qed
  qed (auto simp: effective_parent_id_def)
qed

lemma branch_exists:
  assumes "tree_ok env st L evt" "i < el_length L"
  shows "\<exists>b. branch L evt i b"
  using assms(2)
proof (induction i rule: less_induct)
  case (less i)
  from effective_parent_spec [OF assms(1) less.prems] show ?case
  proof
    assume "\<exists>p j. effective_parent_id L i (evt i) = Inr (Some p) \<and> fmlookup (id_to_idx L) p = Some j \<and> j < i"
    then obtain p j where pj: "effective_parent_id L i (evt i) = Inr (Some p)"
      "fmlookup (id_to_idx L) p = Some j" "j < i" by blast
    with less obtain b where "branch L evt j b" by fastforce
    with pj show ?thesis by (blast intro: branch_child)
  qed (blast intro: branch_root)
qed

text \<open>The walk from index \<open>i\<close> collects the branch, or as much of it as the limit leaves room for.\<close>

lemma path_loop_branch:
  assumes ok: "tree_ok env st L evt" and "branch L evt i b" "i < el_length L"
    and "\<forall>p j. p |\<in>| seen \<and> fmlookup (id_to_idx L) p = Some j \<longrightarrow> i < j"
  shows "path_loop env st L limit (Some (snd (found_files st ! i))) seen chain =
    Inr ((case limit of None \<Rightarrow> b | Some l \<Rightarrow> drop (length b - (l - length chain)) b) @ chain)"
  using assms(2-4)
proof (induction arbitrary: seen chain rule: branch.induct)
  case (branch_root i)
  have inv: "log_inv env st L" "store_inv st" using ok by (auto simp: tree_ok_def)
  note i = lookup_found [OF inv branch_root(2)]
  have read: "fst (get_single_item env st L (int i)) = Inr (evt i)"
    using ok log_inv_read [OF inv(1) branch_root(2)] branch_root(2) by (simp add: tree_ok_def)
  have "snd (found_files st ! i) |\<notin>| seen" using branch_root(3) i by blast
  then show ?case
    using i read branch_root(1)
    by (auto simp: path_loop.simps [of _ _ _ _ "Some x" for x] path_loop.simps [of _ _ _ _ None]
        drop_Cons' split: option.splits)
next
  case (branch_child i p j b)
  have inv: "log_inv env st L" "store_inv st" using ok by (auto simp: tree_ok_def)
  note i = lookup_found [OF inv branch_child(5)]
  note j = lookup_index [OF inv(1) branch_child(2)]
  have ji: "j < i"
    using effective_parent_spec [OF ok branch_child(5)] branch_child(1,2) by auto
  have read: "fst (get_single_item env st L (int i)) = Inr (evt i)"
    using ok log_inv_read [OF inv(1) branch_child(5)] branch_child(5) by (simp add: tree_ok_def)
  let ?c = "snd (found_files st ! i)"
  have seen: "?c |\<notin>| seen" using branch_child(6) i by blast
  have "\<forall>q k. q |\<in>| finsert ?c seen \<and> fmlookup (id_to_idx L) q = Some k \<longrightarrow> j < k"
    using branch_child(6) i ji by (metis finsert_iff less_trans option.inject)
  note IH = branch_child.IH [OF j(1) this, of "evt i # chain"]
  show ?case
  proof (cases "case limit of None \<Rightarrow> True | Some l \<Rightarrow> length chain < l")
    case False
    then show ?thesis
      by (auto simp: path_loop.simps [of _ _ _ _ "Some x" for x] split: option.splits)
  next
    case True
    have "path_loop env st L limit (Some ?c) seen chain =
        path_loop env st L limit (Some p) (finsert ?c seen) (evt i # chain)"
      using True i read seen branch_child(1)
      by (simp add: path_loop.simps [of _ _ _ _ "Some ?c"])
    also have "\<dots> = Inr ((case limit of None \<Rightarrow> b | Some l \<Rightarrow> drop (length b - (l - Suc (length chain))) b) @ evt i # chain)"
      using IH j(2) by (simp cong: option.case_cong)
    finally show ?thesis
      using True by (auto split: option.splits simp: Suc_diff_Suc not_less_eq_eq)
  qed
qed

lemma branch_last: "branch L evt i b \<Longrightarrow> b \<noteq> [] \<and> last b = evt i"
  by (cases rule: branch.cases) auto

lemma branch_indices:
  assumes "branch L evt i b" and ok: "tree_ok env st L evt" and "i < el_length L"
  shows "\<exists>is. b = map evt is \<and> sorted_wrt (<) is \<and> (\<forall>k \<in> set is. k \<le> i) \<and> i \<in> set is"
  using assms(1,3)
proof (induction rule: branch.induct)
  case (branch_root i)
  then show ?case by (intro exI [of _ "[i]"]) simp
next
  case (branch_child i p j b)
  have "log_inv env st L" using ok by (simp add: tree_ok_def)
  from lookup_index(1) [OF this branch_child(2)] branch_child.IH obtain "is" where
    "is": "b = map evt is" "sorted_wrt (<) is" "\<forall>k \<in> set is. k \<le> j" by blast
  moreover have "j < i" using effective_parent_spec [OF ok branch_child.prems] branch_child(1,2) by auto
  ultimately show ?case
    by (intro exI [of _ "is @ [i]"]) (auto simp: sorted_wrt_append)
qed

lemma bisect_right_spec:
  assumes "\<forall>i j. i < j \<and> j < n \<longrightarrow> key i \<le> key j" "lo \<le> hi" "hi \<le> n"
    and "\<forall>i < lo. int (key i) \<le> x" "\<forall>i. hi \<le> i \<and> i < n \<longrightarrow> x < int (key i)"
  shows "bisect_right key x lo hi \<le> n \<and> (\<forall>i < n. int (key i) \<le> x \<longleftrightarrow> i < bisect_right key x lo hi)"
  using assms
proof (induction key x lo hi rule: bisect_right.induct)
  case (1 key x lo hi)
  show ?case
  proof (cases "lo < hi")
    case False
    then have "bisect_right key x lo hi = lo" by (simp add: bisect_right.simps [of key x lo hi])
    moreover have "lo = hi" using False "1.prems"(2) by simp
    ultimately show ?thesis using "1.prems" by (auto simp: not_less [symmetric])
  next
    case True
    let ?mid = "(lo + hi) div 2"
    have mid: "lo \<le> ?mid" "?mid < hi" using True by auto
    show ?thesis
    proof (cases "x < int (key ?mid)")
      case lower: True
      have "x < int (key i)" if "?mid \<le> i" "i < n" for i
        using "1.prems"(1) [rule_format, of ?mid i] that lower by (cases "i = ?mid") auto
      then show ?thesis
        using "1.IH"(1) [OF True refl lower] "1.prems" mid lower True
        by (simp add: bisect_right.simps [of key x lo hi])
    next
      case False
      have "int (key i) \<le> x" if "i < Suc ?mid" for i
        using "1.prems"(1) [rule_format, of i ?mid] "1.prems"(3) that False mid by (cases "i = ?mid") auto
      then show ?thesis
        using "1.IH"(2) [OF True refl False] "1.prems" mid False True
        by (simp add: bisect_right.simps [of key x lo hi])
    qed
  qed
qed

section \<open>Properties\<close>

text \<open>The name of an event file can always be read back, for every index however large and
  every identifier of hexadecimal digits and dashes, so that a scan finds the index and the
  identifier the file was written with; marker files are never mistaken for events.\<close>

theorem event_file_name_roundtrip:
  "(valid_event_id eid \<longrightarrow> parse_event_name (event_file_name d eid) = Some (d, eid)) \<and>
   parse_event_name (marker_name n) = None"
  by (simp add: parse_event_file_name parse_marker)

theorem event_file_name_roundtrip_witness:
  "parse_event_name (event_file_name 123456 ''0badcafe-1'') = Some (123456, ''0badcafe-1'')"
proof -
  have "valid_event_id ''0badcafe-1''" by code_simp
  with event_file_name_roundtrip show ?thesis by blast
qed

text \<open>C3: However processes that share the directory interleave opening, reading and appending,
  with lock timeouts, marker failures and refused writes in between, but no unnoticed failure to
  delete an old marker, no event file is lost or overwritten, durable indices and identifiers stay distinct, new events go behind all earlier
  ones, and every process sees a prefix of the same sequence of events with the same sequence
  numbers.\<close>

theorem writers_agree:
  assumes "list_error env = None" "store_inv st0" "\<forall>p. ls0 p = new_event_log env st0"
    and "(log_step env)\<^sup>*\<^sup>* (st0, ls0) (st, ls)"
  shows "prefix (found_files st0) (found_files st) \<and>
     (\<forall>i < length (found_files st0). map_of st (file_at st0 i) = map_of st0 (file_at st0 i)) \<and>
     distinct (map fst (found_files st)) \<and> distinct (map snd (found_files st)) \<and>
     (\<forall>p. el_length (ls p) \<le> length (found_files st) \<and>
        (\<forall>i < el_length (ls p). get_id (ls p) (int i) = Inr (snd (found_files st ! i)) \<and>
                                 get_seq (ls p) (int i) = Inr (fst (found_files st ! i))))"
proof -
  have "system_inv env st0 (st0, ls0)"
    using assms(2,3) new_event_log_inv [OF assms(1)] by (simp add: system_inv_def)
  from log_steps_inv [OF assms(4,1) this] have inv: "store_inv st" "\<And>p. log_inv env st (ls p)"
    and old: "prefix (found_files st0) (found_files st)"
      "\<forall>i < length (found_files st0). map_of st (file_at st0 i) = map_of st0 (file_at st0 i)"
    by (auto simp: system_inv_def)
  have "get_id (ls p) (int i) = Inr (snd (found_files st ! i)) \<and>
      get_seq (ls p) (int i) = Inr (fst (found_files st ! i))" if "i < el_length (ls p)" for p i
  proof -
    have ix: "indexes (ls p) (take (el_length (ls p)) (found_files st))" "el_length (ls p) \<le> length (found_files st)"
      using inv(2) [of p] by (auto simp: log_inv_def)
    then have "seq_of (ls p) i = fst (found_files st ! i)"
      using indexes_seq_of [OF ix(1), of i] that by simp
    then show ?thesis
      using ix that by (simp add: get_id_def get_seq_def norm_index_def indexes_def map_of_enumerate)
  qed
  then show ?thesis using inv old by (simp add: store_inv_def log_inv_def)
qed

text \<open>The sample directory: two events, the second behind a lost file, and the length marker.\<close>

definition sample_env :: log_env where
  "sample_env =
     \<lparr>dump_event = ev_id,
      load_event = (\<lambda>s. if s = ''aaaaaaaa'' then Some (sample_message ''aaaaaaaa'' SourceUser ''hi'')
                        else if s = ''cccccccc'' then Some (sample_action ''cccccccc'' ''c1'' ''r1'')
                        else if s = ''dddddddd'' then Some (sample_observation ''dddddddd'' ''c1'') else None),
      lock_timeout = False, list_error = None, marker_error = False, delete_error = False, guard_error = None\<rparr>"

definition sample_store :: store where
  "sample_store =
     [(event_file_name 0 ''aaaaaaaa'', ''aaaaaaaa''), (event_file_name 2 ''cccccccc'', ''cccccccc''),
      (marker_name 2, [])]"

definition sample_third :: event where
  "sample_third = sample_observation ''dddddddd'' ''c1''"

definition sample_written :: "nat result \<times> event_log \<times> store" where
  "sample_written = append_log sample_env sample_store (new_event_log sample_env sample_store) sample_third"

text \<open>What the witnesses below rest on, evaluated in one go.\<close>

lemma sample_log_computed:
  "found_files sample_store = [(0, ''aaaaaaaa''), (2, ''cccccccc'')]"
  "distinct (map fst sample_store)"
  "fst sample_written = Inr 2"
  "found_files (snd (snd sample_written)) = [(0, ''aaaaaaaa''), (2, ''cccccccc''), (3, ''dddddddd'')]"
  "el_length (fst (snd sample_written)) = 3" "el_length (new_event_log sample_env sample_store) = 2"
  "read_item sample_env sample_store (file_at sample_store 0) = Inr (sample_message ''aaaaaaaa'' SourceUser ''hi'')"
  "read_item sample_env sample_store (file_at sample_store 1) = Inr (sample_action ''cccccccc'' ''c1'' ''r1'')"
  "fmlookup (id_to_idx (new_event_log sample_env sample_store)) ''cccccccc'' = Some 1"
  "valid_event_id ''aaaaaaaa''" "valid_event_id ''cccccccc''" "valid_event_id ''dddddddd''"
  unfolding atomize_conj by code_simp

lemmas sample_found = sample_log_computed(1) and sample_valid_ids = sample_log_computed(10-12)

lemma sample_store_inv: "store_inv sample_store"
proof -
  note sample_log_computed(2)
  moreover have "\<forall>n \<in> fst ` set sample_store. prefix ''event-'' n \<longrightarrow>
      (\<exists>d eid. valid_event_id eid \<and> n = event_file_name d eid)"
    using sample_valid_ids marker_not_event by (auto simp: sample_store_def)
  moreover have "n = 2" if "marker_name n \<in> fst ` set sample_store" for n
    using that marker_not_event event_file_name_shape(1) by (auto simp: sample_store_def marker_name_inj) metis+
  ultimately show ?thesis unfolding store_inv_def sample_found by (simp add: numeral_2_eq_2)
qed

theorem writers_agree_witness:
  "\<exists>st ls. (log_step sample_env)\<^sup>*\<^sup>* (sample_store, \<lambda>p. new_event_log sample_env sample_store) (st, ls) \<and>
     found_files st = [(0, ''aaaaaaaa''), (2, ''cccccccc''), (3, ''dddddddd'')] \<and>
     get_seq (ls 1) 2 = Inr 3 \<and> el_length (ls 2) = 2 \<and> distinct (map snd (found_files st))"
proof -
  let ?L = "new_event_log sample_env sample_store"
  obtain r L' st' where app: "append_log sample_env sample_store ?L sample_third = (r, L', st')"
    by (metis prod_cases3)
  have env: "sample_env = sample_env\<lparr>lock_timeout := False, marker_error := False, guard_error := None, delete_error := False\<rparr>"
    by (simp add: sample_env_def)
  have f: "found_files st' = [(0, ''aaaaaaaa''), (2, ''cccccccc''), (3, ''dddddddd'')]"
    "el_length L' = 3" "el_length ?L = 2"
    using sample_log_computed(4-6) unfolding sample_written_def app by simp_all
  have "valid_event_id (ev_id sample_third)" "dump_event sample_env sample_third \<noteq> []"
    "load_event sample_env (dump_event sample_env sample_third) = Some sample_third"
    using sample_valid_ids by (simp_all add: sample_third_def sample_env_def sample_defs)
  from step_append [OF env this, of sample_store "\<lambda>p. ?L" 1 r L' st'] app
  have steps: "(log_step sample_env)\<^sup>*\<^sup>* (sample_store, \<lambda>p. ?L) (st', (\<lambda>p. ?L)(1 := L'))" by auto
  have "list_error sample_env = None" by (simp add: sample_env_def)
  note agree = writers_agree [OF this sample_store_inv allI [OF refl] steps]
  then have "\<forall>i < el_length L'. get_id L' (int i) = Inr (snd (found_files st' ! i)) \<and>
      get_seq L' (int i) = Inr (fst (found_files st' ! i))"
    by (elim conjE) (drule spec [of _ 1], simp)
  from this [rule_format, of 2] have "get_seq L' (int 2) = Inr (fst (found_files st' ! 2))" using f(2) by simp
  moreover have "distinct (map snd (found_files st'))" using agree by blast
  ultimately show ?thesis using f steps by (intro exI [of _ st'] exI [of _ "(\<lambda>p. ?L)(1 := L')"]) simp
qed

text \<open>In a log in order, sequence numbers grow strictly with the index and never fall below it,
  and the position after a sequence number is exactly the number of events up to it, so that a
  client that resumes there misses nothing and sees nothing twice.\<close>

theorem index_after_seq_exact:
  assumes "store_inv st" "log_inv env st L"
  shows "(\<forall>i j. i < j \<and> j < el_length L \<longrightarrow> seq_of L i < seq_of L j) \<and>
     (\<forall>i < el_length L. i \<le> seq_of L i) \<and>
     index_after_seq L s \<le> el_length L \<and>
     (\<forall>i < el_length L. int (seq_of L i) \<le> s \<longleftrightarrow> i < index_after_seq L s)"
proof -
  have ix: "indexes L (take (el_length L) (found_files st))" and len: "el_length L \<le> length (found_files st)"
    using assms(2) by (auto simp: log_inv_def)
  have seq: "seq_of L i = fst (found_files st ! i)" if "i < el_length L" for i
    using indexes_seq_of [OF ix, of i] that len by simp
  have mono: "seq_of L i < seq_of L j" if "i < j" "j < el_length L" for i j
    using found_files_sorted [OF assms(1) that(1)] that len by (simp add: seq)
  have "i \<le> seq_of L i" if "i < el_length L" for i
    using found_index_ge [OF assms(1), of i] that len by (simp add: seq)
  moreover have "bisect_right (seq_of L) s 0 (el_length L) \<le> el_length L \<and>
      (\<forall>i < el_length L. int (seq_of L i) \<le> s \<longleftrightarrow> i < bisect_right (seq_of L) s 0 (el_length L))"
    by (rule bisect_right_spec) (use mono in \<open>auto intro: less_imp_le\<close>)
  ultimately show ?thesis using mono by (simp add: index_after_seq_def)
qed

theorem index_after_seq_exact_witness:
  "index_after_seq (new_event_log sample_env sample_store) 1 \<le> 2"
proof -
  note sample_log_computed(6)
  moreover have "list_error sample_env = None" by (simp add: sample_env_def)
  ultimately show ?thesis
    using index_after_seq_exact [OF sample_store_inv new_event_log_inv, of sample_env 1] by simp
qed

text \<open>C5: An append either fails and leaves every file as it was, or adds exactly one event behind
  all others: the log then holds it at the returned index, the file holds its serialization, the
  directory is again in order for this and every other process (unless the delete of the old marker
  failed unnoticed), and the event's identifier was not there before.\<close>

theorem append_log_correct:
  assumes "store_inv st" "log_inv env st L" "list_error env = None"
    and "valid_event_id (ev_id e)" "dump_event env e \<noteq> []" "load_event env (dump_event env e) = Some e"
    and "append_log env st L e = (r, L', st')"
  shows "(store_inv st' \<or> delete_error env) \<and> log_inv env st' L' \<and> (\<forall>L2. log_inv env st L2 \<longrightarrow> log_inv env st' L2) \<and>
     (case r of
        Inl err \<Rightarrow> st' = st
      | Inr idx \<Rightarrow>
          idx = length (found_files st) \<and> el_length L' = idx + 1 \<and>
          ev_id e \<notin> snd ` set (found_files st) \<and>
          (\<exists>d. (\<forall>x \<in> set (found_files st). fst x < d) \<and> found_files st' = found_files st @ [(d, ev_id e)]) \<and>
          (\<forall>i < idx. map_of st' (file_at st i) = map_of st (file_at st i)) \<and>
          map_of st' (file_at st' idx) = Some (dump_event env e) \<and>
          fst (get_single_item env st' L' (int idx)) = Inr e)"
proof -
  have "env = env\<lparr>lock_timeout := lock_timeout env, marker_error := marker_error env, guard_error := guard_error env,
    delete_error := delete_error env\<rparr>"
    by simp
  note spec = append_log_spec [OF assms(1,2) this assms(3-7)]
  show ?thesis
  proof (cases r)
    case (Inr idx)
    then have a: "appended env st e idx L' st'" and inv: "log_inv env st' L'" using spec by auto
    then have "idx < el_length L'" "read_item env st' (file_at st' idx) = Inr e"
      by (auto simp: appended_def complete_log_def log_inv_def)
    with log_inv_read [OF inv] a spec Inr show ?thesis by (auto simp: appended_def complete_log_def)
  qed (use spec in auto)
qed

theorem append_log_correct_witness:
  "\<exists>L' st'. append_log sample_env sample_store (new_event_log sample_env sample_store) sample_third = (Inr 2, L', st') \<and>
     store_inv st' \<and> fst (get_single_item sample_env st' L' (int 2)) = Inr sample_third"
proof -
  let ?L = "new_event_log sample_env sample_store"
  obtain r L' st' where app: "append_log sample_env sample_store ?L sample_third = (r, L', st')"
    by (metis prod_cases3)
  moreover have "fst (append_log sample_env sample_store ?L sample_third) = Inr 2"
    using sample_log_computed(3) unfolding sample_written_def .
  ultimately have app: "append_log sample_env sample_store ?L sample_third = (Inr 2, L', st')" by simp
  have le: "list_error sample_env = None" by (simp add: sample_env_def)
  have "valid_event_id (ev_id sample_third)" "dump_event sample_env sample_third \<noteq> []"
    "load_event sample_env (dump_event sample_env sample_third) = Some sample_third"
    using sample_valid_ids by (simp_all add: sample_third_def sample_env_def sample_defs)
  from append_log_correct [OF sample_store_inv new_event_log_inv [OF le] le this app] app
  show ?thesis by (auto simp: sample_env_def)
qed

text \<open>For a log in order, the branch to an event can always be read, without a cycle: it holds
  events in the order of the log, ends with that event, each event's effective parent is the one
  before it and the first has none. A limit gives exactly the last so many events of it.\<close>

theorem path_to_root_is_branch:
  assumes "tree_ok env st L evt" "fmlookup (id_to_idx L) leaf = Some i"
  shows "\<exists>b is. branch L evt i b \<and> b = map evt is \<and> sorted_wrt (<) is \<and> b \<noteq> [] \<and> last b = evt i \<and>
     path_to_root env st L (Some leaf) None = Inr b \<and>
     (\<forall>l. path_to_root env st L (Some leaf) (Some l) = Inr (last_n l b))"
proof -
  have inv: "log_inv env st L" using assms(1) by (simp add: tree_ok_def)
  note i = lookup_index [OF inv assms(2)]
  obtain b where b: "branch L evt i b" using branch_exists [OF assms(1) i(1)] by blast
  obtain "is" where "b = map evt is" "sorted_wrt (<) is" using branch_indices [OF b assms(1) i(1)] by blast
  moreover have "path_to_root env st L (Some leaf) limit =
      Inr (case limit of None \<Rightarrow> b | Some l \<Rightarrow> drop (length b - l) b)" for limit
    using path_loop_branch [OF assms(1) b i(1), of "{||}" limit "[]"] i(2)
    by (simp add: path_to_root_def split: option.splits)
  ultimately show ?thesis
    using b branch_last [OF b] by (intro exI [of _ b] exI [of _ "is"]) (simp add: last_n_def)
qed

theorem path_to_root_is_branch_witness:
  "\<exists>b. path_to_root sample_env sample_store (new_event_log sample_env sample_store) (Some ''cccccccc'') None = Inr b \<and>
     last b = sample_action ''cccccccc'' ''c1'' ''r1''"
proof -
  let ?L = "new_event_log sample_env sample_store"
  let ?evt = "\<lambda>i :: nat. if i = 0 then sample_message ''aaaaaaaa'' SourceUser ''hi'' else sample_action ''cccccccc'' ''c1'' ''r1''"
  have "read_item sample_env sample_store (file_at sample_store 0) = Inr (?evt 0)"
    "read_item sample_env sample_store (file_at sample_store 1) = Inr (?evt 1)"
    "fmlookup (id_to_idx ?L) ''cccccccc'' = Some 1" "el_length ?L = 2"
    using sample_log_computed(6-9) by simp_all
  moreover have "log_inv sample_env sample_store ?L"
    by (rule new_event_log_inv) (simp add: sample_env_def)
  moreover have "ev_parent_id (?evt i) = None" for i by (simp add: sample_defs)
  ultimately have "tree_ok sample_env sample_store ?L ?evt"
    using sample_store_inv by (auto simp: tree_ok_def sample_found less_2_cases_iff sample_defs)
  from path_to_root_is_branch [OF this \<open>fmlookup (id_to_idx ?L) ''cccccccc'' = Some 1\<close>]
  show ?thesis by auto
qed

end
