(* ===== verification/Hooks.thy ===== *)
theory Hooks
  imports Tool_Calls Event_Log
begin

text \<open>
  Hooks (\<open>hooks/config.py\<close>, \<open>hooks/executor.py\<close>, \<open>hooks/manager.py\<close>): which hooks an event runs, what
  the outcome of a command, a prompt or an agent hook means, and what a series of results decides.

  Processes, the model's answers, regular expressions and the JSON parser are parameters: a process
  ends with an exit code and its output, or with the failure the code catches. A hook may answer
  differently each time, so the parameters take the number of hooks run before. Bookkeeping of
  background processes, costs of agent hooks and log messages are left out.
\<close>

section \<open>Configuration\<close>

datatype hook_event_type = PRE_TOOL_USE | POST_TOOL_USE | USER_PROMPT_SUBMIT | SESSION_START | SESSION_END | STOP_EVENT

fun hook_event_name :: "hook_event_type \<Rightarrow> string" where
  "hook_event_name PRE_TOOL_USE = ''PreToolUse''"
| "hook_event_name POST_TOOL_USE = ''PostToolUse''"
| "hook_event_name USER_PROMPT_SUBMIT = ''UserPromptSubmit''"
| "hook_event_name SESSION_START = ''SessionStart''"
| "hook_event_name SESSION_END = ''SessionEnd''"
| "hook_event_name STOP_EVENT = ''Stop''"

definition HOOK_EVENT_FIELDS :: "string list" where
  "HOOK_EVENT_FIELDS = [''pre_tool_use'', ''post_tool_use'', ''user_prompt_submit'', ''session_start'', ''session_end'', ''stop'']"

datatype hook_type = HookCommand | HookPrompt | HookAgent

record hook_definition =
  hd_type :: hook_type
  hd_name :: "string option"
  hd_command :: string
  hd_prompt :: "string option"
  hd_system_prompt :: "string option"
  hd_timeout :: int
  hd_async :: bool

record hook_matcher =
  matcher :: string
  matcher_hooks :: "hook_definition list"

record hook_config =
  pre_tool_use :: "hook_matcher list"
  post_tool_use :: "hook_matcher list"
  user_prompt_submit :: "hook_matcher list"
  session_start :: "hook_matcher list"
  session_end :: "hook_matcher list"
  stop_hooks :: "hook_matcher list"

text \<open>\<open>str.lower\<close> below code point 256.\<close>

definition lower_char :: "char \<Rightarrow> char" where
  "lower_char c =
     (let n = of_char c :: nat
      in if 65 \<le> n \<and> n \<le> 90 \<or> 0xC0 \<le> n \<and> n \<le> 0xDE \<and> n \<noteq> 0xD7 then char_of (n + 32) else c)"

definition lower :: "string \<Rightarrow> string" where
  "lower s = map lower_char s"

definition is_upper_letter :: "char \<Rightarrow> bool" where
  "is_upper_letter c \<longleftrightarrow> CHR ''A'' \<le> c \<and> c \<le> CHR ''Z''"

definition pascal_to_snake :: "string \<Rightarrow> string" where
  "pascal_to_snake s =
     lower (case s of
        [] \<Rightarrow> []
      | c # cs \<Rightarrow> c # concat (map (\<lambda>d. if is_upper_letter d then [CHR ''_'', d] else [d]) cs))"

text \<open>
  \<open>_normalize_hooks_input\<close>, on the items of a dictionary; the wrapper \<open>hooks\<close> has to hold a dictionary
  itself.
\<close>

fun normalize_hook_keys :: "(string \<times> 'v) list \<Rightarrow> string set \<Rightarrow> (string \<times> 'v) list result" where
  "normalize_hook_keys [] seen = Inr []"
| "normalize_hook_keys ((key, v) # items) seen =
     (let snake_key = pascal_to_snake key
      in if snake_key \<noteq> key \<and> snake_key \<notin> set HOOK_EVENT_FIELDS then Inl ValueError
         else if snake_key \<in> seen then Inl ValueError
         else bind_result (normalize_hook_keys items (insert snake_key seen)) (\<lambda>r. Inr ((snake_key, v) # r)))"

text \<open>\<open>_validate_type_fields\<close>: which definitions can be built.\<close>

definition validate_type_fields :: "hook_definition \<Rightarrow> hook_definition result" where
  "validate_type_fields h =
     (if hd_type h = HookCommand \<and> hd_command h = [] then Inl ValueError
      else if hd_type h = HookPrompt \<and> (hd_prompt h = None \<or> hd_prompt h = Some []) then Inl ValueError
      else if hd_type h = HookPrompt \<and> hd_command h \<noteq> [] then Inl ValueError
      else if hd_type h = HookPrompt \<and> hd_async h then Inl ValueError
      else if hd_type h = HookAgent \<and> hd_command h \<noteq> [] then Inl ValueError
      else if hd_type h = HookAgent \<and> hd_async h then Inl ValueError
      else Inr h)"

record hook_env =
  fullmatch :: "string \<Rightarrow> string \<Rightarrow> bool option"
  hook_json_loads :: "string \<Rightarrow> json result"
  raw_decode :: "string \<Rightarrow> json result"
  hook_str :: "json \<Rightarrow> string"

definition regex_metacharacters :: "char set" where
  "regex_metacharacters = set ''|.*+?[]()^$'' \<union> {backslash}"

definition matches :: "hook_env \<Rightarrow> hook_matcher \<Rightarrow> string option \<Rightarrow> bool" where
  "matches env m name =
     (if matcher m = ''*'' \<or> matcher m = [] then True
      else (case name of
              None \<Rightarrow> False
            | Some tool \<Rightarrow>
                if prefix ''/'' (matcher m) \<and> suffix ''/'' (matcher m) \<and> length (matcher m) > 2 then
                  fullmatch env (butlast (tl (matcher m))) tool = Some True
                else if list_ex (\<lambda>c. c \<in> regex_metacharacters) (matcher m) then
                  (case fullmatch env (matcher m) tool of Some b \<Rightarrow> b | None \<Rightarrow> matcher m = tool)
                else matcher m = tool))"

fun matchers_for_event :: "hook_config \<Rightarrow> hook_event_type \<Rightarrow> hook_matcher list" where
  "matchers_for_event c PRE_TOOL_USE = pre_tool_use c"
| "matchers_for_event c POST_TOOL_USE = post_tool_use c"
| "matchers_for_event c USER_PROMPT_SUBMIT = user_prompt_submit c"
| "matchers_for_event c SESSION_START = session_start c"
| "matchers_for_event c SESSION_END = session_end c"
| "matchers_for_event c STOP_EVENT = stop_hooks c"

definition get_hooks_for_event :: "hook_env \<Rightarrow> hook_config \<Rightarrow> hook_event_type \<Rightarrow> string option \<Rightarrow> hook_definition list" where
  "get_hooks_for_event env c ty name =
     concat (map matcher_hooks (filter (\<lambda>m. matches env m name) (matchers_for_event c ty)))"

definition has_hooks_for_event :: "hook_config \<Rightarrow> hook_event_type \<Rightarrow> bool" where
  "has_hooks_for_event c ty \<longleftrightarrow> matchers_for_event c ty \<noteq> []"

definition is_empty_config :: "hook_config \<Rightarrow> bool" where
  "is_empty_config c \<longleftrightarrow>
     pre_tool_use c = [] \<and> post_tool_use c = [] \<and> user_prompt_submit c = [] \<and> session_start c = [] \<and>
     session_end c = [] \<and> stop_hooks c = []"

definition merge_configs :: "hook_config list \<Rightarrow> hook_config option" where
  "merge_configs configs =
     (let merged = \<lparr>pre_tool_use = concat (map pre_tool_use configs), post_tool_use = concat (map post_tool_use configs),
            user_prompt_submit = concat (map user_prompt_submit configs),
            session_start = concat (map session_start configs), session_end = concat (map session_end configs),
            stop_hooks = concat (map stop_hooks configs)\<rparr>
      in if configs = [] \<or> is_empty_config merged then None else Some merged)"

section \<open>Running one hook\<close>

datatype hook_decision = ALLOW | DENY

record hook_result =
  hr_success :: bool
  hr_blocked :: bool
  hr_exit_code :: int
  hr_stdout :: string
  hr_stderr :: string
  hr_decision :: "hook_decision option"
  hr_reason :: "string option"
  hr_additional_context :: "string option"
  hr_error :: "string option"
  hr_async_started :: bool

definition default_hook_result :: hook_result where
  "default_hook_result =
     \<lparr>hr_success = True, hr_blocked = False, hr_exit_code = 0, hr_stdout = [], hr_stderr = [], hr_decision = None,
      hr_reason = None, hr_additional_context = None, hr_error = None, hr_async_started = False\<rparr>"

definition should_continue :: "hook_result \<Rightarrow> bool" where
  "should_continue r \<longleftrightarrow> \<not> hr_blocked r \<and> hr_decision r \<noteq> Some DENY"

record hook_event =
  he_type :: hook_event_type
  he_tool_name :: "string option"
  he_tool_input :: "json option"
  he_tool_response :: "json option"
  he_message :: "string option"
  he_session_id :: "string option"
  he_working_dir :: "string option"
  he_metadata :: "(string \<times> string) list"

text \<open>
  How a process ends; starting one in the background may fail. An answer of a model is its text, or
  the exception of the call; without a model there is none.
\<close>

datatype process_outcome = Completed int string string | TimedOut | NotFound string | ProcessFailed string

record hook_runner =
  run_process :: "nat \<Rightarrow> hook_definition \<Rightarrow> hook_event \<Rightarrow> process_outcome"
  start_background :: "nat \<Rightarrow> hook_definition \<Rightarrow> hook_event \<Rightarrow> string option"
  consult :: "nat \<Rightarrow> hook_definition \<Rightarrow> hook_event \<Rightarrow> (string + string) option"
  failure_text :: "py_error \<Rightarrow> string"

definition failed_hook :: "string \<Rightarrow> hook_result" where
  "failed_hook msg = default_hook_result\<lparr>hr_success := False, hr_exit_code := -1, hr_error := Some msg\<rparr>"

definition fall_open :: "string \<Rightarrow> string option \<Rightarrow> hook_result" where
  "fall_open reason err = default_hook_result
     \<lparr>hr_success := False, hr_decision := Some ALLOW, hr_reason := Some reason,
      hr_error := Some (case err of Some e \<Rightarrow> if e = [] then reason else e | None \<Rightarrow> reason)\<rparr>"

fun extract_first_json_object :: "hook_env \<Rightarrow> string \<Rightarrow> arguments option result" where
  "extract_first_json_object env [] = Inr None"
| "extract_first_json_object env (c # cs) =
     (if c \<noteq> CHR ''{'' then extract_first_json_object env cs
      else
        (case raw_decode env (c # cs) of
           Inr (JDict d) \<Rightarrow> Inr (Some d)
         | Inr _ \<Rightarrow> extract_first_json_object env cs
         | Inl e \<Rightarrow> if e = JSONDecodeError then extract_first_json_object env cs else Inl e))"

definition hook_text :: "hook_env \<Rightarrow> json option \<Rightarrow> string" where
  "hook_text env v = (case v of None \<Rightarrow> [] | Some (JStr s) \<Rightarrow> s | Some j \<Rightarrow> hook_str env j)"

definition hook_label :: "hook_type \<Rightarrow> string" where
  "hook_label ty = (case ty of HookCommand \<Rightarrow> ''Command hook'' | HookPrompt \<Rightarrow> ''Prompt hook'' | HookAgent \<Rightarrow> ''Agent hook'')"

definition parse_decision :: "hook_env \<Rightarrow> hook_type \<Rightarrow> string \<Rightarrow> hook_result result" where
  "parse_decision env ty raw =
     (if raw = [] then Inr (fall_open (hook_label ty @ '' produced no final response -- defaulting to allow'') None)
      else bind_result (extract_first_json_object env raw) (\<lambda>d.
        case d of
          None \<Rightarrow> Inr (fall_open (hook_label ty @ '' returned no parseable JSON -- defaulting to allow'') None)
        | Some fs \<Rightarrow>
            (let decision_str = lower (hook_text env (fmlookup fs ''decision''));
                 reason = hook_text env (fmlookup fs ''reason'')
             in if decision_str = ''deny'' then
                  Inr (default_hook_result\<lparr>hr_blocked := True, hr_decision := Some DENY, hr_reason := Some reason\<rparr>)
                else if decision_str = ''allow'' then
                  Inr (default_hook_result\<lparr>hr_decision := Some ALLOW, hr_reason := Some reason\<rparr>)
                else Inr (fall_open (hook_label ty @ '' returned an invalid decision -- defaulting to allow'') None))))"

text \<open>What the JSON output of a command adds to its result.\<close>

definition output_decision :: "arguments \<Rightarrow> hook_result \<Rightarrow> hook_result" where
  "output_decision d r =
     (case fmlookup d ''decision'' of
        Some (JStr s) \<Rightarrow>
          if lower s = ''allow'' then r\<lparr>hr_decision := Some ALLOW\<rparr>
          else if lower s = ''deny'' then r\<lparr>hr_decision := Some DENY, hr_blocked := True\<rparr>
          else r
      | _ \<Rightarrow> r)"

definition output_texts :: "hook_env \<Rightarrow> arguments \<Rightarrow> hook_result \<Rightarrow> hook_result" where
  "output_texts env d r =
     r\<lparr>hr_reason := (case fmlookup d ''reason'' of Some v \<Rightarrow> Some (hook_text env (Some v)) | None \<Rightarrow> hr_reason r),
       hr_additional_context :=
         (case fmlookup d ''additionalContext'' of Some v \<Rightarrow> Some (hook_text env (Some v)) | None \<Rightarrow> hr_additional_context r)\<rparr>"

definition output_continue :: "arguments \<Rightarrow> hook_result \<Rightarrow> hook_result" where
  "output_continue d r =
     (case fmlookup d ''continue'' of
        Some v \<Rightarrow> if json_truthy v then r else r\<lparr>hr_blocked := True\<rparr>
      | None \<Rightarrow> r)"

definition apply_output :: "hook_env \<Rightarrow> arguments \<Rightarrow> hook_result \<Rightarrow> hook_result" where
  "apply_output env d r = output_continue d (output_texts env d (output_decision d r))"

definition completed_command :: "hook_env \<Rightarrow> (py_error \<Rightarrow> string) \<Rightarrow> int \<Rightarrow> string \<Rightarrow> string \<Rightarrow> hook_result" where
  "completed_command env err_text code out err =
     (let r = default_hook_result\<lparr>hr_success := code = 0, hr_blocked := code = 2, hr_exit_code := code,
            hr_stdout := out, hr_stderr := err\<rparr>
      in if strip out = [] then r
         else
           (case hook_json_loads env out of
              Inr (JDict d) \<Rightarrow> apply_output env d r
            | Inr _ \<Rightarrow> r
            | Inl e \<Rightarrow> if e = JSONDecodeError then r else failed_hook (''Hook execution failed: '' @ err_text e)))"

definition show_int :: "int \<Rightarrow> string" where
  "show_int i = (if i < 0 then CHR ''-'' # show_nat (nat (- i)) else show_nat (nat i))"

definition execute_model_hook :: "hook_env \<Rightarrow> hook_runner \<Rightarrow> nat \<Rightarrow> hook_definition \<Rightarrow> hook_event \<Rightarrow> hook_result result" where
  "execute_model_hook env rn n h ev =
     (let what = (if hd_type h = HookAgent then ''agent hook'' else ''prompt hook'')
      in case consult rn n h ev of
           None \<Rightarrow> Inr (fall_open (''No LLM configured for '' @ what) None)
         | Some (Inl err) \<Rightarrow>
             Inr (fall_open (hook_label (hd_type h) @ '' execution failed -- defaulting to allow'') (Some err))
         | Some (Inr raw) \<Rightarrow> parse_decision env (hd_type h) raw)"

definition execute_command_hook :: "hook_env \<Rightarrow> hook_runner \<Rightarrow> nat \<Rightarrow> hook_definition \<Rightarrow> hook_event \<Rightarrow> hook_result" where
  "execute_command_hook env rn n h ev =
     (if hd_command h = [] then failed_hook ''command is required when type is command''
      else if hd_async h then
        (case start_background rn n h ev of
           None \<Rightarrow> default_hook_result\<lparr>hr_async_started := True\<rparr>
         | Some msg \<Rightarrow> failed_hook (''Failed to start async hook: '' @ msg))
      else
        (case run_process rn n h ev of
           Completed code out err \<Rightarrow> completed_command env (failure_text rn) code out err
         | TimedOut \<Rightarrow> failed_hook (''Hook timed out after '' @ show_int (hd_timeout h) @ '' seconds'')
         | NotFound msg \<Rightarrow> failed_hook (''Hook command not found: '' @ msg)
         | ProcessFailed msg \<Rightarrow> failed_hook (''Hook execution failed: '' @ msg)))"

definition execute_hook :: "hook_env \<Rightarrow> hook_runner \<Rightarrow> nat \<Rightarrow> hook_definition \<Rightarrow> hook_event \<Rightarrow> hook_result result" where
  "execute_hook env rn n h ev =
     (if hd_type h = HookAgent \<or> hd_type h = HookPrompt then execute_model_hook env rn n h ev
      else Inr (execute_command_hook env rn n h ev))"

fun execute_all :: "hook_env \<Rightarrow> hook_runner \<Rightarrow> nat \<Rightarrow> hook_definition list \<Rightarrow> hook_event \<Rightarrow> bool \<Rightarrow> hook_result list result" where
  "execute_all env rn n [] ev stop_on_block = Inr []"
| "execute_all env rn n (h # hs) ev stop_on_block =
     bind_result (execute_hook env rn n h ev) (\<lambda>r.
       if stop_on_block \<and> hr_blocked r then Inr [r]
       else bind_result (execute_all env rn (Suc n) hs ev stop_on_block) (\<lambda>rs. Inr (r # rs)))"

section \<open>The manager\<close>

record hook_manager =
  hm_config :: hook_config
  hm_session_id :: "string option"
  hm_working_dir :: "string option"

definition create_event :: "hook_manager \<Rightarrow> hook_event_type \<Rightarrow> hook_event" where
  "create_event m ty =
     \<lparr>he_type = ty, he_tool_name = None, he_tool_input = None, he_tool_response = None, he_message = None,
      he_session_id = hm_session_id m, he_working_dir = hm_working_dir m, he_metadata = []\<rparr>"

definition run_pre_tool_use ::
  "hook_env \<Rightarrow> hook_runner \<Rightarrow> hook_manager \<Rightarrow> nat \<Rightarrow> string \<Rightarrow> json \<Rightarrow> (bool \<times> hook_result list) result" where
  "run_pre_tool_use env rn m n name input =
     (let hooks = get_hooks_for_event env (hm_config m) PRE_TOOL_USE (Some name)
      in if hooks = [] then Inr (True, [])
         else bind_result (execute_all env rn n hooks
                (create_event m PRE_TOOL_USE\<lparr>he_tool_name := Some name, he_tool_input := Some input\<rparr>) True)
              (\<lambda>rs. Inr (list_all should_continue rs, rs)))"

definition run_post_tool_use ::
  "hook_env \<Rightarrow> hook_runner \<Rightarrow> hook_manager \<Rightarrow> nat \<Rightarrow> string \<Rightarrow> json \<Rightarrow> json \<Rightarrow> hook_result list result" where
  "run_post_tool_use env rn m n name input response =
     (let hooks = get_hooks_for_event env (hm_config m) POST_TOOL_USE (Some name)
      in if hooks = [] then Inr []
         else execute_all env rn n hooks
                (create_event m POST_TOOL_USE
                   \<lparr>he_tool_name := Some name, he_tool_input := Some input, he_tool_response := Some response\<rparr>) False)"

text \<open>The context several hooks return, one per line; empty texts do not count.\<close>

definition join_contexts :: "hook_result list \<Rightarrow> string option" where
  "join_contexts rs =
     (let parts = filter (\<lambda>c. c \<noteq> []) (List.map_filter hr_additional_context rs)
      in if parts = [] then None
         else Some (concat (hd parts # map (\<lambda>p. CHR 0x0A # p) (tl parts))))"

definition run_user_prompt_submit ::
  "hook_env \<Rightarrow> hook_runner \<Rightarrow> hook_manager \<Rightarrow> nat \<Rightarrow> string \<Rightarrow> (bool \<times> string option \<times> hook_result list) result" where
  "run_user_prompt_submit env rn m n msg =
     (let hooks = get_hooks_for_event env (hm_config m) USER_PROMPT_SUBMIT None
      in if hooks = [] then Inr (True, None, [])
         else bind_result (execute_all env rn n hooks (create_event m USER_PROMPT_SUBMIT\<lparr>he_message := Some msg\<rparr>) True)
              (\<lambda>rs. Inr (list_all should_continue rs, join_contexts rs, rs)))"

definition run_session_start :: "hook_env \<Rightarrow> hook_runner \<Rightarrow> hook_manager \<Rightarrow> nat \<Rightarrow> hook_result list result" where
  "run_session_start env rn m n =
     (let hooks = get_hooks_for_event env (hm_config m) SESSION_START None
      in if hooks = [] then Inr [] else execute_all env rn n hooks (create_event m SESSION_START) False)"

definition run_session_end :: "hook_env \<Rightarrow> hook_runner \<Rightarrow> hook_manager \<Rightarrow> nat \<Rightarrow> hook_result list result" where
  "run_session_end env rn m n =
     (let hooks = get_hooks_for_event env (hm_config m) SESSION_END None
      in if hooks = [] then Inr [] else execute_all env rn n hooks (create_event m SESSION_END) False)"

definition manager_run_stop ::
  "hook_env \<Rightarrow> hook_runner \<Rightarrow> hook_manager \<Rightarrow> nat \<Rightarrow> string \<Rightarrow> (bool \<times> hook_result list) result" where
  "manager_run_stop env rn m n reason =
     (let hooks = get_hooks_for_event env (hm_config m) STOP_EVENT None
      in if hooks = [] then Inr (True, [])
         else bind_result (execute_all env rn n hooks
                (create_event m STOP_EVENT\<lparr>he_metadata := if reason = [] then [] else [(''reason'', reason)]\<rparr>) True)
              (\<lambda>rs. Inr (list_all should_continue rs, rs)))"

fun get_blocking_reason :: "hook_result list \<Rightarrow> string option" where
  "get_blocking_reason [] = None"
| "get_blocking_reason (r # rs) =
     (if hr_blocked r then
        Some (case hr_reason r of
                Some (c # cs) \<Rightarrow> c # cs
              | _ \<Rightarrow> if hr_stderr r \<noteq> [] then strip (hr_stderr r) else ''Blocked by hook'')
      else get_blocking_reason rs)"

section \<open>Lemmas\<close>

text \<open>A denial always comes with the mark that blocks, so the mark alone decides.\<close>

lemma default_hook_result_simps [simp]:
  "hr_blocked default_hook_result = False" "hr_decision default_hook_result = None"
  "hr_blocked (fall_open reason err) = False" "hr_decision (fall_open reason err) = Some ALLOW"
  "hr_blocked (failed_hook msg) = False" "hr_decision (failed_hook msg) = None"
  by (simp_all add: default_hook_result_def fall_open_def failed_hook_def)

definition deny_blocks :: "hook_result \<Rightarrow> bool" where
  "deny_blocks r \<longleftrightarrow> (hr_decision r = Some DENY \<longrightarrow> hr_blocked r)"

definition denies :: "arguments \<Rightarrow> bool" where
  "denies d \<longleftrightarrow> (\<exists>s. fmlookup d ''decision'' = Some (JStr s) \<and> lower s = ''deny'')"

definition says_stop :: "arguments \<Rightarrow> bool" where
  "says_stop d \<longleftrightarrow> (\<exists>v. fmlookup d ''continue'' = Some v \<and> \<not> json_truthy v)"

lemma apply_output_blocked:
  "hr_blocked (apply_output env d r) \<longleftrightarrow> hr_blocked r \<or> denies d \<or> says_stop d"
proof -
  have "hr_blocked (output_decision d r) \<longleftrightarrow> hr_blocked r \<or> denies d"
    by (auto simp: output_decision_def denies_def split: option.splits json.splits)
  then show ?thesis
    by (auto simp: apply_output_def output_continue_def output_texts_def says_stop_def split: option.splits)
qed

lemma apply_output_deny: "hr_decision r = None \<Longrightarrow> deny_blocks (apply_output env d r)"
  by (auto simp: deny_blocks_def apply_output_def output_continue_def output_texts_def output_decision_def
      split: option.splits json.splits if_splits)

lemma deny_blocks_simps [simp]: "deny_blocks (failed_hook msg)" "deny_blocks (fall_open reason err)" "deny_blocks default_hook_result"
  by (simp_all add: deny_blocks_def)

lemma completed_command_deny: "deny_blocks (completed_command env t code out err)"
proof -
  let ?r = "default_hook_result\<lparr>hr_success := code = 0, hr_blocked := code = 2, hr_exit_code := code,
            hr_stdout := out, hr_stderr := err\<rparr>"
  have r: "hr_decision ?r = None" by simp
  then have "deny_blocks ?r" by (simp add: deny_blocks_def)
  then show ?thesis
    using apply_output_deny [OF r]
    by (auto simp: completed_command_def Let_def split: sum.splits json.splits)
qed

lemma parse_decision_deny: "parse_decision env ty raw = Inr r \<Longrightarrow> deny_blocks r"
  by (auto simp: parse_decision_def bind_result_Inr_iff Let_def deny_blocks_def split: if_splits option.splits)

lemma execute_hook_deny: "execute_hook env rn n h ev = Inr r \<Longrightarrow> deny_blocks r"
  using completed_command_deny
  by (auto simp: execute_hook_def execute_model_hook_def execute_command_hook_def Let_def deny_blocks_def
      dest!: parse_decision_deny split: if_splits option.splits sum.splits process_outcome.splits)

lemma should_continue_iff: "deny_blocks r \<Longrightarrow> should_continue r \<longleftrightarrow> \<not> hr_blocked r"
  by (auto simp: should_continue_def deny_blocks_def)

lemma execute_all_spec:
  assumes "execute_all env rn n hs ev b = Inr rs"
  shows "length rs \<le> length hs" "\<forall>i < length rs. execute_hook env rn (n + i) (hs ! i) ev = Inr (rs ! i)"
    and "b \<Longrightarrow> \<forall>r \<in> set (butlast rs). \<not> hr_blocked r"
    and "length rs < length hs \<Longrightarrow> b \<and> rs \<noteq> [] \<and> hr_blocked (last rs)"
proof -
  have "length rs \<le> length hs \<and> (\<forall>i < length rs. execute_hook env rn (n + i) (hs ! i) ev = Inr (rs ! i)) \<and>
    (b \<longrightarrow> (\<forall>r \<in> set (butlast rs). \<not> hr_blocked r)) \<and>
    (length rs < length hs \<longrightarrow> b \<and> rs \<noteq> [] \<and> hr_blocked (last rs))"
    using assms
  proof (induction hs arbitrary: n rs)
    case (Cons h hs)
    obtain r where r: "execute_hook env rn n h ev = Inr r"
      "(if b \<and> hr_blocked r then Inr [r]
        else bind_result (execute_all env rn (Suc n) hs ev b) (\<lambda>rs. Inr (r # rs))) = Inr rs"
      using Cons.prems by (auto simp: bind_result_Inr_iff)
    show ?case
    proof (cases "b \<and> hr_blocked r")
      case True
      then show ?thesis using r by auto
    next
      case False
      then obtain rs' where rs': "execute_all env rn (Suc n) hs ev b = Inr rs'" "rs = r # rs'"
        using r(2) by (auto simp: bind_result_Inr_iff)
      note IH = Cons.IH [OF rs'(1)]
      have "execute_hook env rn (n + i) ((h # hs) ! i) ev = Inr (rs ! i)" if "i < length rs" for i
        using that r(1) IH rs'(2) by (cases i) auto
      then show ?thesis using False IH rs'(2) by auto
    qed
  qed simp
  then show "length rs \<le> length hs" "\<forall>i < length rs. execute_hook env rn (n + i) (hs ! i) ev = Inr (rs ! i)"
    and "b \<Longrightarrow> \<forall>r \<in> set (butlast rs). \<not> hr_blocked r"
    and "length rs < length hs \<Longrightarrow> b \<and> rs \<noteq> [] \<and> hr_blocked (last rs)"
    by blast+
qed

lemma execute_all_gate:
  assumes "execute_all env rn n hs ev True = Inr rs"
  shows "list_all should_continue rs \<longleftrightarrow> (\<forall>r \<in> set rs. \<not> hr_blocked r)"
    and "list_all should_continue rs \<Longrightarrow> length rs = length hs"
    and "\<not> list_all should_continue rs \<Longrightarrow> rs \<noteq> [] \<and> hr_blocked (last rs)"
proof -
  note spec = execute_all_spec [OF assms]
  have "deny_blocks r" if "r \<in> set rs" for r
    using that spec(2) execute_hook_deny by (metis in_set_conv_nth)
  then show iff: "list_all should_continue rs \<longleftrightarrow> (\<forall>r \<in> set rs. \<not> hr_blocked r)"
    using should_continue_iff by (auto simp: list_all_iff)
  show "list_all should_continue rs \<Longrightarrow> length rs = length hs"
    using iff spec(1,4) last_in_set le_neq_implies_less by blast
  assume "\<not> list_all should_continue rs"
  then obtain r where r: "r \<in> set rs" "hr_blocked r" using iff by blast
  then have "rs \<noteq> []" by auto
  then have "set rs = insert (last rs) (set (butlast rs))"
    by (metis append_butlast_last_id list.simps(15) rotate1.simps(2) set_rotate1)
  then show "rs \<noteq> [] \<and> hr_blocked (last rs)" using r spec(3) \<open>rs \<noteq> []\<close> by auto
qed

lemma blocking_reason_found: "r \<in> set rs \<Longrightarrow> hr_blocked r \<Longrightarrow> get_blocking_reason rs \<noteq> None"
  by (induction rs) auto

section \<open>Properties\<close>

text \<open>A command hook blocks exactly if it ends with exit code 2, or its output is a JSON object that
  denies or tells the agent not to continue. Every failure to run it, to finish in time or to read
  its output lets the operation pass; output that is no JSON does not weaken the exit code.\<close>

theorem command_hook_blocks_iff:
  assumes "hd_type h = HookCommand" "execute_hook env rn n h ev = Inr r"
  shows "\<not> should_continue r \<longleftrightarrow> hd_command h \<noteq> [] \<and> \<not> hd_async h \<and>
    (\<exists>code out err. run_process rn n h ev = Completed code out err \<and>
       (if strip out = [] then code = 2
        else (case hook_json_loads env out of
                Inr (JDict d) \<Rightarrow> code = 2 \<or> denies d \<or> says_stop d
              | Inr _ \<Rightarrow> code = 2
              | Inl e \<Rightarrow> code = 2 \<and> e = JSONDecodeError)))"
proof -
  have cont: "should_continue r \<longleftrightarrow> \<not> hr_blocked r" using should_continue_iff execute_hook_deny [OF assms(2)] by blast
  have r: "r = execute_command_hook env rn n h ev" using assms by (simp add: execute_hook_def)
  have completed: "hr_blocked (completed_command env (failure_text rn) code out err) \<longleftrightarrow>
       (if strip out = [] then code = 2
        else (case hook_json_loads env out of
                Inr (JDict d) \<Rightarrow> code = 2 \<or> denies d \<or> says_stop d
              | Inr _ \<Rightarrow> code = 2
              | Inl e \<Rightarrow> code = 2 \<and> e = JSONDecodeError))" for code out err
    by (auto simp: completed_command_def Let_def apply_output_blocked split: sum.splits json.splits)
  show ?thesis
  proof (cases "hd_command h \<noteq> [] \<and> \<not> hd_async h")
    case True
    then show ?thesis
      unfolding cont using completed by (cases "run_process rn n h ev") (simp_all add: r execute_command_hook_def)
  next
    case False
    then have "\<not> hr_blocked r" by (auto simp: r execute_command_hook_def split: option.splits)
    then show ?thesis using False cont by blast
  qed
qed

text \<open>C28: The hooks before a tool call run one after the other up to the first that blocks. The call
  goes on exactly if none of them does, and then all have run; a call that is held up has a reason,
  and no hook after the blocking one has run.\<close>

theorem pre_tool_hooks_gate:
  assumes "run_pre_tool_use env rn m n name input = Inr (ok, rs)"
  shows "let hooks = get_hooks_for_event env (hm_config m) PRE_TOOL_USE (Some name);
             ev = create_event m PRE_TOOL_USE\<lparr>he_tool_name := Some name, he_tool_input := Some input\<rparr>
         in length rs \<le> length hooks \<and>
            (\<forall>i < length rs. execute_hook env rn (n + i) (hooks ! i) ev = Inr (rs ! i)) \<and>
            (\<forall>r \<in> set (butlast rs). \<not> hr_blocked r) \<and>
            (if ok then length rs = length hooks \<and> (\<forall>r \<in> set rs. \<not> hr_blocked r)
             else rs \<noteq> [] \<and> hr_blocked (last rs) \<and> get_blocking_reason rs \<noteq> None)"
proof -
  let ?hooks = "get_hooks_for_event env (hm_config m) PRE_TOOL_USE (Some name)"
  let ?ev = "create_event m PRE_TOOL_USE\<lparr>he_tool_name := Some name, he_tool_input := Some input\<rparr>"
  have run: "execute_all env rn n ?hooks ?ev True = Inr rs" "ok \<longleftrightarrow> list_all should_continue rs"
    using assms by (auto simp: run_pre_tool_use_def Let_def bind_result_Inr_iff split: if_splits)
  have "\<forall>r \<in> set rs. \<not> hr_blocked r" if ok using execute_all_gate(1) [OF run(1)] run(2) that by simp
  moreover have "length rs = length ?hooks" if ok using execute_all_gate(2) [OF run(1)] run(2) that by simp
  moreover have last: "rs \<noteq> [] \<and> hr_blocked (last rs)" if "\<not> ok" using execute_all_gate(3) [OF run(1)] run(2) that by simp
  moreover have "get_blocking_reason rs \<noteq> None" if "\<not> ok" using blocking_reason_found [of "last rs" rs] last [OF that] by simp
  ultimately show ?thesis
    using execute_all_spec(1-3) [OF run(1)] unfolding Let_def by (cases ok) simp_all
qed

section \<open>Witnesses\<close>

text \<open>Two hooks before every tool call and on every message; the first lets pass, the second blocks.\<close>

definition sample_hook :: "string \<Rightarrow> hook_definition" where
  "sample_hook cmd = \<lparr>hd_type = HookCommand, hd_name = None, hd_command = cmd, hd_prompt = None,
     hd_system_prompt = None, hd_timeout = 60, hd_async = False\<rparr>"

definition sample_hook_config :: hook_config where
  "sample_hook_config =
     \<lparr>pre_tool_use = [\<lparr>matcher = ''*'', matcher_hooks = [sample_hook ''ok'', sample_hook ''no'', sample_hook ''ok'']\<rparr>],
      post_tool_use = [], user_prompt_submit = [\<lparr>matcher = [], matcher_hooks = [sample_hook ''ctx'']\<rparr>],
      session_start = [], session_end = [], stop_hooks = []\<rparr>"

definition sample_hook_env :: hook_env where
  "sample_hook_env =
     \<lparr>fullmatch = (\<lambda>_ _. None),
      hook_json_loads = (\<lambda>s. if s = ''ctx'' then Inr (JDict (fmap_of_list [(''additionalContext'', JStr ''policy'')]))
                          else Inl JSONDecodeError),
      raw_decode = (\<lambda>_. Inl JSONDecodeError), hook_str = (\<lambda>_. ''None'')\<rparr>"

text \<open>A hook named \<open>no\<close> or \<open>ctx\<close> ends with exit code 2; the latter prints its name.\<close>

definition sample_runner :: hook_runner where
  "sample_runner =
     \<lparr>run_process = (\<lambda>_ h _. if hd_command h = ''no'' then Completed 2 [] ''bad''
                            else if hd_command h = ''ctx'' then Completed 2 ''ctx'' ''bad'' else Completed 0 [] []),
      start_background = (\<lambda>_ _ _. None), consult = (\<lambda>_ _ _. None), failure_text = (\<lambda>_. [])\<rparr>"

definition sample_manager :: hook_manager where
  "sample_manager = \<lparr>hm_config = sample_hook_config, hm_session_id = None, hm_working_dir = None\<rparr>"

theorem command_hook_blocks_iff_witness:
  "\<exists>r. execute_hook sample_hook_env sample_runner 0 (sample_hook ''no'') (create_event sample_manager STOP_EVENT) = Inr r \<and>
     \<not> should_continue r"
proof -
  let ?r = "execute_command_hook sample_hook_env sample_runner 0 (sample_hook ''no'') (create_event sample_manager STOP_EVENT)"
  have ty: "hd_type (sample_hook ''no'') = HookCommand" by (simp add: sample_hook_def)
  have r: "execute_hook sample_hook_env sample_runner 0 (sample_hook ''no'') (create_event sample_manager STOP_EVENT) = Inr ?r"
    by (simp add: execute_hook_def sample_hook_def)
  have "run_process sample_runner 0 (sample_hook ''no'') (create_event sample_manager STOP_EVENT) = Completed 2 [] ''bad''"
    "hd_command (sample_hook ''no'') \<noteq> [] \<and> \<not> hd_async (sample_hook ''no'')" "strip [] = []"
    by (simp_all add: sample_runner_def sample_hook_def strip_def lstrip_def rstrip_def)
  then show ?thesis using command_hook_blocks_iff [OF ty r] r by auto
qed

theorem pre_tool_hooks_gate_witness:
  "\<exists>rs. run_pre_tool_use sample_hook_env sample_runner sample_manager 0 ''t'' (JDict fmempty) = Inr (False, rs) \<and>
     length rs = 2 \<and> hr_blocked (last rs)"
proof -
  have "map_sum id (\<lambda>(ok, rs). (ok, length rs)) (run_pre_tool_use sample_hook_env sample_runner sample_manager 0 ''t'' (JDict fmempty))
      = Inr (False, 2)"
    by code_simp
  then obtain rs where "run_pre_tool_use sample_hook_env sample_runner sample_manager 0 ''t'' (JDict fmempty) = Inr (False, rs)" "length rs = 2"
    by (auto simp: map_sum_def split: sum.splits)
  then show ?thesis using pre_tool_hooks_gate [of sample_hook_env sample_runner sample_manager 0 "''t''" "JDict fmempty" False rs]
    by (auto simp: Let_def)
qed

end
