(* ===== verification/Conversation_State.thy ===== *)
theory Conversation_State
  imports Event_Log View_Model Error_Classification
begin

text \<open>
  \<open>ConversationState\<close> (\<open>conversation/state.py\<close>) over the event log: the movable HEAD of the
  conversation tree, the chokepoint that stamps, appends and advances it, the cached view of the
  active branch, automatic saving of the base state, the blocked actions and messages, and the
  pending actions. \<open>navigate_to\<close>, the rejection of pending actions and the errors for orphaned
  ones come from \<open>LocalConversation\<close>.

  The event log is the model of \<open>Event_Log\<close>, over the files \<open>st\<close> of its directory. Reads of single
  events leave the cache of the log as it is: with an index in order a read returns the same event
  either way. The base state file holds the last snapshot of the public fields; fields no modelled
  operation touches are kept together as one map. A snapshot does not always hold all of them: without
  a cipher secrets are redacted, and lost when it is read back. What the map reads back as is a
  parameter of the state, its \<open>persisted_fields\<close>, which stands for the cipher. Whether writing a snapshot raises is a parameter,
  by the name of the field that triggers it. The view lock is reentrant and held throughout each
  operation that takes it, so each of them is one step.
\<close>

section \<open>State\<close>

datatype conversation_execution_status =
  IDLE | RUNNING | PAUSED | WAITING_FOR_CONFIRMATION | FINISHED | ERROR | STUCK | DELETING

definition is_terminal :: "conversation_execution_status \<Rightarrow> bool" where
  "is_terminal s \<longleftrightarrow> s \<in> {FINISHED, ERROR, STUCK}"

record base_state =
  execution_status :: conversation_execution_status
  blocked_actions :: "(string, string) fmap"
  blocked_messages :: "(string, string) fmap"
  last_user_message_id :: "string option"
  leaf_event_id :: "string option"
  head_is_empty :: bool
  other_fields :: "(string, json) fmap"

record conversation_state =
  base :: base_state
  event_log_of :: event_log
  cached_view :: view
  view_branch_leaf :: "string option"
  autosave_enabled :: bool
  save_depth :: int
  dirty :: bool
  saved :: "base_state option"
  state_updates :: "string list"
  persisted_fields :: "(string, json) fmap \<Rightarrow> (string, json) fmap"

type_synonym 'a state_op = "('a, conversation_state) outcome"

section \<open>Saving\<close>

text \<open>What reading the file gives after the state has been saved.\<close>

definition snapshot :: "conversation_state \<Rightarrow> base_state" where
  "snapshot s = (base s)\<lparr>other_fields := persisted_fields s (other_fields (base s))\<rparr>"

definition save_base_state :: "py_error option \<Rightarrow> conversation_state \<Rightarrow> unit state_op" where
  "save_base_state err s =
     (case err of Some e \<Rightarrow> (Inl e, s) | None \<Rightarrow> (Inr (), s\<lparr>saved := Some (snapshot s)\<rparr>))"

text \<open>
  \<open>__setattr__\<close> of a public field: \<open>upd\<close> assigns it. The callback's own exceptions are swallowed;
  \<open>state_updates\<close> lists the fields it was called for.
\<close>

definition notify_update :: "string \<Rightarrow> conversation_state \<Rightarrow> conversation_state" where
  "notify_update name s =
     (if name \<in> {''leaf_event_id'', ''head_is_empty''} then s
      else s\<lparr>state_updates := state_updates s @ [name]\<rparr>)"

definition setattr ::
  "(string \<Rightarrow> py_error option) \<Rightarrow> string \<Rightarrow> (base_state \<Rightarrow> base_state) \<Rightarrow> conversation_state \<Rightarrow> unit state_op" where
  "setattr werr name upd s =
     (let s' = s\<lparr>base := upd (base s)\<rparr>
      in if \<not> autosave_enabled s \<or> base s' = base s then (Inr (), s')
         else if save_depth s > 0 then (Inr (), notify_update name (s'\<lparr>dirty := True\<rparr>))
         else bind_op (save_base_state (werr name) s') (\<lambda>_ s''. (Inr (), notify_update name s'')))"

text \<open>\<open>__enter__\<close> and \<open>__exit__\<close>, without the lock, which is the subject of \<open>Fifo_Lock\<close>.\<close>

definition state_enter :: "conversation_state \<Rightarrow> conversation_state" where
  "state_enter s = s\<lparr>save_depth := save_depth s + 1\<rparr>"

definition state_exit :: "(string \<Rightarrow> py_error option) \<Rightarrow> conversation_state \<Rightarrow> unit state_op" where
  "state_exit werr s =
     (let s1 = s\<lparr>save_depth := save_depth s - 1\<rparr>
      in if save_depth s1 = 0 \<and> dirty s1 then
           bind_op (if autosave_enabled s1 then save_base_state (werr ''__exit__'') s1 else (Inr (), s1))
             (\<lambda>_ s2. (Inr (), s2\<lparr>dirty := False\<rparr>))
         else (Inr (), s1))"

text \<open>
  A \<open>with\<close> block around a body: the exit runs on every path, and an exception of the exit
  replaces that of the body.
\<close>

definition with_state ::
  "(string \<Rightarrow> py_error option) \<Rightarrow> (conversation_state \<Rightarrow> 'a state_op) \<Rightarrow> conversation_state \<Rightarrow> 'a state_op" where
  "with_state werr body s =
     (case body (state_enter s) of
        (r, s1) \<Rightarrow> bind_op (state_exit werr s1) (\<lambda>_ s2. (r, s2)))"

section \<open>Blocked actions and messages\<close>

definition block_action ::
  "(string \<Rightarrow> py_error option) \<Rightarrow> string \<Rightarrow> string \<Rightarrow> conversation_state \<Rightarrow> unit state_op" where
  "block_action werr aid reason =
     setattr werr ''blocked_actions'' (\<lambda>b. b\<lparr>blocked_actions := fmupd aid reason (blocked_actions b)\<rparr>)"

definition pop_blocked_action ::
  "(string \<Rightarrow> py_error option) \<Rightarrow> string \<Rightarrow> conversation_state \<Rightarrow> string option state_op" where
  "pop_blocked_action werr aid s =
     (case fmlookup (blocked_actions (base s)) aid of
        None \<Rightarrow> (Inr None, s)
      | Some reason \<Rightarrow>
          bind_op (setattr werr ''blocked_actions''
              (\<lambda>b. b\<lparr>blocked_actions := fmdrop aid (blocked_actions b)\<rparr>) s)
            (\<lambda>_ s'. (Inr (Some reason), s')))"

definition block_message ::
  "(string \<Rightarrow> py_error option) \<Rightarrow> string \<Rightarrow> string \<Rightarrow> conversation_state \<Rightarrow> unit state_op" where
  "block_message werr mid reason =
     setattr werr ''blocked_messages'' (\<lambda>b. b\<lparr>blocked_messages := fmupd mid reason (blocked_messages b)\<rparr>)"

definition pop_blocked_message ::
  "(string \<Rightarrow> py_error option) \<Rightarrow> string \<Rightarrow> conversation_state \<Rightarrow> string option state_op" where
  "pop_blocked_message werr mid s =
     (case fmlookup (blocked_messages (base s)) mid of
        None \<Rightarrow> (Inr None, s)
      | Some reason \<Rightarrow>
          bind_op (setattr werr ''blocked_messages''
              (\<lambda>b. b\<lparr>blocked_messages := fmdrop mid (blocked_messages b)\<rparr>) s)
            (\<lambda>_ s'. (Inr (Some reason), s')))"

section \<open>HEAD\<close>

fun is_state_update :: "event \<Rightarrow> bool" where
  "is_state_update (OtherEvent cls _) \<longleftrightarrow> cls = ''ConversationStateUpdateEvent''"
| "is_state_update _ = False"

fun is_artifact :: "event \<Rightarrow> bool" where
  "is_artifact (OtherEvent cls _) \<longleftrightarrow> cls = ''ConversationStateUpdateEvent'' \<or> cls = ''ConversationErrorEvent''"
| "is_artifact _ = False"

text \<open>The backward loop of \<open>_resolve_active_leaf\<close> over the first \<open>n\<close> events.\<close>

fun last_real_event :: "log_env \<Rightarrow> store \<Rightarrow> event_log \<Rightarrow> nat \<Rightarrow> string option result" where
  "last_real_event env st L 0 = Inr None"
| "last_real_event env st L (Suc i) =
     bind_result (fst (get_single_item env st L (int i))) (\<lambda>e.
       if \<not> is_artifact e then bind_result (get_id L (int i)) (\<lambda>eid. Inr (Some eid))
       else last_real_event env st L i)"

definition resolve_active_leaf :: "log_env \<Rightarrow> store \<Rightarrow> conversation_state \<Rightarrow> string option result" where
  "resolve_active_leaf env st s =
     (case leaf_event_id (base s) of
        Some l \<Rightarrow> Inr (Some l)
      | None \<Rightarrow>
          if head_is_empty (base s) then Inr None
          else if el_length (event_log_of s) = 0 then Inr None
          else last_real_event env st (event_log_of s) (el_length (event_log_of s)))"

definition set_leaf ::
  "(string \<Rightarrow> py_error option) \<Rightarrow> string option \<Rightarrow> conversation_state \<Rightarrow> unit state_op" where
  "set_leaf werr l = setattr werr ''leaf_event_id'' (\<lambda>b. b\<lparr>leaf_event_id := l\<rparr>)"

definition set_head_is_empty ::
  "(string \<Rightarrow> py_error option) \<Rightarrow> bool \<Rightarrow> conversation_state \<Rightarrow> unit state_op" where
  "set_head_is_empty werr h = setattr werr ''head_is_empty'' (\<lambda>b. b\<lparr>head_is_empty := h\<rparr>)"

definition repair_missing_leaf ::
  "log_env \<Rightarrow> store \<Rightarrow> (string \<Rightarrow> py_error option) \<Rightarrow> conversation_state \<Rightarrow> bool state_op" where
  "repair_missing_leaf env st werr s =
     (case leaf_event_id (base s) of
        None \<Rightarrow> (Inr False, s)
      | Some lost \<Rightarrow>
          if contains_id (event_log_of s) lost then (Inr False, s)
          else
            bind_op (set_leaf werr None s) (\<lambda>_ s1.
            bind_op (resolve_active_leaf env st s1, s1) (\<lambda>l s2.
            bind_op (set_leaf werr l s2) (\<lambda>_ s3. (Inr True, s3)))))"

definition active_branch ::
  "log_env \<Rightarrow> store \<Rightarrow> conversation_state \<Rightarrow> nat option \<Rightarrow> event list result" where
  "active_branch env st s limit =
     bind_result (resolve_active_leaf env st s) (\<lambda>leaf. path_to_root env st (event_log_of s) leaf limit)"

text \<open>\<open>model_copy(update={"parent_id": parent})\<close>.\<close>

fun with_parent :: "string option \<Rightarrow> event \<Rightarrow> event" where
  "with_parent p (SystemPromptEvent e) = SystemPromptEvent (e\<lparr>parent_id := p\<rparr>)"
| "with_parent p (MessageEvent e) = MessageEvent (e\<lparr>parent_id := p\<rparr>)"
| "with_parent p (ActionEvent e) = ActionEvent (e\<lparr>parent_id := p\<rparr>)"
| "with_parent p (ObservationEvent e) = ObservationEvent (e\<lparr>parent_id := p\<rparr>)"
| "with_parent p (UserRejectObservation e) = UserRejectObservation (e\<lparr>parent_id := p\<rparr>)"
| "with_parent p (AgentErrorEvent e) = AgentErrorEvent (e\<lparr>parent_id := p\<rparr>)"
| "with_parent p (CondensationSummaryEvent e) = CondensationSummaryEvent (e\<lparr>parent_id := p\<rparr>)"
| "with_parent p (Condensation e) = Condensation (e\<lparr>parent_id := p\<rparr>)"
| "with_parent p (CondensationRequest e) = CondensationRequest (e\<lparr>parent_id := p\<rparr>)"
| "with_parent p (OtherEvent cls e) = OtherEvent cls (e\<lparr>parent_id := p\<rparr>)"

definition stamp_parent_id :: "log_env \<Rightarrow> store \<Rightarrow> conversation_state \<Rightarrow> event \<Rightarrow> event result" where
  "stamp_parent_id env st s e =
     (if ev_parent_id e \<noteq> None then Inr e
      else
        bind_result (resolve_active_leaf env st s) (\<lambda>parent.
          Inr (with_parent
            (if parent = None \<and> 0 < el_length (event_log_of s) then Some ROOT_PARENT_ID else parent) e)))"

text \<open>\<open>append_event\<close>; the store of event files is threaded along.\<close>

definition advance_head ::
  "(string \<Rightarrow> py_error option) \<Rightarrow> event \<Rightarrow> conversation_state \<Rightarrow> unit state_op" where
  "advance_head werr e s =
     (if is_state_update e then (Inr (), s)
      else
        bind_op (set_leaf werr (Some (ev_id e)) s) (\<lambda>_ s1.
          if head_is_empty (base s1) then set_head_is_empty werr False s1 else (Inr (), s1)))"

definition state_append_event ::
  "log_env \<Rightarrow> (string \<Rightarrow> py_error option) \<Rightarrow> store \<Rightarrow> conversation_state \<Rightarrow> event \<Rightarrow>
   nat result \<times> conversation_state \<times> store" where
  "state_append_event env werr st s e0 =
     (case stamp_parent_id env st s e0 of
        Inl err \<Rightarrow> (Inl err, s, st)
      | Inr e \<Rightarrow>
          (case append_log env st (event_log_of s) e of
             (Inl err, L, st') \<Rightarrow> (Inl err, s\<lparr>event_log_of := L\<rparr>, st')
           | (Inr seq, L, st') \<Rightarrow>
               (case advance_head werr e (s\<lparr>event_log_of := L\<rparr>) of
                  (Inl err, s') \<Rightarrow> (Inl err, s', st')
                | (Inr _, s') \<Rightarrow> (Inr seq, s', st'))))"

section \<open>The cached view\<close>

text \<open>
  The walk of \<open>view\<close> from the leaf towards the cached leaf; \<open>tail\<close> is collected root first.
  Nothing bounds it but the tree: not returning is \<open>None\<close>.
\<close>

partial_function (option) tail_walk ::
  "log_env \<Rightarrow> store \<Rightarrow> event_log \<Rightarrow> string option \<Rightarrow> string option \<Rightarrow> event list \<Rightarrow>
   (event list \<times> string option) result option" where
  "tail_walk env st L stop cur tail =
     (if cur = None \<or> cur = stop then Some (Inr (tail, cur))
      else
        (case get_index L (the cur) of
           Inl err \<Rightarrow> Some (Inl err)
         | Inr idx \<Rightarrow>
             (case fst (get_single_item env st L (int idx)) of
                Inl err \<Rightarrow> Some (Inl err)
              | Inr evt \<Rightarrow>
                  (case effective_parent_id L idx evt of
                     Inl err \<Rightarrow> Some (Inl err)
                   | Inr parent \<Rightarrow> tail_walk env st L stop parent (evt # tail)))))"

text \<open>The replay of the tail mutates the view event by event, so an exception leaves a part of it.\<close>

fun replay :: "view \<Rightarrow> event list \<Rightarrow> (unit, view) outcome" where
  "replay v [] = (Inr (), v)"
| "replay v (e # es) =
     (case append_event v e of Inl err \<Rightarrow> (Inl err, v) | Inr v' \<Rightarrow> replay v' es)"

definition rebuild_from ::
  "log_env \<Rightarrow> store \<Rightarrow> string option \<Rightarrow> conversation_state \<Rightarrow> view state_op" where
  "rebuild_from env st leaf s =
     (case bind_result (path_to_root env st (event_log_of s) leaf None) from_events of
        Inl err \<Rightarrow> (Inl err, s)
      | Inr v \<Rightarrow> (Inr v, s\<lparr>cached_view := v, view_branch_leaf := leaf\<rparr>))"

definition state_view :: "log_env \<Rightarrow> store \<Rightarrow> conversation_state \<Rightarrow> view state_op option" where
  "state_view env st s =
     (case resolve_active_leaf env st s of
        Inl err \<Rightarrow> Some (Inl err, s)
      | Inr leaf \<Rightarrow>
          if leaf = view_branch_leaf s then Some (Inr (cached_view s), s)
          else
            (case tail_walk env st (event_log_of s) (view_branch_leaf s) leaf [] of
               None \<Rightarrow> None
             | Some (Inl err) \<Rightarrow> Some (rebuild_from env st leaf s)
             | Some (Inr (tail, cur)) \<Rightarrow>
                 if cur = view_branch_leaf s then
                   (case replay (cached_view s) tail of
                      (Inr _, v) \<Rightarrow> Some (Inr v, s\<lparr>cached_view := v, view_branch_leaf := leaf\<rparr>)
                    | (Inl err, v) \<Rightarrow> Some (rebuild_from env st leaf (s\<lparr>cached_view := v\<rparr>)))
                 else Some (rebuild_from env st leaf s)))"

definition enforced_view_snapshot ::
  "log_env \<Rightarrow> store \<Rightarrow> conversation_state \<Rightarrow> view state_op option" where
  "enforced_view_snapshot env st s =
     map_option (\<lambda>o1. bind_op o1 (\<lambda>v s'. (from_events (events v), s'))) (state_view env st s)"

definition rebuild_view :: "log_env \<Rightarrow> store \<Rightarrow> conversation_state \<Rightarrow> unit state_op" where
  "rebuild_view env st s =
     (case resolve_active_leaf env st s of
        Inl err \<Rightarrow> (Inl err, s)
      | Inr leaf \<Rightarrow> bind_op (rebuild_from env st leaf s) (\<lambda>_ s'. (Inr (), s')))"

text \<open>\<open>LocalConversation.navigate_to\<close>.\<close>

definition navigate_to ::
  "log_env \<Rightarrow> store \<Rightarrow> (string \<Rightarrow> py_error option) \<Rightarrow> string option \<Rightarrow> conversation_state \<Rightarrow> unit state_op" where
  "navigate_to env st werr target =
     with_state werr (\<lambda>s.
       if target \<noteq> None \<and> \<not> contains_id (event_log_of s) (the target) then (Inl ValueError, s)
       else
         bind_op (set_leaf werr target s) (\<lambda>_ s1.
         bind_op (set_head_is_empty werr (target = None) s1) (\<lambda>_ s2.
           rebuild_view env st s2)))"

text \<open>
  \<open>create\<close>: the base state file, when there is one, against the conversation's identifier, the log
  opened over its directory, HEAD repaired, the view rebuilt, then the caller's values assigned field
  by field. \<open>red\<close> is what the fields outside the model read back as with the caller's cipher, \<open>fresh\<close> is the state the constructor builds when an agent is given, \<open>verify\<close> what the
  agent's check of the persisted tools answers.
\<close>

type_synonym redaction = "(string, json) fmap \<Rightarrow> (string, json) fmap"

definition open_state :: "log_env \<Rightarrow> store \<Rightarrow> redaction \<Rightarrow> base_state \<Rightarrow> base_state option \<Rightarrow> conversation_state" where
  "open_state env st red b persisted =
     \<lparr>base = b, event_log_of = new_event_log env st, cached_view = empty_view, view_branch_leaf = None,
      autosave_enabled = False, save_depth = 0, dirty = False, saved = persisted, state_updates = [],
      persisted_fields = red\<rparr>"

fun assign_fields ::
  "(string \<Rightarrow> py_error option) \<Rightarrow> (string \<times> json) list \<Rightarrow> conversation_state \<Rightarrow> unit state_op" where
  "assign_fields werr [] s = (Inr (), s)"
| "assign_fields werr ((name, v) # fs) s =
     bind_op (setattr werr name (\<lambda>b. b\<lparr>other_fields := fmupd name v (other_fields b)\<rparr>) s)
       (\<lambda>_ s'. assign_fields werr fs s')"

definition resume_state ::
  "log_env \<Rightarrow> store \<Rightarrow> (string \<Rightarrow> py_error option) \<Rightarrow> redaction \<Rightarrow> (string \<times> json) list \<Rightarrow> unit result \<Rightarrow>
   base_state \<Rightarrow> unit state_op" where
  "resume_state env st werr red runtime verify b =
     bind_op (repair_missing_leaf env st werr (open_state env st red b (Some b))) (\<lambda>head_repaired s1.
     bind_op (rebuild_view env st s1) (\<lambda>_ s2.
     bind_op (if head_repaired then save_base_state (werr ''create'') (s2\<lparr>autosave_enabled := True\<rparr>)
              else (Inr (), s2\<lparr>autosave_enabled := True\<rparr>)) (\<lambda>_ s3.
     bind_op (verify, s3) (\<lambda>_ s4. assign_fields werr runtime s4))))"

definition create_state ::
  "log_env \<Rightarrow> store \<Rightarrow> (string \<Rightarrow> py_error option) \<Rightarrow> redaction \<Rightarrow> json \<Rightarrow> (string \<times> json) list \<Rightarrow> unit result \<Rightarrow>
   base_state option \<Rightarrow> base_state option \<Rightarrow> conversation_state result" where
  "create_state env st werr red cid runtime verify fresh persisted =
     (case persisted of
        Some b \<Rightarrow>
          if fmlookup (other_fields b) ''id'' \<noteq> Some cid then Inl ValueError
          else (case resume_state env st werr red runtime verify b of (r, s) \<Rightarrow> bind_result r (\<lambda>_. Inr s))
      | None \<Rightarrow>
          (case fresh of
             None \<Rightarrow> Inl ValueError
           | Some b \<Rightarrow>
               (case save_base_state (werr ''create'') (open_state env st red b None) of
                  (r, s) \<Rightarrow> bind_result r (\<lambda>_. Inr (s\<lparr>autosave_enabled := True\<rparr>)))))"

section \<open>Pending actions\<close>

text \<open>
  The backward loop of \<open>get_unmatched_actions\<close>, over the reversed events: the identifiers of
  answered actions and of failed calls, and the actions found so far in chronological order.
\<close>

fun unmatched_loop ::
  "event list \<Rightarrow> string set \<Rightarrow> string set \<Rightarrow> action_event list \<Rightarrow> action_event list" where
  "unmatched_loop [] observed failed acc = acc"
| "unmatched_loop (e # es) observed failed acc =
     (case e of
        ObservationEvent ob \<Rightarrow> unmatched_loop es (insert (action_id ob) observed) failed acc
      | UserRejectObservation ob \<Rightarrow> unmatched_loop es (insert (rejected_action_id ob) observed) failed acc
      | AgentErrorEvent er \<Rightarrow> unmatched_loop es observed (insert (obs_tool_call_id er) failed) acc
      | ActionEvent a \<Rightarrow>
          unmatched_loop es observed failed
            (if action a \<noteq> None \<and> event_id a \<notin> observed \<and> tool_call_id a \<notin> failed then a # acc else acc)
      | _ \<Rightarrow> unmatched_loop es observed failed acc)"

definition get_unmatched_actions :: "event list \<Rightarrow> action_event list" where
  "get_unmatched_actions evs = unmatched_loop (rev evs) {} {} []"

text \<open>
  \<open>_emit_orphaned_action_errors\<close> and \<open>reject_pending_actions\<close> of \<open>LocalConversation\<close>. Events go
  through the default callback, which appends them; identifiers and times of new events come from
  outside, one pair per event. The other callbacks of the chain only observe.
\<close>

definition orphan_error :: "string \<times> string \<Rightarrow> action_event \<Rightarrow> event" where
  "orphan_error new a = AgentErrorEvent
     \<lparr>event_id = fst new, timestamp = snd new, source = SourceAgent, parent_id = None,
      obs_tool_name = tool_name a, obs_tool_call_id = tool_call_id a,
      error = ''Tool call interrupted before completion. The conversation was paused.'',
      classification = Some AGENT_OUTCOME, validation_errors = None\<rparr>"

definition rejection :: "string \<Rightarrow> string \<times> string \<Rightarrow> action_event \<Rightarrow> event" where
  "rejection reason new a = UserRejectObservation
     \<lparr>event_id = fst new, timestamp = snd new, source = SourceEnvironment, parent_id = None,
      obs_tool_name = tool_name a, obs_tool_call_id = tool_call_id a,
      rejection_reason = reason, rejection_source = RejectedByUser, rejected_action_id = event_id a\<rparr>"

fun emit_events ::
  "log_env \<Rightarrow> (string \<Rightarrow> py_error option) \<Rightarrow> store \<Rightarrow> conversation_state \<Rightarrow> event list \<Rightarrow>
   unit result \<times> conversation_state \<times> store" where
  "emit_events env werr st s [] = (Inr (), s, st)"
| "emit_events env werr st s (e # es) =
     (case state_append_event env werr st s e of
        (Inl err, s', st') \<Rightarrow> (Inl err, s', st')
      | (Inr seq, s', st') \<Rightarrow> emit_events env werr st' s' es)"

definition emit_orphaned_action_errors ::
  "log_env \<Rightarrow> (string \<Rightarrow> py_error option) \<Rightarrow> (nat \<Rightarrow> string \<times> string) \<Rightarrow> store \<Rightarrow> conversation_state \<Rightarrow>
   unit result \<times> conversation_state \<times> store" where
  "emit_orphaned_action_errors env werr new st s =
     (case active_branch env st s None of
        Inl err \<Rightarrow> (Inl err, s, st)
      | Inr b \<Rightarrow>
          emit_events env werr st s
            (map (\<lambda>(k, a). orphan_error (new k) a) (enumerate 0 (get_unmatched_actions b))))"

definition reject_pending_actions ::
  "log_env \<Rightarrow> (string \<Rightarrow> py_error option) \<Rightarrow> (nat \<Rightarrow> string \<times> string) \<Rightarrow> string \<Rightarrow> store \<Rightarrow> conversation_state \<Rightarrow>
   unit result \<times> conversation_state \<times> store" where
  "reject_pending_actions env werr new reason st s =
     (case active_branch env st s None of
        Inl err \<Rightarrow> (Inl err, s, st)
      | Inr b \<Rightarrow>
          (let (r1, s1) =
             (if execution_status (base s) = WAITING_FOR_CONFIRMATION
              then setattr werr ''execution_status'' (\<lambda>b. b\<lparr>execution_status := IDLE\<rparr>) (state_enter s)
              else (Inr (), state_enter s));
             (r2, s2, st2) =
             (case r1 of
                Inl err \<Rightarrow> (Inl err, s1, st)
              | Inr _ \<Rightarrow>
                  emit_events env werr st s1
                    (map (\<lambda>(k, a). rejection reason (new k) a) (enumerate 0 (get_unmatched_actions b))));
             (r3, s3) = state_exit werr s2
           in (bind_result r3 (\<lambda>_. r2), s3, st2)))"

section \<open>The tree on disk\<close>

text \<open>
  The tree as the files describe it, whatever part of them a log has indexed: the event in the
  \<open>i\<close>-th file, its parent's position and the positions on its path from the root. The files form a
  tree when each holds the event it is named after and explicit parents come before their children.
\<close>

abbreviation nid :: "store \<Rightarrow> nat \<Rightarrow> string" where
  "nid st i \<equiv> snd (found_files st ! i)"

definition evt_of :: "log_env \<Rightarrow> store \<Rightarrow> nat \<Rightarrow> event" where
  "evt_of env st i = projr (read_item env st (file_at st i))"

definition parent_index :: "log_env \<Rightarrow> store \<Rightarrow> nat \<Rightarrow> nat option" where
  "parent_index env st i =
     (case ev_parent_id (evt_of env st i) of
        None \<Rightarrow> if i = 0 then None else Some (i - 1)
      | Some p \<Rightarrow> if p = ROOT_PARENT_ID then None else first_index ((=) p) (map snd (found_files st)))"

function idx_path :: "log_env \<Rightarrow> store \<Rightarrow> nat \<Rightarrow> nat list" where
  "idx_path env st i =
     (case parent_index env st i of
        Some j \<Rightarrow> if j < i then idx_path env st j @ [i] else [i]
      | None \<Rightarrow> [i])"
  by pat_completeness auto
termination
  by (relation "measure (\<lambda>(env, st, i). i)") auto

declare idx_path.simps [simp del]

definition tree_store :: "log_env \<Rightarrow> store \<Rightarrow> bool" where
  "tree_store env st \<longleftrightarrow>
     store_inv st \<and>
     (\<forall>i < length (found_files st).
        read_item env st (file_at st i) = Inr (evt_of env st i) \<and> ev_id (evt_of env st i) = nid st i \<and>
        (\<forall>p. ev_parent_id (evt_of env st i) = Some p \<and> p \<noteq> ROOT_PARENT_ID \<longrightarrow> (\<exists>j < i. nid st j = p)))"

lemma found_id_valid: "store_inv st \<Longrightarrow> i < length (found_files st) \<Longrightarrow> valid_event_id (nid st i)"
  using in_found_iff [of st "fst (found_files st ! i)" "nid st i"]
  by (metis nth_mem prod.collapse)

lemma root_not_valid: "\<not> valid_event_id ROOT_PARENT_ID"
  by code_simp

lemma nid_inj:
  "store_inv st \<Longrightarrow> i < length (found_files st) \<Longrightarrow> j < length (found_files st) \<Longrightarrow>
   nid st i = nid st j \<longleftrightarrow> i = j"
  by (metis length_map nth_eq_iff_index_eq nth_map store_inv_def)

lemma first_index_nid:
  assumes "store_inv st" "j < length (found_files st)"
  shows "first_index ((=) (nid st j)) (map snd (found_files st)) = Some j"
  using assms nid_inj [OF assms(1) assms(2)] by (auto simp: first_index_Some_iff)

lemma tree_store_parent:
  "tree_store env st \<Longrightarrow> i < length (found_files st) \<Longrightarrow> ev_parent_id (evt_of env st i) = Some p \<Longrightarrow>
   p \<noteq> ROOT_PARENT_ID \<Longrightarrow> \<exists>j < i. nid st j = p"
  by (simp add: tree_store_def)

lemma parent_index_less:
  assumes "tree_store env st" "i < length (found_files st)" "parent_index env st i = Some j"
  shows "j < i"
proof (cases "ev_parent_id (evt_of env st i)")
  case None
  then show ?thesis using assms(3) by (auto simp: parent_index_def split: if_splits)
next
  case (Some p)
  then have p: "p \<noteq> ROOT_PARENT_ID" "first_index ((=) p) (map snd (found_files st)) = Some j"
    using assms(3) by (auto simp: parent_index_def split: if_splits)
  then obtain k where k: "k < i" "nid st k = p" using tree_store_parent [OF assms(1,2) Some] by blast
  then have "j = k"
    using p(2) first_index_nid [of st k] assms by (auto simp: tree_store_def)
  then show ?thesis using k by simp
qed

lemma tree_store_ok:
  assumes tree: "tree_store env st" and inv: "log_inv env st L"
  shows "tree_ok env st L (evt_of env st)"
proof -
  have len: "el_length L \<le> length (found_files st)" using inv by (simp add: log_inv_def)
  have st: "store_inv st" using tree by (simp add: tree_store_def)
  have "j < i" if i: "i < el_length L" and p: "ev_parent_id (evt_of env st i) = Some p"
    and j: "fmlookup (id_to_idx L) p = Some j" for i p j
  proof -
    note j' = lookup_index [OF inv j]
    have "valid_event_id p" using found_id_valid [OF st, of j] j' len by simp
    then have "p \<noteq> ROOT_PARENT_ID" using root_not_valid by auto
    then obtain k where "k < i" "nid st k = p" using tree_store_parent [OF tree _ p] i len by auto
    then have "j = k" using nid_inj [OF st, of j k] j' i len by simp
    with \<open>k < i\<close> show ?thesis by simp
  qed
  then have "\<forall>i < el_length L. \<forall>p j. ev_parent_id (evt_of env st i) = Some p \<and> fmlookup (id_to_idx L) p = Some j \<longrightarrow> j < i"
    by blast
  moreover have "\<forall>i < el_length L. read_item env st (file_at st i) = Inr (evt_of env st i) \<and> ev_id (evt_of env st i) = nid st i"
    using tree len by (simp add: tree_store_def)
  ultimately show ?thesis using inv st unfolding tree_ok_def by blast
qed

lemma effective_parent_store:
  assumes tree: "tree_store env st" and inv: "log_inv env st L" and i: "i < el_length L"
  shows "effective_parent_id L i (evt_of env st i) = Inr (map_option (nid st) (parent_index env st i))"
proof -
  have st: "store_inv st" and len: "i < length (found_files st)" "el_length L \<le> length (found_files st)"
    using tree inv i by (auto simp: tree_store_def log_inv_def)
  show ?thesis
  proof (cases "ev_parent_id (evt_of env st i)")
    case None
    have "get_id L (int i - 1) = Inr (nid st (i - 1))" if "i \<noteq> 0"
      using that inv i len
      by (auto simp: get_id_def norm_index_def log_inv_def indexes_def map_of_enumerate nat_diff_distrib')
    then show ?thesis using None by (auto simp: effective_parent_id_def parent_index_def)
  next
    case (Some p)
    show ?thesis
    proof (cases "p = ROOT_PARENT_ID")
      case False
      then obtain k where k: "k < i" "nid st k = p" using tree_store_parent [OF tree len(1) Some] by blast
      then have "fmlookup (id_to_idx L) p = Some k" using lookup_found [OF inv st, of k] i by simp
      then show ?thesis
        using Some False k first_index_nid [OF st, of k] len
        by (auto simp: effective_parent_id_def parent_index_def contains_id_def fmlookup_dom_iff)
    qed (use Some in \<open>simp add: effective_parent_id_def parent_index_def\<close>)
  qed
qed

lemma idx_path_simps:
  assumes "tree_store env st" "i < length (found_files st)"
  shows "parent_index env st i = None \<Longrightarrow> idx_path env st i = [i]"
    and "parent_index env st i = Some j \<Longrightarrow> idx_path env st i = idx_path env st j @ [i]"
  using parent_index_less [OF assms] by (simp_all add: idx_path.simps [of env st i])

lemma idx_path_le: "k \<in> set (idx_path env st i) \<Longrightarrow> k \<le> i"
proof (induction env st i rule: idx_path.induct)
  case (1 env st i)
  then show ?case by (auto simp: idx_path.simps [of env st i] split: option.splits if_splits)
qed

lemma branch_idx_path:
  assumes tree: "tree_store env st" and inv: "log_inv env st L"
  shows "i < el_length L \<Longrightarrow> branch L (evt_of env st) i (map (evt_of env st) (idx_path env st i))"
proof (induction i rule: less_induct)
  case (less i)
  have len: "i < length (found_files st)" using less.prems inv by (simp add: log_inv_def)
  note eff = effective_parent_store [OF tree inv less.prems]
  show ?case
  proof (cases "parent_index env st i")
    case None
    then show ?thesis using eff idx_path_simps(1) [OF tree len] by (simp add: branch_root)
  next
    case (Some j)
    have j: "j < i" by (rule parent_index_less [OF tree len Some])
    have "fmlookup (id_to_idx L) (nid st j) = Some j"
      using lookup_found [OF inv] tree j less.prems by (simp add: tree_store_def)
    then show ?thesis
      using less.IH [OF j] less.prems j eff Some idx_path_simps(2) [OF tree len Some]
      by (auto intro: branch_child)
  qed
qed

text \<open>The events on the path to an identifier.\<close>

definition path_of :: "log_env \<Rightarrow> store \<Rightarrow> string option \<Rightarrow> event list" where
  "path_of env st leaf =
     (case leaf of
        None \<Rightarrow> []
      | Some l \<Rightarrow>
          (case first_index ((=) l) (map snd (found_files st)) of
             None \<Rightarrow> []
           | Some i \<Rightarrow> map (evt_of env st) (idx_path env st i)))"

lemma path_of_nid:
  "tree_store env st \<Longrightarrow> i < length (found_files st) \<Longrightarrow>
   path_of env st (Some (nid st i)) = map (evt_of env st) (idx_path env st i)"
  by (simp add: path_of_def first_index_nid tree_store_def)

text \<open>A leaf the log knows, or none.\<close>

definition known_leaf :: "event_log \<Rightarrow> string option \<Rightarrow> bool" where
  "known_leaf L leaf \<longleftrightarrow> (\<forall>l. leaf = Some l \<longrightarrow> contains_id L l)"

lemma known_leafE:
  assumes "log_inv env st L" "known_leaf L leaf"
  obtains "leaf = None" | i where "leaf = Some (nid st i)" "i < el_length L"
  using assms lookup_index [OF assms(1)]
  by (cases leaf) (auto simp: known_leaf_def contains_id_def fmlookup_dom_iff, metis)

lemma path_to_root_path_of:
  assumes tree: "tree_store env st" and inv: "log_inv env st L" and "known_leaf L leaf"
  shows "path_to_root env st L leaf None = Inr (path_of env st leaf)"
  using inv assms(3)
proof (cases rule: known_leafE)
  case 1
  then show ?thesis by (simp add: path_to_root_def path_of_def path_loop.simps)
next
  case (2 i)
  have len: "i < length (found_files st)" using 2 inv by (simp add: log_inv_def)
  show ?thesis
    using path_loop_branch [OF tree_store_ok [OF tree inv] branch_idx_path [OF tree inv 2(2)] 2(2), of "{||}" None "[]"]
      path_of_nid [OF tree len]
    by (simp add: 2(1) path_to_root_def)
qed

section \<open>The invariant of the state\<close>

lemma read_event:
  assumes "tree_store env st" "log_inv env st L" "i < el_length L"
  shows "fst (get_single_item env st L (int i)) = Inr (evt_of env st i)"
proof -
  have "i < length (found_files st)" using assms by (simp add: log_inv_def)
  then show ?thesis using log_inv_read [OF assms(2,3)] assms(1) by (simp add: tree_store_def)
qed

lemma get_id_nid: "log_inv env st L \<Longrightarrow> i < el_length L \<Longrightarrow> get_id L (int i) = Inr (nid st i)"
  by (simp add: get_id_def norm_index_def log_inv_def indexes_def map_of_enumerate)

lemma contains_nid: "log_inv env st L \<Longrightarrow> store_inv st \<Longrightarrow> i < el_length L \<Longrightarrow> contains_id L (nid st i)"
  using lookup_found by (simp add: contains_id_def fmlookup_dom_iff)

fun last_real_index :: "(nat \<Rightarrow> event) \<Rightarrow> nat \<Rightarrow> nat option" where
  "last_real_index evt 0 = None"
| "last_real_index evt (Suc i) = (if \<not> is_artifact (evt i) then Some i else last_real_index evt i)"

lemma last_real_index_less: "last_real_index evt n = Some i \<Longrightarrow> i < n"
  by (induction n) (auto split: if_splits)

lemma last_real_index_cong: "(\<And>i. i < n \<Longrightarrow> evt i = evt' i) \<Longrightarrow> last_real_index evt n = last_real_index evt' n"
  by (induction n) auto

lemma last_real_event_index:
  assumes "tree_store env st" "log_inv env st L"
  shows "n \<le> el_length L \<Longrightarrow>
    last_real_event env st L n = Inr (map_option (nid st) (last_real_index (evt_of env st) n))"
proof (induction n)
  case (Suc n)
  then have "fst (get_single_item env st L (int n)) = Inr (evt_of env st n)" "get_id L (int n) = Inr (nid st n)"
    using read_event [OF assms] get_id_nid [OF assms(2)] by simp_all
  with Suc show ?case by simp
qed simp

text \<open>
  A view of a branch: enforcement built it for a prefix of the branch, and the rest was appended.
\<close>

definition replayed :: "event list \<Rightarrow> view \<Rightarrow> bool" where
  "replayed b v \<longleftrightarrow> (\<exists>b0 b1 v0. b = b0 @ b1 \<and> from_events b0 = Inr v0 \<and> append_events v0 b1 = Inr v)"

definition conv_inv :: "log_env \<Rightarrow> store \<Rightarrow> conversation_state \<Rightarrow> bool" where
  "conv_inv env st s \<longleftrightarrow>
     tree_store env st \<and> log_inv env st (event_log_of s) \<and>
     known_leaf (event_log_of s) (leaf_event_id (base s)) \<and>
     known_leaf (event_log_of s) (view_branch_leaf s) \<and>
     replayed (path_of env st (view_branch_leaf s)) (cached_view s)"

lemma append_events_append:
  "append_events v (es @ es') = bind_result (append_events v es) (\<lambda>v'. append_events v' es')"
proof (induction es arbitrary: v)
  case (Cons x es)
  then show ?case by (cases "append_event v x") simp_all
qed simp

lemma replayed_append: "replayed b v \<Longrightarrow> append_events v c = Inr v' \<Longrightarrow> replayed (b @ c) v'"
  unfolding replayed_def by (metis append.assoc append_events_append bind_result_simps(2))

lemma replayed_from_events: "from_events b = Inr v \<Longrightarrow> replayed b v"
  unfolding replayed_def by (metis append_Nil2 append_events.simps(1))

lemma replay_append_events: "replay v es = (Inr (), v') \<longleftrightarrow> append_events v es = Inr v'"
  by (induction v es rule: replay.induct) (auto split: sum.splits simp: bind_result_def)

text \<open>The active leaf, read off the files.\<close>

definition head_of :: "log_env \<Rightarrow> store \<Rightarrow> conversation_state \<Rightarrow> string option" where
  "head_of env st s =
     (case leaf_event_id (base s) of
        Some l \<Rightarrow> Some l
      | None \<Rightarrow>
          if head_is_empty (base s) then None
          else map_option (nid st) (last_real_index (evt_of env st) (el_length (event_log_of s))))"

lemma resolve_head:
  assumes "conv_inv env st s"
  shows "resolve_active_leaf env st s = Inr (head_of env st s)" "known_leaf (event_log_of s) (head_of env st s)"
proof -
  let ?L = "event_log_of s"
  have inv: "tree_store env st" "log_inv env st ?L" "known_leaf ?L (leaf_event_id (base s))" "store_inv st"
    using assms by (auto simp: conv_inv_def tree_store_def)
  show "resolve_active_leaf env st s = Inr (head_of env st s)"
    using last_real_event_index [OF inv(1,2) order_refl]
    by (auto simp: resolve_active_leaf_def head_of_def split: option.splits)
  have "known_leaf ?L (map_option (nid st) (last_real_index (evt_of env st) (el_length ?L)))"
    using last_real_index_less contains_nid [OF inv(2,4)] by (fastforce simp: known_leaf_def)
  then show "known_leaf ?L (head_of env st s)"
    using inv(3) by (auto simp: head_of_def known_leaf_def split: option.splits)
qed

lemma active_branch_path:
  assumes "conv_inv env st s"
  shows "active_branch env st s None = Inr (path_of env st (head_of env st s))"
  using path_to_root_path_of [OF _ _ resolve_head(2) [OF assms]] resolve_head(1) [OF assms] assms
  by (simp add: active_branch_def conv_inv_def)

section \<open>The walk to the cached leaf\<close>

lemma tail_walk_step:
  assumes "tree_store env st" "log_inv env st L" "i < el_length L" "stop \<noteq> Some (nid st i)"
  shows "tail_walk env st L stop (Some (nid st i)) acc =
    tail_walk env st L stop (map_option (nid st) (parent_index env st i)) (evt_of env st i # acc)"
proof -
  have "get_index L (nid st i) = Inr i"
    using lookup_found [OF assms(2) _ assms(3)] assms(1) by (simp add: get_index_def tree_store_def)
  then show ?thesis
    using read_event [OF assms(1-3)] effective_parent_store [OF assms(1-3)] assms(4)
    by (subst tail_walk.simps) simp
qed

lemma tail_walk_reaches:
  assumes tree: "tree_store env st" and inv: "log_inv env st L"
  shows "k \<in> set (idx_path env st i) \<Longrightarrow> i < el_length L \<Longrightarrow>
    \<exists>rest. idx_path env st i = idx_path env st k @ rest \<and>
      tail_walk env st L (Some (nid st k)) (Some (nid st i)) acc =
        Some (Inr (map (evt_of env st) rest @ acc, Some (nid st k)))"
proof (induction i arbitrary: acc rule: less_induct)
  case (less i)
  have st: "store_inv st" and len: "i < length (found_files st)"
    using tree inv less.prems by (auto simp: tree_store_def log_inv_def)
  show ?case
  proof (cases "k = i")
    case True
    then show ?thesis by (simp add: tail_walk.simps)
  next
    case False
    then obtain j where j: "parent_index env st i = Some j" "k \<in> set (idx_path env st j)"
      using less.prems idx_path_simps [OF tree len] by (cases "parent_index env st i") auto
    have ji: "j < i" by (rule parent_index_less [OF tree len j(1)])
    have "k < i" using idx_path_le [OF j(2)] ji by simp
    then have "nid st k \<noteq> nid st i" using nid_inj [OF st] len by simp
    then have step: "tail_walk env st L (Some (nid st k)) (Some (nid st i)) acc =
        tail_walk env st L (Some (nid st k)) (Some (nid st j)) (evt_of env st i # acc)"
      using tail_walk_step [OF tree inv less.prems(2)] j(1) by simp
    from less.IH [OF ji j(2), of "evt_of env st i # acc"] less.prems(2) ji
    obtain rest where "idx_path env st j = idx_path env st k @ rest"
      "tail_walk env st L (Some (nid st k)) (Some (nid st j)) (evt_of env st i # acc) =
        Some (Inr (map (evt_of env st) rest @ evt_of env st i # acc, Some (nid st k)))" by auto
    then show ?thesis
      using step idx_path_simps(2) [OF tree len j(1)] by (intro exI [of _ "rest @ [i]"]) simp
  qed
qed

lemma tail_walk_misses:
  assumes tree: "tree_store env st" and inv: "log_inv env st L"
  shows "\<forall>k \<in> set (idx_path env st i). stop \<noteq> Some (nid st k) \<Longrightarrow> i < el_length L \<Longrightarrow>
    tail_walk env st L stop (Some (nid st i)) acc = Some (Inr (map (evt_of env st) (idx_path env st i) @ acc, None))"
proof (induction i arbitrary: acc rule: less_induct)
  case (less i)
  have len: "i < length (found_files st)" using inv less.prems by (simp add: log_inv_def)
  have i: "i \<in> set (idx_path env st i)" by (simp add: idx_path.simps [of env st i] split: option.splits)
  note step = tail_walk_step [OF tree inv less.prems(2) less.prems(1) [rule_format, OF i]]
  show ?case
  proof (cases "parent_index env st i")
    case None
    then show ?thesis using step idx_path_simps(1) [OF tree len] by (simp add: tail_walk.simps)
  next
    case (Some j)
    have "j < i" by (rule parent_index_less [OF tree len Some])
    then show ?thesis
      using less.IH [of j "evt_of env st i # acc"] less.prems step Some idx_path_simps(2) [OF tree len Some] by simp
  qed
qed

lemma from_events_total: "\<exists>v. from_events b = Inr v"
  using append_events_total [of empty_view b] by (auto simp: from_events_def)

lemma rebuild_from_spec:
  assumes "conv_inv env st s" "known_leaf (event_log_of s) leaf"
  shows "\<exists>v. rebuild_from env st leaf s = (Inr v, s\<lparr>cached_view := v, view_branch_leaf := leaf\<rparr>) \<and>
    from_events (path_of env st leaf) = Inr v"
proof -
  obtain v where "from_events (path_of env st leaf) = Inr v" using from_events_total by blast
  then show ?thesis
    using path_to_root_path_of [OF _ _ assms(2)] assms(1) by (simp add: rebuild_from_def conv_inv_def)
qed

lemma conv_inv_cache:
  "conv_inv env st s \<Longrightarrow> known_leaf (event_log_of s) leaf \<Longrightarrow> replayed (path_of env st leaf) v \<Longrightarrow>
   conv_inv env st (s\<lparr>cached_view := v, view_branch_leaf := leaf\<rparr>)"
  by (simp add: conv_inv_def)

text \<open>Extending the cache by a walk that met the cached leaf gives a view of the whole branch.\<close>

lemma tail_walk_replayed:
  assumes inv: "conv_inv env st s" and leaf: "known_leaf (event_log_of s) leaf"
  shows "\<exists>tail cur. tail_walk env st (event_log_of s) (view_branch_leaf s) leaf [] = Some (Inr (tail, cur)) \<and>
    (cur = view_branch_leaf s \<longrightarrow> path_of env st leaf = path_of env st (view_branch_leaf s) @ tail)"
proof -
  let ?L = "event_log_of s"
  have tree: "tree_store env st" and log: "log_inv env st ?L" and len: "el_length ?L \<le> length (found_files st)"
    using inv by (auto simp: conv_inv_def log_inv_def)
  have cached: "known_leaf ?L (view_branch_leaf s)" using inv by (simp add: conv_inv_def)
  show ?thesis
    using log leaf
  proof (cases rule: known_leafE)
    case 1
    then show ?thesis by (auto simp: tail_walk.simps path_of_def)
  next
    case (2 i)
    show ?thesis
      using log cached
    proof (cases rule: known_leafE)
      case 1
      then show ?thesis
        using tail_walk_misses [OF tree log _ 2(2), of None "[]"] path_of_nid [OF tree, of i] 2 len
        by (auto simp: path_of_def)
    next
      case k: (2 k)
      show ?thesis
      proof (cases "k \<in> set (idx_path env st i)")
        case True
        from tail_walk_reaches [OF tree log this 2(2), of "[]"] show ?thesis
          using path_of_nid [OF tree, of i] path_of_nid [OF tree, of k] 2 k len by auto
      next
        case False
        have "nid st k \<noteq> nid st j" if j: "j \<in> set (idx_path env st i)" for j
        proof -
          have "j < length (found_files st)" using idx_path_le [OF j] 2(2) len by simp
          then show ?thesis using nid_inj [of st k j] tree k(2) len j False by (auto simp: tree_store_def)
        qed
        then show ?thesis using tail_walk_misses [OF tree log _ 2(2), of _ "[]"] 2 k by simp
      qed
    qed
  qed
qed

lemma state_view_spec:
  assumes inv: "conv_inv env st s"
  shows "\<exists>v. state_view env st s = Some (Inr v, s\<lparr>cached_view := v, view_branch_leaf := head_of env st s\<rparr>) \<and>
    replayed (path_of env st (head_of env st s)) v"
proof (cases "head_of env st s = view_branch_leaf s")
  case True
  then show ?thesis
    using inv resolve_head(1) [OF inv] by (auto simp: state_view_def conv_inv_def)
next
  case False
  note head = resolve_head [OF inv]
  note rebuild = rebuild_from_spec [OF inv head(2)]
  obtain tail cur where walk: "tail_walk env st (event_log_of s) (view_branch_leaf s) (head_of env st s) [] = Some (Inr (tail, cur))"
    "cur = view_branch_leaf s \<longrightarrow> path_of env st (head_of env st s) = path_of env st (view_branch_leaf s) @ tail"
    using tail_walk_replayed [OF inv head(2)] by blast
  show ?thesis
  proof (cases "cur = view_branch_leaf s")
    case True
    obtain v where v: "append_events (cached_view s) tail = Inr v" using append_events_total by blast
    have "replayed (path_of env st (view_branch_leaf s)) (cached_view s)" using inv by (simp add: conv_inv_def)
    from replayed_append [OF this v] show ?thesis
      using walk v False head(1) True replay_append_events [of "cached_view s" tail v]
      by (simp add: state_view_def)
  next
    case diverged: False
    then show ?thesis
      using rebuild walk(1) False head(1) replayed_from_events by (auto simp: state_view_def)
  qed
qed

section \<open>Appending to the tree\<close>

definition storable :: "log_env \<Rightarrow> event \<Rightarrow> bool" where
  "storable env e \<longleftrightarrow>
     valid_event_id (ev_id e) \<and> dump_event env e \<noteq> [] \<and> load_event env (dump_event env e) = Some e"

lemma append_log_parent:
  assumes "append_log env st L e = (Inr idx, L', st')" "ev_parent_id e = Some p" "p \<noteq> ROOT_PARENT_ID"
  shows "contains_id (synced env st L) p"
  using assms by (auto simp: append_log_def Let_def split: if_splits option.splits)

text \<open>What a successful append does to the tree: it adds one leaf and changes no path.\<close>

lemma tree_append:
  assumes tree: "tree_store env st" and app: "appended env st e idx L' st'" and st': "store_inv st'"
    and e: "storable env e"
    and parent: "\<And>p. ev_parent_id e = Some p \<Longrightarrow> p \<noteq> ROOT_PARENT_ID \<Longrightarrow> \<exists>j < idx. nid st j = p"
  shows "tree_store env st'" and "evt_of env st' idx = e" and "nid st' idx = ev_id e"
    and "\<And>i. i < idx \<Longrightarrow> nid st' i = nid st i \<and> evt_of env st' i = evt_of env st i"
    and "length (found_files st') = Suc idx" and "idx = length (found_files st)"
proof -
  let ?F = "found_files st"
  show idx: "idx = length ?F" using app by (simp add: appended_def)
  obtain d where F': "found_files st' = ?F @ [(d, ev_id e)]" using app by (auto simp: appended_def)
  show len: "length (found_files st') = Suc idx" by (simp add: F' idx)
  show new_id: "nid st' idx = ev_id e" by (simp add: F' idx)
  have read: "read_item env st' (file_at st' i) = read_item env st (file_at st i)" if "i < idx" for i
    using app that by (simp add: appended_def read_item_def)
  show old: "nid st' i = nid st i \<and> evt_of env st' i = evt_of env st i" if "i < idx" for i
    using that read [OF that] by (simp add: F' idx evt_of_def nth_append)
  have "map_of st' (file_at st' idx) = Some (dump_event env e)"
    using app unfolding appended_def by blast
  then have new: "read_item env st' (file_at st' idx) = Inr e"
    using e by (simp add: read_item_def storable_def)
  then show new_evt: "evt_of env st' idx = e" by (simp add: evt_of_def)
  have "read_item env st' (file_at st' i) = Inr (evt_of env st' i) \<and> ev_id (evt_of env st' i) = nid st' i \<and>
      (\<forall>p. ev_parent_id (evt_of env st' i) = Some p \<and> p \<noteq> ROOT_PARENT_ID \<longrightarrow> (\<exists>j < i. nid st' j = p))"
    if i: "i < Suc idx" for i
  proof (cases "i = idx")
    case True
    then show ?thesis using new new_evt new_id parent old by metis
  next
    case False
    then have "i < idx" using i by simp
    moreover have "read_item env st (file_at st i) = Inr (evt_of env st i) \<and> ev_id (evt_of env st i) = nid st i"
      using tree \<open>i < idx\<close> idx by (simp add: tree_store_def)
    moreover have "\<exists>j < i. nid st' j = p" if "ev_parent_id (evt_of env st i) = Some p" "p \<noteq> ROOT_PARENT_ID" for p
      using tree_store_parent [OF tree _ that] old \<open>i < idx\<close> idx by (metis less_trans)
    ultimately show ?thesis using old [of i] read [of i] by simp
  qed
  then show "tree_store env st'" using st' len by (simp add: tree_store_def)
qed

definition grown :: "log_env \<Rightarrow> store \<Rightarrow> store \<Rightarrow> event \<Rightarrow> bool" where
  "grown env st st' e \<longleftrightarrow>
     tree_store env st \<and> tree_store env st' \<and> length (found_files st') = Suc (length (found_files st)) \<and>
     (\<forall>i < length (found_files st). nid st' i = nid st i \<and> evt_of env st' i = evt_of env st i) \<and>
     evt_of env st' (length (found_files st)) = e \<and> nid st' (length (found_files st)) = ev_id e"

lemma grown_parent_index:
  assumes "grown env st st' e" "i < length (found_files st)"
  shows "parent_index env st' i = parent_index env st i"
proof -
  have g: "tree_store env st" "tree_store env st'" "length (found_files st') = Suc (length (found_files st))"
    "\<And>i. i < length (found_files st) \<Longrightarrow> nid st' i = nid st i \<and> evt_of env st' i = evt_of env st i"
    using assms(1) by (auto simp: grown_def)
  have "first_index ((=) p) (map snd (found_files st')) = first_index ((=) p) (map snd (found_files st))"
    if p: "ev_parent_id (evt_of env st i) = Some p" "p \<noteq> ROOT_PARENT_ID" for p
  proof -
    obtain j where j: "j < i" "nid st j = p" using tree_store_parent [OF g(1) assms(2) p] by blast
    then show ?thesis
      using first_index_nid [of st j] first_index_nid [of st' j] g assms(2) by (auto simp: tree_store_def)
  qed
  then show ?thesis using g(4) [OF assms(2)] by (simp add: parent_index_def split: option.splits)
qed

lemma grown_idx_path:
  assumes g: "grown env st st' e"
  shows "i < length (found_files st) \<Longrightarrow> idx_path env st' i = idx_path env st i"
proof (induction i rule: less_induct)
  case (less i)
  then show ?case
    using grown_parent_index [OF g less.prems]
    by (auto simp: idx_path.simps [of env st' i] idx_path.simps [of env st i] split: option.splits)
qed

lemma grown_path_of:
  assumes g: "grown env st st' e" and "leaf = None \<or> (\<exists>i < length (found_files st). leaf = Some (nid st i))"
  shows "path_of env st' leaf = path_of env st leaf"
  using assms(2)
proof (elim disjE exE conjE)
  fix i assume i: "i < length (found_files st)" "leaf = Some (nid st i)"
  have "evt_of env st' k = evt_of env st k" if "k \<in> set (idx_path env st i)" for k
    using idx_path_le [OF that] i(1) g by (simp add: grown_def)
  then have "map (evt_of env st') (idx_path env st i) = map (evt_of env st) (idx_path env st i)" by simp
  moreover have "path_of env st' (Some (nid st i)) = map (evt_of env st') (idx_path env st' i)"
    using path_of_nid [of env st' i] g i(1) by (simp add: grown_def)
  ultimately show ?thesis
    using i g path_of_nid [of env st i] grown_idx_path [OF g i(1)] by (simp add: grown_def)
qed (simp add: path_of_def)

text \<open>The path to the new leaf is the path to its parent, with the leaf.\<close>

lemma grown_new_path:
  assumes g: "grown env st st' e"
  shows "path_of env st' (Some (ev_id e)) =
    path_of env st (case ev_parent_id e of
        None \<Rightarrow> if found_files st = [] then None else Some (nid st (length (found_files st) - 1))
      | Some p \<Rightarrow> if p = ROOT_PARENT_ID then None else Some p) @ [e]"
proof -
  let ?n = "length (found_files st)"
  have tree': "tree_store env st'" and n: "?n < length (found_files st')" and e: "evt_of env st' ?n = e" "nid st' ?n = ev_id e"
    and st': "store_inv st'" using g by (auto simp: grown_def tree_store_def)
  have new: "path_of env st' (Some (ev_id e)) = map (evt_of env st') (idx_path env st' ?n)"
    using path_of_nid [OF tree' n] e by simp
  have child: "path_of env st' (Some (ev_id e)) = path_of env st (Some (nid st j)) @ [e]"
    if "parent_index env st' ?n = Some j" for j
  proof -
    have j: "j < ?n" by (rule parent_index_less [OF tree' n that])
    then have "path_of env st' (Some (nid st' j)) = path_of env st (Some (nid st j))"
      using grown_path_of [OF g, of "Some (nid st j)"] g by (auto simp: grown_def)
    then show ?thesis
      using new idx_path_simps(2) [OF tree' n that] path_of_nid [OF tree', of j] j n e by simp
  qed
  have root: "path_of env st' (Some (ev_id e)) = [e]" if "parent_index env st' ?n = None"
    using new idx_path_simps(1) [OF tree' n that] e by simp
  show ?thesis
  proof (cases "ev_parent_id e")
    case None
    then show ?thesis using child [of "?n - 1"] root e by (auto simp: parent_index_def path_of_def)
  next
    case (Some p)
    show ?thesis
    proof (cases "p = ROOT_PARENT_ID")
      case False
      then obtain j where j: "j < ?n" "nid st' j = p" using tree_store_parent [OF tree' n] e Some by auto
      moreover have "nid st' j = nid st j" using g j(1) by (simp add: grown_def)
      ultimately have "parent_index env st' ?n = Some j"
        using Some False e first_index_nid [OF st', of j] n by (auto simp: parent_index_def)
      then show ?thesis using child [of j] Some False j \<open>nid st' j = nid st j\<close> by simp
    qed (use Some e root in \<open>simp add: parent_index_def path_of_def\<close>)
  qed
qed

lemma append_log_grown:
  assumes tree: "tree_store env st" and inv: "log_inv env st L"
    and env': "env' = env\<lparr>lock_timeout := t, marker_error := m, guard_error := g, delete_error := False\<rparr>" "list_error env = None"
    and e: "storable env e" and r: "append_log env' st L e = (Inr idx, L', st')"
  shows "grown env st st' e" "log_inv env st' L'" "complete_log st' L'" "\<And>L2. log_inv env st L2 \<Longrightarrow> log_inv env st' L2"
proof -
  have st: "store_inv st" using tree by (simp add: tree_store_def)
  note spec = append_log_spec [OF st inv env' _ _ _ r]
  have sync: "log_inv env st (synced env' st L)" "el_length (synced env' st L) = length (found_files st)"
    using synced_spec [OF st inv, of env'] env' by (simp_all add: complete_log_def)
  have app: "appended env st e idx L' st'" and st': "store_inv st'" using spec e by (simp_all add: storable_def)
  have "\<exists>j < idx. nid st j = p" if p: "ev_parent_id e = Some p" "p \<noteq> ROOT_PARENT_ID" for p
  proof -
    have "contains_id (synced env' st L) p" by (rule append_log_parent [OF r p])
    then obtain j where "fmlookup (id_to_idx (synced env' st L)) p = Some j"
      by (auto simp: contains_id_def fmlookup_dom_iff)
    from lookup_index [OF sync(1) this] show ?thesis
      using sync(2) app by (auto simp: appended_def)
  qed
  note t = tree_append [OF tree app st' e this]
  show "grown env st st' e" using t tree by (simp add: grown_def)
  show "log_inv env st' L'" "\<And>L2. log_inv env st L2 \<Longrightarrow> log_inv env st' L2" using spec e by (simp_all add: storable_def)
  show "complete_log st' L'" using app by (simp add: appended_def)
qed

section \<open>Operations keep the invariant\<close>

lemma with_parent_simps [simp]:
  "ev_id (with_parent p e) = ev_id e" "ev_parent_id (with_parent p e) = p"
  "is_state_update (with_parent p e) = is_state_update e" "is_artifact (with_parent p e) = is_artifact e"
  by (cases e; simp)+

lemma state_update_artifact: "is_state_update e \<Longrightarrow> is_artifact e"
  by (cases e) auto

text \<open>The part of the state that only the tree operations change.\<close>

definition same_tree :: "conversation_state \<Rightarrow> conversation_state \<Rightarrow> bool" where
  "same_tree s s' \<longleftrightarrow>
     event_log_of s' = event_log_of s \<and> cached_view s' = cached_view s \<and> view_branch_leaf s' = view_branch_leaf s"

lemma same_treeD [dest]:
  "same_tree s s' \<Longrightarrow> event_log_of s' = event_log_of s"
  "same_tree s s' \<Longrightarrow> cached_view s' = cached_view s"
  "same_tree s s' \<Longrightarrow> view_branch_leaf s' = view_branch_leaf s"
  by (simp_all add: same_tree_def)

lemma same_tree_trans: "same_tree s s' \<Longrightarrow> same_tree s' s'' \<Longrightarrow> same_tree s s''"
  by (simp add: same_tree_def)

lemma conv_inv_same_tree:
  "conv_inv env st s \<Longrightarrow> same_tree s s' \<Longrightarrow> known_leaf (event_log_of s) (leaf_event_id (base s')) \<Longrightarrow>
   conv_inv env st s'"
  by (simp add: conv_inv_def same_tree_def)

lemma setattr_state:
  "setattr werr name upd s = (r, s') \<Longrightarrow> same_tree s s' \<and> base s' = upd (base s) \<and>
     save_depth s' = save_depth s \<and> autosave_enabled s' = autosave_enabled s"
  by (auto simp: setattr_def save_base_state_def notify_update_def same_tree_def Let_def
      split: if_splits option.splits)

lemma state_exit_state:
  "state_exit werr s = (r, s') \<Longrightarrow> same_tree s s' \<and> base s' = base s \<and> save_depth s' = save_depth s - 1 \<and>
     autosave_enabled s' = autosave_enabled s"
  by (auto simp: state_exit_def save_base_state_def same_tree_def Let_def split: if_splits option.splits)

lemma advance_head_state:
  assumes "advance_head werr e s = (r, s')"
  shows "same_tree s s'" "leaf_event_id (base s') = (if is_state_update e then leaf_event_id (base s) else Some (ev_id e))"
    and "is_state_update e \<Longrightarrow> s' = s"
proof -
  show "is_state_update e \<Longrightarrow> s' = s" using assms by (simp add: advance_head_def)
  have "same_tree s s' \<and> leaf_event_id (base s') = Some (ev_id e)" if "\<not> is_state_update e"
  proof -
    obtain r1 s1 where 1: "set_leaf werr (Some (ev_id e)) s = (r1, s1)" by fastforce
    note s1 = setattr_state [OF 1 [unfolded set_leaf_def]]
    show ?thesis
      using assms that 1 s1 setattr_state [of werr "''head_is_empty''" _ s1 r s'] same_tree_trans [of s s1 s']
      by (cases r1) (auto simp: advance_head_def set_head_is_empty_def bind_op_def split: if_splits)
  qed
  moreover have "same_tree s s" by (simp add: same_tree_def)
  ultimately show "same_tree s s'" "leaf_event_id (base s') = (if is_state_update e then leaf_event_id (base s) else Some (ev_id e))"
    using \<open>is_state_update e \<Longrightarrow> s' = s\<close> by (cases "is_state_update e"; simp)+
qed

lemma known_leaf_found:
  assumes "log_inv env st L"
  shows "known_leaf L leaf \<Longrightarrow> leaf = None \<or> (\<exists>i < length (found_files st). leaf = Some (nid st i))"
proof (erule known_leafE [OF assms])
  fix i assume "leaf = Some (nid st i)" "i < el_length L"
  moreover from this have "i < length (found_files st)" using assms by (simp add: log_inv_def)
  ultimately show "leaf = None \<or> (\<exists>i < length (found_files st). leaf = Some (nid st i))" by blast
qed simp

lemma known_leaf_complete:
  assumes "log_inv env st L" "complete_log st L" "store_inv st" "i < length (found_files st)"
  shows "known_leaf L (Some (nid st i))"
  using contains_nid [OF assms(1,3)] assms by (simp add: known_leaf_def complete_log_def)

lemma known_leaf_extends:
  assumes log: "log_inv env st L" and g: "grown env st st' e" and L': "log_inv env st' L'" "el_length L \<le> el_length L'"
    and leaf: "known_leaf L leaf"
  shows "known_leaf L' leaf"
  using log leaf
proof (cases rule: known_leafE)
  case (2 i)
  moreover have "nid st' i = nid st i" using 2 g log by (simp add: grown_def log_inv_def)
  moreover have "store_inv st'" using g by (simp add: grown_def tree_store_def)
  ultimately show ?thesis using contains_nid [OF L'(1), of i] L'(2) by (simp add: known_leaf_def)
qed (simp add: known_leaf_def)

text \<open>Another process's append leaves the state consistent with the longer directory.\<close>

lemma conv_inv_grown:
  assumes inv: "conv_inv env st s" and g: "grown env st st' e" and log: "log_inv env st' (event_log_of s)"
  shows "conv_inv env st' s"
  using inv g log grown_path_of [OF g known_leaf_found] by (auto simp: conv_inv_def grown_def)

text \<open>The state's own append: the log grows and HEAD moves to the event.\<close>

lemma conv_inv_append:
  assumes inv: "conv_inv env st s" and g: "grown env st st' e"
    and L': "log_inv env st' L'" "complete_log st' L'"
    and s': "same_tree (s\<lparr>event_log_of := L'\<rparr>) s'"
      "leaf_event_id (base s') \<in> {leaf_event_id (base s), Some (ev_id e)}"
  shows "conv_inv env st' s'"
proof -
  let ?L = "event_log_of s"
  have log: "log_inv env st ?L" using inv by (simp add: conv_inv_def)
  have le: "el_length ?L \<le> el_length L'"
    using log L'(2) g by (simp add: log_inv_def complete_log_def grown_def)
  note ext = known_leaf_extends [OF log g L'(1) le]
  have "known_leaf L' (Some (ev_id e))"
    using known_leaf_complete [OF L', of "length (found_files st)"] g by (auto simp: grown_def tree_store_def)
  moreover have "path_of env st' (view_branch_leaf s) = path_of env st (view_branch_leaf s)"
    using grown_path_of [OF g known_leaf_found [OF log]] inv by (simp add: conv_inv_def)
  ultimately show ?thesis
    using s' inv ext L'(1) g by (auto simp: conv_inv_def same_tree_def grown_def)
qed

lemma fault_reads:
  assumes "env' = env\<lparr>lock_timeout := t, marker_error := m, guard_error := g, delete_error := False\<rparr>"
  shows "get_single_item env' = get_single_item env" "stamp_parent_id env' = stamp_parent_id env"
proof -
  have "read_item env' = read_item env" "rescan env' = rescan env"
    by (intro ext; simp add: read_item_def rescan_def scan_and_build_index_def assms split: option.split)+
  then have "load_item env' = load_item env" "rescan env' = rescan env"
    by (simp_all add: load_item_def fun_eq_iff)
  then show items: "get_single_item env' = get_single_item env"
    by (intro ext) (simp only: get_single_item_def)
  have "last_real_event env' st L n = last_real_event env st L n" for st L n
    by (induction n) (simp_all only: last_real_event.simps items)
  then have "resolve_active_leaf env' = resolve_active_leaf env"
    by (intro ext) (simp only: resolve_active_leaf_def)
  then show "stamp_parent_id env' = stamp_parent_id env"
    by (intro ext) (simp only: stamp_parent_id_def)
qed

lemma known_leaf_synced:
  assumes "log_inv env st L" "store_inv st" "list_error env' = None" "known_leaf L leaf"
  shows "known_leaf (synced env' st L) leaf"
  using known_leaf_found [OF assms(1,4)] synced_spec [OF assms(2,1,3)] known_leaf_complete [OF _ _ assms(2)]
  by (auto simp: known_leaf_def)

text \<open>
  The outcomes of an append: a refusal that changes neither files nor fields, or one more event in
  the tree, with HEAD on it unless it is a state update. A failed save comes after the event is in.
\<close>

lemma state_append_outcome:
  assumes inv: "conv_inv env st s" and env': "env' = env\<lparr>lock_timeout := t, marker_error := m, guard_error := g, delete_error := False\<rparr>"
    and le: "list_error env = None" and e': "stamp_parent_id env st s e = Inr e'" "storable env e'"
    and r: "state_append_event env' werr st s e = (r, s', st')"
  shows "((\<exists>err. r = Inl err) \<and> st' = st \<and> base s' = base s \<and> conv_inv env st s') \<or>
    (grown env st st' e' \<and> complete_log st' (event_log_of s') \<and> conv_inv env st' s' \<and>
     leaf_event_id (base s') = (if is_state_update e' then leaf_event_id (base s) else Some (ev_id e')) \<and>
     (is_state_update e' \<longrightarrow> base s' = base s))"
proof -
  let ?L = "event_log_of s"
  have tree: "tree_store env st" and log: "log_inv env st ?L" and st: "store_inv st"
    using inv by (auto simp: conv_inv_def tree_store_def)
  obtain r1 L1 st1 where app: "append_log env' st ?L e' = (r1, L1, st1)" using prod_cases3 by blast
  have stamp: "stamp_parent_id env' st s e = Inr e'" using e'(1) fault_reads(2) [OF env'] by simp
  show ?thesis
  proof (cases r1)
    case (Inl err)
    have L1: "L1 = ?L \<or> L1 = synced env' st ?L" and "st1 = st"
      using app Inl by (auto simp: append_log_def Let_def split: if_splits option.splits)
    moreover have "log_inv env st L1"
      using L1 log synced_spec [OF st log, of env'] le env' by auto
    moreover have "known_leaf L1 leaf" if "known_leaf ?L leaf" for leaf
      using L1 that known_leaf_synced [OF log st _ that] le env' by auto
    moreover have "r = Inl err" "s' = s\<lparr>event_log_of := L1\<rparr>" "st' = st1"
      using r stamp app Inl by (simp_all add: state_append_event_def)
    ultimately show ?thesis using inv by (simp add: conv_inv_def)
  next
    case (Inr seq)
    note new = append_log_grown [OF tree log env' le e'(2) app [unfolded Inr]]
    obtain r2 where adv: "advance_head werr e' (s\<lparr>event_log_of := L1\<rparr>) = (r2, s')" and "st' = st1"
      using r stamp app Inr by (auto simp: state_append_event_def split: prod.splits sum.splits)
    note head = advance_head_state [OF adv]
    have "event_log_of s' = L1" using head(1) by (simp add: same_tree_def)
    moreover have "conv_inv env st1 s'"
      using conv_inv_append [OF inv new(1-3) head(1)] head(2) by (simp split: if_splits)
    ultimately show ?thesis using new head \<open>st' = st1\<close> by simp
  qed
qed

lemma last_real_index_grown:
  assumes "grown env st st' e"
  shows "last_real_index (evt_of env st') (length (found_files st)) = last_real_index (evt_of env st) (length (found_files st))"
  using assms by (intro last_real_index_cong) (simp add: grown_def)

text \<open>A state update on the tail is skipped when HEAD is looked up, so the branch stays.\<close>

lemma head_of_state_update:
  assumes inv: "conv_inv env st s" and g: "grown env st st' e" "is_state_update e"
    and s': "base s' = base s" "complete_log st' (event_log_of s')"
    and "complete_log st (event_log_of s) \<or> leaf_event_id (base s) \<noteq> None"
  shows "head_of env st' s' = head_of env st s"
proof (cases "leaf_event_id (base s) = None \<and> \<not> head_is_empty (base s)")
  case True
  let ?n = "length (found_files st)"
  have "el_length (event_log_of s') = Suc ?n" "el_length (event_log_of s) = ?n"
    using True assms by (auto simp: complete_log_def grown_def)
  moreover have "is_artifact (evt_of env st' ?n)" using g state_update_artifact by (simp add: grown_def)
  ultimately have "head_of env st' s' = map_option (nid st') (last_real_index (evt_of env st) ?n)"
    using True s'(1) last_real_index_grown [OF g(1)] by (simp add: head_of_def)
  also have "\<dots> = map_option (nid st) (last_real_index (evt_of env st) ?n)"
    using g(1) last_real_index_less [of _ ?n] by (auto simp: grown_def intro!: option.map_cong0)
  finally show ?thesis using True \<open>el_length (event_log_of s) = ?n\<close> by (simp add: head_of_def)
qed (use s'(1) in \<open>auto simp: head_of_def split: option.splits\<close>)

lemma append_branch:
  assumes inv: "conv_inv env st s" and g: "grown env st st' e'"
    and e': "stamp_parent_id env st s e = Inr e'" "ev_parent_id e = None"
    and full: "complete_log st (event_log_of s) \<or> leaf_event_id (base s) \<noteq> None"
  shows "path_of env st' (Some (ev_id e')) = path_of env st (head_of env st s) @ [e']"
proof -
  let ?h = "head_of env st s" and ?L = "event_log_of s"
  have log: "log_inv env st ?L" and st: "store_inv st" using inv by (auto simp: conv_inv_def tree_store_def)
  have parent: "ev_parent_id e' = (if ?h = None \<and> 0 < el_length ?L then Some ROOT_PARENT_ID else ?h)"
    using e' resolve_head(1) [OF inv] by (auto simp: stamp_parent_id_def)
  show ?thesis
  proof (cases ?h)
    case None
    then have "found_files st = []" if "el_length ?L = 0"
      using that full by (auto simp: head_of_def complete_log_def split: option.splits)
    then show ?thesis using None parent grown_new_path [OF g] by (auto simp: path_of_def)
  next
    case (Some h)
    then obtain i where "h = nid st i" "i < length (found_files st)"
      using known_leaf_found [OF log resolve_head(2) [OF inv]] by auto
    then have "h \<noteq> ROOT_PARENT_ID" using found_id_valid [OF st] root_not_valid by metis
    then show ?thesis using Some parent grown_new_path [OF g] by simp
  qed
qed

section \<open>Reachable states\<close>

text \<open>
  The steps of a conversation: its own operations, with any faults of files and saving, assignments
  of fields other than HEAD, and appends of other processes to the same directory.
\<close>

inductive conv_step :: "log_env \<Rightarrow> store \<times> conversation_state \<Rightarrow> store \<times> conversation_state \<Rightarrow> bool"
  for env :: log_env where
  conv_append:
    "env' = env\<lparr>lock_timeout := t, marker_error := m, guard_error := g, delete_error := False\<rparr> \<Longrightarrow>
     stamp_parent_id env st s e = Inr e' \<Longrightarrow> storable env e' \<Longrightarrow>
     state_append_event env' werr st s e = (r, s', st') \<Longrightarrow> conv_step env (st, s) (st', s')"
| conv_view: "state_view env st s = Some (r, s') \<Longrightarrow> conv_step env (st, s) (st, s')"
| conv_rebuild: "rebuild_view env st s = (r, s') \<Longrightarrow> conv_step env (st, s) (st, s')"
| conv_navigate: "navigate_to env st werr target s = (r, s') \<Longrightarrow> conv_step env (st, s) (st, s')"
| conv_assign: "setattr werr name upd s = (r, s') \<Longrightarrow> leaf_event_id (upd (base s)) = leaf_event_id (base s) \<Longrightarrow>
    conv_step env (st, s) (st, s')"
| conv_enter: "conv_step env (st, s) (st, state_enter s)"
| conv_exit: "state_exit werr s = (r, s') \<Longrightarrow> conv_step env (st, s) (st, s')"
| conv_other:
    "env' = env\<lparr>lock_timeout := t, marker_error := m, guard_error := g, delete_error := False\<rparr> \<Longrightarrow> log_inv env st L \<Longrightarrow> storable env e \<Longrightarrow>
     append_log env' st L e = (r, L', st') \<Longrightarrow> conv_step env (st, s) (st', s)"

lemma rebuild_view_spec:
  assumes inv: "conv_inv env st s"
  shows "\<exists>v. rebuild_view env st s = (Inr (), s\<lparr>cached_view := v, view_branch_leaf := head_of env st s\<rparr>) \<and>
    from_events (path_of env st (head_of env st s)) = Inr v"
  using rebuild_from_spec [OF inv resolve_head(2) [OF inv]] resolve_head(1) [OF inv]
  by (auto simp: rebuild_view_def)

lemma conv_inv_view: "conv_inv env st s \<Longrightarrow> state_view env st s = Some (r, s') \<Longrightarrow> conv_inv env st s'"
  using state_view_spec [of env st s] resolve_head(2) [of env st s] conv_inv_cache by fastforce

lemma conv_inv_rebuild: "conv_inv env st s \<Longrightarrow> rebuild_view env st s = (r, s') \<Longrightarrow> conv_inv env st s'"
  using rebuild_view_spec [of env st s] resolve_head(2) [of env st s] conv_inv_cache replayed_from_events by fastforce

lemma conv_inv_base:
  "conv_inv env st s \<Longrightarrow> same_tree s s' \<Longrightarrow> leaf_event_id (base s') = leaf_event_id (base s) \<Longrightarrow> conv_inv env st s'"
  by (rule conv_inv_same_tree) (auto simp: conv_inv_def)

text \<open>The body of \<open>navigate_to\<close>: it fails on an unknown event, in a save, or not at all.\<close>

lemma conv_inv_navigate_body:
  assumes inv: "conv_inv env st s"
    and r: "(if target \<noteq> None \<and> \<not> contains_id (event_log_of s) (the target) then (Inl ValueError, s)
       else bind_op (set_leaf werr target s) (\<lambda>_ s1.
              bind_op (set_head_is_empty werr (target = None) s1) (\<lambda>_ s2. rebuild_view env st s2))) = (r, s')"
  shows "conv_inv env st s'"
proof (cases "target \<noteq> None \<and> \<not> contains_id (event_log_of s) (the target)")
  case False
  obtain r1 s1 where 1: "set_leaf werr target s = (r1, s1)" by fastforce
  obtain r2 s2 where 2: "set_head_is_empty werr (target = None) s1 = (r2, s2)" by fastforce
  note s1 = setattr_state [OF 1 [unfolded set_leaf_def]] and s2 = setattr_state [OF 2 [unfolded set_head_is_empty_def]]
  have "known_leaf (event_log_of s) target" using False by (auto simp: known_leaf_def)
  then have "conv_inv env st s1" using conv_inv_same_tree [OF inv, of s1] s1 by simp
  moreover from this have "conv_inv env st s2" using conv_inv_base [of env st s1 s2] s2 by simp
  ultimately show ?thesis
    using r False 1 2 conv_inv_rebuild by (cases r1; cases r2) auto
qed (use r inv in auto)

lemma conv_inv_with_state:
  assumes "conv_inv env st s" "with_state werr body s = (r, s')"
    and body: "\<And>r s1 s2. conv_inv env st s1 \<Longrightarrow> body s1 = (r, s2) \<Longrightarrow> conv_inv env st s2"
  shows "conv_inv env st s'"
proof -
  obtain r1 s1 where 1: "body (state_enter s) = (r1, s1)" by fastforce
  obtain r2 s2 where 2: "state_exit werr s1 = (r2, s2)" by fastforce
  have "conv_inv env st (state_enter s)"
    using assms(1) by (rule conv_inv_base) (simp_all add: state_enter_def same_tree_def)
  from body [OF this 1] have "conv_inv env st s2"
    using conv_inv_base [of env st s1 s2] state_exit_state [OF 2] by simp
  then show ?thesis using assms(2) 1 2 by (cases r2) (auto simp: with_state_def)
qed

lemma conv_step_inv:
  assumes "conv_step env c c'" "list_error env = None" "conv_inv env (fst c) (snd c)"
  shows "conv_inv env (fst c') (snd c')"
  using assms(1)
proof (cases rule: conv_step.cases)
  case (conv_append env' t m g st s e e' werr r s' st')
  then show ?thesis
    using state_append_outcome [OF _ conv_append(3) assms(2) conv_append(4-6)] assms(3) by auto
next
  case (conv_navigate st werr target s r s')
  then show ?thesis
    using conv_inv_with_state [OF _ conv_navigate(3) [unfolded navigate_to_def]] conv_inv_navigate_body assms(3)
    by (metis fst_conv snd_conv)
next
  case (conv_assign werr name upd s r s' st)
  then show ?thesis using setattr_state [OF conv_assign(3)] conv_inv_base assms(3) by fastforce
next
  case (conv_enter st s)
  then show ?thesis
    using conv_inv_base [of env st s] assms(3) by (simp add: state_enter_def same_tree_def)
next
  case (conv_exit werr s r s' st)
  then show ?thesis using state_exit_state [OF conv_exit(3)] conv_inv_base assms(3) by fastforce
next
  case (conv_other env' t m g st L e r L' st' s)
  then have inv: "conv_inv env st s" "tree_store env st" "store_inv st" using assms(3) by (auto simp: conv_inv_def tree_store_def)
  show ?thesis
  proof (cases r)
    case (Inl err)
    then show ?thesis
      using append_log_spec [OF inv(3) conv_other(4,3) assms(2) _ _ _ conv_other(6)] conv_other inv
      by (simp add: storable_def)
  next
    case (Inr idx)
    note new = append_log_grown [OF inv(2) conv_other(4,3) assms(2) conv_other(5) conv_other(6) [unfolded Inr]]
    show ?thesis
      using conv_inv_grown [OF inv(1) new(1)] new(4) inv(1) conv_other by (simp add: conv_inv_def)
  qed
next
  case (conv_view st s r s')
  then show ?thesis using conv_inv_view [of env st s r s'] assms(3) by simp
next
  case (conv_rebuild st s r s')
  then show ?thesis using conv_inv_rebuild [of env st s r s'] assms(3) by simp
qed

lemma conv_steps_inv:
  "(conv_step env)\<^sup>*\<^sup>* c c' \<Longrightarrow> list_error env = None \<Longrightarrow> conv_inv env (fst c) (snd c) \<Longrightarrow> conv_inv env (fst c') (snd c')"
  by (induction rule: rtranclp_induct) (auto intro: conv_step_inv)

section \<open>Opening a conversation\<close>

text \<open>Everything but HEAD of an opened state satisfies the invariant.\<close>

lemma conv_inv_open:
  assumes "tree_store env st" "list_error env = None" "known_leaf (new_event_log env st) (leaf_event_id b)"
  shows "conv_inv env st (open_state env st red b p)"
  using assms new_event_log_inv [OF assms(2)] replayed_from_events [of "[]" empty_view]
  by (simp add: conv_inv_def open_state_def known_leaf_def path_of_def from_events_def enforce_properties_def
      empty_view_def enforce_events_satisfied satisfies_all_iff enforce_iff)

lemma assign_fields_state:
  "assign_fields werr fs s = (r, s') \<Longrightarrow> same_tree s s' \<and>
     (\<exists>f. base s' = (base s)\<lparr>other_fields := f\<rparr>)"
proof (induction fs arbitrary: s)
  case Nil
  then have "base s' = (base s)\<lparr>other_fields := other_fields (base s)\<rparr>" "same_tree s s'" by (auto simp: same_tree_def)
  then show ?case by blast
next
  case (Cons x fs)
  obtain name v where x: "x = (name, v)" by fastforce
  obtain r1 s1 where 1: "setattr werr name (\<lambda>b. b\<lparr>other_fields := fmupd name v (other_fields b)\<rparr>) s = (r1, s1)"
    by fastforce
  note s1 = setattr_state [OF 1]
  show ?case
  proof (cases r1)
    case (Inl e)
    then have "s' = s1" using Cons.prems 1 x by simp
    then show ?thesis using s1 by auto
  next
    case (Inr u)
    then have "assign_fields werr fs s1 = (r, s')" using Cons.prems 1 x by simp
    from Cons.IH [OF this] obtain f where "same_tree s1 s'" "base s' = (base s1)\<lparr>other_fields := f\<rparr>" by blast
    moreover have "\<dots> = (base s)\<lparr>other_fields := f\<rparr>" using s1 by simp
    ultimately show ?thesis using s1 same_tree_trans by metis
  qed
qed

lemma repair_inv:
  assumes inv: "conv_inv env st (s\<lparr>base := (base s)\<lparr>leaf_event_id := None\<rparr>\<rparr>)"
    and r: "repair_missing_leaf env st werr s = (Inr repaired, s')"
  shows "conv_inv env st s'" "repaired \<longleftrightarrow> \<not> known_leaf (event_log_of s) (leaf_event_id (base s))" "\<not> repaired \<Longrightarrow> s' = s"
proof -
  have "conv_inv env st s' \<and> (repaired \<longleftrightarrow> \<not> known_leaf (event_log_of s) (leaf_event_id (base s))) \<and> (\<not> repaired \<longrightarrow> s' = s)"
  proof (cases "known_leaf (event_log_of s) (leaf_event_id (base s))")
    case True
    then have "repaired = False" "s' = s"
      using r by (auto simp: repair_missing_leaf_def known_leaf_def split: option.splits)
    then show ?thesis using True inv by (simp add: conv_inv_def)
  next
    case False
    then obtain lost where lost: "leaf_event_id (base s) = Some lost" "\<not> contains_id (event_log_of s) lost"
      by (auto simp: known_leaf_def)
    obtain s1 s3 l where step: "set_leaf werr None s = (Inr (), s1)" "resolve_active_leaf env st s1 = Inr l"
      "set_leaf werr l s1 = (Inr (), s3)" "repaired = True" "s' = s3"
      using r lost by (auto simp: repair_missing_leaf_def result_simps)
    note s1 = setattr_state [OF step(1) [unfolded set_leaf_def]] and s3 = setattr_state [OF step(3) [unfolded set_leaf_def]]
    have inv1: "conv_inv env st s1" using s1 inv by (auto simp: conv_inv_def same_tree_def)
    have "known_leaf (event_log_of s1) l" using resolve_head [OF inv1] step(2) by simp
    then have "conv_inv env st s3" using conv_inv_same_tree [OF inv1, of s3] s3 by simp
    then show ?thesis using step False by simp
  qed
  then show "conv_inv env st s'" "repaired \<longleftrightarrow> \<not> known_leaf (event_log_of s) (leaf_event_id (base s))" "\<not> repaired \<Longrightarrow> s' = s"
    by auto
qed

lemma save_base_state_state: "save_base_state err s = (r, s') \<Longrightarrow> same_tree s s' \<and> base s' = base s"
  by (auto simp: save_base_state_def same_tree_def split: option.splits)

lemma create_inv:
  assumes tree: "tree_store env st" and le: "list_error env = None"
    and fresh: "\<forall>b. fresh = Some b \<longrightarrow> leaf_event_id b = None"
    and r: "create_state env st werr red cid runtime verify fresh persisted = Inr s"
  shows "conv_inv env st s"
proof (cases persisted)
  case None
  then obtain b p where b: "fresh = Some b" "s = (open_state env st red b p)\<lparr>autosave_enabled := True\<rparr>"
    using r by (auto simp: create_state_def save_base_state_def open_state_def split: option.splits)
  then have "conv_inv env st (open_state env st red b p)"
    using conv_inv_open [OF tree le] fresh by (simp add: known_leaf_def)
  then show ?thesis by (rule conv_inv_base) (simp_all add: b same_tree_def)
next
  case (Some b)
  let ?s = "open_state env st red b (Some b)"
  obtain u where "resume_state env st werr red runtime verify b = (Inr u, s)"
    using r Some by (auto simp: create_state_def result_simps split: if_splits prod.splits)
  then obtain rep s1 s2 s3 where steps: "repair_missing_leaf env st werr ?s = (Inr rep, s1)"
    "rebuild_view env st s1 = (Inr (), s2)"
    "(if rep then save_base_state (werr ''create'') (s2\<lparr>autosave_enabled := True\<rparr>)
      else (Inr (), s2\<lparr>autosave_enabled := True\<rparr>)) = (Inr (), s3)"
    "assign_fields werr runtime s3 = (Inr u, s)"
    unfolding resume_state_def by (auto simp: result_simps)
  have "conv_inv env st (open_state env st red (b\<lparr>leaf_event_id := None\<rparr>) (Some b))"
    using conv_inv_open [OF tree le] by (simp add: known_leaf_def)
  then have "conv_inv env st s1" using repair_inv(1) [OF _ steps(1)] by (simp add: open_state_def)
  then have "conv_inv env st s2" using conv_inv_rebuild steps(2) by blast
  moreover have "same_tree s2 s3 \<and> base s3 = base s2"
    using steps(3) save_base_state_state [of _ "s2\<lparr>autosave_enabled := True\<rparr>" _ s3]
    by (auto simp: same_tree_def split: if_splits)
  ultimately have "conv_inv env st s3" using conv_inv_base by simp
  then show ?thesis using assign_fields_state [OF steps(4)] conv_inv_base by fastforce
qed

section \<open>Saving\<close>

text \<open>Outside a \<open>with\<close> block, with nothing pending, the file holds the fields as they are.\<close>

definition in_sync :: "conversation_state \<Rightarrow> bool" where
  "in_sync s \<longleftrightarrow> autosave_enabled s \<and> save_depth s = 0 \<and> \<not> dirty s \<and> saved s = Some (snapshot s)"

text \<open>Inside one, the file lags only while the state is marked dirty.\<close>

definition tracked :: "conversation_state \<Rightarrow> bool" where
  "tracked s \<longleftrightarrow> autosave_enabled s \<and> save_depth s > 0 \<and> (dirty s \<or> saved s = Some (snapshot s))"

lemma setattr_in_sync: "in_sync s \<Longrightarrow> setattr werr name upd s = (Inr u, s') \<Longrightarrow> in_sync s'"
  by (auto simp: snapshot_def in_sync_def setattr_def save_base_state_def notify_update_def Let_def split: if_splits option.splits)

lemma setattr_tracked: "tracked s \<Longrightarrow> setattr werr name upd s = (r, s') \<Longrightarrow> tracked s'"
  by (auto simp: snapshot_def tracked_def setattr_def save_base_state_def notify_update_def Let_def split: if_splits option.splits)

lemma exit_in_sync: "tracked s \<Longrightarrow> save_depth s = 1 \<Longrightarrow> state_exit werr s = (Inr u, s') \<Longrightarrow> in_sync s'"
  by (auto simp: snapshot_def tracked_def in_sync_def state_exit_def save_base_state_def Let_def split: if_splits option.splits)

lemma advance_head_in_sync:
  assumes "in_sync s" "advance_head werr e s = (Inr u, s')"
  shows "in_sync s'"
proof (cases "is_state_update e")
  case False
  then obtain v s1 where "set_leaf werr (Some (ev_id e)) s = (Inr v, s1)"
    "(if head_is_empty (base s1) then set_head_is_empty werr False s1 else (Inr (), s1)) = (Inr u, s')"
    using assms(2) by (auto simp: advance_head_def result_simps)
  then show ?thesis
    using setattr_in_sync assms(1) unfolding set_leaf_def set_head_is_empty_def by (metis prod.inject)
qed (use assms in \<open>simp add: advance_head_def\<close>)

lemma state_append_in_sync:
  "in_sync s \<Longrightarrow> state_append_event env werr st s e = (Inr seq, s', st') \<Longrightarrow> in_sync s'"
  by (auto simp: state_append_event_def in_sync_def snapshot_def split: sum.splits prod.splits
      dest!: advance_head_in_sync [unfolded in_sync_def snapshot_def, rotated])

lemma navigate_in_sync:
  assumes inv: "conv_inv env st s" and sync: "in_sync s" and r: "navigate_to env st werr target s = (Inr u, s')"
  shows "in_sync s'" "base s' = (base s)\<lparr>leaf_event_id := target, head_is_empty := (target = None)\<rparr>"
    "event_log_of s' = event_log_of s" "known_leaf (event_log_of s) target"
proof -
  let ?s = "state_enter s"
  have inv0: "conv_inv env st ?s" using inv by (rule conv_inv_base) (simp_all add: state_enter_def same_tree_def)
  have track0: "tracked ?s" using sync by (simp add: tracked_def in_sync_def snapshot_def state_enter_def)
  obtain s1 s2 s3 v where known: "target = None \<or> contains_id (event_log_of ?s) (the target)"
    and 1: "set_leaf werr target ?s = (Inr (), s1)" and 2: "set_head_is_empty werr (target = None) s1 = (Inr (), s2)"
    and 3: "rebuild_view env st s2 = (Inr u, s3)" and 4: "state_exit werr s3 = (Inr v, s')"
    using r unfolding navigate_to_def with_state_def
    by (auto simp: result_simps split: prod.splits if_splits)
  note s1 = setattr_state [OF 1 [unfolded set_leaf_def]] and s2 = setattr_state [OF 2 [unfolded set_head_is_empty_def]]
  show k: "known_leaf (event_log_of s) target" using known by (auto simp: known_leaf_def state_enter_def)
  have "conv_inv env st s1" using conv_inv_same_tree [OF inv0, of s1] s1 k by (simp add: state_enter_def)
  then have "conv_inv env st s2" using conv_inv_base [of env st s1 s2] s2 by simp
  from rebuild_view_spec [OF this] 3 obtain w where
    s3: "s3 = s2\<lparr>cached_view := w, view_branch_leaf := head_of env st s2\<rparr>" by auto
  have "tracked s2" using setattr_tracked track0 1 2 unfolding set_leaf_def set_head_is_empty_def by blast
  then have "tracked s3" "save_depth s3 = 1"
    using s3 s1 s2 sync by (simp_all add: tracked_def in_sync_def snapshot_def state_enter_def)
  then show "in_sync s'" using exit_in_sync 4 by blast
  note s4 = state_exit_state [OF 4]
  show "base s' = (base s)\<lparr>leaf_event_id := target, head_is_empty := (target = None)\<rparr>"
    using s4 s3 s2 s1 by (simp add: state_enter_def)
  show "event_log_of s' = event_log_of s"
    using s4 s3 s2 s1 by (simp add: same_tree_def state_enter_def)
qed

lemma setattr_no_error: "\<exists>s'. setattr (\<lambda>_. None) name upd s = (Inr (), s')"
  by (simp add: setattr_def save_base_state_def Let_def split: if_split)

lemma setattr_persisted: "setattr werr name upd s = (r, s') \<Longrightarrow> persisted_fields s' = persisted_fields s"
  by (auto simp: setattr_def save_base_state_def notify_update_def Let_def split: if_splits option.splits)

abbreviation assigned :: "(string \<times> json) list \<Rightarrow> (string, json) fmap \<Rightarrow> (string, json) fmap" where
  "assigned fs \<equiv> fold (\<lambda>(name, v). fmupd name v) fs"

lemma assign_fields_in_sync:
  "in_sync s \<Longrightarrow> \<exists>s'. assign_fields (\<lambda>_. None) fs s = (Inr (), s') \<and> in_sync s' \<and>
     persisted_fields s' = persisted_fields s \<and> base s' = (base s)\<lparr>other_fields := assigned fs (other_fields (base s))\<rparr>"
proof (induction fs arbitrary: s)
  case (Cons x fs)
  obtain name v where x: "x = (name, v)" by fastforce
  obtain s1 where 1: "setattr (\<lambda>_. None) name (\<lambda>b. b\<lparr>other_fields := fmupd name v (other_fields b)\<rparr>) s = (Inr (), s1)"
    using setattr_no_error by blast
  note s1 = setattr_state [OF 1] setattr_persisted [OF 1]
  from Cons.IH [OF setattr_in_sync [OF Cons.prems 1]] obtain s' where
    "assign_fields (\<lambda>_. None) fs s1 = (Inr (), s')" "in_sync s'" "persisted_fields s' = persisted_fields s1"
    "base s' = (base s1)\<lparr>other_fields := assigned fs (other_fields (base s1))\<rparr>" by blast
  then show ?case using 1 x s1 by (intro exI [of _ s']) simp
qed simp

text \<open>Opening a conversation whose saved HEAD is in its log restores the fields and the branch.\<close>

lemma resume_spec:
  assumes tree: "tree_store env st" and le: "list_error env = None"
    and known: "known_leaf (new_event_log env st) (leaf_event_id b)"
    and red: "red (other_fields b) = other_fields b"
  shows "\<exists>s v. resume_state env st (\<lambda>_. None) red runtime (Inr ()) b = (Inr (), s) \<and> in_sync s \<and>
    persisted_fields s = red \<and> base s = b\<lparr>other_fields := assigned runtime (other_fields b)\<rparr> \<and>
    event_log_of s = new_event_log env st \<and>
    cached_view s = v \<and> from_events (path_of env st (head_of env st (open_state env st red b (Some b)))) = Inr v"
proof -
  let ?s = "open_state env st red b (Some b)"
  have inv: "conv_inv env st ?s" by (rule conv_inv_open [OF tree le known])
  have rep: "repair_missing_leaf env st (\<lambda>_. None) ?s = (Inr False, ?s)"
    using known by (auto simp: repair_missing_leaf_def known_leaf_def open_state_def split: option.splits)
  from rebuild_view_spec [OF inv] obtain v where
    v: "rebuild_view env st ?s = (Inr (), ?s\<lparr>cached_view := v, view_branch_leaf := head_of env st ?s\<rparr>)"
    "from_events (path_of env st (head_of env st ?s)) = Inr v" by blast
  let ?s3 = "?s\<lparr>cached_view := v, view_branch_leaf := head_of env st ?s, autosave_enabled := True\<rparr>"
  have "in_sync ?s3" by (simp add: in_sync_def open_state_def snapshot_def red)
  from assign_fields_in_sync [OF this, of runtime] obtain s where
    s: "assign_fields (\<lambda>_. None) runtime ?s3 = (Inr (), s)" "in_sync s" "persisted_fields s = red"
    "base s = b\<lparr>other_fields := assigned runtime (other_fields b)\<rparr>" by (auto simp: open_state_def)
  moreover have "same_tree ?s3 s" using assign_fields_state [OF s(1)] by blast
  moreover have "resume_state env st (\<lambda>_. None) red runtime (Inr ()) b = (Inr (), s)"
    using rep v(1) s(1) by (simp add: resume_state_def)
  ultimately show ?thesis
    using v(2) by (intro exI [of _ s] exI [of _ v]) (simp add: same_tree_def open_state_def)
qed

section \<open>Pending actions\<close>

text \<open>What answers an action: an observation or rejection of it, or an error of its call.\<close>

fun answers_action :: "action_event \<Rightarrow> event \<Rightarrow> bool" where
  "answers_action a (ObservationEvent ob) \<longleftrightarrow> action_id ob = event_id a"
| "answers_action a (UserRejectObservation ob) \<longleftrightarrow> rejected_action_id ob = event_id a"
| "answers_action a (AgentErrorEvent er) \<longleftrightarrow> obs_tool_call_id er = tool_call_id a"
| "answers_action a _ = False"

text \<open>The executable actions, in order, that nothing later answers.\<close>

fun pending_actions :: "event list \<Rightarrow> action_event list" where
  "pending_actions [] = []"
| "pending_actions (ActionEvent a # es) =
     (if action a \<noteq> None \<and> list_all (\<lambda>e. \<not> answers_action a e) es then a # pending_actions es else pending_actions es)"
| "pending_actions (_ # es) = pending_actions es"

lemma pending_actions_other: "\<not> is_action e \<Longrightarrow> pending_actions (e # es) = pending_actions es"
  by (cases e) auto

lemma unmatched_loop_pending:
  assumes "\<And>a. event_id a \<in> observed \<or> tool_call_id a \<in> failed \<longleftrightarrow> (\<exists>e \<in> set done. answers_action a e)"
  shows "unmatched_loop (rev es) observed failed (pending_actions done) = pending_actions (es @ done)"
  using assms
proof (induction es arbitrary: observed failed "done" rule: rev_induct)
  case (snoc e es)
  show ?case
  proof (cases e)
    case (ActionEvent a)
    have "pending_actions (e # done) = (if action a \<noteq> None \<and> event_id a \<notin> observed \<and> tool_call_id a \<notin> failed
        then a # pending_actions done else pending_actions done)"
      using snoc.prems [of a] by (auto simp: ActionEvent list_all_iff)
    moreover have "event_id b \<in> observed \<or> tool_call_id b \<in> failed \<longleftrightarrow> (\<exists>x \<in> set (e # done). answers_action b x)" for b
      using snoc.prems [of b] by (simp add: ActionEvent)
    ultimately show ?thesis using snoc.IH [of observed failed "e # done"] by (simp add: ActionEvent)
  next
    case (ObservationEvent ob)
    have "event_id b \<in> insert (action_id ob) observed \<or> tool_call_id b \<in> failed \<longleftrightarrow>
        (\<exists>x \<in> set (e # done). answers_action b x)" for b
      using snoc.prems [of b] by (auto simp: ObservationEvent)
    then show ?thesis using snoc.IH [of "insert (action_id ob) observed" failed "e # done"] by (simp add: ObservationEvent)
  next
    case (UserRejectObservation ob)
    have "event_id b \<in> insert (rejected_action_id ob) observed \<or> tool_call_id b \<in> failed \<longleftrightarrow>
        (\<exists>x \<in> set (e # done). answers_action b x)" for b
      using snoc.prems [of b] by (auto simp: UserRejectObservation)
    then show ?thesis
      using snoc.IH [of "insert (rejected_action_id ob) observed" failed "e # done"] by (simp add: UserRejectObservation)
  next
    case (AgentErrorEvent er)
    have "event_id b \<in> observed \<or> tool_call_id b \<in> insert (obs_tool_call_id er) failed \<longleftrightarrow>
        (\<exists>x \<in> set (e # done). answers_action b x)" for b
      using snoc.prems [of b] by (auto simp: AgentErrorEvent)
    then show ?thesis using snoc.IH [of observed "insert (obs_tool_call_id er) failed" "e # done"] by (simp add: AgentErrorEvent)
  qed (use snoc.prems snoc.IH [of observed failed "e # done"] in simp_all)
qed simp

lemma get_unmatched_pending: "get_unmatched_actions es = pending_actions es"
  using unmatched_loop_pending [of "{}" "{}" "[]" es] by (simp add: get_unmatched_actions_def)

lemma pending_actions_append:
  "list_all (\<lambda>e. \<not> is_action e) c \<Longrightarrow>
   pending_actions (b @ c) = filter (\<lambda>a. list_all (\<lambda>e. \<not> answers_action a e) c) (pending_actions b)"
proof (induction b rule: pending_actions.induct)
  case 1
  then show ?case by (induction c) (auto simp: pending_actions_other)
qed auto

text \<open>Emitting new events one after the other extends the active branch by their stamped copies.\<close>

lemma emit_events_branch:
  assumes "conv_inv env st s" "reliable env"
    and "complete_log st (event_log_of s) \<or> leaf_event_id (base s) \<noteq> None"
    and "\<forall>e \<in> set es. ev_parent_id e = None \<and> \<not> is_state_update e \<and> (\<forall>p. storable env (with_parent p e))"
    and "emit_events env werr st s es = (Inr u, s', st')"
  shows "conv_inv env st' s' \<and> (\<exists>ps. length ps = length es \<and>
    path_of env st' (head_of env st' s') = path_of env st (head_of env st s) @ map2 with_parent ps es)"
  using assms
proof (induction es arbitrary: st s)
  case Nil
  then show ?case by simp
next
  case (Cons e es)
  then obtain seq s1 st1 where app: "state_append_event env werr st s e = (Inr seq, s1, st1)"
    and rest: "emit_events env werr st1 s1 es = (Inr u, s', st')" by (auto split: prod.splits sum.splits)
  have e: "ev_parent_id e = None" "\<not> is_state_update e" "\<And>p. storable env (with_parent p e)" using Cons.prems(4) by auto
  obtain p where p: "stamp_parent_id env st s e = Inr (with_parent p e)"
    using resolve_head(1) [OF Cons.prems(1)] e(1) by (auto simp: stamp_parent_id_def)
  have env: "env = env\<lparr>lock_timeout := lock_timeout env, marker_error := marker_error env, guard_error := guard_error env, delete_error := False\<rparr>"
    using Cons.prems(2) by (simp add: reliable_def)
  note out = state_append_outcome [OF Cons.prems(1) env reliable_listed [OF Cons.prems(2)] p e(3) app]
  then have grown: "grown env st st1 (with_parent p e)" and inv1: "conv_inv env st1 s1"
    and leaf: "leaf_event_id (base s1) = Some (ev_id e)" using e(2) by auto
  have head: "head_of env st1 s1 = Some (ev_id (with_parent p e))" using leaf by (simp add: head_of_def)
  have step: "path_of env st1 (head_of env st1 s1) = path_of env st (head_of env st s) @ [with_parent p e]"
    unfolding head using append_branch [OF Cons.prems(1) grown p e(1) Cons.prems(3)] by simp
  have "conv_inv env st' s' \<and> (\<exists>ps. length ps = length es \<and>
    path_of env st' (head_of env st' s') = path_of env st1 (head_of env st1 s1) @ map2 with_parent ps es)"
    using Cons.IH [OF inv1 Cons.prems(2) _ _ rest] leaf Cons.prems(4) by simp
  then obtain ps where "conv_inv env st' s'" "length ps = length es"
    "path_of env st' (head_of env st' s') = path_of env st1 (head_of env st1 s1) @ map2 with_parent ps es" by blast
  then show ?case using step by (intro conjI exI [of _ "p # ps"]) simp_all
qed

lemma with_parent_answers [simp]:
  "answers_action a (with_parent p e) = answers_action a e" "is_action (with_parent p e) = is_action e"
  by (cases e; simp)+

text \<open>A batch of answers, one for each pending action, leaves none pending.\<close>

lemma pending_actions_answered_all:
  assumes "length ps = length (pending_actions b)"
    and mk: "\<And>k a. answers_action a (mk k a) \<and> \<not> is_action (mk k a)"
  shows "pending_actions (b @ map2 with_parent ps (map (\<lambda>(k, a). mk k a) (enumerate 0 (pending_actions b)))) = []"
proof -
  let ?es = "map2 with_parent ps (map (\<lambda>(k, a). mk k a) (enumerate 0 (pending_actions b)))"
  have nth: "?es ! i = with_parent (ps ! i) (mk i (pending_actions b ! i))" if "i < length (pending_actions b)" for i
    using that assms(1) by (simp add: nth_enumerate_eq)
  have len: "length ?es = length (pending_actions b)" using assms(1) by simp
  have "list_all (\<lambda>e. \<not> is_action e) ?es" using nth len mk by (auto simp: list_all_length)
  moreover have "\<exists>e \<in> set ?es. answers_action a e" if "a \<in> set (pending_actions b)" for a
  proof -
    obtain i where i: "i < length (pending_actions b)" "pending_actions b ! i = a" using \<open>a \<in> _\<close> by (metis in_set_conv_nth)
    then have "?es ! i \<in> set ?es" "answers_action a (?es ! i)" using nth [OF i(1)] mk len by (metis nth_mem, simp)
    then show ?thesis by blast
  qed
  ultimately show ?thesis by (auto simp: pending_actions_append filter_empty_conv list_all_iff)
qed

text \<open>Both operations emit one answer per pending action, from a state with the same HEAD.\<close>

lemma answering_run:
  assumes b: "active_branch env st s None = Inr b"
    and r: "(mk = orphan_error \<and> emit_orphaned_action_errors env werr new st s = (Inr (), s', st')) \<or>
         (mk = rejection reason \<and> reject_pending_actions env werr new reason st s = (Inr (), s', st'))"
  obtains s1 s2 where "same_tree s s1" "leaf_event_id (base s1) = leaf_event_id (base s)"
    "head_is_empty (base s1) = head_is_empty (base s)"
    "emit_events env werr st s1 (map (\<lambda>(k, a). mk (new k) a) (enumerate 0 (pending_actions b))) = (Inr (), s2, st')"
    "same_tree s2 s'" "base s' = base s2"
  using r
proof (elim disjE conjE)
  assume "mk = orphan_error" "emit_orphaned_action_errors env werr new st s = (Inr (), s', st')"
  then show ?thesis
    using that [of s s'] b by (simp add: emit_orphaned_action_errors_def get_unmatched_pending same_tree_def)
next
  assume *: "mk = rejection reason" "reject_pending_actions env werr new reason st s = (Inr (), s', st')"
  obtain r1 s1 where 1: "(if execution_status (base s) = WAITING_FOR_CONFIRMATION
      then setattr werr ''execution_status'' (\<lambda>b. b\<lparr>execution_status := IDLE\<rparr>) (state_enter s)
      else (Inr (), state_enter s)) = (r1, s1)" by fastforce
  then have s1: "same_tree s s1" "leaf_event_id (base s1) = leaf_event_id (base s)" "head_is_empty (base s1) = head_is_empty (base s)"
    using setattr_state [of werr "''execution_status''" _ "state_enter s" r1 s1]
    by (auto simp: same_tree_def state_enter_def split: if_splits)
  obtain s2 where 2: "emit_events env werr st s1
      (map (\<lambda>(k, a). mk (new k) a) (enumerate 0 (pending_actions b))) = (Inr (), s2, st')"
    "state_exit werr s2 = (Inr (), s')"
    using * 1 b
    by (auto simp: reject_pending_actions_def get_unmatched_pending Let_def result_simps
        split: prod.splits sum.splits)
  show ?thesis using that [OF s1 2(1)] state_exit_state [OF 2(2)] by simp
qed

text \<open>A log opened anew over the directory knows every leaf, and finds the same HEAD.\<close>

lemma complete_new_log: "list_error env = None \<Longrightarrow> complete_log st (new_event_log env st)"
  using rescan_spec by (simp add: complete_log_def new_event_log_def)

lemma known_leaf_new:
  assumes "log_inv env st L" "store_inv st" "list_error env = None" "known_leaf L leaf"
  shows "known_leaf (new_event_log env st) leaf"
  using known_leaf_found [OF assms(1,4)]
    known_leaf_complete [OF new_event_log_inv [OF assms(3)] complete_new_log [OF assms(3)] assms(2)]
  by (auto simp: known_leaf_def)

lemma advance_head_others: "advance_head werr e s = (r, s') \<Longrightarrow> other_fields (base s') = other_fields (base s)"
proof (cases "is_state_update e")
  case False
  assume adv: "advance_head werr e s = (r, s')"
  obtain r1 s1 where 1: "set_leaf werr (Some (ev_id e)) s = (r1, s1)" by fastforce
  note s1 = setattr_state [OF 1 [unfolded set_leaf_def]]
  show ?thesis
    using adv False 1 s1 setattr_state [of werr "''head_is_empty''" _ s1 r s']
    by (cases r1) (auto simp: advance_head_def set_head_is_empty_def split: if_splits)
qed (simp add: advance_head_def)

lemma advance_head_persisted: "advance_head werr e s = (r, s') \<Longrightarrow> persisted_fields s' = persisted_fields s"
proof (cases "is_state_update e")
  case False
  assume adv: "advance_head werr e s = (r, s')"
  obtain r1 s1 where 1: "set_leaf werr (Some (ev_id e)) s = (r1, s1)" by fastforce
  show ?thesis
    using adv False 1 setattr_persisted [OF 1 [unfolded set_leaf_def]] setattr_persisted [of werr "''head_is_empty''" _ s1 r s']
    by (cases r1) (auto simp: advance_head_def set_head_is_empty_def split: if_splits)
qed (simp add: advance_head_def)

lemma state_append_others:
  assumes "state_append_event env werr st s e = (Inr seq, s', st')"
  shows "other_fields (base s') = other_fields (base s) \<and> persisted_fields s' = persisted_fields s"
proof -
  obtain e' L where "advance_head werr e' (s\<lparr>event_log_of := L\<rparr>) = (Inr (), s')"
    using assms by (auto simp: state_append_event_def split: sum.splits prod.splits)
  from advance_head_others [OF this] advance_head_persisted [OF this] show ?thesis by simp
qed

lemma rebuild_persisted: "rebuild_view env st s = (r, s') \<Longrightarrow> persisted_fields s' = persisted_fields s"
  by (auto simp: rebuild_view_def rebuild_from_def bind_op_def split: sum.splits prod.splits)

lemma state_exit_persisted: "state_exit werr s = (r, s') \<Longrightarrow> persisted_fields s' = persisted_fields s"
  by (auto simp: state_exit_def save_base_state_def Let_def split: if_splits option.splits)

lemma navigate_persisted:
  assumes "navigate_to env st werr target s = (Inr u, s')"
  shows "persisted_fields s' = persisted_fields s"
proof -
  obtain s1 s2 s3 v where "set_leaf werr target (state_enter s) = (Inr (), s1)"
    "set_head_is_empty werr (target = None) s1 = (Inr (), s2)" "rebuild_view env st s2 = (Inr u, s3)" "state_exit werr s3 = (Inr v, s')"
    using assms unfolding navigate_to_def with_state_def
    by (auto simp: result_simps split: prod.splits if_splits)
  then show ?thesis
    unfolding set_leaf_def set_head_is_empty_def
    by (auto simp: state_enter_def dest!: setattr_persisted rebuild_persisted state_exit_persisted)
qed

text \<open>An operation that leaves file and fields in step can be followed by a restart.\<close>

lemma restart:
  assumes inv: "conv_inv env st s" and le: "list_error env = None" and sync: "in_sync s"
    and full: "complete_log st (event_log_of s)" and cid: "fmlookup (red (other_fields (base s))) ''id'' = Some cid"
    and red: "red = persisted_fields s" "red (red (other_fields (base s))) = red (other_fields (base s))"
  shows "\<exists>s2 b. create_state env st (\<lambda>_. None) red cid runtime (Inr ()) None (saved s) = Inr s2 \<and> in_sync s2 \<and>
    base s2 = (base s)\<lparr>other_fields := assigned runtime (red (other_fields (base s)))\<rparr> \<and>
    active_branch env st s None = Inr b \<and>
    active_branch env st s2 None = Inr b \<and> from_events b = Inr (cached_view s2)"
proof -
  let ?b = "snapshot s"
  have b: "leaf_event_id ?b = leaf_event_id (base s)" "head_is_empty ?b = head_is_empty (base s)"
    "other_fields ?b = red (other_fields (base s))" "?b\<lparr>other_fields := f\<rparr> = (base s)\<lparr>other_fields := f\<rparr>" for f
    by (simp_all add: snapshot_def red(1))
  have tree: "tree_store env st" and log: "log_inv env st (event_log_of s)" and st: "store_inv st"
    using inv by (auto simp: conv_inv_def tree_store_def)
  have known: "known_leaf (new_event_log env st) (leaf_event_id ?b)"
    using known_leaf_new [OF log st le] inv by (simp add: conv_inv_def b)
  have "red (other_fields ?b) = other_fields ?b" using red by (simp add: b)
  from resume_spec [where red = red and b = "snapshot s", OF tree le known this, of runtime] obtain s2 v where
    s2: "resume_state env st (\<lambda>_. None) red runtime (Inr ()) ?b = (Inr (), s2)" "in_sync s2"
    "base s2 = (base s)\<lparr>other_fields := assigned runtime (red (other_fields (base s)))\<rparr>"
    "event_log_of s2 = new_event_log env st" "cached_view s2 = v"
    "from_events (path_of env st (head_of env st (open_state env st red ?b (Some ?b)))) = Inr v" unfolding b by blast
  have "el_length (new_event_log env st) = el_length (event_log_of s)"
    using complete_new_log [OF le, of st] full by (simp add: complete_log_def)
  then have head: "head_of env st (open_state env st red ?b (Some ?b)) = head_of env st s" "head_of env st s2 = head_of env st s"
    using s2(3,4) b by (simp_all add: head_of_def open_state_def split: option.split)
  have create: "create_state env st (\<lambda>_. None) red cid runtime (Inr ()) None (saved s) = Inr s2"
    using sync s2(1) cid by (simp add: create_state_def in_sync_def b)
  have "conv_inv env st s2" by (rule create_inv [OF tree le _ create]) simp
  then show ?thesis
    using create s2 head active_branch_path [OF inv] active_branch_path [of env st s2]
    by (intro exI [of _ s2] exI [of _ "path_of env st (head_of env st s)"]) simp
qed

section \<open>A sample conversation\<close>

text \<open>
  The sample directory of the event log, with a serialization that keeps the parent, opened from a
  base state without HEAD. Its second event is an action nobody has answered.
\<close>

definition tree_env :: log_env where
  "tree_env = sample_env\<lparr>
     dump_event := (\<lambda>e. ev_id e @ (case ev_parent_id e of None \<Rightarrow> [] | Some p \<Rightarrow> ''<'' @ p)),
     load_event := (\<lambda>s.
       map_option (with_parent (if take 1 (drop 8 s) = ''<'' then Some (drop 9 s) else None))
         (if take 8 s = ''aaaaaaaa'' then Some (sample_message ''aaaaaaaa'' SourceUser ''hi'')
          else if take 8 s = ''cccccccc'' then Some (sample_action ''cccccccc'' ''c1'' ''r1'')
          else if take 8 s = ''dddddddd'' then
            Some (orphan_error (''dddddddd'', []) (sample_action_event ''cccccccc'' ''c1'' ''r1'' []))
          else None))\<rparr>"

definition sample_base_state :: base_state where
  "sample_base_state =
     \<lparr>execution_status = IDLE, blocked_actions = fmempty, blocked_messages = fmempty,
      last_user_message_id = None, leaf_event_id = None, head_is_empty = False,
      other_fields = fmupd ''id'' (JStr ''x'') fmempty\<rparr>"

text \<open>Without a cipher: the secrets read back as asterisks.\<close>

definition redact_secrets :: redaction where
  "redact_secrets f =
     (if fmlookup f ''secret_registry'' = None then f else fmupd ''secret_registry'' (JStr ''**********'') f)"

definition sample_state :: conversation_state where
  "sample_state = projr (create_state tree_env sample_store (\<lambda>_. None) redact_secrets (JStr ''x'') [] (Inr ()) None (Some sample_base_state))"

definition sample_orphan :: event where
  "sample_orphan = orphan_error (''dddddddd'', []) (sample_action_event ''cccccccc'' ''c1'' ''r1'' [])"

text \<open>What the witnesses below rest on, evaluated in one go.\<close>

lemma sample_state_computed:
  "isl (create_state tree_env sample_store (\<lambda>_. None) redact_secrets (JStr ''x'') [] (Inr ()) None (Some sample_base_state)) = False"
  "read_item tree_env sample_store (file_at sample_store 0) = Inr (sample_message ''aaaaaaaa'' SourceUser ''hi'')"
  "read_item tree_env sample_store (file_at sample_store 1) = Inr (sample_action ''cccccccc'' ''c1'' ''r1'')"
  "complete_log sample_store (event_log_of sample_state)" "in_sync sample_state"
  "active_branch tree_env sample_store sample_state None =
     Inr [sample_message ''aaaaaaaa'' SourceUser ''hi'', sample_action ''cccccccc'' ''c1'' ''r1'']"
  "fst (state_append_event tree_env (\<lambda>_. None) sample_store sample_state sample_orphan) = Inr 2"
  "stamp_parent_id tree_env sample_store sample_state sample_orphan = Inr (with_parent (Some ''cccccccc'') sample_orphan)"
  "length (found_files (snd (snd (state_append_event tree_env (\<lambda>_. None) sample_store sample_state sample_orphan)))) = 3"
  "fst (emit_orphaned_action_errors tree_env (\<lambda>_. None) (\<lambda>_. (''dddddddd'', [])) sample_store sample_state) = Inr ()"
  "fst (navigate_to tree_env sample_store (\<lambda>_. None) (Some ''aaaaaaaa'') sample_state) = Inr ()"
  "leaf_event_id (base (snd (navigate_to tree_env sample_store (\<lambda>_. None) (Some ''aaaaaaaa'') sample_state))) = Some ''aaaaaaaa''"
  "fmlookup (other_fields (base sample_state)) ''id'' = Some (JStr ''x'')"
  unfolding atomize_conj by code_simp

lemma sample_create:
  "create_state tree_env sample_store (\<lambda>_. None) redact_secrets (JStr ''x'') [] (Inr ()) None (Some sample_base_state) = Inr sample_state"
  using sample_state_computed(1) by (simp add: sample_state_def)

lemma tree_env_list: "list_error tree_env = None"
  by (simp add: tree_env_def sample_env_def)

lemma tree_env_reliable: "reliable tree_env"
  by (simp add: reliable_def tree_env_def sample_env_def)

lemma sample_tree: "tree_store tree_env sample_store"
proof -
  note sample_state_computed(2,3)
  then have read: "read_item tree_env sample_store (file_at sample_store i) = Inr (evt_of tree_env sample_store i) \<and>
      ev_id (evt_of tree_env sample_store i) = nid sample_store i \<and> ev_parent_id (evt_of tree_env sample_store i) = None"
    if "i < 2" for i
    using that by (auto simp: less_2_cases_iff evt_of_def sample_defs sample_found)
  have "length (found_files sample_store) = 2" by (simp add: sample_found)
  then show ?thesis using sample_store_inv read by (simp add: tree_store_def)
qed

lemma sample_persisted: "persisted_fields sample_state = redact_secrets"
proof -
  have "known_leaf (new_event_log tree_env sample_store) (leaf_event_id sample_base_state)"
    by (simp add: known_leaf_def sample_base_state_def)
  moreover have "redact_secrets (other_fields sample_base_state) = other_fields sample_base_state"
    by (simp add: redact_secrets_def sample_base_state_def)
  ultimately obtain s where s: "resume_state tree_env sample_store (\<lambda>_. None) redact_secrets [] (Inr ()) sample_base_state = (Inr (), s)"
    "persisted_fields s = redact_secrets"
    using resume_spec [OF sample_tree tree_env_list] by blast
  have "sample_state = s"
    using sample_create s(1) by (simp add: create_state_def split: if_splits)
  then show ?thesis using s(2) by simp
qed

lemma sample_state_inv: "conv_inv tree_env sample_store sample_state"
  by (rule create_inv [OF sample_tree tree_env_list _ sample_create]) simp

lemmas sample_state_facts = sample_state_computed(4-6)

lemma sample_storable:
  "storable tree_env (with_parent p (orphan_error (''dddddddd'', []) (sample_action_event ''cccccccc'' ''c1'' ''r1'' [])))"
  using sample_valid_ids by (cases p) (simp_all add: storable_def tree_env_def orphan_error_def)

text \<open>Appending an answer to the sample conversation.\<close>

lemma sample_append:
  obtains s st where "state_append_event tree_env (\<lambda>_. None) sample_store sample_state sample_orphan = (Inr 2, s, st)"
    "stamp_parent_id tree_env sample_store sample_state sample_orphan = Inr (with_parent (Some ''cccccccc'') sample_orphan)"
  using that sample_state_computed(7,8) by (metis prod.collapse)

section \<open>Properties\<close>

text \<open>C11: Whatever a conversation does after it was opened, with failing writes and other processes
  appending to the same directory, reading its view always returns, and the view is that of the
  active branch: a prefix of the branch with all properties enforced, and the rest of the branch
  appended to it event by event. The cache never shows events of an abandoned branch and never
  misses one.\<close>

theorem cached_view_is_branch_replay:
  assumes "tree_store env st0" "list_error env = None" "\<forall>b. fresh = Some b \<longrightarrow> leaf_event_id b = None"
    and "create_state env st0 werr red cid runtime verify fresh persisted = Inr s0"
    and "(conv_step env)\<^sup>*\<^sup>* (st0, s0) (st, s)"
  shows "\<exists>v s' b0 b1 v0. state_view env st s = Some (Inr v, s') \<and>
     active_branch env st s None = Inr (b0 @ b1) \<and> active_branch env st s' None = Inr (b0 @ b1) \<and>
     from_events b0 = Inr v0 \<and> append_events v0 b1 = Inr v \<and> state_view env st s' = Some (Inr v, s')"
proof -
  have inv: "conv_inv env st s"
    using conv_steps_inv [OF assms(5,2)] create_inv [OF assms(1-4)] by simp
  obtain v where v: "state_view env st s = Some (Inr v, s\<lparr>cached_view := v, view_branch_leaf := head_of env st s\<rparr>)"
    "replayed (path_of env st (head_of env st s)) v" using state_view_spec [OF inv] by blast
  let ?s = "s\<lparr>cached_view := v, view_branch_leaf := head_of env st s\<rparr>"
  have inv': "conv_inv env st ?s" using conv_inv_view [OF inv v(1)] .
  have head: "head_of env st ?s = head_of env st s" by (simp add: head_of_def split: option.splits)
  have "state_view env st ?s = Some (Inr v, ?s)"
    using resolve_head(1) [OF inv'] head by (simp add: state_view_def)
  then show ?thesis
    using v active_branch_path [OF inv] active_branch_path [OF inv'] head unfolding replayed_def by auto
qed

theorem cached_view_is_branch_replay_witness:
  "\<exists>st s v s' b0 b1 v0. (conv_step tree_env)\<^sup>*\<^sup>* (sample_store, sample_state) (st, s) \<and> length (found_files st) = 3 \<and>
     state_view tree_env st s = Some (Inr v, s') \<and> from_events b0 = Inr v0 \<and> append_events v0 b1 = Inr v"
proof -
  obtain s st where app: "state_append_event tree_env (\<lambda>_. None) sample_store sample_state sample_orphan = (Inr 2, s, st)"
    "stamp_parent_id tree_env sample_store sample_state sample_orphan = Inr (with_parent (Some ''cccccccc'') sample_orphan)"
    by (rule sample_append)
  have env: "tree_env = tree_env\<lparr>lock_timeout := lock_timeout tree_env, marker_error := marker_error tree_env,
      guard_error := guard_error tree_env, delete_error := False\<rparr>"
    using tree_env_reliable by (simp add: reliable_def)
  have store: "storable tree_env (with_parent (Some ''cccccccc'') sample_orphan)"
    using sample_storable by (simp add: sample_orphan_def)
  have steps: "(conv_step tree_env)\<^sup>*\<^sup>* (sample_store, sample_state) (st, s)"
    using conv_append [OF env app(2) store app(1)] by blast
  have "length (found_files st) = 3" using app(1) sample_state_computed(9) by simp
  then show ?thesis
    using cached_view_is_branch_replay [OF sample_tree tree_env_list _ sample_create steps] steps by blast
qed

text \<open>C14: Appending an event without a parent extends the active branch by exactly that event,
  stamped with the old HEAD, and moves HEAD to it. A state update joins the log but not the
  branch. The log in memory is up to date, or HEAD is set.\<close>

theorem append_extends_active_branch:
  assumes "conv_inv env st s" "reliable env" "ev_parent_id e = None"
    and "complete_log st (event_log_of s) \<or> leaf_event_id (base s) \<noteq> None"
    and "stamp_parent_id env st s e = Inr e'" "storable env e'"
    and "state_append_event env werr st s e = (Inr seq, s', st')"
  shows "conv_inv env st' s' \<and> contains_id (event_log_of s') (ev_id e) \<and>
    (\<exists>b p. active_branch env st s None = Inr b \<and> e' = with_parent p e \<and>
       active_branch env st' s' None = Inr (if is_state_update e then b else b @ [e']))"
proof -
  have env: "env = env\<lparr>lock_timeout := lock_timeout env, marker_error := marker_error env, guard_error := guard_error env, delete_error := False\<rparr>"
    using assms(2) by (simp add: reliable_def)
  have log: "log_inv env st (event_log_of s)" using assms(1) by (simp add: conv_inv_def)
  obtain p where p: "e' = with_parent p e"
    using assms(3,5) resolve_head(1) [OF assms(1)] by (auto simp: stamp_parent_id_def)
  have out: "grown env st st' e'" "complete_log st' (event_log_of s')" "conv_inv env st' s'"
    "leaf_event_id (base s') = (if is_state_update e' then leaf_event_id (base s) else Some (ev_id e'))"
    "is_state_update e' \<longrightarrow> base s' = base s"
    using state_append_outcome [OF assms(1) env reliable_listed [OF assms(2)] assms(5-7)] by auto
  have "known_leaf (event_log_of s') (Some (ev_id e'))"
    using known_leaf_complete [OF _ out(2), of env "length (found_files st)"] out(1,3)
    by (auto simp: grown_def conv_inv_def tree_store_def)
  then have "contains_id (event_log_of s') (ev_id e)" by (simp add: known_leaf_def p)
  moreover have "path_of env st' (head_of env st' s') = path_of env st (head_of env st s)" if "is_state_update e"
    using head_of_state_update [OF assms(1) out(1) _ _ out(2) assms(4)] out(5) that p
      grown_path_of [OF out(1) known_leaf_found [OF log resolve_head(2) [OF assms(1)]]]
    by simp
  moreover have "path_of env st' (head_of env st' s') = path_of env st (head_of env st s) @ [e']" if "\<not> is_state_update e"
    using append_branch [OF assms(1) out(1) assms(5,3,4)] out(4) that p by (simp add: head_of_def)
  ultimately show ?thesis
    using out(3) active_branch_path [OF assms(1)] active_branch_path [OF out(3)] p by auto
qed

theorem append_extends_active_branch_witness:
  "\<exists>s st. state_append_event tree_env (\<lambda>_. None) sample_store sample_state sample_orphan = (Inr 2, s, st) \<and>
     active_branch tree_env st s None =
       Inr [sample_message ''aaaaaaaa'' SourceUser ''hi'', sample_action ''cccccccc'' ''c1'' ''r1'',
            with_parent (Some ''cccccccc'') sample_orphan]"
proof -
  obtain s st where app: "state_append_event tree_env (\<lambda>_. None) sample_store sample_state sample_orphan = (Inr 2, s, st)"
    "stamp_parent_id tree_env sample_store sample_state sample_orphan = Inr (with_parent (Some ''cccccccc'') sample_orphan)"
    by (rule sample_append)
  have e: "ev_parent_id sample_orphan = None" "\<not> is_state_update sample_orphan"
    "storable tree_env (with_parent (Some ''cccccccc'') sample_orphan)"
    using sample_storable by (simp_all add: sample_orphan_def orphan_error_def)
  show ?thesis
    using append_extends_active_branch [OF sample_state_inv tree_env_reliable e(1) disjI1 [OF sample_state_facts(1)] app(2) e(3) app(1)]
      sample_state_facts(3) e(2) app(1) by auto
qed

text \<open>C27: Emitting errors for orphaned actions and rejecting pending actions both extend the branch by
  one answer for each pending action, in order and with its call, and afterwards no action is
  pending. The pending actions are the executable ones that no later observation, rejection or
  error answers.\<close>

theorem pending_actions_answered:
  assumes "conv_inv env st s" "reliable env" "active_branch env st s None = Inr b"
    and "complete_log st (event_log_of s) \<or> leaf_event_id (base s) \<noteq> None"
    and "(mk = orphan_error \<and> emit_orphaned_action_errors env werr new st s = (Inr (), s', st')) \<or>
         (mk = rejection reason \<and> reject_pending_actions env werr new reason st s = (Inr (), s', st'))"
    and "\<forall>k p. \<forall>a \<in> set (pending_actions b). storable env (with_parent p (mk (new k) a))"
  shows "get_unmatched_actions b = pending_actions b \<and>
    (\<exists>c. active_branch env st' s' None = Inr (b @ c) \<and> get_unmatched_actions (b @ c) = [] \<and>
       map observed_call c = map (\<lambda>a. Some (tool_call_id a)) (pending_actions b))"
proof -
  let ?es = "map (\<lambda>(k, a). mk (new k) a) (enumerate 0 (pending_actions b))"
  have mk: "answers_action a (mk (new k) a) \<and> \<not> is_action (mk (new k) a)" "ev_parent_id (mk (new k) a) = None"
    "\<not> is_state_update (mk (new k) a)" "observed_call (with_parent p (mk (new k) a)) = Some (tool_call_id a)" for k a p
    using assms(5) by (auto simp: orphan_error_def rejection_def)
  obtain s1 s2 where enter: "same_tree s s1" "leaf_event_id (base s1) = leaf_event_id (base s)"
      "head_is_empty (base s1) = head_is_empty (base s)"
    and emit: "emit_events env werr st s1 ?es = (Inr (), s2, st')"
    and exit: "same_tree s2 s'" "base s' = base s2"
    by (rule answering_run [OF assms(3,5)])
  have inv1: "conv_inv env st s1" using conv_inv_base [OF assms(1) enter(1,2)] .
  have "conv_inv env st' s2 \<and> (\<exists>ps. length ps = length ?es \<and>
      path_of env st' (head_of env st' s2) = path_of env st (head_of env st s1) @ map2 with_parent ps ?es)"
  proof (rule emit_events_branch [OF inv1 assms(2) _ _ emit])
    show "complete_log st (event_log_of s1) \<or> leaf_event_id (base s1) \<noteq> None"
      using assms(4) enter by (simp add: same_tree_def)
    show "\<forall>e \<in> set ?es. ev_parent_id e = None \<and> \<not> is_state_update e \<and> (\<forall>p. storable env (with_parent p e))"
      using assms(6) mk(2,3) by (auto simp: in_set_enumerate_eq)
  qed
  then obtain ps where inv2: "conv_inv env st' s2" and ps: "length ps = length ?es"
    "path_of env st' (head_of env st' s2) = path_of env st (head_of env st s1) @ map2 with_parent ps ?es" by blast
  have "head_of env st s1 = head_of env st s" using enter by (simp add: head_of_def same_tree_def split: option.splits)
  then have b: "path_of env st (head_of env st s1) = b" using active_branch_path [OF assms(1)] assms(3) by simp
  have inv': "conv_inv env st' s'" using conv_inv_base [OF inv2 exit(1)] exit(2) by simp
  have "head_of env st' s' = head_of env st' s2" using exit by (simp add: head_of_def same_tree_def split: option.splits)
  then have branch: "active_branch env st' s' None = Inr (b @ map2 with_parent ps ?es)"
    using active_branch_path [OF inv'] ps(2) b by simp
  moreover have "get_unmatched_actions (b @ map2 with_parent ps ?es) = []"
    unfolding get_unmatched_pending using pending_actions_answered_all [of ps b "\<lambda>k. mk (new k)"] ps(1) mk(1) by simp
  moreover have "map observed_call (map2 with_parent ps ?es) = map (\<lambda>a. Some (tool_call_id a)) (pending_actions b)"
    using ps(1) mk(4) by (intro nth_equalityI) (simp_all add: nth_enumerate_eq)
  ultimately show ?thesis using get_unmatched_pending by blast
qed

theorem pending_actions_answered_witness:
  "\<exists>s st c. emit_orphaned_action_errors tree_env (\<lambda>_. None) (\<lambda>_. (''dddddddd'', [])) sample_store sample_state = (Inr (), s, st) \<and>
     active_branch tree_env st s None =
       Inr ([sample_message ''aaaaaaaa'' SourceUser ''hi'', sample_action ''cccccccc'' ''c1'' ''r1''] @ c) \<and>
     map observed_call c = [Some ''c1'']"
proof -
  let ?b = "[sample_message ''aaaaaaaa'' SourceUser ''hi'', sample_action ''cccccccc'' ''c1'' ''r1'']"
  note sample_state_computed(10)
  then obtain s st where
    emit: "emit_orphaned_action_errors tree_env (\<lambda>_. None) (\<lambda>_. (''dddddddd'', [])) sample_store sample_state = (Inr (), s, st)"
    by (metis prod.collapse)
  have pend: "pending_actions ?b = [sample_action_event ''cccccccc'' ''c1'' ''r1'' []]"
    by (simp add: sample_defs)
  then have "\<forall>k p. \<forall>a \<in> set (pending_actions ?b). storable tree_env (with_parent p (orphan_error ((\<lambda>_. (''dddddddd'', [])) k) a))"
    using sample_storable by simp
  from pending_actions_answered [OF sample_state_inv tree_env_reliable sample_state_facts(3) disjI1 [OF sample_state_facts(1)]
      disjI1 [OF conjI [OF refl emit]] this]
  show ?thesis using emit pend by (auto simp: sample_action_event_def)
qed

text \<open>C25: A restart resumes where the conversation was. After any successful append or navigation
  outside a \<open>with\<close> block, opening the conversation again from its base state file and its event
  files, with the same cipher or again without one, succeeds. The fields are then exactly the old ones,
  except that the fields outside the model are what they read back as (with a cipher the same, without
  one with their secrets redacted), and those the caller assigns have the assigned values. HEAD and the active branch are
  the same, the view is the enforced view of that branch, and file and fields are in step. Reading back
  redacted fields changes nothing more, and the identifier of the conversation is not redacted.\<close>

theorem restart_restores_conversation:
  assumes "conv_inv env st s" "reliable env" "in_sync s" "complete_log st (event_log_of s)"
    and "red = persisted_fields s" "\<forall>f. red (red f) = red f" "fmlookup (red (other_fields (base s))) ''id'' = Some cid"
    and "(navigate_to env st werr target s = (Inr (), s1) \<and> st1 = st) \<or>
         (stamp_parent_id env st s e = Inr e' \<and> storable env e' \<and> state_append_event env werr st s e = (Inr seq, s1, st1))"
  shows "\<exists>s2 b. create_state env st1 (\<lambda>_. None) red cid runtime (Inr ()) None (saved s1) = Inr s2 \<and> in_sync s2 \<and>
     other_fields (base s1) = other_fields (base s) \<and>
     base s2 = (base s1)\<lparr>other_fields := fold (\<lambda>(name, v). fmupd name v) runtime (red (other_fields (base s)))\<rparr> \<and>
     active_branch env st1 s1 None = Inr b \<and>
     active_branch env st1 s2 None = Inr b \<and> from_events b = Inr (cached_view s2)"
proof -
  have s1: "in_sync s1 \<and> conv_inv env st1 s1 \<and> complete_log st1 (event_log_of s1) \<and>
      other_fields (base s1) = other_fields (base s) \<and> persisted_fields s1 = persisted_fields s"
    using assms(8)
  proof (elim disjE conjE)
    assume nav: "navigate_to env st werr target s = (Inr (), s1)" and "st1 = st"
    have "conv_inv env st s1"
      by (rule conv_inv_with_state [OF assms(1) nav [unfolded navigate_to_def]]) (rule conv_inv_navigate_body)
    then show ?thesis
      using navigate_in_sync [OF assms(1,3) nav] navigate_persisted [OF nav] assms(4) \<open>st1 = st\<close> by simp
  next
    assume app: "stamp_parent_id env st s e = Inr e'" "storable env e'" "state_append_event env werr st s e = (Inr seq, s1, st1)"
    have env: "env = env\<lparr>lock_timeout := lock_timeout env, marker_error := marker_error env, guard_error := guard_error env, delete_error := False\<rparr>"
      using assms(2) by (simp add: reliable_def)
    have "complete_log st1 (event_log_of s1)" "conv_inv env st1 s1"
      using state_append_outcome [OF assms(1) env reliable_listed [OF assms(2)] app] by auto
    moreover have "other_fields (base s1) = other_fields (base s) \<and> persisted_fields s1 = persisted_fields s"
      by (rule state_append_others [OF app(3)])
    ultimately show ?thesis using state_append_in_sync [OF assms(3) app(3)] by simp
  qed
  show ?thesis
    using restart [of env st1 s1 red cid runtime] s1 reliable_listed [OF assms(2)] assms(5-7) by simp
qed

theorem restart_restores_conversation_witness:
  "\<exists>s1 s2. navigate_to tree_env sample_store (\<lambda>_. None) (Some ''aaaaaaaa'') sample_state = (Inr (), s1) \<and>
     create_state tree_env sample_store (\<lambda>_. None) redact_secrets (JStr ''x'') [(''max_iterations'', JScalar ''9'')] (Inr ()) None (saved s1) = Inr s2 \<and>
     leaf_event_id (base s2) = Some ''aaaaaaaa'' \<and> fmlookup (other_fields (base s2)) ''max_iterations'' = Some (JScalar ''9'')"
proof -
  obtain s1 where nav: "navigate_to tree_env sample_store (\<lambda>_. None) (Some ''aaaaaaaa'') sample_state = (Inr (), s1)"
    using sample_state_computed(11) by (metis prod.collapse)
  then have leaf: "leaf_event_id (base s1) = Some ''aaaaaaaa''" using sample_state_computed(12) by simp
  have "redact_secrets = persisted_fields sample_state" using sample_persisted by simp
  moreover have "\<forall>f. redact_secrets (redact_secrets f) = redact_secrets f" by (simp add: redact_secrets_def)
  moreover have "fmlookup (redact_secrets (other_fields (base sample_state))) ''id'' = Some (JStr ''x'')"
    using sample_state_computed(13) by (simp add: redact_secrets_def)
  ultimately show ?thesis
    using restart_restores_conversation [OF sample_state_inv tree_env_reliable sample_state_facts(2,1) _ _ _
        disjI1 [OF conjI [OF nav refl]], of redact_secrets "JStr ''x''" "[(''max_iterations'', JScalar ''9'')]"] nav leaf
    by fastforce
qed

end
