(* ===== verification/Callbacks.thy ===== *)
theory Callbacks
  imports Hooks Conversation_State
begin

text \<open>
  What happens to an event on its way into a local conversation: it is stamped
  (\<open>_tree_stamping\<close>), its hooks run (\<open>HookEventProcessor\<close> of \<open>hooks/conversation_hooks.py\<close>), it is
  appended, and the last message of the user is noted (\<open>impl/local_conversation.py\<close>).

  A conversation is its state with the event files, the context session hooks have left to deliver,
  and what the agent and the run loop keep beside it: how many times the critic has sent the agent
  back, the error the detector last nudged about. The numbers of identifiers, hook runs, LLM calls and
  tool batches so far pick the answers of the parameters. The other callbacks of the chain only
  observe. The payload of a \<open>HookExecutionEvent\<close> is a log of the run and left out. Path rules of an
  agent context are not modelled: the agent has none.
\<close>

section \<open>Conversations\<close>

record conversation =
  conv_state :: conversation_state
  conv_files :: store
  ids_used :: nat
  hooks_run :: nat
  pending_context :: "string list"
  llm_calls :: nat
  batches_run :: nat
  refinement_iteration :: nat
  last_nudged :: "string option"

type_synonym 'a conv_op = "('a, conversation) outcome"

record hook_processor =
  hp_env :: hook_env
  hp_runner :: hook_runner
  hp_manager :: hook_manager
  emit_hook_events :: bool

record conversation_env =
  log_of :: log_env
  write_error :: "string \<Rightarrow> py_error option"
  new_ids :: "nat \<Rightarrow> string \<times> string"
  processor :: "hook_processor option"

definition on_state :: "(conversation_state \<Rightarrow> 'a state_op) \<Rightarrow> conversation \<Rightarrow> 'a conv_op" where
  "on_state f w = (case f (conv_state w) of (r, s) \<Rightarrow> (r, w\<lparr>conv_state := s\<rparr>))"

definition set_status :: "conversation_env \<Rightarrow> conversation_execution_status \<Rightarrow> conversation \<Rightarrow> unit conv_op" where
  "set_status env x = on_state (setattr (write_error env) ''execution_status'' (\<lambda>b. b\<lparr>execution_status := x\<rparr>))"

abbreviation status_of :: "conversation \<Rightarrow> conversation_execution_status" where
  "status_of w \<equiv> execution_status (base (conv_state w))"

text \<open>The identifier and the time of a new event.\<close>

definition new_base :: "conversation_env \<Rightarrow> source_type \<Rightarrow> conversation \<Rightarrow> event_base \<times> conversation" where
  "new_base env src w =
     (case new_ids env (ids_used w) of
        (i, t) \<Rightarrow> (\<lparr>event_id = i, timestamp = t, source = src, parent_id = None\<rparr>, w\<lparr>ids_used := Suc (ids_used w)\<rparr>))"

section \<open>Persisting\<close>

definition default_callback :: "conversation_env \<Rightarrow> event \<Rightarrow> conversation \<Rightarrow> unit conv_op" where
  "default_callback env e w =
     (case state_append_event (log_of env) (write_error env) (conv_files w) (conv_state w) e of
        (r, s, st) \<Rightarrow> (bind_result r (\<lambda>_. Inr ()), w\<lparr>conv_state := s, conv_files := st\<rparr>))"

fun is_user_event :: "event \<Rightarrow> bool" where
  "is_user_event (MessageEvent m) \<longleftrightarrow> source m = SourceUser"
| "is_user_event _ \<longleftrightarrow> False"

definition track_last_user_message :: "conversation_env \<Rightarrow> event \<Rightarrow> conversation \<Rightarrow> unit conv_op" where
  "track_last_user_message env e w =
     (if is_user_event e then
        on_state (setattr (write_error env) ''last_user_message_id'' (\<lambda>b. b\<lparr>last_user_message_id := Some (ev_id e)\<rparr>)) w
      else (Inr (), w))"

definition base_callback :: "conversation_env \<Rightarrow> event \<Rightarrow> conversation \<Rightarrow> unit conv_op" where
  "base_callback env e w = bind_op (default_callback env e w) (\<lambda>_ w1. track_last_user_message env e w1)"

section \<open>Hooks\<close>

definition hook_execution_event :: "event_base \<Rightarrow> event" where
  "hook_execution_event b = OtherEvent ''HookExecutionEvent'' b"

text \<open>One \<open>_emit_hook_execution_event\<close> per result.\<close>

fun emit_hook_execution_events :: "conversation_env \<Rightarrow> bool \<Rightarrow> hook_result list \<Rightarrow> conversation \<Rightarrow> unit conv_op" where
  "emit_hook_execution_events env enabled [] w = (Inr (), w)"
| "emit_hook_execution_events env enabled (r # rs) w =
     (if \<not> enabled then (Inr (), w)
      else
        (case new_base env SourceHook w of
           (b, w1) \<Rightarrow> bind_op (base_callback env (hook_execution_event b) w1)
             (\<lambda>_ w2. emit_hook_execution_events env enabled rs w2)))"

definition count_runs :: "hook_result list \<Rightarrow> conversation \<Rightarrow> conversation" where
  "count_runs rs w = w\<lparr>hooks_run := hooks_run w + length rs\<rparr>"

definition block_reason :: "hook_result list \<Rightarrow> string" where
  "block_reason rs = (case get_blocking_reason rs of Some (c # cs) \<Rightarrow> c # cs | _ \<Rightarrow> ''Blocked by hook'')"

definition handle_pre_tool_use ::
  "conversation_env \<Rightarrow> hook_processor \<Rightarrow> action_event \<Rightarrow> conversation \<Rightarrow> unit conv_op" where
  "handle_pre_tool_use env p a w =
     (if \<not> has_hooks_for_event (hm_config (hp_manager p)) PRE_TOOL_USE then (Inr (), w)
      else
        (case run_pre_tool_use (hp_env p) (hp_runner p) (hp_manager p) (hooks_run w) (tool_name a)
             (case action a of Some m \<Rightarrow> snd m | None \<Rightarrow> JDict fmempty) of
           Inl err \<Rightarrow> (Inl err, w)
         | Inr (ok, rs) \<Rightarrow>
             bind_op (emit_hook_execution_events env (emit_hook_events p) rs (count_runs rs w)) (\<lambda>_ w1.
               if ok then (Inr (), w1)
               else on_state (block_action (write_error env) (event_id a) (block_reason rs)) w1)))"

text \<open>The action an observation answers, when the log has it.\<close>

definition find_action :: "conversation_env \<Rightarrow> string \<Rightarrow> conversation \<Rightarrow> action_event option result" where
  "find_action env aid w =
     (case get_index (event_log_of (conv_state w)) aid of
        Inl e \<Rightarrow> if e = KeyError then Inr None else Inl e
      | Inr idx \<Rightarrow>
          (case fst (get_single_item (log_of env) (conv_files w) (event_log_of (conv_state w)) (int idx)) of
             Inl e \<Rightarrow> if e = KeyError then Inr None else Inl e
           | Inr (ActionEvent a) \<Rightarrow> Inr (Some a)
           | Inr _ \<Rightarrow> Inr None))"

definition handle_post_tool_use ::
  "conversation_env \<Rightarrow> hook_processor \<Rightarrow> observation_event \<Rightarrow> conversation \<Rightarrow> unit conv_op" where
  "handle_post_tool_use env p ob w =
     (if \<not> has_hooks_for_event (hm_config (hp_manager p)) POST_TOOL_USE then (Inr (), w)
      else
        bind_op (find_action env (action_id ob) w, w) (\<lambda>found w.
          case found of
            None \<Rightarrow> (Inr (), w)
          | Some a \<Rightarrow>
              bind_op (run_post_tool_use (hp_env p) (hp_runner p) (hp_manager p) (hooks_run w) (obs_tool_name ob)
                  (case action a of Some m \<Rightarrow> snd m | None \<Rightarrow> JDict fmempty) (snd (obs_model (observation ob))), w)
                (\<lambda>rs w. emit_hook_execution_events env (emit_hook_events p) rs (count_runs rs w))))"

fun text_parts :: "content list \<Rightarrow> string" where
  "text_parts [] = []"
| "text_parts (TextContent s c # cs) = s @ text_parts cs"
| "text_parts (ImageContent _ _ # cs) = text_parts cs"

text \<open>
  A message that hooks add context to is built anew: it has an identifier of its own and no parent
  yet.
\<close>

definition with_context :: "conversation_env \<Rightarrow> string \<Rightarrow> message_event \<Rightarrow> conversation \<Rightarrow> message_event \<times> conversation" where
  "with_context env ctx m w =
     (case new_base env (source m) w of
        (b, w1) \<Rightarrow>
          (\<lparr>event_id = event_id b, timestamp = timestamp b, source = source m, parent_id = None,
            llm_message = llm_message m, me_llm_response_id = me_llm_response_id m,
            activated_skills = activated_skills m,
            me_extended_content = me_extended_content m @ [TextContent ctx False],
            sender = sender m, me_critic_result = None\<rparr>, w1))"

definition handle_user_prompt_submit ::
  "conversation_env \<Rightarrow> hook_processor \<Rightarrow> message_event \<Rightarrow> conversation \<Rightarrow> message_event conv_op" where
  "handle_user_prompt_submit env p m w =
     (if \<not> has_hooks_for_event (hm_config (hp_manager p)) USER_PROMPT_SUBMIT then (Inr m, w)
      else
        (case run_user_prompt_submit (hp_env p) (hp_runner p) (hp_manager p) (hooks_run w)
             (text_parts (msg_content (llm_message m))) of
           Inl err \<Rightarrow> (Inl err, w)
         | Inr (ok, ctx, rs) \<Rightarrow>
             bind_op (emit_hook_execution_events env (emit_hook_events p) rs (count_runs rs w)) (\<lambda>_ w1.
             bind_op (if ok then (Inr (), w1)
                      else on_state (block_message (write_error env) (event_id m) (block_reason rs)) w1) (\<lambda>_ w2.
               case ctx of
                 None \<Rightarrow> (Inr m, w2)
               | Some c \<Rightarrow> (case with_context env c m w2 of (m', w3) \<Rightarrow> (Inr m', w3))))))"

definition processor_on_event :: "conversation_env \<Rightarrow> hook_processor \<Rightarrow> event \<Rightarrow> conversation \<Rightarrow> unit conv_op" where
  "processor_on_event env p e w =
     (case e of
        ActionEvent a \<Rightarrow>
          bind_op (if action a \<noteq> None then handle_pre_tool_use env p a w else (Inr (), w))
            (\<lambda>_ w1. base_callback env e w1)
      | ObservationEvent ob \<Rightarrow>
          bind_op (handle_post_tool_use env p ob w) (\<lambda>_ w1. base_callback env e w1)
      | MessageEvent m \<Rightarrow>
          bind_op (if source m = SourceUser then handle_user_prompt_submit env p m w else (Inr m, w))
            (\<lambda>m' w1. base_callback env (MessageEvent m') w1)
      | _ \<Rightarrow> base_callback env e w)"

text \<open>\<open>_on_event\<close> of a local conversation, and the same with its lock held.\<close>

definition on_event :: "conversation_env \<Rightarrow> event \<Rightarrow> conversation \<Rightarrow> unit conv_op" where
  "on_event env e w =
     bind_op (stamp_parent_id (log_of env) (conv_files w) (conv_state w) e, w) (\<lambda>e1 w1.
       case processor env of
         None \<Rightarrow> base_callback env e1 w1
       | Some p \<Rightarrow> processor_on_event env p e1 w1)"

definition with_lock :: "conversation_env \<Rightarrow> (conversation \<Rightarrow> 'a conv_op) \<Rightarrow> conversation \<Rightarrow> 'a conv_op" where
  "with_lock env body w =
     (case body (w\<lparr>conv_state := state_enter (conv_state w)\<rparr>) of
        (r, w1) \<Rightarrow> bind_op (on_state (state_exit (write_error env)) w1) (\<lambda>_ w2. (r, w2)))"

text \<open>Session and stop hooks of the processor.\<close>

definition processor_session_start :: "conversation_env \<Rightarrow> hook_processor \<Rightarrow> conversation \<Rightarrow> unit conv_op" where
  "processor_session_start env p w =
     bind_op (run_session_start (hp_env p) (hp_runner p) (hp_manager p) (hooks_run w), w) (\<lambda>rs w1.
     bind_op (emit_hook_execution_events env (emit_hook_events p) rs (count_runs rs w1)) (\<lambda>_ w2.
       (Inr (), w2\<lparr>pending_context := pending_context w2 @
          filter (\<lambda>c. c \<noteq> []) (List.map_filter hr_additional_context rs)\<rparr>)))"

definition inject_pending_additional_context :: "conversation_env \<Rightarrow> conversation \<Rightarrow> unit conv_op" where
  "inject_pending_additional_context env w =
     (if pending_context w = [] then (Inr (), w)
      else
        (case new_base env SourceEnvironment (w\<lparr>pending_context := []\<rparr>) of
           (b, w1) \<Rightarrow>
             base_callback env (MessageEvent
               \<lparr>event_id = event_id b, timestamp = timestamp b, source = SourceEnvironment, parent_id = None,
                llm_message = plain_message RoleUser
                  [TextContent (concat (hd (pending_context w) # map (\<lambda>p. CHR 0x0A # p) (tl (pending_context w)))) False],
                me_llm_response_id = None, activated_skills = [], me_extended_content = [], sender = None,
                me_critic_result = None\<rparr>) w1))"

definition processor_session_end :: "conversation_env \<Rightarrow> hook_processor \<Rightarrow> conversation \<Rightarrow> unit conv_op" where
  "processor_session_end env p w =
     bind_op (run_session_end (hp_env p) (hp_runner p) (hp_manager p) (hooks_run w), w) (\<lambda>rs w1.
       emit_hook_execution_events env (emit_hook_events p) rs (count_runs rs w1))"

definition stop_feedback :: "hook_result list \<Rightarrow> string option" where
  "stop_feedback rs =
     (case join_contexts rs of
        Some f \<Rightarrow> Some f
      | None \<Rightarrow> (case get_blocking_reason rs of Some (c # cs) \<Rightarrow> Some (c # cs) | _ \<Rightarrow> None))"

definition processor_run_stop ::
  "conversation_env \<Rightarrow> hook_processor \<Rightarrow> string \<Rightarrow> conversation \<Rightarrow> (bool \<times> string option) conv_op" where
  "processor_run_stop env p reason w =
     (if \<not> has_hooks_for_event (hm_config (hp_manager p)) STOP_EVENT then (Inr (True, None), w)
      else
        bind_op (manager_run_stop (hp_env p) (hp_runner p) (hp_manager p) (hooks_run w) reason, w) (\<lambda>(should_stop, rs) w1.
        bind_op (emit_hook_execution_events env (emit_hook_events p) rs (count_runs rs w1)) (\<lambda>_ w2.
          (Inr (should_stop, if should_stop then None else stop_feedback rs), w2))))"

section \<open>What the chain leaves alone\<close>

text \<open>Appending an event changes HEAD and nothing else of the fields.\<close>

definition only_head :: "base_state \<Rightarrow> base_state \<Rightarrow> bool" where
  "only_head b b' \<longleftrightarrow> (\<exists>l h. b' = b\<lparr>leaf_event_id := l, head_is_empty := h\<rparr>)"

lemma only_head_refl [simp]: "only_head b b"
  unfolding only_head_def by (metis base_state.surjective base_state.update_convs(5,6))

lemma only_headI: "only_head b (b\<lparr>leaf_event_id := l\<rparr>)" "only_head b (b\<lparr>head_is_empty := h\<rparr>)"
  unfolding only_head_def
   apply (intro exI [of _ l] exI [of _ "head_is_empty b"])
   apply (cases b, simp)
  apply (intro exI [of _ "leaf_event_id b"] exI [of _ h])
  apply (cases b, simp)
  done

lemma only_head_trans: "only_head a b \<Longrightarrow> only_head b c \<Longrightarrow> only_head a c"
  unfolding only_head_def by (elim exE) (simp, blast)

lemma advance_head_base: "advance_head werr e s = (r, s') \<Longrightarrow> only_head (base s) (base s')"
proof (cases "is_state_update e")
  case False
  assume adv: "advance_head werr e s = (r, s')"
  obtain r1 s1 where 1: "set_leaf werr (Some (ev_id e)) s = (r1, s1)" by fastforce
  note s1 = setattr_state [OF 1 [unfolded set_leaf_def]]
  then have "only_head (base s) (base s1)" using only_headI by metis
  moreover have "only_head (base s1) (base s')"
    using adv False 1 setattr_state [of werr "''head_is_empty''" _ s1 r s'] only_headI(2)
    by (cases r1) (auto simp: advance_head_def set_head_is_empty_def split: if_splits)
  ultimately show ?thesis by (rule only_head_trans)
qed (simp add: advance_head_def)

lemma state_append_base: "state_append_event env werr st s e = (r, s', st') \<Longrightarrow> only_head (base s) (base s')"
  by (auto simp: state_append_event_def dest!: advance_head_base split: sum.splits prod.splits)

lemma setattr_base: "base (snd (setattr werr name upd s)) = upd (base s)"
  using setattr_state [of werr name upd s] by (metis prod.collapse)

lemma on_state_setattr: "on_state (setattr werr name upd) w = (r, w') \<Longrightarrow>
   base (conv_state w') = upd (base (conv_state w))"
  by (auto simp: on_state_def dest: setattr_state split: prod.splits)

lemma default_callback_base: "default_callback env e w = (r, w') \<Longrightarrow> only_head (base (conv_state w)) (base (conv_state w'))"
  by (auto simp: default_callback_def dest!: state_append_base split: prod.splits)

text \<open>What event handling may change of the fields: HEAD, the last message and the blocks.\<close>

definition handled :: "base_state \<Rightarrow> base_state \<Rightarrow> bool" where
  "handled b b' \<longleftrightarrow> execution_status b' = execution_status b \<and> other_fields b' = other_fields b"

lemma handled_refl [simp]: "handled b b"
  by (simp add: handled_def)

lemma handled_trans: "handled a b \<Longrightarrow> handled b c \<Longrightarrow> handled a c"
  by (simp add: handled_def)

lemma only_head_handled: "only_head b b' \<Longrightarrow> handled b b'"
  by (auto simp: only_head_def handled_def)

lemma base_callback_spec:
  assumes "base_callback env e w = (r, w')"
  shows "handled (base (conv_state w)) (base (conv_state w'))"
    and "blocked_actions (base (conv_state w')) = blocked_actions (base (conv_state w))"
    and "blocked_messages (base (conv_state w')) = blocked_messages (base (conv_state w))"
    and "r = Inr () \<Longrightarrow> last_user_message_id (base (conv_state w')) =
       (if is_user_event e then Some (ev_id e) else last_user_message_id (base (conv_state w)))"
proof -
  obtain r1 w1 where 1: "default_callback env e w = (r1, w1)" by fastforce
  have b1: "only_head (base (conv_state w)) (base (conv_state w1))" using default_callback_base [OF 1] .
  have b2: "base (conv_state w') = (if r1 = Inr () \<and> is_user_event e
      then base (conv_state w1)\<lparr>last_user_message_id := Some (ev_id e)\<rparr> else base (conv_state w1))"
    using assms 1 by (cases r1) (auto simp: base_callback_def track_last_user_message_def dest: on_state_setattr split: if_splits)
  show "handled (base (conv_state w)) (base (conv_state w'))"
    using only_head_handled [OF b1] b2 by (auto simp: handled_def)
  show "blocked_actions (base (conv_state w')) = blocked_actions (base (conv_state w))"
    "blocked_messages (base (conv_state w')) = blocked_messages (base (conv_state w))"
    using b1 b2 by (auto simp: only_head_def)
  show "last_user_message_id (base (conv_state w')) =
       (if is_user_event e then Some (ev_id e) else last_user_message_id (base (conv_state w)))" if "r = Inr ()"
  proof -
    have "r1 = Inr ()" using assms 1 that by (cases r1) (auto simp: base_callback_def)
    then show ?thesis using b1 b2 by (auto simp: only_head_def)
  qed
qed

text \<open>Hook events are not messages: emitting them changes no block and not the last message either.\<close>

definition hooks_only :: "base_state \<Rightarrow> base_state \<Rightarrow> bool" where
  "hooks_only b b' \<longleftrightarrow> handled b b' \<and> blocked_actions b' = blocked_actions b \<and>
     blocked_messages b' = blocked_messages b"

lemma hooks_only_refl [simp]: "hooks_only b b"
  by (simp add: hooks_only_def)

lemma hooks_only_trans: "hooks_only a b \<Longrightarrow> hooks_only b c \<Longrightarrow> hooks_only a c"
  by (auto simp: hooks_only_def intro: handled_trans)

lemma new_base_state [simp]:
  "conv_state (snd (new_base env src w)) = conv_state w"
  "event_id (fst (new_base env src w)) = fst (new_ids env (ids_used w))"
  by (simp_all add: new_base_def split: prod.splits)

lemma base_callback_hooks_only: "base_callback env e w = (r, w') \<Longrightarrow> hooks_only (base (conv_state w)) (base (conv_state w'))"
  using base_callback_spec [of env e w r w'] by (simp add: hooks_only_def)

lemma emit_hook_execution_events_spec:
  "emit_hook_execution_events env enabled rs w = (r, w') \<Longrightarrow> hooks_only (base (conv_state w)) (base (conv_state w'))"
proof (induction env enabled rs w arbitrary: r w' rule: emit_hook_execution_events.induct)
  case (2 env enabled h rs w)
  obtain b w1 where n: "new_base env SourceHook w = (b, w1)" by fastforce
  then have s1: "conv_state w1 = conv_state w" by (metis new_base_state(1) snd_conv)
  obtain r2 w2 where c: "base_callback env (hook_execution_event b) w1 = (r2, w2)" by fastforce
  show ?case
  proof (cases enabled)
    case True
    show ?thesis
    proof (cases r2)
      case (Inr u)
      then have "emit_hook_execution_events env enabled rs w2 = (r, w')" using 2(2) True n c by simp
      then have "hooks_only (base (conv_state w2)) (base (conv_state w'))" using 2(1) [OF _ n [symmetric]] True by simp
      then show ?thesis using base_callback_hooks_only [OF c] s1 hooks_only_trans by metis
    qed (use 2(2) True n c s1 base_callback_hooks_only [OF c] in auto)
  qed (use 2(2) in simp)
qed simp

lemma count_runs_state [simp]: "conv_state (count_runs rs w) = conv_state w" "ids_used (count_runs rs w) = ids_used w"
  by (simp_all add: count_runs_def)

lemma on_state_block:
  "on_state (block_action werr i s) w = (r, w') \<Longrightarrow>
   base (conv_state w') = (base (conv_state w))\<lparr>blocked_actions := fmupd i s (blocked_actions (base (conv_state w)))\<rparr>"
  "on_state (block_message werr i s) w = (r, w') \<Longrightarrow>
   base (conv_state w') = (base (conv_state w))\<lparr>blocked_messages := fmupd i s (blocked_messages (base (conv_state w)))\<rparr>"
  unfolding block_action_def block_message_def by (drule on_state_setattr, simp)+

definition pre_tool_verdict ::
  "hook_processor \<Rightarrow> nat \<Rightarrow> action_event \<Rightarrow> (bool \<times> hook_result list) result" where
  "pre_tool_verdict p n a =
     (if \<not> has_hooks_for_event (hm_config (hp_manager p)) PRE_TOOL_USE then Inr (True, [])
      else run_pre_tool_use (hp_env p) (hp_runner p) (hp_manager p) n (tool_name a)
             (case action a of Some m \<Rightarrow> snd m | None \<Rightarrow> JDict fmempty))"

lemma handle_pre_tool_use_spec:
  assumes "handle_pre_tool_use env p a w = (r, w')"
  shows "handled (base (conv_state w)) (base (conv_state w'))"
    and "blocked_messages (base (conv_state w')) = blocked_messages (base (conv_state w))"
    and "r = Inr () \<Longrightarrow> \<exists>ok rs. pre_tool_verdict p (hooks_run w) a = Inr (ok, rs) \<and>
       blocked_actions (base (conv_state w')) =
         (if ok then blocked_actions (base (conv_state w))
          else fmupd (event_id a) (block_reason rs) (blocked_actions (base (conv_state w))))"
proof -
  let ?run = "run_pre_tool_use (hp_env p) (hp_runner p) (hp_manager p) (hooks_run w) (tool_name a)
             (case action a of Some m \<Rightarrow> snd m | None \<Rightarrow> JDict fmempty)"
  have "handled (base (conv_state w)) (base (conv_state w')) \<and>
    blocked_messages (base (conv_state w')) = blocked_messages (base (conv_state w)) \<and>
    (r = Inr () \<longrightarrow> (\<exists>ok rs. pre_tool_verdict p (hooks_run w) a = Inr (ok, rs) \<and>
       blocked_actions (base (conv_state w')) =
         (if ok then blocked_actions (base (conv_state w))
          else fmupd (event_id a) (block_reason rs) (blocked_actions (base (conv_state w))))))"
  proof (cases "has_hooks_for_event (hm_config (hp_manager p)) PRE_TOOL_USE")
    case True
    show ?thesis
    proof (cases ?run)
      case (Inr o1)
      obtain ok rs where o1: "o1 = (ok, rs)" by (cases o1)
      obtain r1 w1 where e: "emit_hook_execution_events env (emit_hook_events p) rs (count_runs rs w) = (r1, w1)" by fastforce
      have h: "hooks_only (base (conv_state w)) (base (conv_state w1))"
        using emit_hook_execution_events_spec [OF e] by simp
      have w': "(if ok \<or> r1 \<noteq> Inr () then w' = w1 \<and> r = r1
          else on_state (block_action (write_error env) (event_id a) (block_reason rs)) w1 = (r, w'))"
        using assms True Inr o1 e by (cases r1) (auto simp: handle_pre_tool_use_def)
      have v: "pre_tool_verdict p (hooks_run w) a = Inr (ok, rs)" using True Inr o1 by (simp add: pre_tool_verdict_def)
      show ?thesis
        using w' h v by (auto simp: hooks_only_def handled_def dest!: on_state_block(1) split: if_splits)
    qed (use assms True in \<open>auto simp: handle_pre_tool_use_def\<close>)
  qed (use assms in \<open>auto simp: handle_pre_tool_use_def pre_tool_verdict_def\<close>)
  then show "handled (base (conv_state w)) (base (conv_state w'))"
    and "blocked_messages (base (conv_state w')) = blocked_messages (base (conv_state w))"
    and "r = Inr () \<Longrightarrow> \<exists>ok rs. pre_tool_verdict p (hooks_run w) a = Inr (ok, rs) \<and>
       blocked_actions (base (conv_state w')) =
         (if ok then blocked_actions (base (conv_state w))
          else fmupd (event_id a) (block_reason rs) (blocked_actions (base (conv_state w))))"
    by blast+
qed

lemma handle_post_tool_use_spec:
  "handle_post_tool_use env p ob w = (r, w') \<Longrightarrow> hooks_only (base (conv_state w)) (base (conv_state w'))"
proof -
  assume h: "handle_post_tool_use env p ob w = (r, w')"
  show ?thesis
  proof (cases "has_hooks_for_event (hm_config (hp_manager p)) POST_TOOL_USE")
    case True
    show ?thesis
    proof (cases "find_action env (action_id ob) w")
      case (Inr found)
      show ?thesis
      proof (cases found)
        case (Some a)
        let ?run = "run_post_tool_use (hp_env p) (hp_runner p) (hp_manager p) (hooks_run w) (obs_tool_name ob)
                  (case action a of Some m \<Rightarrow> snd m | None \<Rightarrow> JDict fmempty) (snd (obs_model (observation ob)))"
        show ?thesis
        proof (cases ?run)
          case (Inr rs)
          then show ?thesis
            using h True \<open>find_action env _ w = _\<close> Some
              emit_hook_execution_events_spec [of env "emit_hook_events p" rs "count_runs rs w" r w']
            by (simp add: handle_post_tool_use_def)
        qed (use h True Inr Some in \<open>simp add: handle_post_tool_use_def\<close>)
      qed (use h True Inr in \<open>simp add: handle_post_tool_use_def\<close>)
    qed (use h True in \<open>simp add: handle_post_tool_use_def\<close>)
  qed (use h in \<open>simp add: handle_post_tool_use_def\<close>)
qed

text \<open>The verdict on a message: whether to go on, the context to add, the results.\<close>

definition prompt_verdict ::
  "hook_processor \<Rightarrow> nat \<Rightarrow> message_event \<Rightarrow> (bool \<times> string option \<times> hook_result list) result" where
  "prompt_verdict p n m =
     (if \<not> has_hooks_for_event (hm_config (hp_manager p)) USER_PROMPT_SUBMIT then Inr (True, None, [])
      else run_user_prompt_submit (hp_env p) (hp_runner p) (hp_manager p) n (text_parts (msg_content (llm_message m))))"

lemma with_context_state [simp]:
  "conv_state (snd (with_context env c m w)) = conv_state w"
  "event_id (fst (with_context env c m w)) = fst (new_ids env (ids_used w))"
  "source (fst (with_context env c m w)) = source m"
  by (simp_all add: with_context_def new_base_def split: prod.splits)

lemma handle_user_prompt_submit_spec:
  assumes "handle_user_prompt_submit env p m w = (r, w')"
  shows "handled (base (conv_state w)) (base (conv_state w'))"
    and "blocked_actions (base (conv_state w')) = blocked_actions (base (conv_state w))"
    and "r = Inr m' \<Longrightarrow> \<exists>ok ctx rs k. prompt_verdict p (hooks_run w) m = Inr (ok, ctx, rs) \<and>
       event_id m' = (if ctx = None then event_id m else fst (new_ids env k)) \<and> source m' = source m \<and>
       (ctx = None \<longrightarrow> m' = m) \<and>
       blocked_messages (base (conv_state w')) =
         (if ok then blocked_messages (base (conv_state w))
          else fmupd (event_id m) (block_reason rs) (blocked_messages (base (conv_state w))))"
proof -
  let ?run = "run_user_prompt_submit (hp_env p) (hp_runner p) (hp_manager p) (hooks_run w)
             (text_parts (msg_content (llm_message m)))"
  let ?goal = "handled (base (conv_state w)) (base (conv_state w')) \<and>
    blocked_actions (base (conv_state w')) = blocked_actions (base (conv_state w)) \<and>
    (\<forall>m'. r = Inr m' \<longrightarrow> (\<exists>ok ctx rs k. prompt_verdict p (hooks_run w) m = Inr (ok, ctx, rs) \<and>
       event_id m' = (if ctx = None then event_id m else fst (new_ids env k)) \<and> source m' = source m \<and>
       (ctx = None \<longrightarrow> m' = m) \<and>
       blocked_messages (base (conv_state w')) =
         (if ok then blocked_messages (base (conv_state w))
          else fmupd (event_id m) (block_reason rs) (blocked_messages (base (conv_state w))))))"
  have ?goal
  proof (cases "has_hooks_for_event (hm_config (hp_manager p)) USER_PROMPT_SUBMIT")
    case True
    show ?thesis
    proof (cases ?run)
      case (Inr o1)
      obtain ok ctx rs where o1: "o1 = (ok, ctx, rs)" by (cases o1)
      have v: "prompt_verdict p (hooks_run w) m = Inr (ok, ctx, rs)" using True Inr o1 by (simp add: prompt_verdict_def)
      obtain r1 w1 where e: "emit_hook_execution_events env (emit_hook_events p) rs (count_runs rs w) = (r1, w1)" by fastforce
      have h: "hooks_only (base (conv_state w)) (base (conv_state w1))"
        using emit_hook_execution_events_spec [OF e] by simp
      obtain r2 w2 where b: "(if ok then (Inr (), w1)
          else on_state (block_message (write_error env) (event_id m) (block_reason rs)) w1) = (r2, w2)" by fastforce
      have h2: "base (conv_state w2) = (if ok then base (conv_state w1)
          else (base (conv_state w1))\<lparr>blocked_messages := fmupd (event_id m) (block_reason rs) (blocked_messages (base (conv_state w1)))\<rparr>)"
        using b by (auto dest: on_state_block(2) split: if_splits)
      have r: "(if r1 \<noteq> Inr () then (\<exists>err. r = Inl err) \<and> w' = w1
          else if r2 \<noteq> Inr () then (\<exists>err. r = Inl err) \<and> w' = w2
          else (case ctx of None \<Rightarrow> r = Inr m \<and> w' = w2
            | Some c \<Rightarrow> r = Inr (fst (with_context env c m w2)) \<and> w' = snd (with_context env c m w2)))"
        using assms True Inr o1 e b
        by (cases r1; cases r2) (auto simp: handle_user_prompt_submit_def split: option.splits prod.splits)
      show ?thesis
        using r h h2 v by (cases ctx) (auto simp: hooks_only_def handled_def split: if_splits)
    qed (use assms True in \<open>auto simp: handle_user_prompt_submit_def\<close>)
  qed (use assms in \<open>auto simp: handle_user_prompt_submit_def prompt_verdict_def\<close>)
  then show "handled (base (conv_state w)) (base (conv_state w'))"
    and "blocked_actions (base (conv_state w')) = blocked_actions (base (conv_state w))"
    and "r = Inr m' \<Longrightarrow> \<exists>ok ctx rs k. prompt_verdict p (hooks_run w) m = Inr (ok, ctx, rs) \<and>
       event_id m' = (if ctx = None then event_id m else fst (new_ids env k)) \<and> source m' = source m \<and>
       (ctx = None \<longrightarrow> m' = m) \<and>
       blocked_messages (base (conv_state w')) =
         (if ok then blocked_messages (base (conv_state w))
          else fmupd (event_id m) (block_reason rs) (blocked_messages (base (conv_state w))))"
    by blast+
qed

lemma stamp_parent_id_cases:
  assumes "stamp_parent_id env st s e = Inr e'"
  obtains "e' = e" | q where "e' = with_parent q e"
  using assms by (auto simp: stamp_parent_id_def bind_result_Inr_iff split: if_splits)

lemma bind_base_callback_handled:
  assumes "bind_op o1 (\<lambda>x w1. base_callback env (f x) w1) = (r, w')" "handled b (base (conv_state (snd o1)))"
  shows "handled b (base (conv_state w'))"
proof (cases "fst o1")
  case (Inl e)
  then show ?thesis using assms by (auto simp: bind_op_def)
next
  case (Inr x)
  then have "base_callback env (f x) (snd o1) = (r, w')" using assms(1) by (simp add: bind_op_def)
  from base_callback_spec(1) [OF this] show ?thesis using assms(2) handled_trans by blast
qed

lemma on_event_handled:
  assumes "on_event env e w = (r, w')"
  shows "handled (base (conv_state w)) (base (conv_state w'))"
proof (cases "stamp_parent_id (log_of env) (conv_files w) (conv_state w) e")
  case (Inr e1)
  show ?thesis
  proof (cases "processor env")
    case None
    then show ?thesis using assms Inr base_callback_spec(1) by (simp add: on_event_def)
  next
    case (Some p)
    then have p: "processor_on_event env p e1 w = (r, w')" using assms Inr by (simp add: on_event_def)
    show ?thesis
    proof (cases e1)
      case (ActionEvent a)
      have "handled (base (conv_state w)) (base (conv_state (snd (if action a \<noteq> None then handle_pre_tool_use env p a w else (Inr (), w)))))"
        using handle_pre_tool_use_spec(1) [of env p a w, OF prod.collapse [symmetric]] by simp
      moreover have "bind_op (if action a \<noteq> None then handle_pre_tool_use env p a w else (Inr (), w)) (\<lambda>_ w1. base_callback env e1 w1) = (r, w')"
        using p ActionEvent by (simp add: processor_on_event_def)
      ultimately show ?thesis by (rule bind_base_callback_handled [rotated])
    next
      case (ObservationEvent ob)
      have "handled (base (conv_state w)) (base (conv_state (snd (handle_post_tool_use env p ob w))))"
        using handle_post_tool_use_spec [of env p ob w, OF prod.collapse [symmetric]] by (simp add: hooks_only_def)
      moreover have "bind_op (handle_post_tool_use env p ob w) (\<lambda>_ w1. base_callback env e1 w1) = (r, w')"
        using p ObservationEvent by (simp add: processor_on_event_def)
      ultimately show ?thesis by (rule bind_base_callback_handled [rotated])
    next
      case (MessageEvent m)
      have "handled (base (conv_state w)) (base (conv_state (snd (if source m = SourceUser then handle_user_prompt_submit env p m w else (Inr m, w)))))"
        using handle_user_prompt_submit_spec(1) [of env p m w, OF prod.collapse [symmetric]] by simp
      moreover have "bind_op (if source m = SourceUser then handle_user_prompt_submit env p m w else (Inr m, w)) (\<lambda>m' w1. base_callback env (MessageEvent m') w1) = (r, w')"
        using p MessageEvent by (simp add: processor_on_event_def)
      ultimately show ?thesis by (rule bind_base_callback_handled [rotated])
    qed (use p base_callback_spec(1) in \<open>simp_all add: processor_on_event_def\<close>)
  qed
qed (use assms in \<open>simp add: on_event_def\<close>)

text \<open>The verdicts read neither the parent nor the identifier of an event.\<close>

lemma verdict_parent [simp]:
  "pre_tool_verdict p n (a\<lparr>parent_id := q\<rparr>) = pre_tool_verdict p n a"
  "prompt_verdict p n (m\<lparr>parent_id := q\<rparr>) = prompt_verdict p n m"
  by (simp_all add: pre_tool_verdict_def prompt_verdict_def)

text \<open>A message of the user with hooks: what is recorded of it.\<close>

lemma user_message_recorded:
  assumes "processor env = Some p" "source m = SourceUser" "on_event env (MessageEvent m) w = (Inr (), w')"
  shows "\<exists>ok ctx rs k. prompt_verdict p (hooks_run w) m = Inr (ok, ctx, rs) \<and>
    last_user_message_id (base (conv_state w')) = Some (if ctx = None then event_id m else fst (new_ids env k)) \<and>
    blocked_messages (base (conv_state w')) =
      (if ok then blocked_messages (base (conv_state w))
       else fmupd (event_id m) (block_reason rs) (blocked_messages (base (conv_state w))))"
proof -
  obtain e1 where e1: "stamp_parent_id (log_of env) (conv_files w) (conv_state w) (MessageEvent m) = Inr e1"
    "processor_on_event env p e1 w = (Inr (), w')"
    using assms by (auto simp: on_event_def bind_op_def split: sum.splits)
  obtain m1 where m1: "e1 = MessageEvent m1" "m1 = m \<or> (\<exists>q. m1 = m\<lparr>parent_id := q\<rparr>)"
    by (rule stamp_parent_id_cases [OF e1(1)]) auto
  then have same: "event_id m1 = event_id m" "source m1 = SourceUser"
    "prompt_verdict p n m1 = prompt_verdict p n m" for n
    using assms(2) by auto
  obtain m' w1 where hooks: "handle_user_prompt_submit env p m1 w = (Inr m', w1)"
    and last: "base_callback env (MessageEvent m') w1 = (Inr (), w')"
    using e1(2) m1(1) same(2) by (auto simp: processor_on_event_def bind_op_Inr_iff)
  obtain ok ctx rs k where v: "prompt_verdict p (hooks_run w) m = Inr (ok, ctx, rs)"
    "event_id m' = (if ctx = None then event_id m else fst (new_ids env k))" "source m' = SourceUser"
    "blocked_messages (base (conv_state w1)) =
      (if ok then blocked_messages (base (conv_state w))
       else fmupd (event_id m) (block_reason rs) (blocked_messages (base (conv_state w))))"
    using handle_user_prompt_submit_spec(3) [OF hooks refl] unfolding same by blast
  show ?thesis
    using v(1) base_callback_spec(3,4) [OF last] v(2-4)
    by (intro exI [of _ ok] exI [of _ ctx] exI [of _ rs] exI [of _ k]) simp
qed

text \<open>Handling an event makes no LLM call and runs no batch of tools.\<close>

definition counters :: "conversation \<Rightarrow> nat \<times> nat" where
  "counters w = (llm_calls w, batches_run w)"

lemma counters_simps [simp]:
  "counters (w\<lparr>conv_state := s\<rparr>) = counters w" "counters (w\<lparr>conv_files := st\<rparr>) = counters w"
  "counters (snd (new_base env src w)) = counters w" "counters (count_runs rs w) = counters w"
  "counters (snd (with_context env c m w)) = counters w"
  by (simp_all add: counters_def new_base_def count_runs_def with_context_def split: prod.splits)

lemma counters_on_state: "on_state f w = (r, w') \<Longrightarrow> counters w' = counters w"
  by (auto simp: on_state_def split: prod.splits)

lemma counters_base_callback: "base_callback env e w = (r, w') \<Longrightarrow> counters w' = counters w"
  by (auto simp: base_callback_def default_callback_def track_last_user_message_def bind_op_def
      dest!: counters_on_state split: prod.splits sum.splits if_splits)

lemma counters_emit_hooks: "emit_hook_execution_events env enabled rs w = (r, w') \<Longrightarrow> counters w' = counters w"
proof (induction env enabled rs w arbitrary: r w' rule: emit_hook_execution_events.induct)
  case (2 env enabled h rs w)
  obtain b w1 where n: "new_base env SourceHook w = (b, w1)" by fastforce
  then have s1: "counters w1 = counters w" by (metis counters_simps(3) snd_conv)
  obtain r2 w2 where c: "base_callback env (hook_execution_event b) w1 = (r2, w2)" by fastforce
  show ?case
    using 2(1) [OF _ n [symmetric]] 2(2) n c s1 counters_base_callback [OF c]
    by (cases enabled; cases r2) auto
qed simp

lemma counters_bind:
  assumes "bind_op o1 f = (r, w')" "counters (snd o1) = counters w" "\<And>x w1 r' w2. f x w1 = (r', w2) \<Longrightarrow> counters w2 = counters w1"
  shows "counters w' = counters w"
  using assms by (cases o1; cases "fst o1") (auto simp: bind_op_def)

lemma counters_context: "with_context env c m w = (m', w') \<Longrightarrow> counters w' = counters w"
  by (metis counters_simps(5) snd_conv)

lemma counters_handlers:
  "counters (snd (handle_pre_tool_use env p a w)) = counters w"
  "counters (snd (handle_post_tool_use env p ob w)) = counters w"
  "counters (snd (handle_user_prompt_submit env p m w)) = counters w"
proof -
  have e: "counters (snd (emit_hook_execution_events env x rs w)) = counters w" for x rs w
    using counters_emit_hooks [of env x rs w] by (metis prod.collapse)
  have b: "counters (snd (bind_op o1 f)) = counters w"
    if "counters (snd o1) = counters w" "\<And>y w1. counters (snd (f y w1)) = counters w1"
    for o1 :: "'x conv_op" and f :: "'x \<Rightarrow> conversation \<Rightarrow> 'y conv_op" and w
    using that by (cases o1; cases "fst o1") (auto simp: bind_op_def)
  have s: "counters (snd (on_state f w)) = counters w" for f :: "conversation_state \<Rightarrow> unit state_op" and w
    using counters_on_state [of f w] by (metis prod.collapse)
  show "counters (snd (handle_pre_tool_use env p a w)) = counters w"
    unfolding handle_pre_tool_use_def by (auto split: sum.splits prod.splits intro!: b simp: e s)
  show "counters (snd (handle_post_tool_use env p ob w)) = counters w"
    unfolding handle_post_tool_use_def by (auto split: option.splits intro!: b simp: e s)
  show "counters (snd (handle_user_prompt_submit env p m w)) = counters w"
    unfolding handle_user_prompt_submit_def
    by (auto split: sum.splits prod.splits option.splits intro!: b simp: e s counters_context)
qed

lemma counters_on_event [simp]: "counters (snd (on_event env e w)) = counters w"
proof -
  have base: "counters (snd (base_callback env e w)) = counters w" for e w
    using counters_base_callback [of env e w] by (metis prod.collapse)
  have b: "counters (snd (bind_op o1 (\<lambda>x w1. base_callback env (f x) w1))) = counters w"
    if "counters (snd o1) = counters w" for o1 :: "'x conv_op" and f w
    using that by (cases o1; cases "fst o1") (auto simp: bind_op_def base)
  have h: "counters (snd (processor_on_event env p e w)) = counters w" for p e
    unfolding processor_on_event_def
    by (cases e) (auto intro!: b simp: base counters_handlers)
  show ?thesis
    by (cases "stamp_parent_id (log_of env) (conv_files w) (conv_state w) e"; cases "processor env")
      (simp_all add: on_event_def base h)
qed

section \<open>Recording an action\<close>

text \<open>Running the hooks of an action changes HEAD, as events of the runs are appended, and the blocked
  actions.\<close>

definition head_and_blocks :: "base_state \<Rightarrow> base_state \<Rightarrow> bool" where
  "head_and_blocks b b' \<longleftrightarrow> (\<exists>l h B. b' = b\<lparr>leaf_event_id := l, head_is_empty := h, blocked_actions := B\<rparr>)"

lemma only_head_blocks: "only_head b b' \<Longrightarrow> head_and_blocks b (b'\<lparr>blocked_actions := B\<rparr>)"
  unfolding only_head_def head_and_blocks_def by auto

lemma only_head_head_and_blocks: "only_head b b' \<Longrightarrow> head_and_blocks b b'"
  using only_head_blocks [of b b' "blocked_actions b'"] by simp

lemma emit_hooks_only_head:
  "emit_hook_execution_events env enabled rs w = (r, w') \<Longrightarrow> only_head (base (conv_state w)) (base (conv_state w'))"
proof (induction env enabled rs w arbitrary: r w' rule: emit_hook_execution_events.induct)
  case (2 env enabled h rs w)
  obtain b w1 where n: "new_base env SourceHook w = (b, w1)" by fastforce
  then have s1: "conv_state w1 = conv_state w" by (metis new_base_state(1) snd_conv)
  obtain r2 w2 where c: "base_callback env (hook_execution_event b) w1 = (r2, w2)" by fastforce
  then have h2: "only_head (base (conv_state w)) (base (conv_state w2))"
    using default_callback_base [of env "hook_execution_event b" w1] s1
    by (cases "default_callback env (hook_execution_event b) w1"; cases "fst (default_callback env (hook_execution_event b) w1)")
      (auto simp: base_callback_def track_last_user_message_def hook_execution_event_def)
  show ?case
  proof (cases "enabled \<and> r2 = Inr ()")
    case True
    then have "emit_hook_execution_events env enabled rs w2 = (r, w')" using 2(2) n c by simp
    then have "only_head (base (conv_state w2)) (base (conv_state w'))" using 2(1) [OF _ n [symmetric]] True by simp
    with h2 show ?thesis by (rule only_head_trans)
  next
    case False
    then show ?thesis using 2(2) n c h2 by (cases r2) (auto split: if_splits)
  qed
qed simp

lemma handle_pre_tool_use_fields:
  assumes "handle_pre_tool_use env p a w = (r, w')"
  shows "head_and_blocks (base (conv_state w)) (base (conv_state w'))"
proof (cases "has_hooks_for_event (hm_config (hp_manager p)) PRE_TOOL_USE")
  case True
  show ?thesis
  proof (cases "run_pre_tool_use (hp_env p) (hp_runner p) (hp_manager p) (hooks_run w) (tool_name a)
             (case action a of Some m \<Rightarrow> snd m | None \<Rightarrow> JDict fmempty)")
    case (Inr o1)
    obtain ok rs where o1: "o1 = (ok, rs)" by (cases o1)
    obtain r1 w1 where e: "emit_hook_execution_events env (emit_hook_events p) rs (count_runs rs w) = (r1, w1)" by fastforce
    have h: "only_head (base (conv_state w)) (base (conv_state w1))"
      using emit_hooks_only_head [OF e] by simp
    have w': "(if ok \<or> r1 \<noteq> Inr () then w' = w1 \<and> r = r1
        else on_state (block_action (write_error env) (event_id a) (block_reason rs)) w1 = (r, w'))"
      using assms True Inr o1 e by (cases r1) (auto simp: handle_pre_tool_use_def)
    show ?thesis
    proof (cases "ok \<or> r1 \<noteq> Inr ()")
      case True
      then show ?thesis using w' only_head_head_and_blocks [OF h] by simp
    next
      case False
      then show ?thesis using w' only_head_blocks [OF h] on_state_block(1) by (metis (no_types))
    qed
  qed (use assms True only_head_head_and_blocks [OF only_head_refl] in \<open>auto simp: handle_pre_tool_use_def\<close>)
qed (use assms only_head_head_and_blocks [OF only_head_refl] in \<open>auto simp: handle_pre_tool_use_def\<close>)

lemma stamped_action:
  assumes "stamp_parent_id env st s (ActionEvent a) = Inr e1"
  obtains q where "e1 = ActionEvent (a\<lparr>parent_id := q\<rparr>)" "parent_id a \<noteq> None \<longrightarrow> q = parent_id a"
proof (cases "parent_id a")
  case None
  then show ?thesis using assms that by (auto simp: stamp_parent_id_def bind_result_Inr_iff)
next
  case (Some q)
  then have "e1 = ActionEvent (a\<lparr>parent_id := Some q\<rparr>)" using assms by (cases a) (simp add: stamp_parent_id_def)
  then show ?thesis using that Some by simp
qed

text \<open>A successful append of a log.\<close>

lemma append_log_adds:
  assumes "append_log env st L e = (Inr idx, L', st')"
  shows "el_length L' = idx + 1" "event_cache L' idx = Some e"
    and "\<exists>d. map_of st' (event_file_name d (ev_id e)) = Some (dump_event env e)"
proof -
  define L1 where "L1 = synced env st L"
  have idx: "idx = el_length L1" and "L' = L1\<lparr>disk_idx := (if max (el_length L1) (next_disk_idx L1) \<noteq> el_length L1
          then (disk_idx L1)(el_length L1 \<mapsto> max (el_length L1) (next_disk_idx L1)) else disk_idx L1),
        next_disk_idx := max (el_length L1) (next_disk_idx L1) + 1,
        idx_to_id := AList.update (el_length L1) (ev_id e) (idx_to_id L1),
        id_to_idx := fmupd (ev_id e) (el_length L1) (id_to_idx L1),
        event_cache := (event_cache L1)(el_length L1 \<mapsto> e), el_length := el_length L1 + 1\<rparr>"
    and st': "st' = advance_length_marker env idx (idx + 1)
        (AList.update (event_file_name (max (el_length L1) (next_disk_idx L1)) (ev_id e)) (dump_event env e) st)"
    using assms by (auto simp: append_log_def Let_def L1_def split: if_splits option.splits)
  then show "el_length L' = idx + 1" "event_cache L' idx = Some e" by simp_all
  show "\<exists>d. map_of st' (event_file_name d (ev_id e)) = Some (dump_event env e)"
    unfolding st' map_of_advance_marker [OF event_file_name_shape(1)] by (auto simp: update_conv')
qed

lemma advance_head_fields:
  assumes "advance_head werr e s = (Inr (), s')" "\<not> is_state_update e"
  shows "base s' = (base s)\<lparr>leaf_event_id := Some (ev_id e), head_is_empty := False\<rparr>"
proof -
  obtain s1 where s1: "set_leaf werr (Some (ev_id e)) s = (Inr (), s1)"
    and s': "(if head_is_empty (base s1) then set_head_is_empty werr False s1 else (Inr (), s1)) = (Inr (), s')"
    using assms by (auto simp: advance_head_def bind_op_Inr_iff)
  have b1: "base s1 = (base s)\<lparr>leaf_event_id := Some (ev_id e)\<rparr>"
    using setattr_state [OF s1 [unfolded set_leaf_def]] by simp
  show ?thesis
  proof (cases "head_is_empty (base s1)")
    case True
    then have "set_head_is_empty werr False s1 = (Inr (), s')" using s' by simp
    then show ?thesis using setattr_state [of werr "''head_is_empty''" _ s1 "Inr ()" s'] b1
      by (simp add: set_head_is_empty_def)
  next
    case False
    then show ?thesis using s' b1 by (cases "base s") simp
  qed
qed

text \<open>The last callback, for an action: the append, with the parent stamped if it has none yet.\<close>

lemma action_appended:
  assumes "base_callback env (ActionEvent (a\<lparr>parent_id := q1\<rparr>)) w = (Inr (), w')"
  shows "\<exists>q idx d. append_log (log_of env) (conv_files w) (event_log_of (conv_state w)) (ActionEvent (a\<lparr>parent_id := q\<rparr>)) =
      (Inr idx, event_log_of (conv_state w'), conv_files w') \<and> (q1 \<noteq> None \<longrightarrow> q = q1) \<and>
    el_length (event_log_of (conv_state w')) = idx + 1 \<and>
    event_cache (event_log_of (conv_state w')) idx = Some (ActionEvent (a\<lparr>parent_id := q\<rparr>)) \<and>
    map_of (conv_files w') (event_file_name d (event_id a)) = Some (dump_event (log_of env) (ActionEvent (a\<lparr>parent_id := q\<rparr>))) \<and>
    base (conv_state w') = (base (conv_state w))\<lparr>leaf_event_id := Some (event_id a), head_is_empty := False\<rparr>"
proof -
  obtain seq where app: "state_append_event (log_of env) (write_error env) (conv_files w) (conv_state w)
      (ActionEvent (a\<lparr>parent_id := q1\<rparr>)) = (Inr seq, conv_state w', conv_files w')"
    using assms by (auto simp: base_callback_def default_callback_def track_last_user_message_def bind_op_Inr_iff
        bind_result_Inr_iff split: prod.splits)
  then obtain e1 where e1: "stamp_parent_id (log_of env) (conv_files w) (conv_state w) (ActionEvent (a\<lparr>parent_id := q1\<rparr>)) = Inr e1"
    by (auto simp: state_append_event_def split: sum.splits)
  obtain q where q: "e1 = ActionEvent (a\<lparr>parent_id := q\<rparr>)" "q1 \<noteq> None \<longrightarrow> q = q1"
    by (rule stamped_action [OF e1]) simp
  obtain idx L st where log: "append_log (log_of env) (conv_files w) (event_log_of (conv_state w)) e1 = (Inr idx, L, st)"
    and head: "advance_head (write_error env) e1 ((conv_state w)\<lparr>event_log_of := L\<rparr>) = (Inr (), conv_state w')" "conv_files w' = st"
    using app e1 by (auto simp: state_append_event_def split: sum.splits prod.splits)
  have L: "event_log_of (conv_state w') = L" using advance_head_state(1) [OF head(1)] by (simp add: same_tree_def)
  have "base (conv_state w') = (base (conv_state w))\<lparr>leaf_event_id := Some (event_id a), head_is_empty := False\<rparr>"
    using advance_head_fields [OF head(1)] q(1) by simp
  then show ?thesis
    using log append_log_adds [OF log] q head(2) L by auto
qed

section \<open>Properties\<close>

text \<open>C31: An action with hooks, when its handling succeeds: the hooks run first, and their verdict is
  recorded before the action is; the append then starts in a state that already holds the block, with
  a reason that is not empty, if the action can be executed and the hooks blocked it, and holds no new
  block otherwise. The append puts exactly this action, its parent stamped, behind all others of the log
  and into a file of its own. Of the fields, the blocked actions change in this way, HEAD moves to the
  action, and nothing else changes.\<close>

theorem action_block_recorded:
  assumes "processor env = Some p" "on_event env (ActionEvent a) w = (Inr (), w')"
  shows "\<exists>ok rs q1 q w1 idx d. (action a \<noteq> None \<longrightarrow> pre_tool_verdict p (hooks_run w) a = Inr (ok, rs)) \<and> block_reason rs \<noteq> [] \<and>
    (if action a \<noteq> None then handle_pre_tool_use env p (a\<lparr>parent_id := q1\<rparr>) w else (Inr (), w)) = (Inr (), w1) \<and>
    blocked_actions (base (conv_state w1)) =
      (if action a = None \<or> ok then blocked_actions (base (conv_state w))
       else fmupd (event_id a) (block_reason rs) (blocked_actions (base (conv_state w)))) \<and>
    append_log (log_of env) (conv_files w1) (event_log_of (conv_state w1)) (ActionEvent (a\<lparr>parent_id := q\<rparr>)) =
      (Inr idx, event_log_of (conv_state w'), conv_files w') \<and> (parent_id a \<noteq> None \<longrightarrow> q = parent_id a) \<and>
    el_length (event_log_of (conv_state w')) = idx + 1 \<and>
    event_cache (event_log_of (conv_state w')) idx = Some (ActionEvent (a\<lparr>parent_id := q\<rparr>)) \<and>
    map_of (conv_files w') (event_file_name d (event_id a)) =
      Some (dump_event (log_of env) (ActionEvent (a\<lparr>parent_id := q\<rparr>))) \<and>
    base (conv_state w') = (base (conv_state w))
      \<lparr>blocked_actions := blocked_actions (base (conv_state w1)),
       leaf_event_id := Some (event_id a), head_is_empty := False\<rparr>"
proof -
  obtain e1 where e1: "stamp_parent_id (log_of env) (conv_files w) (conv_state w) (ActionEvent a) = Inr e1"
    "processor_on_event env p e1 w = (Inr (), w')"
    using assms by (auto simp: on_event_def bind_op_def split: sum.splits)
  obtain q1 where q1: "e1 = ActionEvent (a\<lparr>parent_id := q1\<rparr>)" "parent_id a \<noteq> None \<longrightarrow> q1 = parent_id a"
    by (rule stamped_action [OF e1(1)])
  obtain w1 where hooks: "(if action a \<noteq> None then handle_pre_tool_use env p (a\<lparr>parent_id := q1\<rparr>) w else (Inr (), w)) = (Inr (), w1)"
    and last: "base_callback env (ActionEvent (a\<lparr>parent_id := q1\<rparr>)) w1 = (Inr (), w')"
    using e1(2) q1(1) by (auto simp: processor_on_event_def bind_op_Inr_iff)
  obtain ok rs where verdict: "action a \<noteq> None \<longrightarrow> pre_tool_verdict p (hooks_run w) a = Inr (ok, rs)"
    "blocked_actions (base (conv_state w1)) =
      (if action a = None \<or> ok then blocked_actions (base (conv_state w))
       else fmupd (event_id a) (block_reason rs) (blocked_actions (base (conv_state w))))"
    using hooks handle_pre_tool_use_spec(3) [of env p "a\<lparr>parent_id := q1\<rparr>" w "Inr ()" w1]
    by (cases "action a = None") auto
  have "head_and_blocks (base (conv_state w)) (base (conv_state w1))"
    using hooks handle_pre_tool_use_fields [of env p "a\<lparr>parent_id := q1\<rparr>" w "Inr ()" w1]
      only_head_head_and_blocks [OF only_head_refl]
    by (cases "action a = None") auto
  then have w1: "(base (conv_state w1))\<lparr>leaf_event_id := l, head_is_empty := h\<rparr> =
      (base (conv_state w))\<lparr>blocked_actions := blocked_actions (base (conv_state w1)), leaf_event_id := l,
        head_is_empty := h\<rparr>" for l h
    by (auto simp: head_and_blocks_def)
  have reason: "block_reason rs \<noteq> []" by (simp add: block_reason_def split: option.splits list.splits)
  obtain q idx d where q: "q1 \<noteq> None \<longrightarrow> q = q1"
    and app: "append_log (log_of env) (conv_files w1) (event_log_of (conv_state w1)) (ActionEvent (a\<lparr>parent_id := q\<rparr>)) =
        (Inr idx, event_log_of (conv_state w'), conv_files w')"
      "el_length (event_log_of (conv_state w')) = idx + 1"
      "event_cache (event_log_of (conv_state w')) idx = Some (ActionEvent (a\<lparr>parent_id := q\<rparr>))"
      "map_of (conv_files w') (event_file_name d (event_id a)) = Some (dump_event (log_of env) (ActionEvent (a\<lparr>parent_id := q\<rparr>)))"
    and fields_after: "base (conv_state w') = (base (conv_state w1))\<lparr>leaf_event_id := Some (event_id a), head_is_empty := False\<rparr>"
    using action_appended [OF last] by blast
  have "parent_id a \<noteq> None \<longrightarrow> q = parent_id a" using q q1(2) by auto
  then show ?thesis
    using verdict reason hooks app fields_after [unfolded w1] by blast
qed

section \<open>Witnesses\<close>

definition sample_processor :: hook_processor where
  "sample_processor = \<lparr>hp_env = sample_hook_env, hp_runner = sample_runner, hp_manager = sample_manager, emit_hook_events = False\<rparr>"

definition sample_conv_env :: conversation_env where
  "sample_conv_env = \<lparr>log_of = tree_env, write_error = (\<lambda>_. None),
     new_ids = (\<lambda>n. (''ffffffff'' @ show_nat n, [])), processor = Some sample_processor\<rparr>"

definition sample_conversation :: conversation where
  "sample_conversation = \<lparr>conv_state = sample_state, conv_files = sample_store, ids_used = 0, hooks_run = 0,
     pending_context = [], llm_calls = 0, batches_run = 0, refinement_iteration = 0, last_nudged = None\<rparr>"

lemma sample_action_computed:
  "fst (on_event sample_conv_env (ActionEvent (sample_action_event ''eeeeeeee'' ''c2'' ''r2'' [])) sample_conversation) = Inr ()"
  "map_sum id (\<lambda>(ok, rs). (ok, block_reason rs))
     (pre_tool_verdict sample_processor (hooks_run sample_conversation) (sample_action_event ''eeeeeeee'' ''c2'' ''r2'' [])) = Inr (False, ''bad'')"
  unfolding atomize_conj by code_simp

theorem action_block_recorded_witness:
  "\<exists>w'. on_event sample_conv_env (sample_action ''eeeeeeee'' ''c2'' ''r2'') sample_conversation = (Inr (), w') \<and>
     fmlookup (blocked_actions (base (conv_state w'))) ''eeeeeeee'' = Some ''bad''"
proof -
  let ?a = "sample_action_event ''eeeeeeee'' ''c2'' ''r2'' []"
  have p: "processor sample_conv_env = Some sample_processor" by (simp add: sample_conv_env_def)
  obtain w' where w': "on_event sample_conv_env (ActionEvent ?a) sample_conversation = (Inr (), w')"
    using sample_action_computed(1) by (metis prod.collapse)
  note v = sample_action_computed(2)
  have a: "action ?a \<noteq> None" "event_id ?a = ''eeeeeeee''" by (simp_all add: sample_action_event_def sample_base_def)
  show ?thesis
    using action_block_recorded [OF p w'] v a w' by (auto simp: sample_action_def map_sum_def split: sum.splits)
qed

end
