(* ===== verification/Security.thy ===== *)
theory Security
  imports Conversation_State
begin

text \<open>
  Confirmation of risky actions: the confirmation policies (\<open>security/confirmation_policy.py\<close>), the
  analyzer interface and its batch methods (\<open>security/analyzer.py\<close>), the LLM analyzer and the
  ensemble (\<open>security/llm_analyzer.py\<close>, \<open>security/ensemble.py\<close>), and what the agent does with their
  verdicts (\<open>agent/agent.py\<close>).

  An analyzer outside these files is its \<open>security_risk\<close> with the overrides it may have of
  \<open>analyze_action\<close> and \<open>analyze_pending_actions\<close>. Exceptions carry no text in this development, so the
  text recorded for one is a parameter. The callback of the check is a parameter too: an operation on
  the state that receives the audit (its secrets masked on the way), and may append events or raise.
\<close>

section \<open>Policies\<close>

datatype confirmation_policy =
    AlwaysConfirm
  | NeverConfirm
  | ConfirmRisky (threshold: SecurityRisk) (confirm_unknown: bool)

text \<open>The construction of \<open>ConfirmRisky\<close> with its validator.\<close>

definition validate_threshold :: "SecurityRisk \<Rightarrow> SecurityRisk result" where
  "validate_threshold v = (if v = UNKNOWN then Inl ValueError else Inr v)"

definition new_confirm_risky :: "SecurityRisk \<Rightarrow> bool \<Rightarrow> confirmation_policy result" where
  "new_confirm_risky t u = bind_result (validate_threshold t) (\<lambda>v. Inr (ConfirmRisky v u))"

fun should_confirm :: "confirmation_policy \<Rightarrow> SecurityRisk \<Rightarrow> bool result" where
  "should_confirm AlwaysConfirm r = Inr True"
| "should_confirm NeverConfirm r = Inr False"
| "should_confirm (ConfirmRisky t u) r = (if r = UNKNOWN then Inr u else is_riskier r t True)"

section \<open>Analyzers\<close>

record security_analysis =
  analysis_risk :: SecurityRisk
  analysis_details :: "(string, json) fmap option"

datatype analyzer =
    LLMSecurityAnalyzer
  | EnsembleSecurityAnalyzer (analyzers: "analyzer list") (propagate_unknown: bool)
  | OtherAnalyzer "action_event \<Rightarrow> SecurityRisk result"
      "(action_event \<Rightarrow> security_analysis result) option"
      "(action_event list \<Rightarrow> (action_event \<times> SecurityRisk) list result) option"

text \<open>The fusion of the ensemble: an exception of a child counts as \<open>HIGH\<close>.\<close>

definition fuse_risks :: "bool \<Rightarrow> SecurityRisk result list \<Rightarrow> SecurityRisk result" where
  "fuse_risks propagate answers =
     (let results = map (\<lambda>r. case r of Inl _ \<Rightarrow> HIGH | Inr x \<Rightarrow> x) answers;
          concrete = filter (\<lambda>r. r \<noteq> UNKNOWN) results
      in if propagate \<and> UNKNOWN \<in> set results then Inr UNKNOWN
         else if concrete = [] then Inr UNKNOWN
         else risk_max concrete)"

fun security_risk_of :: "analyzer \<Rightarrow> action_event \<Rightarrow> SecurityRisk result" where
  "security_risk_of LLMSecurityAnalyzer a = Inr (security_risk a)"
| "security_risk_of (EnsembleSecurityAnalyzer children propagate) a =
     fuse_risks propagate (map (\<lambda>c. security_risk_of c a) children)"
| "security_risk_of (OtherAnalyzer f _ _) a = f a"

definition analyze_event :: "analyzer \<Rightarrow> event \<Rightarrow> SecurityRisk option result" where
  "analyze_event an e =
     (case e of ActionEvent a \<Rightarrow> bind_result (security_risk_of an a) (\<lambda>r. Inr (Some r)) | _ \<Rightarrow> Inr None)"

definition should_require_confirmation :: "SecurityRisk \<Rightarrow> bool \<Rightarrow> bool" where
  "should_require_confirmation r confirmation_mode =
     (if r = HIGH then True
      else if r = UNKNOWN \<and> \<not> confirmation_mode then True
      else if confirmation_mode then True
      else False)"

fun analyze_action :: "analyzer \<Rightarrow> action_event \<Rightarrow> security_analysis result" where
  "analyze_action (OtherAnalyzer _ (Some g) _) a = g a"
| "analyze_action an a =
     bind_result (security_risk_of an a) (\<lambda>r. Inr \<lparr>analysis_risk = r, analysis_details = None\<rparr>)"

definition analyze_actions_default ::
  "(py_error \<Rightarrow> string) \<Rightarrow> analyzer \<Rightarrow> action_event list \<Rightarrow> (action_event \<times> security_analysis) list" where
  "analyze_actions_default str_error an acts =
     map (\<lambda>a. (a,
       case analyze_action an a of
         Inr x \<Rightarrow> x
       | Inl e \<Rightarrow> \<lparr>analysis_risk = HIGH, analysis_details = Some (fmupd ''error'' (JStr (str_error e)) fmempty)\<rparr>)) acts"

fun pending_override :: "analyzer \<Rightarrow> (action_event list \<Rightarrow> (action_event \<times> SecurityRisk) list result) option" where
  "pending_override (OtherAnalyzer _ _ p) = p"
| "pending_override _ = None"

definition analyze_pending_actions ::
  "(py_error \<Rightarrow> string) \<Rightarrow> analyzer \<Rightarrow> action_event list \<Rightarrow> (action_event \<times> SecurityRisk) list result" where
  "analyze_pending_actions str_error an acts =
     (case pending_override an of
        Some p \<Rightarrow> p acts
      | None \<Rightarrow> Inr (map (\<lambda>(a, x). (a, analysis_risk x)) (analyze_actions_default str_error an acts)))"

definition analyze_actions ::
  "(py_error \<Rightarrow> string) \<Rightarrow> analyzer \<Rightarrow> action_event list \<Rightarrow> (action_event \<times> security_analysis) list result" where
  "analyze_actions str_error an acts =
     (case pending_override an of
        Some _ \<Rightarrow>
          bind_result (analyze_pending_actions str_error an acts) (\<lambda>xs.
            Inr (map (\<lambda>(a, r). (a, \<lparr>analysis_risk = r, analysis_details = None\<rparr>)) xs))
      | None \<Rightarrow> Inr (analyze_actions_default str_error an acts))"

section \<open>The agent's check\<close>

text \<open>\<open>_extract_security_risk\<close>: the field is removed from the arguments in any case.\<close>

definition parse_risk :: "json \<Rightarrow> SecurityRisk result" where
  "parse_risk raw =
     (if raw = JStr ''UNKNOWN'' then Inr UNKNOWN else if raw = JStr ''LOW'' then Inr LOW
      else if raw = JStr ''MEDIUM'' then Inr MEDIUM else if raw = JStr ''HIGH'' then Inr HIGH
      else Inl ValueError)"

definition extract_security_risk ::
  "(string, json) fmap \<Rightarrow> bool \<Rightarrow> analyzer option \<Rightarrow> SecurityRisk result \<times> (string, json) fmap" where
  "extract_security_risk arguments read_only_tool an =
     ((if read_only_tool then Inr UNKNOWN
       else if Option.is_none an then Inr UNKNOWN
       else (case fmlookup arguments ''security_risk'' of
               None \<Rightarrow> Inr UNKNOWN
             | Some raw \<Rightarrow> if raw = JScalar ''null'' then Inr UNKNOWN else parse_risk raw)),
      fmdrop ''security_risk'' arguments)"

record security_audit =
  audit_risks :: "(string, SecurityRisk) fmap"
  audit_details :: "(string, (string, json) fmap) fmap"

definition is_finish_or_think :: "action_event \<Rightarrow> bool" where
  "is_finish_or_think a \<longleftrightarrow>
     (case action a of Some m \<Rightarrow> fst m \<in> {''FinishAction'', ''ThinkAction''} | None \<Rightarrow> False)"

definition analyze_for_confirmation ::
  "(py_error \<Rightarrow> string) \<Rightarrow> analyzer option \<Rightarrow> action_event list \<Rightarrow> (SecurityRisk list \<times> security_audit option) result" where
  "analyze_for_confirmation str_error an acts =
     (if length acts = 1 \<and> is_finish_or_think (hd acts) then Inr ([], None)
      else if acts = [] then Inr ([], None)
      else (case an of
              None \<Rightarrow> Inr (replicate (length acts) UNKNOWN, None)
            | Some z \<Rightarrow>
                bind_result (analyze_actions str_error z acts) (\<lambda>xs.
                  Inr (map (analysis_risk \<circ> snd) xs,
                       Some \<lparr>audit_risks = fold (\<lambda>(a, x). fmupd (event_id a) (analysis_risk x)) xs fmempty,
                             audit_details = fold (\<lambda>(a, x) m.
                               case analysis_details x of None \<Rightarrow> m | Some d \<Rightarrow> fmupd (event_id a) d m) xs fmempty\<rparr>))))"

text \<open>\<open>any\<close> over the policy's answers, left to right.\<close>

fun any_confirm :: "confirmation_policy \<Rightarrow> SecurityRisk list \<Rightarrow> bool result" where
  "any_confirm p [] = Inr False"
| "any_confirm p (r # rs) = bind_result (should_confirm p r) (\<lambda>c. if c then Inr True else any_confirm p rs)"

definition set_confirmation_status ::
  "(string \<Rightarrow> py_error option) \<Rightarrow> confirmation_policy \<Rightarrow> SecurityRisk list \<Rightarrow> conversation_state \<Rightarrow> bool state_op" where
  "set_confirmation_status werr p risks s =
     bind_op (any_confirm p risks, s) (\<lambda>c s.
       if c then
         bind_op (setattr werr ''execution_status'' (\<lambda>b. b\<lparr>execution_status := WAITING_FOR_CONFIRMATION\<rparr>) s)
           (\<lambda>_ s'. (Inr True, s'))
       else (Inr False, s))"

text \<open>The audit goes to the callback, when there are both, before the policy is asked.\<close>

definition record_audit ::
  "(security_audit \<Rightarrow> conversation_state \<Rightarrow> unit state_op) option \<Rightarrow> security_audit option \<Rightarrow>
   conversation_state \<Rightarrow> unit state_op" where
  "record_audit on_event audit s =
     (case audit of
        None \<Rightarrow> (Inr (), s)
      | Some x \<Rightarrow> (case on_event of None \<Rightarrow> (Inr (), s) | Some f \<Rightarrow> f x s))"

definition requires_user_confirmation ::
  "(py_error \<Rightarrow> string) \<Rightarrow> (string \<Rightarrow> py_error option) \<Rightarrow> confirmation_policy \<Rightarrow> analyzer option \<Rightarrow>
   action_event list \<Rightarrow> (security_audit \<Rightarrow> conversation_state \<Rightarrow> unit state_op) option \<Rightarrow>
   conversation_state \<Rightarrow> bool state_op" where
  "requires_user_confirmation str_error werr p an acts on_event s =
     bind_op (analyze_for_confirmation str_error an acts, s) (\<lambda>(risks, audit) s1.
     bind_op (record_audit on_event audit s1) (\<lambda>_ s2. set_confirmation_status werr p risks s2))"

section \<open>Lemmas\<close>

text \<open>What a child's answer contributes.\<close>

definition contributes :: "SecurityRisk \<Rightarrow> SecurityRisk result \<Rightarrow> bool" where
  "contributes t x \<longleftrightarrow> (case x of Inl _ \<Rightarrow> True | Inr y \<Rightarrow> severity t \<le> severity y)"

lemma severity_le_HIGH [simp]: "severity t \<le> severity HIGH"
  by (cases t) simp_all

lemma contributes_risk: "contributes t x \<longleftrightarrow> severity t \<le> severity (case x of Inl _ \<Rightarrow> HIGH | Inr y \<Rightarrow> y)"
  by (cases x) (simp_all add: contributes_def del: severity.simps)

lemma fuse_risks_spec:
  shows "\<exists>r. fuse_risks propagate answers = Inr r \<and>
    (r = UNKNOWN \<longleftrightarrow> propagate \<and> Inr UNKNOWN \<in> set answers \<or> set answers \<subseteq> {Inr UNKNOWN}) \<and>
    (r \<noteq> UNKNOWN \<longrightarrow> (\<forall>t. t \<noteq> UNKNOWN \<longrightarrow> (severity t \<le> severity r \<longleftrightarrow> (\<exists>x \<in> set answers. contributes t x))))"
proof -
  let ?f = "\<lambda>r. case r of Inl _ \<Rightarrow> HIGH | Inr x \<Rightarrow> x"
  let ?rs = "map ?f answers" and ?cs = "filter (\<lambda>r. r \<noteq> UNKNOWN) (map ?f answers)"
  have f: "?f x = UNKNOWN \<longleftrightarrow> x = Inr UNKNOWN" for x by (cases x) auto
  have "UNKNOWN \<in> set ?rs \<longleftrightarrow> (\<exists>x \<in> set answers. ?f x = UNKNOWN)" by force
  then have unknown: "UNKNOWN \<in> set ?rs \<longleftrightarrow> Inr UNKNOWN \<in> set answers" by (simp add: f)
  have none: "?cs = [] \<longleftrightarrow> set answers \<subseteq> {Inr UNKNOWN}" using f by (auto simp: filter_empty_conv)
  show ?thesis
  proof (cases "propagate \<and> UNKNOWN \<in> set ?rs \<or> ?cs = []")
    case True
    then show ?thesis using unknown none by (auto simp: fuse_risks_def Let_def)
  next
    case False
    then obtain r where r: "r \<in> set ?cs" "risk_max ?cs = Inr r" "\<forall>s \<in> set ?cs. severity s \<le> severity r"
      using risk_max_concrete [of ?cs] by auto
    have "fuse_risks propagate answers = Inr r" using False r(2) by (auto simp: fuse_risks_def Let_def)
    moreover have "r \<noteq> UNKNOWN" using r(1) by simp
    moreover have "severity t \<le> severity r \<longleftrightarrow> (\<exists>x \<in> set answers. contributes t x)" if t: "t \<noteq> UNKNOWN" for t
    proof
      assume "severity t \<le> severity r"
      moreover obtain x where "x \<in> set answers" "r = ?f x" using r(1) by auto
      ultimately show "\<exists>x \<in> set answers. contributes t x" by (auto simp: contributes_risk)
    next
      assume "\<exists>x \<in> set answers. contributes t x"
      then obtain x where x: "x \<in> set answers" "severity t \<le> severity (?f x)" by (auto simp: contributes_risk)
      then have "?f x \<noteq> UNKNOWN" using t by (metis le_zero_eq severity.simps(1) severity_pos not_gr_zero)
      then have "?f x \<in> set ?cs" using x(1) by simp
      then show "severity t \<le> severity r" using r(3) x(2) le_trans by blast
    qed
    ultimately show ?thesis using False unknown none by auto
  qed
qed

lemma any_confirm_risky:
  assumes "t \<noteq> UNKNOWN"
  shows "any_confirm (ConfirmRisky t u) rs =
    Inr (\<exists>r \<in> set rs. if r = UNKNOWN then u else severity t \<le> severity r)"
  using assms by (induction rs) (auto simp: is_riskier_reflexive_concrete)

text \<open>Without overrides the agent sees one risk per action, \<open>HIGH\<close> where the analysis fails.\<close>

lemma ensemble_risks:
  "analyze_actions str_error (EnsembleSecurityAnalyzer zs pu) acts =
     Inr (map (\<lambda>a. (a, \<lparr>analysis_risk = projr (fuse_risks pu (map (\<lambda>z. security_risk_of z a) zs)), analysis_details = None\<rparr>)) acts)"
proof -
  have "analyze_action (EnsembleSecurityAnalyzer zs pu) a =
      Inr \<lparr>analysis_risk = projr (fuse_risks pu (map (\<lambda>z. security_risk_of z a) zs)), analysis_details = None\<rparr>" for a
  proof -
    obtain r where "fuse_risks pu (map (\<lambda>z. security_risk_of z a) zs) = Inr r" using fuse_risks_spec by blast
    then show ?thesis by simp
  qed
  then show ?thesis by (simp add: analyze_actions_def analyze_actions_default_def)
qed

lemma audit_risks_dom:
  "fmdom' (fold (\<lambda>(a, x). fmupd (event_id a) (analysis_risk x)) xs m) = fmdom' m \<union> (event_id \<circ> fst) ` set xs"
  by (induction xs arbitrary: m) auto

text \<open>The batches no analyzer sees, and those the user is to be asked about.\<close>

definition exempt :: "action_event list \<Rightarrow> bool" where
  "exempt acts \<longleftrightarrow> acts = [] \<or> length acts = 1 \<and> is_finish_or_think (hd acts)"

definition must_ask :: "analyzer list \<Rightarrow> bool \<Rightarrow> SecurityRisk \<Rightarrow> bool \<Rightarrow> action_event \<Rightarrow> bool" where
  "must_ask zs pu t u a \<longleftrightarrow>
     (let answers = set (map (\<lambda>z. security_risk_of z a) zs)
      in if pu \<and> Inr UNKNOWN \<in> answers \<or> answers = {Inr UNKNOWN} then u
         else \<exists>x \<in> answers. case x of Inl e \<Rightarrow> True | Inr r \<Rightarrow> severity t \<le> severity r)"

lemma ensemble_verdict:
  assumes "t \<noteq> UNKNOWN" "zs \<noteq> []"
  shows "(if projr (fuse_risks pu (map (\<lambda>z. security_risk_of z a) zs)) = UNKNOWN then u
      else severity t \<le> severity (projr (fuse_risks pu (map (\<lambda>z. security_risk_of z a) zs)))) = must_ask zs pu t u a"
proof -
  let ?ans = "map (\<lambda>z. security_risk_of z a) zs"
  have ne: "set ?ans \<noteq> {}" using assms(2) by simp
  obtain r where r: "fuse_risks pu ?ans = Inr r"
    "r = UNKNOWN \<longleftrightarrow> pu \<and> Inr UNKNOWN \<in> set ?ans \<or> set ?ans \<subseteq> {Inr UNKNOWN}"
    "r \<noteq> UNKNOWN \<Longrightarrow> severity t \<le> severity r \<longleftrightarrow> (\<exists>x \<in> set ?ans. contributes t x)"
    using fuse_risks_spec [of pu ?ans] assms(1) by blast
  have "set ?ans \<subseteq> {Inr UNKNOWN} \<longleftrightarrow> set ?ans = {Inr UNKNOWN}"
    using ne by (simp only: subset_singleton_iff) blast
  then show ?thesis using r by (simp add: contributes_def must_ask_def Let_def)
qed

text \<open>Waiting is set in memory even when saving it fails; the failure is then raised.\<close>

lemma set_confirmation_status_cases:
  assumes "any_confirm p risks = Inr ask"
  shows "\<exists>r s'. set_confirmation_status werr p risks s = (r, s') \<and>
    (if ask then (r = Inr True \<or> (\<exists>e. r = Inl e \<and> werr ''execution_status'' = Some e)) \<and>
       base s' = (base s)\<lparr>execution_status := WAITING_FOR_CONFIRMATION\<rparr>
     else r = Inr False \<and> s' = s)"
  using assms
  by (auto simp: set_confirmation_status_def setattr_def save_base_state_def notify_update_def Let_def
      split: option.split)

section \<open>Properties\<close>

text \<open>C15: Confirmation fails closed. With a policy that confirms from a threshold on and an ensemble of
  analyzers, whatever its members do, the user must be asked exactly when for some action a member
  raises or reports a risk at the threshold or above, or all members answer that the risk is unknown
  and the policy confirms unknown risks; when unknown answers are propagated, one of them takes
  precedence over the others of that action, and the policy's setting alone decides. The audit covers every
  action and goes to the callback first: an exception of the callback passes through, and no verdict is
  returned. When the user must be asked the conversation waits for confirmation, and the check
  returns so or raises the error of saving that state; it never returns that no confirmation is
  needed. Otherwise the check returns that and changes nothing. An empty batch and a single finish or
  think action are never held up. An analyzer that is no ensemble may raise, and its exception passes through as well.\<close>

theorem confirmation_fails_closed:
  assumes "new_confirm_risky t u = Inr p" "zs \<noteq> []"
  shows "\<exists>audit. (audit = None \<longleftrightarrow> exempt acts) \<and>
    (\<forall>x. audit = Some x \<longrightarrow> fmdom' (audit_risks x) = event_id ` set acts) \<and>
    (case record_audit on_event audit s of
       (Inl e, s1) \<Rightarrow>
         requires_user_confirmation str_error werr p (Some (EnsembleSecurityAnalyzer zs pu)) acts on_event s = (Inl e, s1)
     | (Inr _, s1) \<Rightarrow>
         \<exists>r s'. requires_user_confirmation str_error werr p (Some (EnsembleSecurityAnalyzer zs pu)) acts on_event s = (r, s') \<and>
           (if \<not> exempt acts \<and> (\<exists>a \<in> set acts. must_ask zs pu t u a)
            then (r = Inr True \<or> (\<exists>e. r = Inl e \<and> werr ''execution_status'' = Some e)) \<and>
              base s' = (base s1)\<lparr>execution_status := WAITING_FOR_CONFIRMATION\<rparr>
            else r = Inr False \<and> s' = s1)) \<and>
    (\<forall>an e. \<not> exempt acts \<and> analyze_actions str_error an acts = Inl e \<longrightarrow>
       requires_user_confirmation str_error werr p (Some an) acts on_event s = (Inl e, s))"
proof -
  have t: "t \<noteq> UNKNOWN" "p = ConfirmRisky t u"
    using assms(1) by (auto simp: new_confirm_risky_def validate_threshold_def split: if_splits)
  let ?z = "EnsembleSecurityAnalyzer zs pu"
  let ?risks = "if exempt acts then [] else map (\<lambda>a. projr (fuse_risks pu (map (\<lambda>z. security_risk_of z a) zs))) acts"
  obtain audit where audit: "analyze_for_confirmation str_error (Some ?z) acts = Inr (?risks, audit)"
    "audit = None \<longleftrightarrow> exempt acts" "\<forall>x. audit = Some x \<longrightarrow> fmdom' (audit_risks x) = event_id ` set acts"
    using ensemble_risks [of str_error zs pu acts]
    by (cases "exempt acts") (auto simp: analyze_for_confirmation_def exempt_def comp_def audit_risks_dom image_image)
  have ask: "any_confirm p ?risks = Inr (\<not> exempt acts \<and> (\<exists>a \<in> set acts. must_ask zs pu t u a))"
    unfolding t(2) any_confirm_risky [OF t(1)] using ensemble_verdict [OF t(1) assms(2)] by simp
  have run: "requires_user_confirmation str_error werr p (Some ?z) acts on_event s =
      bind_op (record_audit on_event audit s) (\<lambda>_ s2. set_confirmation_status werr p ?risks s2)"
    by (simp add: requires_user_confirmation_def audit(1) bind_op_def)
  have other: "\<not> exempt acts \<and> analyze_actions str_error an acts = Inl e \<longrightarrow>
      requires_user_confirmation str_error werr p (Some an) acts on_event s = (Inl e, s)" for an e
    by (simp add: requires_user_confirmation_def analyze_for_confirmation_def exempt_def bind_op_def)
  show ?thesis
  proof (intro exI [of _ audit] conjI audit(2,3) allI other)
    obtain r0 s1 where rec: "record_audit on_event audit s = (r0, s1)" by fastforce
    show "case record_audit on_event audit s of
       (Inl e, s1) \<Rightarrow>
         requires_user_confirmation str_error werr p (Some ?z) acts on_event s = (Inl e, s1)
     | (Inr _, s1) \<Rightarrow>
         \<exists>r s'. requires_user_confirmation str_error werr p (Some ?z) acts on_event s = (r, s') \<and>
           (if \<not> exempt acts \<and> (\<exists>a \<in> set acts. must_ask zs pu t u a)
            then (r = Inr True \<or> (\<exists>e. r = Inl e \<and> werr ''execution_status'' = Some e)) \<and>
              base s' = (base s1)\<lparr>execution_status := WAITING_FOR_CONFIRMATION\<rparr>
            else r = Inr False \<and> s' = s1)"
      using set_confirmation_status_cases [OF ask, of werr s1] unfolding run rec
      by (cases r0) (simp_all add: bind_op_def)
  qed
qed

theorem confirmation_fails_closed_witness:
  "\<exists>s'. requires_user_confirmation (\<lambda>_. []) (\<lambda>_. None) (ConfirmRisky HIGH False)
      (Some (EnsembleSecurityAnalyzer [OtherAnalyzer (\<lambda>_. Inl RuntimeErr) None None, LLMSecurityAnalyzer] False))
      [sample_action_event ''a1'' ''c1'' ''r1'' []] None sample_state = (Inr True, s') \<and>
    execution_status (base s') = WAITING_FOR_CONFIRMATION"
proof -
  have p: "new_confirm_risky HIGH False = Inr (ConfirmRisky HIGH False)" by code_simp
  let ?zs = "[OtherAnalyzer (\<lambda>_. Inl RuntimeErr) None None, LLMSecurityAnalyzer]"
  let ?acts = "[sample_action_event ''a1'' ''c1'' ''r1'' []]"
  have "\<not> exempt ?acts" by (simp add: exempt_def is_finish_or_think_def sample_action_event_def)
  moreover have "must_ask ?zs False HIGH False (hd ?acts)" by (simp add: must_ask_def Let_def)
  moreover have "record_audit None x sample_state = (Inr (), sample_state)" for x
    by (simp add: record_audit_def split: option.split)
  moreover have "?zs \<noteq> []" by simp
  note confirmation_fails_closed [OF p this, where acts = ?acts and on_event = None and s = sample_state
    and str_error = "\<lambda>_. []" and werr = "\<lambda>_. None" and pu = False]
  ultimately show ?thesis by (auto split: if_splits)
qed

end
