(* ===== verification/Agent_Step.thy ===== *)
theory Agent_Step
  imports Callbacks Security Parallel_Executor Condenser
begin

text \<open>
  One step of the agent (\<open>agent/agent.py\<close>, \<open>agent/response_dispatch.py\<close>, \<open>agent/critic_mixin.py\<close> and
  \<open>prepare_llm_messages\<close> of \<open>agent/utils.py\<close>): pending actions first, then the blocked message, then
  condensation, then the LLM, whose answer becomes messages or actions; the actions of an answer are
  confirmed, cut after a finish call, run and answered in their order.

  Parameters are the LLM, the condenser, the tools with what happens around each call, the critic and
  the masking of secrets. A tool sees the conversation only through its result. Texts of exceptions
  come from outside. Streaming of tokens and the tracing of results are left out.
\<close>

section \<open>The agent\<close>

record critic =
  critic_all_actions :: bool
  critic_evaluate :: "event list \<Rightarrow> event \<Rightarrow> py_model option"
  refinement_limit :: "nat option"
  should_refine :: "py_model \<Rightarrow> bool"
  followup_prompt :: "py_model \<Rightarrow> nat \<Rightarrow> string"

record agent_texts =
  error_text :: "py_error \<Rightarrow> string"
  missing_tool_text :: "string \<Rightarrow> string"
  invalid_call_text :: "string \<Rightarrow> py_error \<Rightarrow> arguments option \<Rightarrow> string"
  error_details :: "message_tool_call \<Rightarrow> tool_validation_error list"
  malformed_arguments :: "string \<Rightarrow> string"
  no_vision_text :: string
  trailing_nudge :: string
  filtered_text :: string
  corrective_text :: string

record agent_env =
  conv_env :: conversation_env
  platform :: call_platform
  recursion_limit :: nat
  specs :: "(string, tool_spec) fmap"
  resources_of :: "string \<rightharpoonup> Parallel_Executor.tool_definition"
  run_tool :: "nat \<Rightarrow> tool_spec \<Rightarrow> action_event \<Rightarrow> observation result"
  tool_event_ids :: "nat \<Rightarrow> string \<Rightarrow> string \<times> string"
  max_workers :: nat
  call_envs :: "nat \<Rightarrow> nat \<Rightarrow> call_env"
  finish_order :: "nat \<Rightarrow> nat list"
  agent_llm :: llm
  llm_is_router :: bool
  vision_is_active :: bool
  agent_condenser :: "condenser option"
  handles_condensation_requests :: bool
  policy :: confirmation_policy
  security_analyzer :: "analyzer option"
  agent_critic :: "critic option"
  return_token_ids :: bool
  mask_text :: "string \<Rightarrow> string"
  texts :: agent_texts

definition emit :: "agent_env \<Rightarrow> event \<Rightarrow> conversation \<Rightarrow> unit conv_op" where
  "emit env = on_event (conv_env env)"

text \<open>A message with nothing but its role and text, and one from the framework or the user.\<close>

definition message_event_of :: "event_base \<Rightarrow> message \<Rightarrow> string option \<Rightarrow> message_event" where
  "message_event_of b m resp =
     \<lparr>event_id = event_id b, timestamp = timestamp b, source = source b, parent_id = None, llm_message = m,
      me_llm_response_id = resp, activated_skills = [], me_extended_content = [], sender = None,
      me_critic_result = None\<rparr>"

definition emit_text :: "agent_env \<Rightarrow> source_type \<Rightarrow> role \<Rightarrow> string \<Rightarrow> conversation \<Rightarrow> unit conv_op" where
  "emit_text env src r s w =
     (case new_base (conv_env env) src w of
        (b, w1) \<Rightarrow> emit env (MessageEvent (message_event_of b (plain_message r [TextContent s False]) None)) w1)"

section \<open>Classifying an answer\<close>

datatype llm_response_type = TOOL_CALLS | CONTENT | REASONING_ONLY | EMPTY

fun has_text :: "content list \<Rightarrow> bool" where
  "has_text [] \<longleftrightarrow> False"
| "has_text (TextContent s c # cs) \<longleftrightarrow> strip s \<noteq> [] \<or> has_text cs"
| "has_text (ImageContent _ _ # cs) \<longleftrightarrow> has_text cs"

definition classify_response :: "message \<Rightarrow> llm_response_type" where
  "classify_response m =
     (if tool_calls m \<noteq> None \<and> tool_calls m \<noteq> Some [] then TOOL_CALLS
      else if has_text (msg_content m) then CONTENT
      else if msg_responses_reasoning_item m \<noteq> None \<or> msg_reasoning_content m \<noteq> None \<or> msg_thinking_blocks m \<noteq> []
        then REASONING_ONLY
      else EMPTY)"

section \<open>The request\<close>

definition ensure_trailing_user_message :: "string \<Rightarrow> message list \<Rightarrow> message list" where
  "ensure_trailing_user_message nudge messages =
     (if messages = [] \<or> role (last messages) \<noteq> RoleAssistant then messages
      else messages @ [plain_message RoleUser [TextContent nudge False]])"

datatype prepared = Messages "message list" | Condense condensation

definition prepare_llm_messages ::
  "agent_env \<Rightarrow> view \<Rightarrow> nat \<Rightarrow> prepared result \<times> nat" where
  "prepare_llm_messages env v n =
     (case (case agent_condenser env of None \<Rightarrow> (Inr (CView v), n) | Some c \<Rightarrow> c v (Some (agent_llm env)) n) of
        (Inl e, n') \<Rightarrow> (Inl e, n')
      | (Inr (CCondensation k), n') \<Rightarrow> (Inr (Condense k), n')
      | (Inr (CView v'), n') \<Rightarrow>
          (bind_result (events_to_messages (events v')) (\<lambda>ms.
             Inr (Messages (ensure_trailing_user_message (trailing_nudge (texts env)) ms))), n'))"

fun is_image :: "content \<Rightarrow> bool" where
  "is_image (ImageContent _ _) = True"
| "is_image (TextContent _ _) = False"

definition contains_image :: "message \<Rightarrow> bool" where
  "contains_image m \<longleftrightarrow> list_ex is_image (msg_content m)"

definition latest_user_message_contains_image :: "message list \<Rightarrow> bool" where
  "latest_user_message_contains_image ms =
     (case find (\<lambda>m. role m = RoleUser) (rev ms) of None \<Rightarrow> False | Some m \<Rightarrow> contains_image m)"

definition should_handle_non_multimodal_image_input :: "agent_env \<Rightarrow> message list \<Rightarrow> bool" where
  "should_handle_non_multimodal_image_input env ms \<longleftrightarrow>
     \<not> llm_is_router env \<and> latest_user_message_contains_image ms \<and> \<not> vision_is_active env"

definition image_reference :: "nat \<Rightarrow> content" where
  "image_reference i = TextContent
     (''[Image '' @ show_nat i @ '' is attached to the latest user message. Use the inspect_image_with_vision tool with image_index=''
       @ show_nat i @ '' to inspect it.]'') False"

fun reference_images :: "nat \<Rightarrow> content list \<Rightarrow> content list" where
  "reference_images i [] = []"
| "reference_images i (ImageContent urls c # cs) =
     map image_reference [i..<i + length urls] @ reference_images (i + length urls) cs"
| "reference_images i (c # cs) = c # reference_images i cs"

text \<open>The backward search, on the reversed messages.\<close>

fun replace_latest_images :: "message list \<Rightarrow> message list" where
  "replace_latest_images [] = []"
| "replace_latest_images (m # ms) =
     (if role m = RoleUser \<and> contains_image m
      then m\<lparr>msg_content := reference_images 0 (msg_content m)\<rparr> # ms
      else m # replace_latest_images ms)"

definition replace_latest_user_images_with_references :: "message list \<Rightarrow> message list" where
  "replace_latest_user_images_with_references ms = rev (replace_latest_images (rev ms))"

section \<open>From a tool call to an action\<close>

datatype call_reading =
    ToolMissing string
  | CallInvalid string py_error "arguments option"
  | CallRaised py_error
  | CallOk tool_spec message_tool_call SecurityRisk string py_model

definition caught :: "string \<Rightarrow> arguments option \<Rightarrow> py_error \<Rightarrow> call_reading" where
  "caught name args e = (if is_value_error e then CallInvalid name e args else CallRaised e)"

text \<open>
  The body of the \<open>try\<close> block of \<open>_get_action_event\<close>. The text of an error of \<open>normalize_tool_call\<close>
  names the file editor, and so does the event it becomes.
\<close>

definition action_of_arguments ::
  "agent_env \<Rightarrow> message_tool_call \<Rightarrow> string \<Rightarrow> tool_spec \<Rightarrow> arguments \<Rightarrow> call_reading" where
  "action_of_arguments env call name tool args =
     (let normalized = call\<lparr>tc_name := name, tc_arguments := json_dumps (platform env) (JDict args)\<rparr>;
          (risk, args1) = extract_security_risk args (ts_read_only_hint tool) (security_analyzer env)
      in case risk of
           Inl e \<Rightarrow> caught (tc_name call) (Some args1) e
         | Inr r \<Rightarrow>
             (let (summ, args2) = extract_summary (platform env) (ts_name tool) args1 tool
              in case action_from_arguments tool args2 of
                   Inl e \<Rightarrow> caught (tc_name call) (Some args2) e
                 | Inr act \<Rightarrow> CallOk tool normalized r summ act))"

definition read_tool_call :: "agent_env \<Rightarrow> message_tool_call \<Rightarrow> call_reading" where
  "read_tool_call env call =
     (let pf = platform env; repair = fix_malformed_tool_arguments pf (recursion_limit env)
      in case parse_tool_call_arguments pf (tc_arguments call) of
           Inl e \<Rightarrow> caught (tc_name call) None e
         | Inr args \<Rightarrow>
             (case normalize_tool_call pf (tc_name call) args (fmdom' (specs env)) of
                Inl e \<Rightarrow> caught ''file_editor'' (Some args) e
              | Inr (name, args1) \<Rightarrow>
                  (case fmlookup (specs env) name of
                     None \<Rightarrow> ToolMissing name
                   | Some tool \<Rightarrow>
                       (case repair args1 (ModelFields (ts_action_type tool)) of
                          Inl e \<Rightarrow> caught (tc_name call) (Some args1) e
                        | Inr args2 \<Rightarrow>
                            (case (case ts_response_schema tool of None \<Rightarrow> Inr args2 | Some sch \<Rightarrow> repair args2 sch) of
                               Inl e \<Rightarrow> caught (tc_name call) (Some args2) e
                             | Inr args3 \<Rightarrow> action_of_arguments env call name tool args3)))))"

text \<open>What the first call of an answer carries besides the call, and the others do not.\<close>

record call_extras =
  x_thought :: "content list"
  x_reasoning :: "string option"
  x_thinking :: "thinking_block list"
  x_item :: "reasoning_item option"

definition no_extras :: call_extras where
  "no_extras = \<lparr>x_thought = [], x_reasoning = None, x_thinking = [], x_item = None\<rparr>"

definition action_event_of ::
  "event_base \<Rightarrow> call_extras \<Rightarrow> string \<Rightarrow> message_tool_call \<Rightarrow> string \<Rightarrow> py_model option \<Rightarrow> SecurityRisk \<Rightarrow>
   string option \<Rightarrow> action_event" where
  "action_event_of b x name call resp act risk summ =
     \<lparr>event_id = event_id b, timestamp = timestamp b, source = SourceAgent, parent_id = None,
      thought = x_thought x, reasoning_content = x_reasoning x, thinking_blocks = x_thinking x,
      responses_reasoning_item = x_item x, action = act, tool_name = name, tool_call_id = tc_id call,
      tool_call = call, llm_response_id = resp, security_risk = risk, critic_result = None, summary = summ\<rparr>"

definition agent_error_of ::
  "string \<times> string \<Rightarrow> string \<Rightarrow> string \<Rightarrow> string \<Rightarrow> tool_validation_error list option \<Rightarrow> event" where
  "agent_error_of new msg name call_id errs = AgentErrorEvent
     \<lparr>event_id = fst new, timestamp = snd new, source = SourceAgent, parent_id = None, obs_tool_name = name,
      obs_tool_call_id = call_id, error = msg, classification = Some AGENT_OUTCOME, validation_errors = errs\<rparr>"

definition emit_tool_error ::
  "agent_env \<Rightarrow> string \<Rightarrow> string \<Rightarrow> message_tool_call \<Rightarrow> string \<Rightarrow> call_extras \<Rightarrow>
   tool_validation_error list option \<Rightarrow> conversation \<Rightarrow> unit conv_op" where
  "emit_tool_error env msg name call resp x errs w =
     bind_op
       (case Tool_Calls.json_loads (platform env) (tc_arguments call) of
          Inr _ \<Rightarrow> (Inr call, w)
        | Inl e \<Rightarrow> if e = JSONDecodeError then (Inr (call\<lparr>tc_arguments := malformed_arguments (texts env) msg\<rparr>), w)
                   else (Inl e, w))
       (\<lambda>call w.
          case new_base (conv_env env) SourceAgent w of
            (b, w1) \<Rightarrow>
              bind_op (emit env (ActionEvent (action_event_of b x (tc_name call) call resp None UNKNOWN None)) w1) (\<lambda>_ w2.
                case new_base (conv_env env) SourceAgent w2 of
                  (b', w3) \<Rightarrow> emit env (agent_error_of (event_id b', timestamp b') msg name (tc_id call) errs) w3))"

definition should_evaluate_with_critic :: "agent_env \<Rightarrow> py_model \<Rightarrow> bool" where
  "should_evaluate_with_critic env act =
     (case agent_critic env of
        None \<Rightarrow> False
      | Some c \<Rightarrow> critic_all_actions c \<or> fst act = ''FinishAction'')"

text \<open>\<open>_evaluate_with_critic\<close>: the whole log is read; any exception means no result.\<close>

definition evaluate_with_critic :: "agent_env \<Rightarrow> event \<Rightarrow> conversation \<Rightarrow> py_model option" where
  "evaluate_with_critic env e w =
     (case agent_critic env of
        None \<Rightarrow> None
      | Some c \<Rightarrow>
          (case fst (iter_events (log_of (conv_env env)) (conv_files w) (event_log_of (conv_state w))) of
             Inl _ \<Rightarrow> None
           | Inr evs \<Rightarrow> critic_evaluate c (filter is_llm_convertible (evs @ [e])) e))"

definition get_action_event ::
  "agent_env \<Rightarrow> message_tool_call \<Rightarrow> string \<Rightarrow> call_extras \<Rightarrow> conversation \<Rightarrow> action_event option conv_op" where
  "get_action_event env call resp x w =
     (case read_tool_call env call of
        CallRaised e \<Rightarrow> (Inl e, w)
      | ToolMissing name \<Rightarrow>
          bind_op (emit_tool_error env (missing_tool_text (texts env) name) name call resp x None w)
            (\<lambda>_ w1. (Inr None, w1))
      | CallInvalid name e args \<Rightarrow>
          bind_op (emit_tool_error env (invalid_call_text (texts env) name e args) name call resp x
              (if e = ValidationError then Some (error_details (texts env) call) else None) w)
            (\<lambda>_ w1. (Inr None, w1))
      | CallOk tool normalized risk summ act \<Rightarrow>
          (case new_base (conv_env env) SourceAgent w of
             (b, w1) \<Rightarrow>
               (let a = action_event_of b x (ts_name tool) normalized resp (Some act) risk (Some summ);
                    a' = (if should_evaluate_with_critic env act then
                            (case evaluate_with_critic env (ActionEvent a) w1 of
                               Some r \<Rightarrow> a\<lparr>critic_result := Some r\<rparr> | None \<Rightarrow> a)
                          else a)
                in bind_op (emit env (ActionEvent a') w1) (\<lambda>_ w2. (Inr (Some a'), w2)))))"

fun get_action_events ::
  "agent_env \<Rightarrow> string \<Rightarrow> call_extras \<Rightarrow> message_tool_call list \<Rightarrow> conversation \<Rightarrow> action_event list conv_op" where
  "get_action_events env resp x [] w = (Inr [], w)"
| "get_action_events env resp x (call # calls) w =
     bind_op (get_action_event env call resp x w) (\<lambda>a w1.
     bind_op (get_action_events env resp no_extras calls w1) (\<lambda>as w2.
       (Inr (case a of None \<Rightarrow> as | Some a \<Rightarrow> a # as), w2)))"

section \<open>A batch of actions\<close>

definition FINISH_TOOL :: string where
  "FINISH_TOOL = ''finish''"

definition truncate_at_finish :: "action_event list \<Rightarrow> action_event list \<times> bool" where
  "truncate_at_finish acts =
     (case first_index (\<lambda>a. tool_name a = FINISH_TOOL) acts of
        None \<Rightarrow> (acts, False)
      | Some i \<Rightarrow> (take (Suc i) acts, True))"

record action_batch =
  ab_actions :: "action_event list"
  ab_has_finish :: bool
  ab_blocked :: "(string, string) fmap"
  ab_results :: "(string, event list) fmap"

fun partition_blocked ::
  "conversation_env \<Rightarrow> action_event list \<Rightarrow> conversation \<Rightarrow> ((string, string) fmap \<times> action_event list) conv_op" where
  "partition_blocked env [] w = (Inr (fmempty, []), w)"
| "partition_blocked env (a # as) w =
     bind_op (on_state (pop_blocked_action (write_error env) (event_id a)) w) (\<lambda>reason w1.
     bind_op (partition_blocked env as w1) (\<lambda>(reasons, executable) w2.
       (Inr (case reason of
               Some s \<Rightarrow> (if event_id a |\<in>| fmdom reasons then reasons else fmupd (event_id a) s reasons, executable)
             | None \<Rightarrow> (reasons, a # executable)), w2)))"

text \<open>
  \<open>_execute_action_event\<close>, which the executor calls on its threads. The executor waits for every
  future, so it has results once all have finished; without a result here a future never finishes.
\<close>

definition execute_action_event :: "agent_env \<Rightarrow> nat \<Rightarrow> action_event \<Rightarrow> event list result" where
  "execute_action_event env n a =
     (case fmlookup (specs env) (tool_name a) of
        None \<Rightarrow> Inl RuntimeErr
      | Some tool \<Rightarrow>
          (let new = tool_event_ids env n (event_id a)
           in case run_tool env n tool a of
                Inl e \<Rightarrow>
                  if is_value_error e then
                    Inr [agent_error_of new
                      (''Error executing tool '' @ [CHR 0x27] @ ts_name tool @ [CHR 0x27] @ '': '' @ error_text (texts env) e)
                      (ts_name tool) (tc_id (tool_call a)) None]
                  else Inl e
              | Inr ob \<Rightarrow>
                  Inr [ObservationEvent
                    \<lparr>event_id = fst new, timestamp = snd new, source = SourceEnvironment, parent_id = None,
                     obs_tool_name = ts_name tool, obs_tool_call_id = tc_id (tool_call a), observation = ob,
                     action_id = event_id a, extended_content = []\<rparr>]))"

definition execute_prepared :: "agent_env \<Rightarrow> nat \<Rightarrow> action_event list \<Rightarrow> event list list option" where
  "execute_prepared env n acts =
     execute_batch (error_text (texts env)) (execute_action_event env n) (max_workers env)
       (Some (resources_of env)) (call_envs env n) (finish_order env n) acts"

definition prepare_batch :: "agent_env \<Rightarrow> action_event list \<Rightarrow> conversation \<Rightarrow> action_batch conv_op option" where
  "prepare_batch env acts w =
     (let (acts', has_finish) = truncate_at_finish acts
      in case partition_blocked (conv_env env) acts' w of
           (Inl e, w1) \<Rightarrow> Some (Inl e, w1)
         | (Inr (reasons, executable), w1) \<Rightarrow>
             map_option (\<lambda>results.
               (Inr \<lparr>ab_actions = acts', ab_has_finish = has_finish, ab_blocked = reasons,
                     ab_results = fmap_of_list (rev (zip (map event_id executable) results))\<rparr>,
                w1\<lparr>batches_run := Suc (batches_run w1)\<rparr>))
               (execute_prepared env (batches_run w1) executable))"

definition hook_rejection :: "event_base \<Rightarrow> string \<Rightarrow> action_event \<Rightarrow> event" where
  "hook_rejection b reason a = UserRejectObservation
     \<lparr>event_id = event_id b, timestamp = timestamp b, source = SourceEnvironment, parent_id = None,
      obs_tool_name = tool_name a, obs_tool_call_id = tool_call_id a,
      rejection_reason = reason, rejection_source = RejectedByHook, rejected_action_id = event_id a\<rparr>"

fun emit_all :: "agent_env \<Rightarrow> event list \<Rightarrow> conversation \<Rightarrow> unit conv_op" where
  "emit_all env [] w = (Inr (), w)"
| "emit_all env (e # es) w = bind_op (emit env e w) (\<lambda>_ w1. emit_all env es w1)"

fun emit_batch :: "agent_env \<Rightarrow> action_batch \<Rightarrow> action_event list \<Rightarrow> conversation \<Rightarrow> unit conv_op" where
  "emit_batch env b [] w = (Inr (), w)"
| "emit_batch env b (a # as) w =
     bind_op
       (case fmlookup (ab_blocked b) (event_id a) of
          Some reason \<Rightarrow>
            (case new_base (conv_env env) SourceEnvironment w of
               (bs, w1) \<Rightarrow> emit env (hook_rejection bs reason a) w1)
        | None \<Rightarrow>
            (case fmlookup (ab_results b) (event_id a) of
               None \<Rightarrow> (Inl KeyError, w)
             | Some evs \<Rightarrow> emit_all env evs w))
       (\<lambda>_ w1. emit_batch env b as w1)"

definition check_iterative_refinement ::
  "agent_env \<Rightarrow> action_event \<Rightarrow> conversation \<Rightarrow> (bool \<times> string option) \<times> conversation" where
  "check_iterative_refinement env a w =
     (case agent_critic env of
        None \<Rightarrow> ((False, None), w)
      | Some c \<Rightarrow>
          (case (refinement_limit c, critic_result a) of
             (Some limit, Some r) \<Rightarrow>
               if refinement_iteration w \<ge> limit \<or> \<not> should_refine c r then ((False, None), w)
               else ((True, Some (followup_prompt c r (Suc (refinement_iteration w)))),
                     w\<lparr>refinement_iteration := Suc (refinement_iteration w)\<rparr>)
           | _ \<Rightarrow> ((False, None), w)))"

definition finalize_batch :: "agent_env \<Rightarrow> action_batch \<Rightarrow> conversation \<Rightarrow> unit conv_op" where
  "finalize_batch env b w =
     (if \<not> ab_has_finish b \<or> event_id (last (ab_actions b)) |\<in>| fmdom (ab_blocked b) then (Inr (), w)
      else
        (case check_iterative_refinement env (last (ab_actions b)) w of
           ((True, Some (c # cs)), w1) \<Rightarrow> emit_text env SourceUser RoleUser (c # cs) w1
         | (_, w1) \<Rightarrow> set_status (conv_env env) FINISHED w1))"

definition execute_actions :: "agent_env \<Rightarrow> action_event list \<Rightarrow> conversation \<Rightarrow> unit conv_op option" where
  "execute_actions env acts w =
     map_option (\<lambda>o1.
       bind_op o1 (\<lambda>b w1.
       bind_op (emit_batch env b (ab_actions b) w1) (\<lambda>_ w2. finalize_batch env b w2)))
     (prepare_batch env acts w)"

section \<open>Handling an answer\<close>

text \<open>The audit of the analyzer is one event of its own, emitted before the policy is asked.\<close>

definition confirm_actions :: "agent_env \<Rightarrow> action_event list \<Rightarrow> conversation \<Rightarrow> bool conv_op" where
  "confirm_actions env acts w =
     bind_op (analyze_for_confirmation (error_text (texts env)) (security_analyzer env) acts, w) (\<lambda>(risks, audit) w1.
     bind_op
       (case audit of
          None \<Rightarrow> (Inr (), w1)
        | Some _ \<Rightarrow> (case new_base (conv_env env) SourceEnvironment w1 of
                     (b, w2) \<Rightarrow> emit env (OtherEvent ''SecurityAnalysisEvent'' b) w2))
       (\<lambda>_ w2. on_state (set_confirmation_status (write_error (conv_env env)) (policy env) risks) w2))"

definition maybe_emit_vllm_tokens :: "agent_env \<Rightarrow> conversation \<Rightarrow> unit conv_op" where
  "maybe_emit_vllm_tokens env w =
     (if return_token_ids env then
        (case new_base (conv_env env) SourceAgent w of (b, w1) \<Rightarrow> emit env (OtherEvent ''TokenEvent'' b) w1)
      else (Inr (), w))"

definition is_text :: "content \<Rightarrow> bool" where
  "is_text c \<longleftrightarrow> \<not> is_image c"

definition first_extras :: "message \<Rightarrow> call_extras" where
  "first_extras m =
     \<lparr>x_thought = filter is_text (msg_content m), x_reasoning = msg_reasoning_content m,
      x_thinking = msg_thinking_blocks m, x_item = msg_responses_reasoning_item m\<rparr>"

definition handle_tool_calls :: "agent_env \<Rightarrow> message \<Rightarrow> string \<Rightarrow> conversation \<Rightarrow> unit conv_op option" where
  "handle_tool_calls env m resp w =
     (case get_action_events env resp (first_extras m) (case tool_calls m of Some cs \<Rightarrow> cs | None \<Rightarrow> []) w of
        (Inl e, w1) \<Rightarrow> Some (Inl e, w1)
      | (Inr acts, w1) \<Rightarrow>
          (case confirm_actions env acts w1 of
             (Inl e, w2) \<Rightarrow> Some (Inl e, w2)
           | (Inr True, w2) \<Rightarrow> Some (Inr (), w2)
           | (Inr False, w2) \<Rightarrow>
               map_option (\<lambda>o1. bind_op o1 (\<lambda>_ w3. maybe_emit_vllm_tokens env w3))
                 (if acts = [] then Some (Inr (), w2) else execute_actions env acts w2)))"

definition mask_content :: "(string \<Rightarrow> string) \<Rightarrow> content \<Rightarrow> content" where
  "mask_content hide c = (case c of TextContent s k \<Rightarrow> TextContent (hide s) k | ImageContent us k \<Rightarrow> ImageContent us k)"

definition mask_secrets :: "(string \<Rightarrow> string) \<Rightarrow> message \<Rightarrow> message" where
  "mask_secrets hide m =
     m\<lparr>msg_content := map (mask_content hide) (msg_content m),
       msg_reasoning_content := (case msg_reasoning_content m of
          Some (c # cs) \<Rightarrow> Some (hide (c # cs)) | r \<Rightarrow> r)\<rparr>"

definition emit_message_event :: "agent_env \<Rightarrow> message \<Rightarrow> string \<Rightarrow> conversation \<Rightarrow> unit conv_op" where
  "emit_message_event env m resp w =
     (case new_base (conv_env env) SourceAgent w of
        (b, w1) \<Rightarrow>
          (let e = message_event_of b (mask_secrets (mask_text env) m) (Some resp);
               e' = (case agent_critic env of
                       Some c \<Rightarrow>
                         if critic_all_actions c then e
                         else (case evaluate_with_critic env (MessageEvent e) w1 of
                                 Some r \<Rightarrow> e\<lparr>me_critic_result := Some r\<rparr> | None \<Rightarrow> e)
                     | None \<Rightarrow> e)
           in emit env (MessageEvent e') w1))"

definition handle_content_response :: "agent_env \<Rightarrow> message \<Rightarrow> string \<Rightarrow> conversation \<Rightarrow> unit conv_op" where
  "handle_content_response env m resp w =
     bind_op (emit_message_event env m resp w) (\<lambda>_ w1.
     bind_op (maybe_emit_vllm_tokens env w1) (\<lambda>_ w2. set_status (conv_env env) FINISHED w2))"

definition handle_no_content_response :: "agent_env \<Rightarrow> message \<Rightarrow> string \<Rightarrow> conversation \<Rightarrow> unit conv_op" where
  "handle_no_content_response env m resp w =
     bind_op (emit_message_event env m resp w) (\<lambda>_ w1.
     bind_op (maybe_emit_vllm_tokens env w1) (\<lambda>_ w2.
       emit_text env SourceEnvironment RoleUser (corrective_text (texts env)) w2))"

definition dispatch_response :: "agent_env \<Rightarrow> llm_response \<Rightarrow> conversation \<Rightarrow> unit conv_op option" where
  "dispatch_response env r w =
     (case classify_response (resp_message r) of
        TOOL_CALLS \<Rightarrow> handle_tool_calls env (resp_message r) (resp_id r) w
      | CONTENT \<Rightarrow> Some (handle_content_response env (resp_message r) (resp_id r) w)
      | _ \<Rightarrow> Some (handle_no_content_response env (resp_message r) (resp_id r) w))"

section \<open>One step\<close>

definition emit_condensation_request :: "agent_env \<Rightarrow> conversation \<Rightarrow> unit conv_op" where
  "emit_condensation_request env w =
     (case new_base (conv_env env) SourceEnvironment w of (b, w1) \<Rightarrow> emit env (CondensationRequest b) w1)"

definition can_condense_on_request :: "agent_env \<Rightarrow> bool" where
  "can_condense_on_request env \<longleftrightarrow> agent_condenser env \<noteq> None \<and> handles_condensation_requests env"

text \<open>The handlers of the exceptions of the LLM; the others get out of the step.\<close>

definition handle_llm_error :: "agent_env \<Rightarrow> py_error \<Rightarrow> conversation \<Rightarrow> unit conv_op" where
  "handle_llm_error env e w =
     (if e = FunctionCallValidationError then emit_text env SourceUser RoleUser (error_text (texts env) e) w
      else if e = LLMContentPolicyViolationError then emit_text env SourceUser RoleUser (filtered_text (texts env)) w
      else if e = LLMMalformedConversationHistoryError then
        if can_condense_on_request env then
          bind_op (on_state (rebuild_view (log_of (conv_env env)) (conv_files w)) w)
            (\<lambda>_ w1. emit_condensation_request env w1)
        else (Inl e, w)
      else if e = LLMContextWindowExceedError then
        if can_condense_on_request env then emit_condensation_request env w else (Inl e, w)
      else (Inl e, w))"

definition sample_llm_response :: "agent_env \<Rightarrow> message list \<Rightarrow> conversation \<Rightarrow> unit conv_op option" where
  "sample_llm_response env ms w =
     (let w1 = w\<lparr>llm_calls := Suc (llm_calls w)\<rparr>
      in case generate (agent_llm env) (llm_calls w) ms of
           Inl e \<Rightarrow> Some (handle_llm_error env e w1)
         | Inr r \<Rightarrow> dispatch_response env r w1)"

definition VISION_INSPECT_TOOL_NAME :: string where
  "VISION_INSPECT_TOOL_NAME = ''inspect_image_with_vision''"

definition send_messages :: "agent_env \<Rightarrow> message list \<Rightarrow> conversation \<Rightarrow> unit conv_op option" where
  "send_messages env ms w =
     (if should_handle_non_multimodal_image_input env ms then
        if VISION_INSPECT_TOOL_NAME |\<in>| fmdom (specs env)
        then sample_llm_response env (replace_latest_user_images_with_references ms) w
        else Some (bind_op (emit_text env SourceAgent RoleAssistant (no_vision_text (texts env)) w)
          (\<lambda>_ w1. set_status (conv_env env) FINISHED w1))
      else sample_llm_response env ms w)"

text \<open>The block on the last message of the user, if a hook has put one: its reason.\<close>

definition pop_last_message_block :: "conversation_env \<Rightarrow> conversation \<Rightarrow> string option conv_op" where
  "pop_last_message_block env w =
     (case last_user_message_id (base (conv_state w)) of
        Some mid \<Rightarrow> on_state (pop_blocked_message (write_error env) mid) w
      | None \<Rightarrow> (Inr None, w))"

definition prepare_and_send :: "agent_env \<Rightarrow> conversation \<Rightarrow> unit conv_op option" where
  "prepare_and_send env w =
     (case state_view (log_of (conv_env env)) (conv_files w) (conv_state w) of
        None \<Rightarrow> None
      | Some (Inl e, s) \<Rightarrow> Some (Inl e, w\<lparr>conv_state := s\<rparr>)
      | Some (Inr v, s) \<Rightarrow>
          (case prepare_llm_messages env v (llm_calls w) of
             (Inl e, n) \<Rightarrow> Some (Inl e, w\<lparr>conv_state := s, llm_calls := n\<rparr>)
           | (Inr (Condense k), n) \<Rightarrow> Some (emit env (Condensation k) (w\<lparr>conv_state := s, llm_calls := n\<rparr>))
           | (Inr (Messages ms), n) \<Rightarrow> send_messages env ms (w\<lparr>conv_state := s, llm_calls := n\<rparr>)))"

definition agent_step :: "agent_env \<Rightarrow> conversation \<Rightarrow> unit conv_op option" where
  "agent_step env w =
     (case active_branch (log_of (conv_env env)) (conv_files w) (conv_state w) None of
        Inl e \<Rightarrow> Some (Inl e, w)
      | Inr evs \<Rightarrow>
          (if get_unmatched_actions evs \<noteq> [] then execute_actions env (get_unmatched_actions evs) w
           else
             (case pop_last_message_block (conv_env env) w of
                (Inl e, w1) \<Rightarrow> Some (Inl e, w1)
              | (Inr (Some reason), w1) \<Rightarrow> Some (set_status (conv_env env) FINISHED w1)
              | (Inr None, w1) \<Rightarrow> prepare_and_send env w1)))"

end
