(* ===== verification/Callback_Branch.thy ===== *)
theory Callback_Branch
  imports Callbacks
begin

text \<open>
  Where a conversation stands in its tree. Hooks whose runs are not recorded as events leave it there,
  so an event, other than a message of the user, extends the active branch by its stamped copy and
  by nothing else.
\<close>

definition same_place :: "conversation \<Rightarrow> conversation \<Rightarrow> bool" where
  "same_place w w1 \<longleftrightarrow> conv_files w1 = conv_files w \<and> same_tree (conv_state w) (conv_state w1) \<and>
     leaf_event_id (base (conv_state w1)) = leaf_event_id (base (conv_state w)) \<and>
     head_is_empty (base (conv_state w1)) = head_is_empty (base (conv_state w))"

lemma same_place_refl [simp]: "same_place w w"
  by (simp add: same_place_def same_tree_def)

lemma same_place_trans: "same_place w w1 \<Longrightarrow> same_place w1 w2 \<Longrightarrow> same_place w w2"
  by (auto simp: same_place_def intro: same_tree_trans)

lemma same_place_simps [simp]:
  "same_place w (count_runs rs w1) = same_place w w1"
  "same_place w (snd (new_base env src w1)) = same_place w w1"
  by (simp_all add: same_place_def count_runs_def new_base_def split: prod.splits)

lemma on_state_setattr_place:
  assumes "on_state (setattr werr name upd) w = (r, w1)"
    and "\<And>b. leaf_event_id (upd b) = leaf_event_id b \<and> head_is_empty (upd b) = head_is_empty b"
  shows "same_place w w1"
proof -
  obtain r1 s1 where 1: "setattr werr name upd (conv_state w) = (r1, s1)" by fastforce
  then have "w1 = w\<lparr>conv_state := s1\<rparr>" using assms(1) by (simp add: on_state_def)
  then show ?thesis using setattr_state [OF 1] assms(2) by (simp add: same_place_def)
qed

definition silent :: "conversation_env \<Rightarrow> bool" where
  "silent env \<longleftrightarrow> (\<forall>p. processor env = Some p \<longrightarrow> \<not> emit_hook_events p)"

lemma emit_nothing [simp]: "emit_hook_execution_events env False rs w = (Inr (), w)"
  by (cases rs) simp_all

lemma pre_tool_place:
  assumes "handle_pre_tool_use env p a w = (r, w1)" "\<not> emit_hook_events p"
  shows "same_place w w1"
proof -
  have "on_state (block_action (write_error env) i s) (count_runs rs w) = (r', w2) \<Longrightarrow> same_place w w2" for i s rs r' w2
    using on_state_setattr_place [of "write_error env" _ _ "count_runs rs w" r' w2] same_place_trans [of w "count_runs rs w" w2]
    by (simp add: block_action_def)
  then show ?thesis using assms by (auto simp: handle_pre_tool_use_def split: if_splits sum.splits prod.splits)
qed

lemma post_tool_place:
  assumes "handle_post_tool_use env p ob w = (r, w1)" "\<not> emit_hook_events p"
  shows "same_place w w1"
  using assms
  by (auto simp: handle_post_tool_use_def bind_op_def split: if_splits sum.splits option.splits)

lemma base_callback_append:
  assumes "base_callback env e w = (Inr (), w')" "\<not> is_user_event e"
  obtains seq s st where "state_append_event (log_of env) (write_error env) (conv_files w) (conv_state w) e = (Inr seq, s, st)"
    "w' = w\<lparr>conv_state := s, conv_files := st\<rparr>"
  using assms
  by (auto simp: base_callback_def default_callback_def track_last_user_message_def bind_op_Inr_iff bind_result_def
      split: prod.splits sum.splits)

lemma same_place_stamp:
  assumes "same_place w w1" "conv_inv env (conv_files w) (conv_state w)"
  shows "conv_inv env (conv_files w1) (conv_state w1)"
    and "head_of env (conv_files w1) (conv_state w1) = head_of env (conv_files w) (conv_state w)"
    and "stamp_parent_id env (conv_files w1) (conv_state w1) e = stamp_parent_id env (conv_files w) (conv_state w) e"
proof -
  show inv1: "conv_inv env (conv_files w1) (conv_state w1)"
    using conv_inv_base [OF assms(2)] assms(1) by (auto simp: same_place_def)
  show head: "head_of env (conv_files w1) (conv_state w1) = head_of env (conv_files w) (conv_state w)"
    using assms(1) by (simp add: same_place_def head_of_def same_tree_def split: option.splits)
  show "stamp_parent_id env (conv_files w1) (conv_state w1) e = stamp_parent_id env (conv_files w) (conv_state w) e"
    using resolve_head(1) [OF assms(2)] resolve_head(1) [OF inv1] head assms(1)
    by (simp add: stamp_parent_id_def same_place_def same_tree_def)
qed

lemma same_place_branch:
  assumes "same_place w w1" "conv_inv env (conv_files w) (conv_state w)"
  shows "active_branch env (conv_files w1) (conv_state w1) None = active_branch env (conv_files w) (conv_state w) None"
  using active_branch_path [OF assms(2)] active_branch_path [OF same_place_stamp(1) [OF assms]] same_place_stamp(2) [OF assms] assms(1)
  by (simp add: same_place_def)

lemma stamp_twice:
  "conv_inv env st s \<Longrightarrow> stamp_parent_id env st s e = Inr e1 \<Longrightarrow> ev_parent_id e = None \<Longrightarrow>
   stamp_parent_id env st s e1 = Inr e1 \<and> (\<exists>p. e1 = with_parent p e)"
  using resolve_head(1) [of env st s] by (cases e; auto simp: stamp_parent_id_def)

text \<open>An event handled in silence.\<close>

lemma on_event_silent:
  assumes "silent env" "conv_inv (log_of env) (conv_files w) (conv_state w)"
    and "ev_parent_id e = None" "\<not> is_user_event e" "on_event env e w = (Inr (), w')"
  obtains w1 e1 p seq s st where "same_place w w1" "e1 = with_parent p e"
    "stamp_parent_id (log_of env) (conv_files w1) (conv_state w1) e = Inr e1"
    "stamp_parent_id (log_of env) (conv_files w1) (conv_state w1) e1 = Inr e1"
    "state_append_event (log_of env) (write_error env) (conv_files w1) (conv_state w1) e1 = (Inr seq, s, st)"
    "w' = w1\<lparr>conv_state := s, conv_files := st\<rparr>"
proof -
  obtain e1 where e1: "stamp_parent_id (log_of env) (conv_files w) (conv_state w) e = Inr e1"
    and rest: "(case processor env of None \<Rightarrow> base_callback env e1 w | Some p \<Rightarrow> processor_on_event env p e1 w) = (Inr (), w')"
    using assms(5) by (cases "stamp_parent_id (log_of env) (conv_files w) (conv_state w) e") (simp_all add: on_event_def)
  obtain p where p: "e1 = with_parent p e" using stamp_twice [OF assms(2) e1 assms(3)] by blast
  have user: "\<not> is_user_event e1" using assms(4) p by (cases e) auto
  obtain w1 where w1: "same_place w w1" "base_callback env e1 w1 = (Inr (), w')"
  proof (cases "processor env")
    case None
    then show ?thesis using that [of w] rest by simp
  next
    case (Some hp)
    then have quiet: "\<not> emit_hook_events hp" using assms(1) by (simp add: silent_def)
    have run: "processor_on_event env hp e1 w = (Inr (), w')" using rest Some by simp
    show ?thesis
    proof (cases e1)
      case (ActionEvent a)
      obtain w1 where "(if action a \<noteq> None then handle_pre_tool_use env hp a w else (Inr (), w)) = (Inr (), w1)"
        "base_callback env e1 w1 = (Inr (), w')"
        using run ActionEvent by (auto simp: processor_on_event_def bind_op_Inr_iff)
      then show ?thesis using that [of w1] pre_tool_place [OF _ quiet, of env a w "Inr ()" w1] by (cases "action a") auto
    next
      case (ObservationEvent ob)
      then show ?thesis
        using run that post_tool_place [OF _ quiet, of env ob w] by (auto simp: processor_on_event_def bind_op_Inr_iff)
    next
      case (MessageEvent m)
      then show ?thesis using run that [of w] user by (simp add: processor_on_event_def)
    qed (use run that [of w] in \<open>simp_all add: processor_on_event_def\<close>)
  qed
  note st1 = same_place_stamp [OF w1(1) assms(2)]
  obtain seq s st where "state_append_event (log_of env) (write_error env) (conv_files w1) (conv_state w1) e1 = (Inr seq, s, st)"
    "w' = w1\<lparr>conv_state := s, conv_files := st\<rparr>"
    by (rule base_callback_append [OF w1(2) user])
  moreover have "stamp_parent_id (log_of env) (conv_files w1) (conv_state w1) e = Inr e1"
    "stamp_parent_id (log_of env) (conv_files w1) (conv_state w1) e1 = Inr e1"
    using st1(3) e1 stamp_twice [OF assms(2) e1 assms(3)] by auto
  ultimately show ?thesis using that w1(1) p by blast
qed

definition at_head :: "conversation_env \<Rightarrow> conversation \<Rightarrow> event list \<Rightarrow> bool" where
  "at_head env w b \<longleftrightarrow>
     conv_inv (log_of env) (conv_files w) (conv_state w) \<and>
     active_branch (log_of env) (conv_files w) (conv_state w) None = Inr b \<and>
     (complete_log (conv_files w) (event_log_of (conv_state w)) \<or> leaf_event_id (base (conv_state w)) \<noteq> None)"

lemma at_head_same_place: "at_head env w b \<Longrightarrow> same_place w w1 \<Longrightarrow> at_head env w1 b"
  using same_place_branch [of w w1 "log_of env"] same_place_stamp(1) [of w w1 "log_of env"]
  by (auto simp: at_head_def same_place_def same_tree_def)

lemma on_event_branch:
  assumes "silent env" "reliable (log_of env)" "at_head env w b"
    and e: "ev_parent_id e = None" "\<not> is_user_event e" "\<not> is_state_update e" "\<And>p. storable (log_of env) (with_parent p e)"
    and "on_event env e w = (Inr (), w')"
  shows "\<exists>p. at_head env w' (b @ [with_parent p e])"
proof -
  have inv: "conv_inv (log_of env) (conv_files w) (conv_state w)" using assms(3) by (simp add: at_head_def)
  obtain w1 e1 p seq s st where 1: "same_place w w1" "e1 = with_parent p e"
    "stamp_parent_id (log_of env) (conv_files w1) (conv_state w1) e = Inr e1"
    "stamp_parent_id (log_of env) (conv_files w1) (conv_state w1) e1 = Inr e1"
    "state_append_event (log_of env) (write_error env) (conv_files w1) (conv_state w1) e1 = (Inr seq, s, st)"
    "w' = w1\<lparr>conv_state := s, conv_files := st\<rparr>"
    by (rule on_event_silent [OF assms(1) inv e(1,2) assms(8)])
  have h1: "at_head env w1 b" by (rule at_head_same_place [OF assms(3) 1(1)])
  have inv1: "conv_inv (log_of env) (conv_files w1) (conv_state w1)" using h1 by (simp add: at_head_def)
  have env: "log_of env = (log_of env)\<lparr>lock_timeout := lock_timeout (log_of env),
      marker_error := marker_error (log_of env), guard_error := guard_error (log_of env),
      delete_error := False\<rparr>" using assms(2) by (simp add: reliable_def)
  have "storable (log_of env) e1" using e(4) 1(2) by simp
  note out = state_append_outcome [OF inv1 env reliable_listed [OF assms(2)] 1(4) this 1(5)]
  have out: "grown (log_of env) (conv_files w1) st e1" "conv_inv (log_of env) st s"
    "leaf_event_id (base s) = Some (ev_id e1)"
    using out e(3) 1(2) by auto
  have "path_of (log_of env) st (Some (ev_id e1)) = path_of (log_of env) (conv_files w1) (head_of (log_of env) (conv_files w1) (conv_state w1)) @ [e1]"
    using append_branch [OF inv1 out(1) 1(3) e(1)] h1 by (simp add: at_head_def)
  then show ?thesis
    using active_branch_path [OF inv1] active_branch_path [OF out(2)] out(2,3) h1 1(2,6)
    by (intro exI [of _ p]) (simp add: at_head_def head_of_def)
qed

end
