(* ===== verification/Agent_Safety.thy ===== *)
theory Agent_Safety
  imports Agent_Step Callback_Branch
begin

text \<open>
  What a step of the agent keeps and guarantees: events are handled without asking the LLM or running
  tools, actions that need confirmation are not run, and a batch that runs answers its calls.
\<close>

section \<open>Counters\<close>

lemma counters_bind_op:
  assumes "counters (snd o1) = counters w" "\<And>x w1. counters (snd (f x w1)) = counters w1"
  shows "counters (snd (bind_op o1 f)) = counters w"
  using assms by (cases o1; cases "fst o1") (auto simp: bind_op_def)

lemma counters_of [simp]:
  "counters (snd (emit env e w)) = counters w"
  "counters (snd (on_state f w)) = counters w"
  "counters (snd (set_status cenv x w)) = counters w"
  by (simp add: emit_def) (simp_all add: set_status_def on_state_def counters_def split: prod.splits)

lemma counters_emit_text [simp]: "counters (snd (emit_text env src r s w)) = counters w"
  by (simp add: emit_text_def case_prod_beta)

lemma counters_emit_tool_error [simp]: "counters (snd (emit_tool_error env msg name call resp x errs w)) = counters w"
  unfolding emit_tool_error_def by (rule counters_bind_op) (auto simp: case_prod_beta intro!: counters_bind_op split: sum.splits)

lemma counters_get_action_event [simp]: "counters (snd (get_action_event env call resp x w)) = counters w"
  unfolding get_action_event_def
  by (cases "read_tool_call env call") (auto simp: case_prod_beta Let_def intro!: counters_bind_op)

lemma counters_get_action_events [simp]: "counters (snd (get_action_events env resp x calls w)) = counters w"
  by (induction env resp x calls w rule: get_action_events.induct) (auto intro!: counters_bind_op)

lemma counters_confirm_actions [simp]: "counters (snd (confirm_actions env acts w)) = counters w"
  unfolding confirm_actions_def
  by (auto simp: case_prod_beta intro!: counters_bind_op split: option.splits)

section \<open>Confirmation\<close>

text \<open>Whether the policy lets a list of risks pass without asking.\<close>

lemma any_confirm_passes: "any_confirm p rs = Inr False \<longleftrightarrow> (\<forall>r \<in> set rs. should_confirm p r = Inr False)"
proof (induction rs)
  case (Cons r rs)
  then show ?case by (cases "should_confirm p r") auto
qed simp

lemma confirm_actions_passed:
  assumes "confirm_actions env acts w = (Inr ask, w')"
  obtains risks audit where "analyze_for_confirmation (error_text (texts env)) (security_analyzer env) acts = Inr (risks, audit)"
    "ask \<longleftrightarrow> \<not> (\<forall>r \<in> set risks. should_confirm (policy env) r = Inr False)"
    "ask \<Longrightarrow> status_of w' = WAITING_FOR_CONFIRMATION"
proof -
  obtain risks audit w1 where 1: "analyze_for_confirmation (error_text (texts env)) (security_analyzer env) acts = Inr (risks, audit)"
    and 2: "on_state (set_confirmation_status (write_error (conv_env env)) (policy env) risks) w1 = (Inr ask, w')"
    using assms by (auto simp: confirm_actions_def bind_op_Inr_iff split: prod.splits)
  obtain s' where s': "set_confirmation_status (write_error (conv_env env)) (policy env) risks (conv_state w1) = (Inr ask, s')"
    "w' = w1\<lparr>conv_state := s'\<rparr>"
    using 2 by (auto simp: on_state_def split: prod.splits)
  have "any_confirm (policy env) risks = Inr ask" and "ask \<Longrightarrow> execution_status (base s') = WAITING_FOR_CONFIRMATION"
    using s'(1) by (auto simp: set_confirmation_status_def bind_op_Inr_iff dest: setattr_state split: if_splits)
  then show ?thesis using that [OF 1] any_confirm_passes [of "policy env" risks] s'(2) by (cases ask) auto
qed

section \<open>Blocked messages\<close>

lemma pop_last_message_block_cases:
  assumes "last_user_message_id (base (conv_state w)) = Some i"
  shows "fmlookup (blocked_messages (base (conv_state w))) i = None \<Longrightarrow> pop_last_message_block env w = (Inr None, w)"
    and "fmlookup (blocked_messages (base (conv_state w))) i = Some s \<Longrightarrow> write_error env = (\<lambda>_. None) \<Longrightarrow>
      \<exists>w1. pop_last_message_block env w = (Inr (Some s), w1) \<and> same_place w w1 \<and> counters w1 = counters w"
proof -
  show "fmlookup (blocked_messages (base (conv_state w))) i = None \<Longrightarrow> pop_last_message_block env w = (Inr None, w)"
    using assms by (simp add: pop_last_message_block_def on_state_def pop_blocked_message_def)
  assume b: "fmlookup (blocked_messages (base (conv_state w))) i = Some s" and e: "write_error env = (\<lambda>_. None)"
  let ?upd = "\<lambda>b. b\<lparr>blocked_messages := fmdrop i (blocked_messages b)\<rparr>"
  obtain s1 where s1: "setattr (\<lambda>_. None) ''blocked_messages'' ?upd (conv_state w) = (Inr (), s1)" using setattr_no_error by blast
  then have "on_state (setattr (\<lambda>_. None) ''blocked_messages'' ?upd) w = (Inr (), w\<lparr>conv_state := s1\<rparr>)" by (simp add: on_state_def)
  from on_state_setattr_place [OF this] have "same_place w (w\<lparr>conv_state := s1\<rparr>)" by simp
  moreover have "pop_last_message_block env w = (Inr (Some s), w\<lparr>conv_state := s1\<rparr>)"
    using assms b e s1 by (simp add: pop_last_message_block_def on_state_def pop_blocked_message_def)
  ultimately show "\<exists>w1. pop_last_message_block env w = (Inr (Some s), w1) \<and> same_place w w1 \<and> counters w1 = counters w"
    by auto
qed

lemma set_status_done:
  assumes "write_error env = (\<lambda>_. None)"
  shows "\<exists>w1. set_status env x w = (Inr (), w1) \<and> same_place w w1 \<and> status_of w1 = x \<and> counters w1 = counters w"
proof -
  obtain s1 where s1: "setattr (\<lambda>_. None) ''execution_status'' (\<lambda>b. b\<lparr>execution_status := x\<rparr>) (conv_state w) = (Inr (), s1)"
    using setattr_no_error by blast
  then have "set_status env x w = (Inr (), w\<lparr>conv_state := s1\<rparr>)" using assms by (simp add: set_status_def on_state_def)
  moreover from this have "same_place w (w\<lparr>conv_state := s1\<rparr>)" unfolding set_status_def by (rule on_state_setattr_place) simp
  ultimately show ?thesis using setattr_state [OF s1] by simp
qed

section \<open>A batch of actions\<close>

text \<open>An event that answers an action and no other one.\<close>

definition answer_to :: "action_event \<Rightarrow> event \<Rightarrow> bool" where
  "answer_to a e \<longleftrightarrow> answers_action a e \<and> observed_call e = Some (tool_call_id a)"

lemma answer_to_simps [simp]: "answer_to a (with_parent p e) = answer_to a e"
  by (cases e) (simp_all add: answer_to_def)

lemma answer_to_facts:
  assumes "answer_to a e"
  shows "\<not> is_action e" "\<not> is_state_update e" "\<not> is_user_event e"
    and "event_id b \<noteq> event_id a \<Longrightarrow> tool_call_id b \<noteq> tool_call_id a \<Longrightarrow> \<not> answers_action b e"
  using assms by (cases e; simp add: answer_to_def)+

text \<open>What running one action gives: one answer.\<close>

lemma execute_action_event_answers:
  assumes "execute_action_event env n a = Inr evs" "tc_id (tool_call a) = tool_call_id a"
  obtains e where "evs = [e]" "answer_to a e" "ev_parent_id e = None"
  using assms
  by (auto simp: execute_action_event_def answer_to_def agent_error_of_def Let_def split: option.splits sum.splits if_splits)

lemma run_safe_answers:
  assumes "tc_id (tool_call a) = tool_call_id a"
  shows "\<exists>e. run_safe str_error (execute_action_event env n) ce a tool = [e] \<and> answer_to a e \<and> ev_parent_id e = None"
proof (cases rule: run_safe_cases [of ce str_error "execute_action_event env n" a tool])
  case (finished evs)
  then show ?thesis using execute_action_event_answers [OF finished(2) assms] by metis
qed (auto simp: cancelled_error_def call_error_def answer_to_def)

lemma execute_prepared_answers:
  assumes "set (finish_order env n) = {0..<length acts}" "\<forall>a \<in> set acts. tc_id (tool_call a) = tool_call_id a"
  shows "\<exists>es. execute_prepared env n acts = Some (map (\<lambda>e. [e]) es) \<and> list_all2 answer_to acts es \<and>
    list_all (\<lambda>e. ev_parent_id e = None) es"
proof -
  let ?run = "\<lambda>i. run_safe (error_text (texts env)) (execute_action_event env n) (call_envs env n i) (acts ! i)
      (resources_of env (tool_name (acts ! i)))"
  have one: "\<exists>e. ?run i = [e] \<and> answer_to (acts ! i) e \<and> ev_parent_id e = None" if "i < length acts" for i
    using run_safe_answers assms(2) that by simp
  let ?es = "map (hd \<circ> ?run) [0..<length acts]"
  have "execute_prepared env n acts = Some (map (\<lambda>e. [e]) ?es)"
    using execute_batch_all [OF assms(1)] one by (fastforce simp: execute_prepared_def)
  moreover have "list_all2 answer_to acts ?es" using one by (fastforce simp: list_all2_conv_all_nth)
  moreover have "list_all (\<lambda>e. ev_parent_id e = None) ?es" using one by (fastforce simp: list_all_length)
  ultimately show ?thesis by blast
qed

text \<open>Popping the blocks of the actions.\<close>

abbreviation blocks_of :: "conversation \<Rightarrow> (string, string) fmap" where
  "blocks_of w \<equiv> blocked_actions (base (conv_state w))"

lemma pop_block_spec:
  assumes "on_state (pop_blocked_action werr i) w = (Inr x, w1)"
  shows "x = fmlookup (blocks_of w) i" "blocks_of w1 = fmdrop i (blocks_of w)" "same_place w w1" "counters w1 = counters w"
    and "status_of w1 = status_of w"
proof -
  show "counters w1 = counters w" using counters_of(2) [of "pop_blocked_action werr i" w] assms by simp
  have "x = fmlookup (blocks_of w) i \<and> blocks_of w1 = fmdrop i (blocks_of w) \<and> same_place w w1 \<and> status_of w1 = status_of w"
  proof (cases "fmlookup (blocks_of w) i")
    case None
    then have "fmdrop i (blocks_of w) = blocks_of w" by (intro fmap_ext) (auto simp: fmlookup_drop)
    then show ?thesis using None assms by (simp add: on_state_def pop_blocked_action_def)
  next
    case (Some s)
    let ?upd = "\<lambda>b. b\<lparr>blocked_actions := fmdrop i (blocked_actions b)\<rparr>"
    obtain s1 where s1: "setattr werr ''blocked_actions'' ?upd (conv_state w) = (Inr (), s1)" "w1 = w\<lparr>conv_state := s1\<rparr>" "x = Some s"
      using assms Some by (auto simp: on_state_def pop_blocked_action_def bind_op_Inr_iff split: prod.splits)
    then have "on_state (setattr werr ''blocked_actions'' ?upd) w = (Inr (), w1)" by (simp add: on_state_def)
    from on_state_setattr_place [OF this] show ?thesis using setattr_state [OF s1(1)] s1(2,3) Some by simp
  qed
  then show "x = fmlookup (blocks_of w) i" "blocks_of w1 = fmdrop i (blocks_of w)" "same_place w w1" "status_of w1 = status_of w"
    by blast+
qed

lemma partition_blocked_spec:
  assumes "partition_blocked env acts w = (Inr (reasons, executable), w1)" "distinct (map event_id acts)"
  shows "executable = filter (\<lambda>a. event_id a |\<notin>| fmdom (blocks_of w)) acts"
    and "a \<in> set acts \<Longrightarrow> fmlookup reasons (event_id a) = fmlookup (blocks_of w) (event_id a)"
    and "same_place w w1" "counters w1 = counters w" "status_of w1 = status_of w"
proof -
  have "executable = filter (\<lambda>a. event_id a |\<notin>| fmdom (blocks_of w)) acts \<and>
    (\<forall>i. fmlookup reasons i = (if i \<in> event_id ` set acts then fmlookup (blocks_of w) i else None)) \<and>
    same_place w w1 \<and> counters w1 = counters w \<and> status_of w1 = status_of w"
    using assms
  proof (induction env acts w arbitrary: reasons executable w1 rule: partition_blocked.induct)
    case (2 env a as w)
    obtain x w2 reasons' executable' where p: "on_state (pop_blocked_action (write_error env) (event_id a)) w = (Inr x, w2)"
      "partition_blocked env as w2 = (Inr (reasons', executable'), w1)"
      "reasons = (case x of Some s \<Rightarrow> (if event_id a |\<in>| fmdom reasons' then reasons' else fmupd (event_id a) s reasons') | None \<Rightarrow> reasons')"
      "executable = (case x of Some s \<Rightarrow> executable' | None \<Rightarrow> a # executable')"
      using 2(2) by (auto simp: bind_op_Inr_iff split: prod.splits option.splits)
    note pop = pop_block_spec [OF p(1)]
    have ih: "executable' = filter (\<lambda>b. event_id b |\<notin>| fmdom (blocks_of w2)) as"
      "\<And>i. fmlookup reasons' i = (if i \<in> event_id ` set as then fmlookup (blocks_of w2) i else None)"
      "same_place w2 w1" "counters w1 = counters w2" "status_of w1 = status_of w2"
      using 2(1) [OF p(2)] 2(3) by simp_all
    have dist: "event_id a \<notin> event_id ` set as" using 2(3) by simp
    then have exe: "executable' = filter (\<lambda>b. event_id b |\<notin>| fmdom (blocks_of w)) as"
      unfolding ih(1) by (intro filter_cong) (auto simp: pop(2) image_iff)
    have no: "event_id a |\<notin>| fmdom reasons'" using ih(2) [of "event_id a"] dist by (simp add: fmdom_notI)
    have look: "fmlookup reasons' i = (if i \<in> event_id ` set as then fmlookup (blocks_of w) i else None)" for i
      using ih(2) [of i] dist by (auto simp: pop(2))
    show ?case
      using p(3,4) exe no look dist pop ih(3-5) same_place_trans [of w w2 w1]
      by (cases "fmlookup (blocks_of w) (event_id a)") (auto simp: fmdom_notI fmdomI)
  qed simp
  then show "executable = filter (\<lambda>a. event_id a |\<notin>| fmdom (blocks_of w)) acts"
    and "a \<in> set acts \<Longrightarrow> fmlookup reasons (event_id a) = fmlookup (blocks_of w) (event_id a)"
    and "same_place w w1" "counters w1 = counters w" "status_of w1 = status_of w"
    by auto
qed

text \<open>The answers of a batch as they join the branch.\<close>

definition answered :: "(string, string) fmap \<Rightarrow> action_event \<Rightarrow> event \<Rightarrow> bool" where
  "answered blocked a e \<longleftrightarrow> answer_to a e \<and>
     (case fmlookup blocked (event_id a) of
        None \<Rightarrow> True
      | Some reason \<Rightarrow> (\<exists>ob. e = UserRejectObservation ob \<and> rejection_reason ob = reason \<and> rejection_source ob = RejectedByHook))"

definition storable_rejection :: "agent_env \<Rightarrow> string \<Rightarrow> action_event \<Rightarrow> bool" where
  "storable_rejection env reason a \<longleftrightarrow>
     (\<forall>w p. storable (log_of (conv_env env))
        (with_parent p (hook_rejection (fst (new_base (conv_env env) SourceEnvironment w)) reason a)))"

definition ready :: "agent_env \<Rightarrow> action_batch \<Rightarrow> action_event \<Rightarrow> bool" where
  "ready env b a \<longleftrightarrow>
     (case fmlookup (ab_blocked b) (event_id a) of
        Some reason \<Rightarrow> storable_rejection env reason a
      | None \<Rightarrow> (\<exists>e. fmlookup (ab_results b) (event_id a) = Some [e] \<and> answer_to a e \<and> ev_parent_id e = None \<and>
          (\<forall>p. storable (log_of (conv_env env)) (with_parent p e))))"

lemma new_base_same [simp]: "same_place w (snd (new_base env src w))" "counters (snd (new_base env src w)) = counters w"
  "status_of (snd (new_base env src w)) = status_of w"
  by simp_all

lemma emit_answer:
  assumes "silent (conv_env env)" "reliable (log_of (conv_env env))" "at_head (conv_env env) w br"
    and "answer_to a e" "ev_parent_id e = None" "\<And>p. storable (log_of (conv_env env)) (with_parent p e)"
    and "emit env e w = (Inr (), w')"
  shows "\<exists>p. at_head (conv_env env) w' (br @ [with_parent p e])" "status_of w' = status_of w"
  using on_event_branch [OF assms(1-3,5) answer_to_facts(3,2) [OF assms(4)] assms(6)] assms(7)
    on_event_handled [of "conv_env env" e w "Inr ()" w'] by (simp_all add: emit_def handled_def)

lemma emit_batch_answers:
  assumes "emit_batch env b as w = (Inr (), w')" "at_head (conv_env env) w br"
    and "silent (conv_env env)" "reliable (log_of (conv_env env))" "\<forall>a \<in> set as. ready env b a"
  shows "(\<exists>c. at_head (conv_env env) w' (br @ c) \<and> list_all2 (answered (ab_blocked b)) as c) \<and> status_of w' = status_of w"
  using assms
proof (induction env b as w arbitrary: br rule: emit_batch.induct)
  case (2 env b a as w)
  then obtain w1 where first: "(case fmlookup (ab_blocked b) (event_id a) of
          Some reason \<Rightarrow>
            (case new_base (conv_env env) SourceEnvironment w of (bs, w1) \<Rightarrow> emit env (hook_rejection bs reason a) w1)
        | None \<Rightarrow> (case fmlookup (ab_results b) (event_id a) of
               None \<Rightarrow> (Inl KeyError, w) | Some evs \<Rightarrow> emit_all env evs w)) = (Inr (), w1)"
    and rest: "emit_batch env b as w1 = (Inr (), w')" by (auto simp: bind_op_Inr_iff)
  have ready: "ready env b a" using 2 by simp
  have "\<exists>e. at_head (conv_env env) w1 (br @ [e]) \<and> answered (ab_blocked b) a e \<and> status_of w1 = status_of w"
  proof (cases "fmlookup (ab_blocked b) (event_id a)")
    case None
    then obtain e where e: "fmlookup (ab_results b) (event_id a) = Some [e]" "answer_to a e" "ev_parent_id e = None"
      "\<And>p. storable (log_of (conv_env env)) (with_parent p e)" using ready by (auto simp: ready_def)
    then have "emit env e w = (Inr (), w1)" using first None by (simp add: bind_op_Inr_iff)
    from emit_answer [OF 2(4,5,3) e(2-4) this] show ?thesis using e(2) None by (fastforce simp: answered_def)
  next
    case (Some reason)
    let ?e = "hook_rejection (fst (new_base (conv_env env) SourceEnvironment w)) reason a"
    let ?w = "snd (new_base (conv_env env) SourceEnvironment w)"
    have e: "answer_to a ?e" "ev_parent_id ?e = None" by (simp_all add: hook_rejection_def answer_to_def)
    have st: "storable (log_of (conv_env env)) (with_parent p ?e)" for p
      using ready Some unfolding ready_def storable_rejection_def by simp
    have "emit env ?e ?w = (Inr (), w1)" using first Some by (simp add: case_prod_beta)
    from emit_answer [OF 2(4,5) at_head_same_place [OF 2(3) new_base_same(1)] e st this]
    obtain p where p: "at_head (conv_env env) w1 (br @ [with_parent p ?e])" "status_of w1 = status_of w" by auto
    have "answered (ab_blocked b) a (with_parent p ?e)"
      using e(1) Some by (simp add: answered_def) (simp add: hook_rejection_def)
    then show ?thesis using p by blast
  qed
  then obtain e where e: "at_head (conv_env env) w1 (br @ [e])" "answered (ab_blocked b) a e" "status_of w1 = status_of w" by blast
  then obtain c where "at_head (conv_env env) w' ((br @ [e]) @ c)" "list_all2 (answered (ab_blocked b)) as c" "status_of w' = status_of w1"
    using 2(1) [OF rest e(1) 2(4,5)] 2(6) by auto
  then show ?case using e by (intro conjI exI [of _ "e # c"]) auto
qed auto

lemma truncate_at_finish_spec:
  assumes "truncate_at_finish acts = (kept, fin)"
  shows "acts = kept @ drop (length kept) acts" "fin \<longleftrightarrow> (\<exists>a \<in> set acts. tool_name a = FINISH_TOOL)"
    and "fin \<Longrightarrow> kept \<noteq> [] \<and> tool_name (last kept) = FINISH_TOOL" "\<forall>a \<in> set (butlast kept). tool_name a \<noteq> FINISH_TOOL \<or> \<not> fin"
proof -
  show "acts = kept @ drop (length kept) acts" "fin \<longleftrightarrow> (\<exists>a \<in> set acts. tool_name a = FINISH_TOOL)"
    using assms by (auto simp: truncate_at_finish_def first_index_None_iff first_index_Some_iff min_def split: option.splits)
  show "kept \<noteq> [] \<and> tool_name (last kept) = FINISH_TOOL" if fin
    using assms that
    by (auto simp: truncate_at_finish_def first_index_Some_iff take_Suc_conv_app_nth split: option.splits)
  show "\<forall>a \<in> set (butlast kept). tool_name a \<noteq> FINISH_TOOL \<or> \<not> fin"
    using assms
    by (auto simp: truncate_at_finish_def first_index_Some_iff butlast_take in_set_conv_nth split: option.splits)
qed

text \<open>The actions of a batch that run, and that all its answers can be stored.\<close>

definition unblocked :: "conversation \<Rightarrow> action_event list \<Rightarrow> action_event list" where
  "unblocked w acts = filter (\<lambda>a. event_id a |\<notin>| fmdom (blocks_of w)) acts"

definition storable_answers :: "agent_env \<Rightarrow> conversation \<Rightarrow> action_event list \<Rightarrow> bool" where
  "storable_answers env w acts \<longleftrightarrow>
     (\<forall>a \<in> set acts. \<forall>reason. fmlookup (blocks_of w) (event_id a) = Some reason \<longrightarrow> storable_rejection env reason a) \<and>
     (\<forall>rs es e p. execute_prepared env (batches_run w) (unblocked w acts) = Some rs \<longrightarrow> es \<in> set rs \<longrightarrow> e \<in> set es \<longrightarrow>
        storable (log_of (conv_env env)) (with_parent p e))"

lemma fmlookup_zip_distinct:
  assumes "length xs = length ys" "distinct xs" "i < length xs"
  shows "fmlookup (fmap_of_list (rev (zip xs ys))) (xs ! i) = Some (ys ! i)"
proof -
  have "map fst (rev (zip xs ys)) = rev xs" using assms(1) by (simp add: rev_map [symmetric])
  then have "distinct (map fst (rev (zip xs ys)))" using assms(2) by simp
  moreover have "(xs ! i, ys ! i) \<in> set (rev (zip xs ys))" using assms(1,3) by (auto simp: set_zip)
  ultimately show ?thesis by (simp add: fmlookup_of_list)
qed

lemma prepare_batch_ready:
  assumes "prepare_batch env acts w = Some (Inr b, w1)" "truncate_at_finish acts = (kept, fin)"
    and "distinct (map event_id acts)" "\<forall>a \<in> set acts. tc_id (tool_call a) = tool_call_id a"
    and "set (finish_order env (batches_run w)) = {0..<length (unblocked w kept)}" "storable_answers env w kept"
  shows "ab_actions b = kept" "ab_has_finish b = fin" "same_place w w1" "status_of w1 = status_of w"
    and "a \<in> set kept \<Longrightarrow> fmlookup (ab_blocked b) (event_id a) = fmlookup (blocks_of w) (event_id a)"
    and "\<forall>a \<in> set kept. ready env b a"
proof -
  obtain reasons executable w2 where p: "partition_blocked (conv_env env) kept w = (Inr (reasons, executable), w2)"
    using assms(1,2) by (auto simp: prepare_batch_def split: sum.splits prod.splits)
  have kept: "acts = kept @ drop (length kept) acts" using truncate_at_finish_spec(1) [OF assms(2)] .
  then have dist: "distinct (map event_id kept)" and tc: "\<forall>a \<in> set kept. tc_id (tool_call a) = tool_call_id a"
    using assms(3,4) by (metis distinct_append map_append, metis Un_iff set_append)
  note part = partition_blocked_spec [OF p dist]
  have exe: "executable = unblocked w kept" using part(1) by (simp add: unblocked_def)
  have n: "batches_run w2 = batches_run w" using part(4) by (simp add: counters_def)
  have tc': "\<forall>a \<in> set executable. tc_id (tool_call a) = tool_call_id a" using tc exe by (simp add: unblocked_def)
  obtain es where es: "execute_prepared env (batches_run w2) executable = Some (map (\<lambda>e. [e]) es)"
    "list_all2 answer_to executable es" "list_all (\<lambda>e. ev_parent_id e = None) es"
    using execute_prepared_answers [of env "batches_run w2" executable] assms(5) exe n tc' by auto
  have b: "b = \<lparr>ab_actions = kept, ab_has_finish = fin, ab_blocked = reasons,
      ab_results = fmap_of_list (rev (zip (map event_id executable) (map (\<lambda>e. [e]) es)))\<rparr>"
    "w1 = w2\<lparr>batches_run := Suc (batches_run w2)\<rparr>"
    using assms(1,2) p es(1) by (simp_all add: prepare_batch_def)
  show "ab_actions b = kept" "ab_has_finish b = fin" "same_place w w1" "status_of w1 = status_of w"
    using b part(3,5) by (simp_all add: same_place_def)
  show look: "a \<in> set kept \<Longrightarrow> fmlookup (ab_blocked b) (event_id a) = fmlookup (blocks_of w) (event_id a)" for a
    using b part(2) by simp
  show "\<forall>a \<in> set kept. ready env b a"
  proof
    fix a assume a: "a \<in> set kept"
    show "ready env b a"
    proof (cases "fmlookup (blocks_of w) (event_id a)")
      case None
      then have "a \<in> set executable" using a exe by (simp add: unblocked_def fmdom_notI)
      then obtain i where i: "i < length executable" "executable ! i = a" by (metis in_set_conv_nth)
      have len: "length es = length executable" using es(2) by (simp add: list_all2_lengthD)
      have "distinct (map event_id executable)" using dist exe by (simp add: unblocked_def distinct_map_filter)
      from fmlookup_zip_distinct [OF _ this, of "map (\<lambda>e. [e]) es" i]
      have "fmlookup (ab_results b) (event_id a) = Some [es ! i]" using b(1) i len by simp
      moreover have "answer_to a (es ! i)" "ev_parent_id (es ! i) = None" "es ! i \<in> set es"
        using es(2,3) i len by (auto simp: list_all2_conv_all_nth list_all_length)
      moreover have "storable (log_of (conv_env env)) (with_parent p (es ! i))" for p
        using assms(6) es(1) n exe \<open>es ! i \<in> set es\<close> unfolding storable_answers_def by force
      ultimately show ?thesis using None look [OF a] by (simp add: ready_def)
    next
      case (Some reason)
      then show ?thesis using a assms(6) look [OF a] by (simp add: ready_def storable_answers_def)
    qed
  qed
qed

text \<open>Answers leave the actions behind them pending.\<close>

lemma pending_after_answers:
  assumes "pending_actions br = kept @ rest" "list_all2 answer_to kept c"
    and "distinct (map event_id (kept @ rest))" "distinct (map tool_call_id (kept @ rest))"
  shows "pending_actions (br @ c) = rest"
proof -
  have len: "length c = length kept" and ans: "\<And>i. i < length kept \<Longrightarrow> answer_to (kept ! i) (c ! i)"
    using assms(2) by (simp_all add: list_all2_conv_all_nth)
  have "list_all (\<lambda>e. \<not> is_action e) c" using len ans answer_to_facts(1) by (metis list_all_length)
  then have "pending_actions (br @ c) = filter (\<lambda>a. list_all (\<lambda>e. \<not> answers_action a e) c) (kept @ rest)"
    using pending_actions_append assms(1) by simp
  moreover have "filter (\<lambda>a. list_all (\<lambda>e. \<not> answers_action a e) c) kept = []"
  proof -
    have "\<exists>e \<in> set c. answers_action a e" if "a \<in> set kept" for a
      using that ans len by (metis answer_to_def in_set_conv_nth nth_mem)
    then show ?thesis by (auto simp: filter_empty_conv list_all_iff)
  qed
  moreover have "filter (\<lambda>a. list_all (\<lambda>e. \<not> answers_action a e) c) rest = rest"
  proof -
    have "\<not> answers_action a e" if a: "a \<in> set rest" and e: "e \<in> set c" for a e
    proof -
      obtain i where i: "i < length kept" "answer_to (kept ! i) e" using e ans len by (metis in_set_conv_nth)
      then have "event_id a \<noteq> event_id (kept ! i)" "tool_call_id a \<noteq> tool_call_id (kept ! i)"
        using assms(3,4) imageI [OF a, of event_id] imageI [OF nth_mem [OF i(1)], of event_id]
          imageI [OF a, of tool_call_id] imageI [OF nth_mem [OF i(1)], of tool_call_id] by fastforce+
      then show ?thesis using answer_to_facts(4) [OF i(2)] by simp
    qed
    then show ?thesis by (auto simp: filter_id_conv list_all_iff)
  qed
  ultimately show ?thesis by simp
qed

section \<open>Properties\<close>

text \<open>C7: No tool runs before its confirmation. When an answer of the LLM carries tool calls, a batch of
  tools is started only if every call could be read or was answered with an error, the security
  analysis succeeded, and the policy lets the risk of every action pass. Otherwise no tool runs, and
  the conversation waits for confirmation or the step raises.\<close>

theorem unconfirmed_actions_not_run:
  assumes "handle_tool_calls env m resp w = Some (r, w')"
    and "\<And>acts w1 risks audit. get_action_events env resp (first_extras m) (case tool_calls m of Some cs \<Rightarrow> cs | None \<Rightarrow> []) w = (Inr acts, w1) \<Longrightarrow>
      analyze_for_confirmation (error_text (texts env)) (security_analyzer env) acts = Inr (risks, audit) \<Longrightarrow>
      \<exists>x \<in> set risks. should_confirm (policy env) x \<noteq> Inr False"
  shows "counters w' = counters w \<and> ((\<exists>e. r = Inl e) \<or> r = Inr () \<and> status_of w' = WAITING_FOR_CONFIRMATION)"
proof -
  let ?calls = "case tool_calls m of Some cs \<Rightarrow> cs | None \<Rightarrow> []"
  obtain r1 w1 where 1: "get_action_events env resp (first_extras m) ?calls w = (r1, w1)" by fastforce
  then have c1: "counters w1 = counters w" using counters_get_action_events [of env resp "first_extras m" ?calls w] by simp
  show ?thesis
  proof (cases r1)
    case (Inr acts)
    obtain r2 w2 where 2: "confirm_actions env acts w1 = (r2, w2)" by fastforce
    then have c2: "counters w2 = counters w" using counters_confirm_actions [of env acts w1] c1 by simp
    show ?thesis
    proof (cases r2)
      case (Inr ask)
      have 2: "confirm_actions env acts w1 = (Inr ask, w2)" using 2 Inr by simp
      obtain risks audit where "analyze_for_confirmation (error_text (texts env)) (security_analyzer env) acts = Inr (risks, audit)"
        "ask \<longleftrightarrow> \<not> (\<forall>r \<in> set risks. should_confirm (policy env) r = Inr False)" "ask \<Longrightarrow> status_of w2 = WAITING_FOR_CONFIRMATION"
        by (rule confirm_actions_passed [OF 2]) blast
      then have ask and "status_of w2 = WAITING_FOR_CONFIRMATION"
        using assms(2) 1 \<open>r1 = Inr acts\<close> by blast+
      then show ?thesis using assms(1) 1 2 c2 \<open>r1 = Inr acts\<close> by (simp add: handle_tool_calls_def)
    qed (use assms(1) 1 2 c2 \<open>r1 = Inr acts\<close> in \<open>auto simp: handle_tool_calls_def\<close>)
  qed (use assms(1) 1 c1 in \<open>auto simp: handle_tool_calls_def\<close>)
qed

text \<open>C29: What a message hook decides about the last message of the user is what the next step does when
  no action is pending, unless the hooks also add context. A message they block ends the turn: the
  step only sets the conversation to finished, without a call of the LLM or a tool and without a new
  event. A message they let pass goes to the LLM. But a blocked message with added context is
  recorded under a new identifier, under which there is no block, and goes to the LLM as well.\<close>

theorem message_block_and_context:
  assumes "processor (conv_env env) = Some p" "write_error (conv_env env) = (\<lambda>_. None)" "source m = SourceUser"
    and "on_event (conv_env env) (MessageEvent m) w = (Inr (), w')"
    and "prompt_verdict p (hooks_run w) m = Inr (ok, ctx, rs)"
    and "event_id m |\<notin>| fmdom (blocked_messages (base (conv_state w)))"
    and "\<And>k. fst (new_ids (conv_env env) k) \<noteq> event_id m \<and> fst (new_ids (conv_env env) k) |\<notin>| fmdom (blocked_messages (base (conv_state w)))"
    and "active_branch (log_of (conv_env env)) (conv_files w') (conv_state w') None = Inr evs" "get_unmatched_actions evs = []"
  shows "if \<not> ok \<and> ctx = None
    then \<exists>w''. agent_step env w' = Some (Inr (), w'') \<and> same_place w' w'' \<and> counters w'' = counters w \<and> status_of w'' = FINISHED
    else agent_step env w' = prepare_and_send env w'"
proof -
  obtain k where last: "last_user_message_id (base (conv_state w')) = Some (if ctx = None then event_id m else fst (new_ids (conv_env env) k))"
    and blocks: "blocked_messages (base (conv_state w')) =
      (if ok then blocked_messages (base (conv_state w))
       else fmupd (event_id m) (block_reason rs) (blocked_messages (base (conv_state w))))"
    using user_message_recorded [OF assms(1,3,4)] assms(5) by auto
  have count: "counters w' = counters w" using counters_on_event [of "conv_env env" "MessageEvent m" w] assms(4) by simp
  show ?thesis
  proof (cases "\<not> ok \<and> ctx = None")
    case True
    then have "fmlookup (blocked_messages (base (conv_state w'))) (event_id m) = Some (block_reason rs)" using blocks by simp
    then obtain w1 where w1: "pop_last_message_block (conv_env env) w' = (Inr (Some (block_reason rs)), w1)"
      "same_place w' w1" "counters w1 = counters w'"
      using pop_last_message_block_cases(2) [OF last _ assms(2)] True by auto
    obtain w2 where "set_status (conv_env env) FINISHED w1 = (Inr (), w2)" "same_place w1 w2" "status_of w2 = FINISHED" "counters w2 = counters w1"
      using set_status_done [OF assms(2)] by blast
    then show ?thesis
      using True w1 assms(8,9) count same_place_trans [of w' w1 w2] by (simp add: agent_step_def)
  next
    case False
    then have "fmlookup (blocked_messages (base (conv_state w'))) (if ctx = None then event_id m else fst (new_ids (conv_env env) k)) = None"
      using blocks assms(6) assms(7) [of k] by (auto simp: fmdom_notD)
    then have "pop_last_message_block (conv_env env) w' = (Inr None, w')" by (rule pop_last_message_block_cases(1) [OF last])
    then show ?thesis using False assms(8,9) by (auto simp: agent_step_def)
  qed
qed

text \<open>C8: The agent runs the pending actions of the branch up to and including the first finish call,
  and no further. If that succeeds, the branch has exactly one answer for each of them, in order:
  the rejection with the hook's reason for an action a hook has blocked, the result or one error
  for every other. A finish call that is not blocked ends the turn. The calls behind it, which the
  agent means to discard, stay pending, and the next step runs them.\<close>

theorem batch_answered_in_order:
  assumes "silent (conv_env env)" "reliable (log_of (conv_env env))" "at_head (conv_env env) w br"
    and "distinct (map event_id (get_unmatched_actions br))" "distinct (map tool_call_id (get_unmatched_actions br))"
    and "\<forall>a \<in> set (get_unmatched_actions br). tc_id (tool_call a) = tool_call_id a" "agent_critic env = None"
    and "truncate_at_finish (get_unmatched_actions br) = (kept, fin)"
    and "set (finish_order env (batches_run w)) = {0..<length (unblocked w kept)}" "storable_answers env w kept"
    and "execute_actions env (get_unmatched_actions br) w = Some (Inr (), w')"
  shows "\<exists>c later. get_unmatched_actions br = kept @ later \<and> (\<forall>a \<in> set (butlast kept). fin \<longrightarrow> tool_name a \<noteq> FINISH_TOOL) \<and>
    active_branch (log_of (conv_env env)) (conv_files w') (conv_state w') None = Inr (br @ c) \<and>
    list_all2 (answered (blocks_of w)) kept c \<and> get_unmatched_actions (br @ c) = later \<and>
    (later \<noteq> [] \<longrightarrow> fin \<and> agent_step env w' = execute_actions env later w') \<and>
    status_of w' = (if fin \<and> event_id (last kept) |\<notin>| fmdom (blocks_of w) then FINISHED else status_of w)"
proof -
  define later where "later = drop (length kept) (get_unmatched_actions br)"
  note tr = truncate_at_finish_spec [OF assms(8)]
  have split: "get_unmatched_actions br = kept @ later" using tr(1) by (simp add: later_def)
  obtain b w1 w2 where b: "prepare_batch env (get_unmatched_actions br) w = Some (Inr b, w1)"
    "emit_batch env b (ab_actions b) w1 = (Inr (), w2)" "finalize_batch env b w2 = (Inr (), w')"
    using assms(11) by (auto simp: execute_actions_def bind_op_Inr_iff)
  note prep = prepare_batch_ready [OF b(1) assms(8,4,6,9,10)]
  obtain c where c: "at_head (conv_env env) w2 (br @ c)" "list_all2 (answered (ab_blocked b)) kept c" "status_of w2 = status_of w"
    using emit_batch_answers [OF b(2) at_head_same_place [OF assms(3) prep(3)] assms(1,2)] prep(1,4,6) by auto
  have ans: "list_all2 (answered (blocks_of w)) kept c"
    using c(2) prep(5) by (fastforce simp: answered_def list_all2_conv_all_nth)
  have last: "event_id (last kept) |\<in>| fmdom (ab_blocked b) \<longleftrightarrow> event_id (last kept) |\<in>| fmdom (blocks_of w)" if fin
    using prep(5) [of "last kept"] tr(3) [OF that] by (simp add: fmlookup_dom_iff)
  have fin: "if fin \<and> event_id (last kept) |\<notin>| fmdom (blocks_of w) then set_status (conv_env env) FINISHED w2 = (Inr (), w') else w' = w2"
    using b(3) prep(1,2) last assms(7) by (auto simp: finalize_batch_def check_iterative_refinement_def split: if_splits)
  have end': "same_place w2 w'" "status_of w' = (if fin \<and> event_id (last kept) |\<notin>| fmdom (blocks_of w) then FINISHED else status_of w)"
    using fin c(3) on_state_setattr_place [of _ _ _ w2 "Inr ()" w'] on_state_setattr [of _ _ _ w2 "Inr ()" w']
    by (auto simp: set_status_def split: if_splits)
  have branch: "active_branch (log_of (conv_env env)) (conv_files w') (conv_state w') None = Inr (br @ c)"
    using at_head_same_place [OF c(1) end'(1)] by (simp add: at_head_def)
  have "list_all2 answer_to kept c" using ans by (auto simp: answered_def elim: list_all2_mono)
  then have pend: "get_unmatched_actions (br @ c) = later"
    using pending_after_answers [of br kept later c] split assms(4,5) by (simp add: get_unmatched_pending)
  have "later \<noteq> [] \<longrightarrow> fin" using split assms(8) by (auto simp: truncate_at_finish_def split: option.splits)
  then show ?thesis
    using split tr(4) branch ans pend end'(2) by (intro exI [of _ c] exI [of _ later]) (auto simp: agent_step_def)
qed

section \<open>A sample agent\<close>

text \<open>A serialization by a table of events, which keeps the parent.\<close>

definition table_env :: "event list \<Rightarrow> log_env" where
  "table_env table =
     \<lparr>dump_event = (\<lambda>e. ev_id e @ (case ev_parent_id e of None \<Rightarrow> [] | Some p \<Rightarrow> CHR ''<'' # p)),
      load_event = (\<lambda>s.
        map_option (with_parent (case dropWhile (\<lambda>c. c \<noteq> CHR ''<'') s of [] \<Rightarrow> None | _ # p \<Rightarrow> Some p))
          (find (\<lambda>e. ev_id e = takeWhile (\<lambda>c. c \<noteq> CHR ''<'') s) table)),
      lock_timeout = False, list_error = None, marker_error = False, delete_error = False, guard_error = None\<rparr>"

lemma split_at_mark:
  assumes "CHR ''<'' \<notin> set xs"
  shows "takeWhile (\<lambda>c. c \<noteq> CHR ''<'') (xs @ ys) = xs @ takeWhile (\<lambda>c. c \<noteq> CHR ''<'') ys"
    and "dropWhile (\<lambda>c. c \<noteq> CHR ''<'') (xs @ ys) = dropWhile (\<lambda>c. c \<noteq> CHR ''<'') ys"
  using assms by (induction xs) auto

lemma table_storable:
  assumes "find (\<lambda>x. ev_id x = ev_id e) table = Some e" "valid_event_id (ev_id e)" "CHR ''<'' \<notin> set (ev_id e)" "ev_id e \<noteq> []"
  shows "storable (table_env table) (with_parent p e)"
proof -
  have p: "ev_parent_id (with_parent p e) = p" by simp
  have none: "takeWhile (\<lambda>c. c \<noteq> CHR ''<'') (ev_id e) = ev_id e" "dropWhile (\<lambda>c. c \<noteq> CHR ''<'') (ev_id e) = []"
    using split_at_mark [OF assms(3), of "[]"] by (simp_all only: append_Nil2 takeWhile.simps dropWhile.simps)
  show ?thesis
    using assms by (cases p) (simp_all add: storable_def table_env_def p none split_at_mark)
qed

definition sample_answer :: event where
  "sample_answer = ObservationEvent
     \<lparr>event_id = ''dddddddd'', timestamp = [], source = SourceEnvironment, parent_id = None,
      obs_tool_name = ''terminal'', obs_tool_call_id = ''c1'',
      observation = \<lparr>obs_model = (''ExecuteObservation'', JScalar ''null''), is_error = False,
                     to_llm_content = [TextContent ''ok'' False]\<rparr>,
      action_id = ''cccccccc'', extended_content = []\<rparr>"

definition sample_condense_event :: event where
  "sample_condense_event = CondensationRequest
     \<lparr>event_id = ''eeeeeeee'', timestamp = [], source = SourceEnvironment, parent_id = None\<rparr>"

definition sample_prompt :: message_event where
  "sample_prompt =
     \<lparr>event_id = ''bbbbbbbb'', timestamp = [], source = SourceUser, parent_id = None,
      llm_message = plain_message RoleUser [TextContent ''go'' False], me_llm_response_id = None,
      activated_skills = [], me_extended_content = [], sender = None, me_critic_result = None\<rparr>"

definition agent_log :: log_env where
  "agent_log = table_env
     [sample_message ''aaaaaaaa'' SourceUser ''hi'', sample_action ''cccccccc'' ''c1'' ''r1'', sample_answer, sample_condense_event,
      MessageEvent (sample_prompt\<lparr>event_id := ''ffffffff'', me_extended_content := [TextContent ''policy'' False]\<rparr>)]"

definition agent_state :: conversation_state where
  "agent_state = projr (create_state agent_log sample_store (\<lambda>_. None) redact_secrets (JStr ''x'') [] (Inr ()) None (Some sample_base_state))"

definition agent_conversation :: conversation where
  "agent_conversation = \<lparr>conv_state = agent_state, conv_files = sample_store, ids_used = 0, hooks_run = 0,
     pending_context = [], llm_calls = 0, batches_run = 0, refinement_iteration = 0, last_nudged = None\<rparr>"

definition sample_tool :: tool_spec where
  "sample_tool = \<lparr>ts_name = ''terminal'', ts_action_type = [], ts_response_schema = None, ts_mcp_input_schema = None,
     ts_read_only_hint = False, action_from_arguments = (\<lambda>_. Inr (''ExecuteAction'', JScalar ''null''))\<rparr>"

definition sample_texts :: agent_texts where
  "sample_texts = \<lparr>error_text = (\<lambda>_. ''bad''), missing_tool_text = id, invalid_call_text = (\<lambda>n _ _. n), error_details = (\<lambda>_. []),
     malformed_arguments = id, no_vision_text = [], trailing_nudge = [], filtered_text = [], corrective_text = []\<rparr>"

text \<open>The agent confirms everything; new events get the identifier \<open>i\<close>.\<close>

definition sample_agent :: "string \<Rightarrow> agent_env" where
  "sample_agent i =
     \<lparr>conv_env = \<lparr>log_of = agent_log, write_error = (\<lambda>_. None), new_ids = (\<lambda>_. (i, [])), processor = Some sample_processor\<rparr>,
      platform = sample_platform\<lparr>Tool_Calls.json_loads := (\<lambda>_. Inr (JDict fmempty))\<rparr>, recursion_limit = 9,
      specs = fmap_of_list [(''terminal'', sample_tool)], resources_of = Map.empty,
      run_tool = (\<lambda>_ _ _. Inr \<lparr>obs_model = (''ExecuteObservation'', JScalar ''null''), is_error = False,
                     to_llm_content = [TextContent ''ok'' False]\<rparr>),
      tool_event_ids = (\<lambda>_ _. (''dddddddd'', [])), max_workers = 1,
      call_envs = (\<lambda>_ _. \<lparr>is_cancelled = False, locks_granted = True, new_event = ([], [])\<rparr>), finish_order = (\<lambda>_. [0]),
      agent_llm = \<lparr>stream = False, requires_streaming = False, effective_max_input_tokens = None,
        get_token_count = (\<lambda>_ _ _. 0), generate = (\<lambda>_ _. Inl RuntimeErr), agenerate = (\<lambda>_ _. Inl RuntimeErr)\<rparr>,
      llm_is_router = False, vision_is_active = True, agent_condenser = Some no_op_condense,
      handles_condensation_requests = True, policy = AlwaysConfirm, security_analyzer = None, agent_critic = None,
      return_token_ids = False, mask_text = id, texts = sample_texts\<rparr>"

lemma agent_state_computed:
  "isl (create_state agent_log sample_store (\<lambda>_. None) redact_secrets (JStr ''x'') [] (Inr ()) None (Some sample_base_state)) = False"
  "read_item agent_log sample_store (file_at sample_store 0) = Inr (sample_message ''aaaaaaaa'' SourceUser ''hi'')"
  "read_item agent_log sample_store (file_at sample_store 1) = Inr (sample_action ''cccccccc'' ''c1'' ''r1'')"
  "active_branch agent_log sample_store agent_state None =
     Inr [sample_message ''aaaaaaaa'' SourceUser ''hi'', sample_action ''cccccccc'' ''c1'' ''r1'']"
  "complete_log sample_store (event_log_of agent_state)"
  unfolding atomize_conj by code_simp

lemma agent_log_list: "reliable agent_log"
  by (simp add: reliable_def agent_log_def table_env_def)

lemma agent_state_inv: "conv_inv agent_log sample_store agent_state"
proof -
  note agent_state_computed(2,3)
  then have read: "read_item agent_log sample_store (file_at sample_store i) = Inr (evt_of agent_log sample_store i) \<and>
      ev_id (evt_of agent_log sample_store i) = nid sample_store i \<and> ev_parent_id (evt_of agent_log sample_store i) = None"
    if "i < 2" for i
    using that by (auto simp: less_2_cases_iff evt_of_def sample_defs sample_found)
  have "length (found_files sample_store) = 2" by (simp add: sample_found)
  then have tree: "tree_store agent_log sample_store" using sample_store_inv read by (simp add: tree_store_def)
  have "create_state agent_log sample_store (\<lambda>_. None) redact_secrets (JStr ''x'') [] (Inr ()) None (Some sample_base_state) = Inr agent_state"
    using agent_state_computed(1) by (simp add: agent_state_def)
  from create_inv [OF tree reliable_listed [OF agent_log_list] _ this] show ?thesis by simp
qed

abbreviation sample_branch :: "event list" where
  "sample_branch \<equiv> [sample_message ''aaaaaaaa'' SourceUser ''hi'', sample_action ''cccccccc'' ''c1'' ''r1'']"

lemma agent_at_head: "at_head (conv_env (sample_agent i)) agent_conversation sample_branch"
  using agent_state_inv agent_state_computed(4,5) by (simp add: at_head_def sample_agent_def agent_conversation_def)

lemma sample_silent: "silent (conv_env (sample_agent i))"
  by (simp add: silent_def sample_agent_def sample_processor_def)

lemma sample_answers_storable:
  "storable (log_of (conv_env (sample_agent i))) (with_parent p sample_answer)"
  "storable (log_of (conv_env (sample_agent i))) (with_parent p sample_condense_event)"
proof -
  have "storable agent_log (with_parent p sample_answer)" "storable agent_log (with_parent p sample_condense_event)"
    unfolding agent_log_def by (rule table_storable; code_simp)+
  then show "storable (log_of (conv_env (sample_agent i))) (with_parent p sample_answer)"
    "storable (log_of (conv_env (sample_agent i))) (with_parent p sample_condense_event)" by (simp_all add: sample_agent_def)
qed

lemma sample_pending: "get_unmatched_actions sample_branch = [sample_action_event ''cccccccc'' ''c1'' ''r1'' []]"
  by (simp add: get_unmatched_pending sample_message_def sample_action_def) (simp add: sample_action_event_def)

section \<open>Witnesses\<close>

definition sample_calls :: message where
  "sample_calls = (plain_message RoleAssistant [])\<lparr>tool_calls :=
     Some [\<lparr>tc_id = ''c9'', tc_responses_item_id = None, tc_name = ''terminal'', tc_arguments = ''{}'', tc_origin = OriginCompletion\<rparr>]\<rparr>"

definition sample_rewound :: conversation where
  "sample_rewound =
     agent_conversation\<lparr>conv_state := agent_state\<lparr>base := sample_base_state\<lparr>leaf_event_id := Some ''aaaaaaaa''\<rparr>\<rparr>\<rparr>"

definition sample_blocked :: "unit result \<times> conversation" where
  "sample_blocked = on_event (conv_env (sample_agent ''ffffffff'')) (MessageEvent sample_prompt) sample_rewound"

lemma sample_agent_computed:
  "map_sum id (map (map_option fst \<circ> action)) (fst (get_action_events (sample_agent ''eeeeeeee'') ''r9''
     (first_extras sample_calls) (case tool_calls sample_calls of Some cs \<Rightarrow> cs | None \<Rightarrow> []) agent_conversation)) =
   Inr [Some ''ExecuteAction'']"
  "map_option fst (handle_tool_calls (sample_agent ''eeeeeeee'') sample_calls ''r9'' agent_conversation) = Some (Inr ())"
  "fst sample_blocked = Inr ()"
  "fmlookup (blocked_messages (base (conv_state (snd sample_blocked)))) ''bbbbbbbb'' = Some ''bad''"
  "map_sum id get_unmatched_actions
     (active_branch (log_of (conv_env (sample_agent ''ffffffff''))) (conv_files (snd sample_blocked)) (conv_state (snd sample_blocked)) None) = Inr []"
  "map_sum id (\<lambda>(ok, ctx, rs). (ok, ctx)) (prompt_verdict sample_processor (hooks_run sample_rewound) sample_prompt) = Inr (False, Some ''policy'')"
  "map_option fst (execute_actions (sample_agent ''eeeeeeee'') [sample_action_event ''cccccccc'' ''c1'' ''r1'' []] agent_conversation) = Some (Inr ())"
  "blocks_of agent_conversation = fmempty"
  "truncate_at_finish [sample_action_event ''cccccccc'' ''c1'' ''r1'' []] = ([sample_action_event ''cccccccc'' ''c1'' ''r1'' []], False)"
  "execute_prepared (sample_agent ''eeeeeeee'') (batches_run agent_conversation) [sample_action_event ''cccccccc'' ''c1'' ''r1'' []] =
     Some [[sample_answer]]"
  unfolding atomize_conj by code_simp

theorem unconfirmed_actions_not_run_witness:
  "\<exists>w'. handle_tool_calls (sample_agent ''eeeeeeee'') sample_calls ''r9'' agent_conversation = Some (Inr (), w') \<and>
     batches_run w' = 0 \<and> status_of w' = WAITING_FOR_CONFIRMATION"
proof -
  let ?env = "sample_agent ''eeeeeeee''"
  let ?calls = "case tool_calls sample_calls of Some cs \<Rightarrow> cs | None \<Rightarrow> []"
  let ?get = "get_action_events ?env ''r9'' (first_extras sample_calls) ?calls agent_conversation"
  note acts = sample_agent_computed(1)
  have ask: "should_confirm (policy ?env) x \<noteq> Inr False" for x by (simp add: sample_agent_def)
  obtain w' where w': "handle_tool_calls ?env sample_calls ''r9'' agent_conversation = Some (Inr (), w')"
    using sample_agent_computed(2) by auto
  have risks: "\<exists>x \<in> set risks. should_confirm (policy ?env) x \<noteq> Inr False"
    if "?get = (Inr as, w1)" "analyze_for_confirmation (error_text (texts ?env)) (security_analyzer ?env) as = Inr (risks, audit)"
    for as w1 risks audit
  proof -
    have "\<exists>a. as = [a] \<and> map_option fst (action a) = Some ''ExecuteAction''"
      using acts that(1) by (cases as) auto
    then have "risks = [UNKNOWN]"
      using that(2) by (auto simp: analyze_for_confirmation_def is_finish_or_think_def sample_agent_def)
    then show ?thesis using ask by simp
  qed
  show ?thesis
    using unconfirmed_actions_not_run [OF w' risks] w' by (simp add: counters_def agent_conversation_def)
qed

theorem message_block_and_context_witness:
  "\<exists>w'. on_event (conv_env (sample_agent ''ffffffff'')) (MessageEvent sample_prompt)
       sample_rewound = (Inr (), w') \<and>
     fmlookup (blocked_messages (base (conv_state w'))) ''bbbbbbbb'' = Some ''bad'' \<and>
     agent_step (sample_agent ''ffffffff'') w' = prepare_and_send (sample_agent ''ffffffff'') w'"
proof -
  let ?env = "sample_agent ''ffffffff''"
  let ?w = sample_rewound and ?on = sample_blocked
  have env: "processor (conv_env ?env) = Some sample_processor" "write_error (conv_env ?env) = (\<lambda>_. None)" "source sample_prompt = SourceUser"
    by (simp_all add: sample_agent_def sample_prompt_def)
  obtain w' where w': "?on = (Inr (), w')" using sample_agent_computed(3) by (metis prod.collapse)
  have br: "map_sum id get_unmatched_actions (active_branch (log_of (conv_env ?env)) (conv_files w') (conv_state w') None) = Inr []"
    using sample_agent_computed(5) unfolding w' snd_conv .
  obtain evs where evs: "active_branch (log_of (conv_env ?env)) (conv_files w') (conv_state w') None = Inr evs" "get_unmatched_actions evs = []"
    using br by (cases "active_branch (log_of (conv_env ?env)) (conv_files w') (conv_state w') None") simp_all
  obtain rs where v: "prompt_verdict sample_processor (hooks_run ?w) sample_prompt = Inr (False, Some ''policy'', rs)"
    using sample_agent_computed(6) by (simp add: map_sum_def case_prod_beta split: sum.splits) (metis prod.collapse)
  have fresh: "event_id sample_prompt |\<notin>| fmdom (blocked_messages (base (conv_state ?w)))"
    "fst (new_ids (conv_env ?env) k) \<noteq> event_id sample_prompt \<and> fst (new_ids (conv_env ?env) k) |\<notin>| fmdom (blocked_messages (base (conv_state ?w)))" for k
    by (simp_all add: sample_agent_def sample_prompt_def sample_rewound_def sample_base_state_def)
  show ?thesis
    using message_block_and_context [OF env w'[unfolded sample_blocked_def] v fresh evs] w' sample_agent_computed(4)
    by (simp add: sample_blocked_def)
qed

theorem batch_answered_in_order_witness:
  "\<exists>w' e. execute_actions (sample_agent ''eeeeeeee'') (get_unmatched_actions sample_branch) agent_conversation = Some (Inr (), w') \<and>
     active_branch agent_log (conv_files w') (conv_state w') None = Inr (sample_branch @ [e]) \<and>
     observed_call e = Some ''c1'' \<and> get_unmatched_actions (sample_branch @ [e]) = []"
proof -
  let ?env = "sample_agent ''eeeeeeee''" and ?a = "sample_action_event ''cccccccc'' ''c1'' ''r1'' []"
  note pend = sample_pending
  obtain w' where w': "execute_actions ?env [?a] agent_conversation = Some (Inr (), w')"
    using sample_agent_computed(7) by auto
  note blocks = sample_agent_computed(8) and tr = sample_agent_computed(9) and res = sample_agent_computed(10)
  have un: "unblocked agent_conversation [?a] = [?a]" using blocks by (simp add: unblocked_def)
  have st: "storable_answers ?env agent_conversation [?a]"
    using blocks un res sample_answers_storable(1) by (simp add: storable_answers_def)
  have order: "set (finish_order ?env (batches_run agent_conversation)) = {0..<length (unblocked agent_conversation [?a])}"
    unfolding un by (simp add: sample_agent_def)
  have critic: "agent_critic ?env = None" and log: "log_of (conv_env ?env) = agent_log" by (simp_all add: sample_agent_def)
  have wf: "distinct (map event_id [?a])" "distinct (map tool_call_id [?a])" "\<forall>a \<in> set [?a]. tc_id (tool_call a) = tool_call_id a"
    by (simp_all add: sample_action_event_def)
  obtain c where "active_branch agent_log (conv_files w') (conv_state w') None = Inr (sample_branch @ c)"
    "list_all2 (answered (blocks_of agent_conversation)) [?a] c" "get_unmatched_actions (sample_branch @ c) = []"
    using batch_answered_in_order [OF sample_silent _ agent_at_head _ _ _ critic _ order st, unfolded pend, OF _ wf tr w'] agent_log_list
    unfolding log by auto
  then show ?thesis using w' unfolding pend
    by (auto simp: list_all2_Cons1 answered_def answer_to_def sample_action_event_def)
qed

end
