(* ===== verification/Stuck_Detector.thy ===== *)
theory Stuck_Detector
  imports Text_Utils
begin

text \<open>
  \<open>StuckDetector\<close> (\<open>conversation/stuck_detector.py\<close>): the window of recent events, the
  comparison of events without their identifiers, the four loop patterns, and the nudge sent when
  a streak of failing calls first reaches its threshold.

  The detector reads the active branch, here a list of events, oldest first. \<open>json.loads\<close> is a
  parameter (\<open>None\<close> for text that does not parse), as are the agent's tools.
\<close>

section \<open>Configuration\<close>

record stuck_detection_thresholds =
  action_observation :: nat
  action_error :: nat
  monologue :: nat
  alternating_pattern :: nat

definition default_thresholds :: stuck_detection_thresholds where
  "default_thresholds =
     \<lparr>action_observation = 4, action_error = 3, monologue = 3, alternating_pattern = 6\<rparr>"

text \<open>The constraint \<open>ge=1\<close> of every field.\<close>

definition valid_thresholds :: "stuck_detection_thresholds \<Rightarrow> bool" where
  "valid_thresholds t \<longleftrightarrow>
     1 \<le> action_observation t \<and> 1 \<le> action_error t \<and> 1 \<le> monologue t \<and> 1 \<le> alternating_pattern t"

text \<open>What the detector reads of a tool: its argument names, and those of an MCP schema.\<close>

record tool_definition =
  action_fields :: "string list"
  mcp_properties :: "string list option"

text \<open>The tools map is an error until the agent is initialized.\<close>

record detector_env =
  json_loads :: "string \<Rightarrow> json option"
  tools_map :: "(string \<rightharpoonup> tool_definition) result"

definition MAX_EVENTS_TO_SCAN_FOR_STUCK_DETECTION :: nat where
  "MAX_EVENTS_TO_SCAN_FOR_STUCK_DETECTION = 20"

section \<open>Windows\<close>

fun is_user_message :: "event \<Rightarrow> bool" where
  "is_user_message (MessageEvent m) = (source m = SourceUser)"
| "is_user_message _ = False"

text \<open>The search from the end for a user message, as an index.\<close>

definition last_user_msg_index :: "event list \<Rightarrow> int" where
  "last_user_msg_index evs =
     (case first_index is_user_message (rev evs) of
        None \<Rightarrow> -1
      | Some k \<Rightarrow> int (length evs) - 1 - int k)"

text \<open>\<open>state.active_branch(limit)\<close> is the last \<open>limit\<close> events of the branch.\<close>

definition events_since_last_user_message :: "event list \<Rightarrow> nat \<Rightarrow> event list" where
  "events_since_last_user_message branch limit =
     (let evs = last_n limit branch; i = last_user_msg_index evs
      in if i \<noteq> -1 then drop (nat (i + 1)) evs else evs)"

text \<open>The loop over the reversed events, with its early exit.\<close>

fun collect_loop ::
  "(event \<Rightarrow> bool) \<Rightarrow> nat \<Rightarrow> event list \<Rightarrow> event list \<Rightarrow> event list \<Rightarrow> event list \<times> event list" where
  "collect_loop is_obs m [] acts obs = (acts, obs)"
| "collect_loop is_obs m (e # es) acts obs =
     (let (acts', obs') =
        (if is_action e \<and> length acts < m then (acts @ [e], obs)
         else if is_obs e \<and> length obs < m then (acts, obs @ [e])
         else (acts, obs))
      in if length acts' \<ge> m \<and> length obs' \<ge> m then (acts', obs')
         else collect_loop is_obs m es acts' obs')"

definition collect_actions_and_observations :: "event list \<Rightarrow> nat \<Rightarrow> event list \<times> event list" where
  "collect_actions_and_observations evs max_needed =
     collect_loop is_observation_base max_needed (rev evs) [] []"

section \<open>Comparison of events\<close>

definition agent_tool_has_summary_param :: "tool_definition \<Rightarrow> bool" where
  "agent_tool_has_summary_param t \<longleftrightarrow>
     ''summary'' \<in> set (action_fields t) \<or>
     (case mcp_properties t of Some props \<Rightarrow> ''summary'' \<in> set props | None \<Rightarrow> False)"

definition tool_has_summary_param :: "detector_env \<Rightarrow> string \<Rightarrow> bool" where
  "tool_has_summary_param env name =
     (case tools_map env of
        Inl _ \<Rightarrow> False
      | Inr m \<Rightarrow> (case m name of None \<Rightarrow> False | Some t \<Rightarrow> agent_tool_has_summary_param t))"

text \<open>Unparsable arguments are compared as their text.\<close>

definition validated_arguments :: "detector_env \<Rightarrow> action_event \<Rightarrow> json" where
  "validated_arguments env e =
     (case json_loads env (tc_arguments (tool_call e)) of
        None \<Rightarrow> JStr (tc_arguments (tool_call e))
      | Some (JDict d) \<Rightarrow>
          (let d' = fmdrop ''security_risk'' d
           in JDict (if tool_has_summary_param env (tool_name e) then d' else fmdrop ''summary'' d'))
      | Some j \<Rightarrow> j)"

fun event_eq :: "detector_env \<Rightarrow> event \<Rightarrow> event \<Rightarrow> bool" where
  "event_eq env (ActionEvent a) (ActionEvent b) =
     (if action a = None \<and> action b = None
      then source a = source b \<and> tool_name a = tool_name b \<and>
           validated_arguments env a = validated_arguments env b
      else source a = source b \<and> thought a = thought b \<and> action a = action b \<and>
           tool_name a = tool_name b)"
| "event_eq env (ObservationEvent a) (ObservationEvent b) =
     (source a = source b \<and> observation a = observation b \<and> obs_tool_name a = obs_tool_name b)"
| "event_eq env (AgentErrorEvent a) (AgentErrorEvent b) = (source a = source b \<and> error a = error b)"
| "event_eq env (MessageEvent a) (MessageEvent b) =
     (source a = source b \<and> llm_message a = llm_message b)"
| "event_eq env a b = (a = b)"

text \<open>The key under which \<open>_same_error_action\<close> counts a validation error.\<close>

fun mask_index :: "loc_part \<Rightarrow> loc_part" where
  "mask_index (LocIndex i) = LocIndex 0"
| "mask_index p = p"

definition error_key :: "tool_validation_error \<Rightarrow> string \<times> loc_part list" where
  "error_key e = (err_type e, map mask_index (loc e))"

definition custom_validator_error :: "tool_validation_error \<Rightarrow> bool" where
  "custom_validator_error e \<longleftrightarrow> err_type e \<in> {''value_error'', ''assertion_error''}"

definition same_error_action ::
  "detector_env \<Rightarrow> action_event \<Rightarrow> action_event \<Rightarrow> agent_error_event \<Rightarrow> agent_error_event \<Rightarrow> bool" where
  "same_error_action env reference act reference_error err =
     (if tool_name reference \<noteq> tool_name act then False
      else
        (case (validation_errors reference_error, validation_errors err) of
           (Some left, Some right) \<Rightarrow>
             if action reference = None \<and> action act = None \<and> left \<noteq> [] \<and> right \<noteq> [] \<and>
                \<not> list_ex custom_validator_error (left @ right)
             then mset (map error_key left) = mset (map error_key right)
             else event_eq env (ActionEvent reference) (ActionEvent act)
         | _ \<Rightarrow> event_eq env (ActionEvent reference) (ActionEvent act)))"

definition invalid_response_ids :: "event list \<Rightarrow> string list" where
  "invalid_response_ids acts =
     List.map_filter (\<lambda>e. case e of
        ActionEvent a \<Rightarrow> if action a = None then Some (llm_response_id a) else None
      | _ \<Rightarrow> None) acts"

definition invalid_calls_share_response :: "event list \<Rightarrow> bool" where
  "invalid_calls_share_response acts \<longleftrightarrow>
     length (invalid_response_ids acts) \<noteq> card (set (invalid_response_ids acts))"

section \<open>Streaks of failing calls\<close>

definition response_ids :: "event list \<Rightarrow> string list" where
  "response_ids acts = List.map_filter response_of acts"

text \<open>\<open>max(Counter(...).values(), default=1)\<close>.\<close>

definition widest :: "string list \<Rightarrow> nat" where
  "widest ids = (if ids = [] then 1 else Max (set (map (count_list ids) ids)))"

definition needed_limit :: "nat \<Rightarrow> event list \<Rightarrow> nat" where
  "needed_limit action_error_threshold last_actions =
     MAX_EVENTS_TO_SCAN_FOR_STUCK_DETECTION +
     2 * (widest (response_ids last_actions) - 1) * (action_error_threshold + 1)"

text \<open>The early exit loses nothing: the loop takes the first \<open>m\<close> of each kind.\<close>

lemma collect_loop_eq:
  assumes "\<And>e. is_action e \<Longrightarrow> \<not> is_obs e" "length acts \<le> m" "length obs \<le> m"
  shows "collect_loop is_obs m es acts obs =
    (acts @ take (m - length acts) (filter is_action es), obs @ take (m - length obs) (filter is_obs es))"
  using assms(2,3)
proof (induction es arbitrary: acts obs)
  case (Cons e es)
  consider (act) "is_action e" "length acts < m" | (obs) "is_obs e" "length obs < m" "\<not> is_action e"
    | (skip_act) "is_action e" "length acts = m" | (skip_obs) "is_obs e" "length obs = m" "\<not> is_action e"
    | (other) "\<not> is_action e" "\<not> is_obs e"
    using Cons.prems by linarith
  then show ?case
  proof cases
    case act
    then have t: "take (m - length acts) (e # xs) = e # take (m - Suc (length acts)) xs" for xs
      by (simp add: Suc_diff_Suc take_Cons')
    show ?thesis using act assms(1) [of e] Cons.IH [of "acts @ [e]" obs] Cons.prems by (auto simp: t)
  next
    case obs
    then have t: "take (m - length obs) (e # xs) = e # take (m - Suc (length obs)) xs" for xs
      by (simp add: Suc_diff_Suc take_Cons')
    show ?thesis using obs Cons.IH [of acts "obs @ [e]"] Cons.prems by (auto simp: t)
  next
    case skip_act
    then show ?thesis using assms(1) [of e] Cons.IH [of acts obs] Cons.prems by auto
  next
    case skip_obs
    then show ?thesis using Cons.IH [of acts obs] Cons.prems by auto
  next
    case other
    then show ?thesis using Cons.IH [of acts obs] Cons.prems by auto
  qed
qed simp

lemma collect_actions_and_observations_eq:
  "collect_actions_and_observations evs m =
     (take m (rev (filter is_action evs)), take m (rev (filter is_observation_base evs)))"
  unfolding collect_actions_and_observations_def
  by (subst collect_loop_eq) (auto simp: rev_filter action_not_observation)

lemma map_filter_length: "length (List.map_filter f xs) \<le> length xs"
  by (induction xs) (auto simp: List.map_filter_simps split: option.splits)

lemma widest_le: "widest ids \<le> max 1 (length ids)"
proof (cases "ids = []")
  case False
  have "\<forall>x \<in> set (map (count_list ids) ids). x \<le> length ids"
    by (auto simp: count_le_length)
  then have "Max (set (map (count_list ids) ids)) \<le> length ids"
    using False by (subst Max_le_iff) auto
  then have "widest ids \<le> length ids" using False by (simp add: widest_def)
  then show ?thesis by simp
qed (simp add: widest_def)

lemma events_since_length: "length (events_since_last_user_message branch limit) \<le> length branch"
  by (simp add: events_since_last_user_message_def last_n_def Let_def)

lemma needed_limit_bound:
  "needed_limit t (fst (collect_actions_and_observations (events_since_last_user_message branch limit) m)) \<le>
     MAX_EVENTS_TO_SCAN_FOR_STUCK_DETECTION + 2 * length branch * (t + 1)"
proof -
  let ?acts = "fst (collect_actions_and_observations (events_since_last_user_message branch limit) m)"
  have "length ?acts \<le> length branch"
    using events_since_length [of branch limit]
      length_filter_le [of is_action "events_since_last_user_message branch limit"]
    unfolding collect_actions_and_observations_eq fst_conv length_take length_rev by linarith
  then have "widest (response_ids ?acts) - 1 \<le> length branch"
    using widest_le [of "response_ids ?acts"] map_filter_length [of response_of ?acts]
    by (simp add: response_ids_def)
  then have "2 * (widest (response_ids ?acts) - 1) * (t + 1) \<le> 2 * length branch * (t + 1)"
    by (intro mult_le_mono) simp_all
  then show ?thesis unfolding needed_limit_def by linarith
qed

text \<open>
  The loop that widens the window, from its second iteration on: it ends because the limit grows
  and is bounded by what the branch can need.
\<close>

function pairs_loop :: "nat \<Rightarrow> event list \<Rightarrow> nat \<Rightarrow> event list \<times> event list" where
  "pairs_loop t branch limit =
     (let evs = events_since_last_user_message branch limit;
          pairs = collect_actions_and_observations evs (length evs);
          needed = needed_limit t (fst pairs)
      in if needed \<le> limit then pairs else pairs_loop t branch needed)"
  by pat_completeness auto
termination
proof (relation "measure (\<lambda>(t, branch, limit).
    (MAX_EVENTS_TO_SCAN_FOR_STUCK_DETECTION + 2 * length branch * (t + 1)) - limit)", goal_cases)
  case 1
  then show ?case by simp
next
  case (2 t branch limit evs pairs needed)
  then show ?case
    using needed_limit_bound [of t branch limit "length evs"] by simp
qed

declare pairs_loop.simps [simp del]

definition action_error_pairs ::
  "nat \<Rightarrow> event list \<Rightarrow> event list option \<Rightarrow> event list \<times> event list" where
  "action_error_pairs t branch loaded =
     (let limit = MAX_EVENTS_TO_SCAN_FOR_STUCK_DETECTION;
          evs = (case loaded of None \<Rightarrow> events_since_last_user_message branch limit | Some l \<Rightarrow> l);
          pairs = collect_actions_and_observations evs (length evs);
          needed = needed_limit t (fst pairs)
      in if needed \<le> limit then pairs else pairs_loop t branch needed)"

definition observes_call :: "string \<Rightarrow> event \<Rightarrow> bool" where
  "observes_call c e \<longleftrightarrow> observed_call e = Some c"

text \<open>The loop over the actions, most recent first.\<close>

fun streak_loop ::
  "detector_env \<Rightarrow> action_event \<Rightarrow> event list \<Rightarrow> event list \<Rightarrow> agent_error_event option \<Rightarrow>
   nat \<Rightarrow> string option \<Rightarrow> nat" where
  "streak_loop env reference (ActionEvent a # acts) remaining reference_error streak counted =
     (case first_index (observes_call (tool_call_id a)) remaining of
        None \<Rightarrow> streak
      | Some i \<Rightarrow>
          (case remaining ! i of
             AgentErrorEvent err \<Rightarrow>
               (let ref_err = (case reference_error of None \<Rightarrow> err | Some r \<Rightarrow> r)
                in if \<not> same_error_action env reference a ref_err err then streak
                   else if Some (llm_response_id a) \<noteq> counted
                     then streak_loop env reference acts (take i remaining @ drop (Suc i) remaining)
                            (Some ref_err) (streak + 1) (Some (llm_response_id a))
                     else streak_loop env reference acts (take i remaining @ drop (Suc i) remaining)
                            (Some ref_err) streak counted)
           | _ \<Rightarrow> streak))"
| "streak_loop env reference acts remaining reference_error streak counted = streak"

definition action_error_streak :: "detector_env \<Rightarrow> event list \<Rightarrow> event list \<Rightarrow> nat" where
  "action_error_streak env last_actions last_observations =
     (if last_actions = [] \<or> last_observations = [] then 0
      else (case hd last_actions of
              ActionEvent reference \<Rightarrow>
                streak_loop env reference last_actions last_observations None 0 None
            | _ \<Rightarrow> 0))"

section \<open>The stuck patterns\<close>

definition is_stuck_repeating_action_observation ::
  "detector_env \<Rightarrow> stuck_detection_thresholds \<Rightarrow> event list \<Rightarrow> event list \<Rightarrow> bool" where
  "is_stuck_repeating_action_observation env t last_actions last_observations =
     (let threshold = action_observation t
      in if invalid_calls_share_response (take threshold last_actions) then False
         else if length last_actions \<ge> threshold \<and> length last_observations \<ge> threshold then
           list_all (event_eq env (last_actions ! 0)) (take threshold last_actions) \<and>
           list_all (event_eq env (last_observations ! 0)) (take threshold last_observations)
         else False)"

definition is_stuck_repeating_action_error ::
  "detector_env \<Rightarrow> stuck_detection_thresholds \<Rightarrow> event list \<times> event list \<Rightarrow> bool" where
  "is_stuck_repeating_action_error env t pairs \<longleftrightarrow>
     action_error_streak env (fst pairs) (snd pairs) > action_error t"

fun monologue_loop :: "event list \<Rightarrow> nat \<Rightarrow> nat" where
  "monologue_loop [] n = n"
| "monologue_loop (e # es) n =
     (case e of
        MessageEvent m \<Rightarrow>
          if source m = SourceAgent then monologue_loop es (n + 1)
          else if source m = SourceUser then n
          else monologue_loop es n
      | CondensationSummaryEvent s \<Rightarrow> monologue_loop es n
      | _ \<Rightarrow> n)"

definition is_stuck_monologue :: "stuck_detection_thresholds \<Rightarrow> event list \<Rightarrow> bool" where
  "is_stuck_monologue t evs =
     (if length evs < monologue t then False else monologue_loop (rev evs) 0 \<ge> monologue t)"

fun is_observation_or_error :: "event \<Rightarrow> bool" where
  "is_observation_or_error (ObservationEvent _) = True"
| "is_observation_or_error (AgentErrorEvent _) = True"
| "is_observation_or_error _ = False"

definition is_stuck_alternating_action_observation ::
  "detector_env \<Rightarrow> stuck_detection_thresholds \<Rightarrow> event list \<Rightarrow> bool" where
  "is_stuck_alternating_action_observation env t evs =
     (let threshold = alternating_pattern t;
          (last_actions, last_observations) = collect_loop is_observation_or_error threshold (rev evs) [] []
      in if invalid_calls_share_response last_actions then False
         else if length last_actions = threshold \<and> length last_observations = threshold then
           list_all (\<lambda>i. event_eq env (last_actions ! i) (last_actions ! (i + 2))) [0..<threshold - 2] \<and>
           list_all (\<lambda>i. event_eq env (last_observations ! i) (last_observations ! (i + 2))) [0..<threshold - 2]
         else False)"

definition is_stuck_context_window_error :: "event list \<Rightarrow> bool" where
  "is_stuck_context_window_error evs = False"

definition is_stuck :: "detector_env \<Rightarrow> stuck_detection_thresholds \<Rightarrow> event list \<Rightarrow> bool" where
  "is_stuck env t branch =
     (let evs = events_since_last_user_message branch MAX_EVENTS_TO_SCAN_FOR_STUCK_DETECTION;
          min_threshold = min (min (action_observation t) (action_error t)) (monologue t)
      in if length evs < min_threshold then False
         else
           (let (last_actions, last_observations) =
                  collect_actions_and_observations evs (action_observation t)
            in if is_stuck_repeating_action_observation env t last_actions last_observations then True
               else if is_stuck_repeating_action_error env t
                         (action_error_pairs (action_error t) branch (Some evs)) then True
               else if is_stuck_monologue t evs then True
               else if length evs \<ge> alternating_pattern t \<and>
                       is_stuck_alternating_action_observation env t evs then True
               else if length evs \<ge> 10 \<and> is_stuck_context_window_error evs then True
               else False))"

section \<open>The nudge\<close>

text \<open>The em dash of the message, in UTF-8.\<close>

definition em_dash :: string where
  "em_dash = [CHR 0xE2, CHR 0x80, CHR 0x94]"

definition nudge_text :: "nat \<Rightarrow> action_event \<Rightarrow> agent_error_event \<Rightarrow> string" where
  "nudge_text threshold act err =
     (if action act = None \<and> (case validation_errors err of Some es \<Rightarrow> es \<noteq> [] | None \<Rightarrow> False)
      then ''Your calls to `'' @ tool_name act @ ''` have failed validation '' @ show_nat threshold @
           '' times without resolving the failing fields. Latest error: '' @ error err @
           ''. Correct the invalid or missing fields or try a different approach before calling this tool again.''
      else ''You've called `'' @ tool_name act @ ''` with the same arguments '' @ show_nat threshold @
           '' times in a row and gotten the same error each time: '' @ error err @
           ''. Repeating the exact same call again will not work '' @ em_dash @
           '' review the error message and either correct the arguments or try a different approach.'')"

text \<open>The error the nudge reports; \<open>next\<close> without a default raises when there is none.\<close>

fun find_error :: "string \<Rightarrow> event list \<Rightarrow> agent_error_event result" where
  "find_error c [] = Inl OtherException"
| "find_error c (AgentErrorEvent e # es) =
     (if obs_tool_call_id e = c then Inr e else find_error c es)"
| "find_error c (_ # es) = find_error c es"

text \<open>\<open>get_action_error_nudge\<close> with the identifier it remembers, before and after.\<close>

definition get_action_error_nudge ::
  "detector_env \<Rightarrow> stuck_detection_thresholds \<Rightarrow> event list \<Rightarrow> string option \<Rightarrow>
   (string option \<times> string option) result" where
  "get_action_error_nudge env t branch last_nudged =
     (let threshold = action_error t;
          (last_actions, last_observations) = action_error_pairs threshold branch None
      in if action_error_streak env last_actions last_observations \<noteq> threshold
         then Inr (None, last_nudged)
         else
           (case last_actions of
              [] \<Rightarrow> Inl IndexError
            | ActionEvent act # _ \<Rightarrow>
                bind_result (find_error (tool_call_id act) last_observations) (\<lambda>err.
                  if Some (event_id err) = last_nudged then Inr (None, last_nudged)
                  else Inr (Some (nudge_text threshold act err), Some (event_id err)))
            | _ \<Rightarrow> Inl AssertionError))"

section \<open>Lemmas\<close>

lemma event_eq_refl: "event_eq env e e"
  by (cases e) simp_all

lemma event_eq_sym: "event_eq env a b \<Longrightarrow> event_eq env b a"
  by (cases a; cases b) (auto split: if_splits)

lemma event_eq_trans: "event_eq env a b \<Longrightarrow> event_eq env b c \<Longrightarrow> event_eq env a c"
  by (cases a; cases b; cases c) (auto split: if_splits)

lemma event_eq_pairwise:
  assumes "xs \<noteq> []"
  shows "list_all (event_eq env (xs ! 0)) xs \<longleftrightarrow> (\<forall>x \<in> set xs. \<forall>y \<in> set xs. event_eq env x y)"
proof -
  have "xs ! 0 \<in> set xs" using assms by simp
  then show ?thesis by (auto simp: list_all_iff intro: event_eq_sym event_eq_trans)
qed

text \<open>The number of runs of equal identifiers, after \<open>counted\<close>.\<close>

fun runs :: "string option \<Rightarrow> string list \<Rightarrow> nat" where
  "runs counted [] = 0"
| "runs counted (x # xs) = (if Some x \<noteq> counted then 1 else 0) + runs (Some x) xs"

lemma runs_Some: "runs (Some c) xs + 1 = length (remdups_adj (c # xs))"
  by (induction xs arbitrary: c) auto

lemma runs_None: "runs None xs = length (remdups_adj xs)"
  using runs_Some by (cases xs) auto

definition fails_alike ::
  "detector_env \<Rightarrow> action_event \<Rightarrow> agent_error_event \<Rightarrow> event list \<Rightarrow> action_event \<Rightarrow> bool" where
  "fails_alike env reference ref_err obs a \<longleftrightarrow>
     (\<exists>err. AgentErrorEvent err \<in> set obs \<and> obs_tool_call_id err = tool_call_id a \<and>
            same_error_action env reference a ref_err err)"

lemma fails_alikeI:
  "AgentErrorEvent err \<in> set obs \<Longrightarrow> obs_tool_call_id err = tool_call_id a \<Longrightarrow>
   same_error_action env reference a ref_err err \<Longrightarrow> fails_alike env reference ref_err obs a"
  unfolding fails_alike_def by blast

lemma fails_alike_without:
  "fails_alike env r re (take i obs @ drop (Suc i) obs) a \<Longrightarrow> fails_alike env r re obs a"
  unfolding fails_alike_def by (auto dest: in_set_takeD in_set_dropD)

lemma streak_stops:
  assumes "val = streak"
  shows "\<exists>as re. prefix (map ActionEvent as) acts \<and> (\<forall>r. reference_error = Some r \<longrightarrow> re = r) \<and>
     list_all (fails_alike env reference re remaining) as \<and>
     val = streak + runs counted (map llm_response_id as)"
  by (rule exI [of _ "[]"], rule exI [of _ "the reference_error"]) (simp add: assms)

lemma streak_loop_sound:
  "\<exists>as re. prefix (map ActionEvent as) acts \<and> (\<forall>r. reference_error = Some r \<longrightarrow> re = r) \<and>
     list_all (fails_alike env reference re remaining) as \<and>
     streak_loop env reference acts remaining reference_error streak counted =
       streak + runs counted (map llm_response_id as)"
proof (induction env reference acts remaining reference_error streak counted rule: streak_loop.induct)
  case (1 env reference a acts remaining reference_error streak counted)
  let ?call = "streak_loop env reference (ActionEvent a # acts) remaining reference_error streak counted"
  note stop = streak_stops [of ?call streak]
  show ?case
  proof (cases "first_index (observes_call (tool_call_id a)) remaining")
    case None
    then show ?thesis by (intro stop) simp
  next
    case (Some i)
    then have i: "i < length remaining" "observes_call (tool_call_id a) (remaining ! i)"
      by (auto simp: first_index_Some_iff)
    show ?thesis
    proof (cases "\<exists>err. remaining ! i = AgentErrorEvent err")
      case False
      then show ?thesis using Some by (intro stop) (simp split: event.splits)
    next
      case True
      then obtain err where err: "remaining ! i = AgentErrorEvent err" by blast
      define re where "re = (case reference_error of None \<Rightarrow> err | Some r \<Rightarrow> r)"
      let ?rest = "take i remaining @ drop (Suc i) remaining"
      show ?thesis
      proof (cases "same_error_action env reference a re err")
        case False
        then show ?thesis using Some err by (intro stop) (simp add: re_def)
      next
        case same: True
        have "AgentErrorEvent err \<in> set remaining" using i(1) err by (metis nth_mem)
        then have a: "fails_alike env reference re remaining a"
          using i(2) err same by (auto simp: fails_alike_def observes_call_def)
        have "\<exists>as re'. prefix (map ActionEvent as) acts \<and> re' = re \<and>
            list_all (fails_alike env reference re' ?rest) as \<and>
            ?call = streak + runs counted (map llm_response_id (a # as))"
        proof (cases "Some (llm_response_id a) \<noteq> counted")
          case True
          from "1.IH"(1) [OF Some err re_def _ True] same
          show ?thesis using Some err True same by (auto simp: re_def [symmetric] Let_def)
        next
          case False
          from "1.IH"(2) [OF Some err re_def _ False] same
          show ?thesis using Some err False same by (auto simp: re_def [symmetric] Let_def)
        qed
        then obtain as where as: "prefix (map ActionEvent as) acts"
            "list_all (fails_alike env reference re ?rest) as"
            "?call = streak + runs counted (map llm_response_id (a # as))" by blast
        have "list_all (fails_alike env reference re remaining) as"
          by (rule list.pred_mono_strong [OF as(2)]) (rule fails_alike_without)
        with a have "list_all (fails_alike env reference re remaining) (a # as)"
          unfolding list.pred_inject by (rule conjI)
        then show ?thesis
          using as(1,3) by (intro exI [of _ "a # as"] exI [of _ re]) (auto simp: re_def)
      qed
    qed
  qed
qed (rule streak_stops, simp)+

text \<open>With one answer per call, the loop finds the error of every action.\<close>

definition answers :: "event list \<Rightarrow> string list" where
  "answers obs = List.map_filter observed_call obs"

lemma answers_simps [simp]:
  "answers [] = []"
  "answers (e # es) = (case observed_call e of None \<Rightarrow> answers es | Some c \<Rightarrow> c # answers es)"
  "answers (xs @ ys) = answers xs @ answers ys"
  by (simp_all add: answers_def List.map_filter_def split: option.splits)

lemma in_answers_iff: "c \<in> set (answers obs) \<longleftrightarrow> (\<exists>e \<in> set obs. observed_call e = Some c)"
  by (induction obs) (auto split: option.splits)

lemma first_answer:
  assumes "distinct (answers obs)" "e \<in> set obs" "observed_call e = Some c"
  shows "\<exists>i. first_index (observes_call c) obs = Some i \<and> i < length obs \<and> obs ! i = e"
  using assms
proof (induction obs)
  case (Cons x obs)
  show ?case
  proof (cases "observed_call x = Some c")
    case True
    then have "c \<notin> set (answers obs)" using Cons.prems by simp
    then have "x = e" using Cons.prems by (auto simp: in_answers_iff)
    with True show ?thesis by (simp add: observes_call_def)
  next
    case False
    then have "e \<in> set obs" "distinct (answers obs)"
      using Cons.prems by (auto split: option.splits)
    then obtain i where "first_index (observes_call c) obs = Some i" "i < length obs" "obs ! i = e"
      using Cons by blast
    moreover have "\<not> observes_call c x" using False by (simp add: observes_call_def)
    ultimately show ?thesis by (intro exI [of _ "Suc i"]) simp
  qed
qed simp

lemma distinct_answers_without: "distinct (answers obs) \<Longrightarrow> distinct (answers (take i obs @ drop (Suc i) obs))"
proof (cases "i < length obs")
  case True
  assume "distinct (answers obs)"
  with id_take_nth_drop [OF True] have "distinct (answers (take i obs @ obs ! i # drop (Suc i) obs))" by simp
  then show ?thesis by (auto split: option.splits)
qed simp

lemma fails_alike_remove:
  assumes "fails_alike env r re obs a" "i < length obs" "observed_call (obs ! i) \<noteq> Some (tool_call_id a)"
  shows "fails_alike env r re (take i obs @ drop (Suc i) obs) a"
proof -
  obtain err where err: "AgentErrorEvent err \<in> set obs" "obs_tool_call_id err = tool_call_id a"
    "same_error_action env r a re err" using assms(1) by (auto simp: fails_alike_def)
  have "set obs = insert (obs ! i) (set (take i obs @ drop (Suc i) obs))"
    using id_take_nth_drop [OF assms(2)]
    by (metis Un_insert_right list.simps(15) set_append)
  moreover have "AgentErrorEvent err \<noteq> obs ! i" using err(2) assms(3) by (metis observed_call.simps(3))
  ultimately have "AgentErrorEvent err \<in> set (take i obs @ drop (Suc i) obs)" using err(1) by blast
  then show ?thesis using err unfolding fails_alike_def by blast
qed

lemma streak_loop_complete:
  assumes "distinct (map tool_call_id as)" "distinct (answers remaining)"
    and "list_all (fails_alike env reference re remaining) as"
    and "reference_error = Some re \<or>
      (\<exists>a. as \<noteq> [] \<and> hd as = a \<and> reference_error = None \<and> AgentErrorEvent re \<in> set remaining \<and>
           obs_tool_call_id re = tool_call_id a)"
  shows "streak_loop env reference (map ActionEvent as) remaining reference_error streak counted =
           streak + runs counted (map llm_response_id as)"
  using assms
proof (induction as arbitrary: remaining reference_error streak counted)
  case (Cons a as)
  obtain err where err: "AgentErrorEvent err \<in> set remaining" "obs_tool_call_id err = tool_call_id a"
    "same_error_action env reference a re err" using Cons.prems(3) by (auto simp: fails_alike_def)
  obtain i where i: "first_index (observes_call (tool_call_id a)) remaining = Some i"
    "i < length remaining" "remaining ! i = AgentErrorEvent err"
    using first_answer [OF Cons.prems(2) err(1)] err(2) by auto
  have "reference_error = None \<Longrightarrow> re = err"
    using Cons.prems(2,4) i first_answer [of remaining "AgentErrorEvent re" "tool_call_id a"] by auto
  then have re: "(case reference_error of None \<Rightarrow> err | Some r \<Rightarrow> r) = re"
    using Cons.prems(4) by (auto split: option.splits)
  let ?rest = "take i remaining @ drop (Suc i) remaining"
  have "list_all (fails_alike env reference re ?rest) as"
    using Cons.prems(1,3) err(2) i(2,3)
    by (auto simp: list_all_iff intro!: fails_alike_remove)
  then have "streak_loop env reference (map ActionEvent as) ?rest (Some re) s c =
      s + runs c (map llm_response_id as)" for s c
    using Cons.IH [of ?rest "Some re"] Cons.prems(1) distinct_answers_without [OF Cons.prems(2)] by simp
  then show ?case using i err(3) by (simp add: re Let_def)
qed simp

lemma streak_first_error:
  assumes "0 < action_error_streak env acts obs"
  shows "\<exists>a rest err. acts = ActionEvent a # rest \<and> find_error (tool_call_id a) obs = Inr err"
proof -
  have find: "first_index (observes_call c) xs = Some i \<Longrightarrow> xs ! i = AgentErrorEvent err \<Longrightarrow>
      find_error c xs = Inr err" for c xs i err
  proof (induction xs arbitrary: i)
    case (Cons x xs)
    show ?case
    proof (cases "observes_call c x")
      case True
      then show ?thesis using Cons.prems by (auto simp: observes_call_def)
    next
      case False
      then obtain j where "first_index (observes_call c) xs = Some j" "i = Suc j"
        using Cons.prems(1) by auto
      then have "find_error c xs = Inr err" using Cons by auto
      then show ?thesis using False by (cases x) (auto simp: observes_call_def)
    qed
  qed simp
  from assms obtain a rest where a: "acts = ActionEvent a # rest"
    and pos: "0 < streak_loop env a acts obs None 0 None"
    by (auto simp: action_error_streak_def neq_Nil_conv split: if_splits event.splits)
  from pos obtain i err where "first_index (observes_call (tool_call_id a)) obs = Some i"
    "obs ! i = AgentErrorEvent err"
    unfolding a by (cases "first_index (observes_call (tool_call_id a)) obs") (auto split: event.splits)
  with find a show ?thesis by blast
qed

lemma pairs_loop_spec:
  "\<exists>L \<ge> limit. pairs_loop t branch limit =
     (rev (filter is_action (events_since_last_user_message branch L)),
      rev (filter is_observation_base (events_since_last_user_message branch L))) \<and>
     needed_limit t (rev (filter is_action (events_since_last_user_message branch L))) \<le> L"
proof (induction t branch limit rule: pairs_loop.induct)
  case (1 t branch limit)
  let ?evs = "events_since_last_user_message branch limit"
  have eq: "collect_actions_and_observations ?evs (length ?evs) =
      (rev (filter is_action ?evs), rev (filter is_observation_base ?evs))"
    by (simp add: collect_actions_and_observations_eq)
  let ?nd = "needed_limit t (rev (filter is_action ?evs))"
  show ?case
  proof (cases "?nd \<le> limit")
    case True
    then show ?thesis by (intro exI [of _ limit]) (simp add: pairs_loop.simps [of t branch limit] eq Let_def)
  next
    case False
    then have "pairs_loop t branch limit = pairs_loop t branch ?nd"
      by (simp add: pairs_loop.simps [of t branch limit] eq Let_def)
    moreover have "limit \<le> ?nd" using False by simp
    ultimately show ?thesis
      using "1.IH" [OF refl refl refl] False unfolding eq fst_conv by (metis (no_types, lifting) le_trans)
  qed
qed

lemma action_error_pairs_spec:
  "\<exists>L \<ge> MAX_EVENTS_TO_SCAN_FOR_STUCK_DETECTION. action_error_pairs t branch None =
     (rev (filter is_action (events_since_last_user_message branch L)),
      rev (filter is_observation_base (events_since_last_user_message branch L))) \<and>
     needed_limit t (rev (filter is_action (events_since_last_user_message branch L))) \<le> L"
proof -
  have "action_error_pairs t branch None = pairs_loop t branch MAX_EVENTS_TO_SCAN_FOR_STUCK_DETECTION"
    by (simp add: action_error_pairs_def pairs_loop.simps [of t branch MAX_EVENTS_TO_SCAN_FOR_STUCK_DETECTION] Let_def)
  then show ?thesis using pairs_loop_spec by simp
qed

lemma action_error_pairs_loaded:
  "action_error_pairs t branch
     (Some (events_since_last_user_message branch MAX_EVENTS_TO_SCAN_FOR_STUCK_DETECTION)) =
   action_error_pairs t branch None"
  by (simp add: action_error_pairs_def)

text \<open>The part of the monologue pattern an event can be, read backwards.\<close>

fun is_agent_message :: "event \<Rightarrow> bool" where
  "is_agent_message (MessageEvent m) = (source m = SourceAgent)"
| "is_agent_message _ = False"

fun continues_monologue :: "event \<Rightarrow> bool" where
  "continues_monologue (MessageEvent m) = (source m \<noteq> SourceUser)"
| "continues_monologue (CondensationSummaryEvent _) = True"
| "continues_monologue _ = False"

lemma monologue_loop_eq:
  "monologue_loop es n = n + length (filter is_agent_message (takeWhile continues_monologue es))"
  by (induction es arbitrary: n) (auto split: event.splits)

lemma events_since_user_last:
  assumes "is_user_message e" "0 < limit"
  shows "events_since_last_user_message (es @ [e]) limit = []"
proof -
  obtain l where l: "last_n limit (es @ [e]) = l @ [e]"
    using assms(2) by (cases limit) (auto simp: last_n_def Suc_diff_le not_less_eq_eq)
  then show ?thesis
    using assms(1) by (simp add: events_since_last_user_message_def last_user_msg_index_def)
qed

section \<open>Properties\<close>

text \<open>The comparison of events without their identifiers is an equivalence relation, so that
  comparing each event with the first one compares them all.\<close>

lemma event_eq_equivalence: "equivp (event_eq env)"
  by (intro equivpI reflpI sympI transpI) (fact event_eq_refl event_eq_sym event_eq_trans)+

text \<open>C40: The action-observation loop is reported exactly when there are enough actions and
  observations in the window, the last so many actions are pairwise alike, the last so many
  observations are pairwise alike, and no two of those actions are invalid calls of one
  response.\<close>

theorem repeating_action_observation_iff:
  assumes "1 \<le> action_observation t"
  shows "(let (acts, obs) = collect_actions_and_observations evs (action_observation t)
          in is_stuck_repeating_action_observation env t acts obs) \<longleftrightarrow>
    (let acts = take (action_observation t) (rev (filter is_action evs));
         obs = take (action_observation t) (rev (filter is_observation_base evs))
     in length acts = action_observation t \<and> length obs = action_observation t \<and>
        distinct (invalid_response_ids acts) \<and>
        (\<forall>x \<in> set acts. \<forall>y \<in> set acts. event_eq env x y) \<and>
        (\<forall>x \<in> set obs. \<forall>y \<in> set obs. event_eq env x y))"
proof -
  let ?n = "action_observation t"
  let ?acts = "take ?n (rev (filter is_action evs))"
  let ?obs = "take ?n (rev (filter is_observation_base evs))"
  have share: "invalid_calls_share_response ?acts \<longleftrightarrow> \<not> distinct (invalid_response_ids ?acts)"
    unfolding invalid_calls_share_response_def by (metis card_distinct distinct_card)
  have ge: "length ?acts \<ge> ?n \<longleftrightarrow> length ?acts = ?n" "length ?obs \<ge> ?n \<longleftrightarrow> length ?obs = ?n" by auto
  have ne: "length ?acts = ?n \<Longrightarrow> ?acts \<noteq> []" "length ?obs = ?n \<Longrightarrow> ?obs \<noteq> []"
    using assms by fastforce+
  have tk: "take ?n ?acts = ?acts" "take ?n ?obs = ?obs" by simp_all
  show ?thesis
    unfolding collect_actions_and_observations_eq Let_def prod.case
      is_stuck_repeating_action_observation_def tk share ge
    using event_eq_pairwise [OF ne(1), of env] event_eq_pairwise [OF ne(2), of env] by (auto simp del: length_take)
qed

text \<open>The search for action-error pairs always ends, and its window is wide enough: it holds
  all actions and observations since the last user message within a limit that covers the
  threshold times the width of the widest response it contains.\<close>

theorem action_error_pairs_wide_enough:
  "\<exists>L \<ge> MAX_EVENTS_TO_SCAN_FOR_STUCK_DETECTION.
     (let evs = events_since_last_user_message branch L
      in action_error_pairs t branch None = (rev (filter is_action evs), rev (filter is_observation_base evs)) \<and>
         action_error_pairs t branch (Some (events_since_last_user_message branch
           MAX_EVENTS_TO_SCAN_FOR_STUCK_DETECTION)) = action_error_pairs t branch None \<and>
         20 + 2 * (widest (response_ids (rev (filter is_action evs))) - 1) * (t + 1) \<le> L)"
proof -
  have "needed_limit t acts = 20 + 2 * (widest (response_ids acts) - 1) * (t + 1)" for acts
    by (simp add: needed_limit_def MAX_EVENTS_TO_SCAN_FOR_STUCK_DETECTION_def)
  with action_error_pairs_spec [of t branch] show ?thesis
    unfolding Let_def action_error_pairs_loaded by auto
qed

text \<open>The streak of failing calls is the number of runs of responses in a prefix of the most
  recent actions, each of which has an error among the observations and fails like the most recent
  one; parallel calls of one response count once. When every action listed has its own error, all
  alike, the streak counts them all.\<close>

theorem action_error_streak_counts:
  "(\<exists>as. prefix (map ActionEvent as) acts \<and>
      action_error_streak env acts obs = length (remdups_adj (map llm_response_id as)) \<and>
      (as \<noteq> [] \<longrightarrow> (\<exists>re. list_all (fails_alike env (hd as) re obs) as))) \<and>
   (\<forall>as re. acts = map ActionEvent as \<and> as \<noteq> [] \<and> distinct (map tool_call_id as) \<and> distinct (answers obs) \<and>
      AgentErrorEvent re \<in> set obs \<and> obs_tool_call_id re = tool_call_id (hd as) \<and>
      list_all (fails_alike env (hd as) re obs) as \<longrightarrow>
      action_error_streak env acts obs = length (remdups_adj (map llm_response_id as)))"
proof (intro conjI allI impI)
  show "\<exists>as. prefix (map ActionEvent as) acts \<and>
      action_error_streak env acts obs = length (remdups_adj (map llm_response_id as)) \<and>
      (as \<noteq> [] \<longrightarrow> (\<exists>re. list_all (fails_alike env (hd as) re obs) as))"
  proof (cases "\<exists>a rest. acts = ActionEvent a # rest \<and> obs \<noteq> []")
    case True
    then obtain a rest where a: "acts = ActionEvent a # rest" "obs \<noteq> []" by blast
    obtain as re where as: "prefix (map ActionEvent as) acts" "list_all (fails_alike env a re obs) as"
      "streak_loop env a acts obs None 0 None = 0 + runs None (map llm_response_id as)"
      using streak_loop_sound [of acts None env a obs 0 None] by blast
    moreover have "as \<noteq> [] \<Longrightarrow> hd as = a" using as(1) a by (cases as) auto
    ultimately show ?thesis using a by (intro exI [of _ as]) (auto simp: action_error_streak_def runs_None)
  next
    case False
    then have "action_error_streak env acts obs = 0"
      by (auto simp: action_error_streak_def neq_Nil_conv split: event.splits)
    then show ?thesis by (intro exI [of _ "[]"]) simp
  qed
next
  fix as re
  assume h: "acts = map ActionEvent as \<and> as \<noteq> [] \<and> distinct (map tool_call_id as) \<and> distinct (answers obs) \<and>
      AgentErrorEvent re \<in> set obs \<and> obs_tool_call_id re = tool_call_id (hd as) \<and>
      list_all (fails_alike env (hd as) re obs) as"
  then have "obs \<noteq> []" by auto
  then have "action_error_streak env acts obs = streak_loop env (hd as) (map ActionEvent as) obs None 0 None"
    using h by (cases as) (auto simp: action_error_streak_def)
  also have "\<dots> = 0 + runs None (map llm_response_id as)"
    by (rule streak_loop_complete) (use h in blast)+
  finally show "action_error_streak env acts obs = length (remdups_adj (map llm_response_id as))"
    by (simp add: runs_None)
qed

text \<open>The nudge never fails. It is given only when the streak is exactly at its threshold,
  where the action-error pattern is not yet reported as stuck, and asking again before a new error
  gives nothing.\<close>

theorem nudge_once_per_error:
  assumes "1 \<le> action_error t"
  shows "\<exists>nudge seen. get_action_error_nudge env t branch last_nudged = Inr (nudge, seen) \<and>
     (nudge = None \<longrightarrow> seen = last_nudged) \<and>
     (nudge \<noteq> None \<longrightarrow> seen \<noteq> last_nudged \<and>
        get_action_error_nudge env t branch seen = Inr (None, seen) \<and>
        \<not> is_stuck_repeating_action_error env t (action_error_pairs (action_error t) branch None))"
proof -
  obtain acts obs where p: "action_error_pairs (action_error t) branch None = (acts, obs)" by fastforce
  show ?thesis
  proof (cases "action_error_streak env acts obs = action_error t")
    case False
    then show ?thesis by (simp add: get_action_error_nudge_def p)
  next
    case True
    then obtain a rest err where a: "acts = ActionEvent a # rest" "find_error (tool_call_id a) obs = Inr err"
      using streak_first_error [of env acts obs] assms by auto
    then show ?thesis
      using True by (simp add: get_action_error_nudge_def p is_stuck_repeating_action_error_def)
  qed
qed

text \<open>A monologue is reported exactly when the newest events, read backwards up to the first
  that is neither a summary nor a message of someone other than the user, hold as many agent
  messages as the threshold.\<close>

theorem is_stuck_monologue_iff:
  "is_stuck_monologue t evs \<longleftrightarrow>
     monologue t \<le> length (filter is_agent_message (takeWhile continues_monologue (rev evs)))"
proof -
  have "length (filter is_agent_message (takeWhile continues_monologue (rev evs))) \<le> length evs"
    by (metis le_trans length_filter_le length_rev length_takeWhile_le)
  then show ?thesis by (auto simp: is_stuck_monologue_def monologue_loop_eq)
qed

text \<open>Right after a user message the agent is never stuck, whatever came before.\<close>

theorem user_message_unsticks:
  assumes "valid_thresholds t" "is_user_message e"
  shows "\<not> is_stuck env t (branch @ [e])"
  using assms events_since_user_last [of e MAX_EVENTS_TO_SCAN_FOR_STUCK_DETECTION branch]
  by (simp add: is_stuck_def MAX_EVENTS_TO_SCAN_FOR_STUCK_DETECTION_def valid_thresholds_def)

text \<open>A threshold of 1 or 2 for the alternating pattern, which the configuration allows,
  compares nothing: the pattern is reported for any so many actions and observations, however
  different, unless invalid calls share a response.\<close>

theorem alternating_threshold_too_small:
  assumes "alternating_pattern t \<le> 2"
  shows "is_stuck_alternating_action_observation env t evs \<longleftrightarrow>
    alternating_pattern t \<le> length (filter is_action evs) \<and>
    alternating_pattern t \<le> length (filter is_observation_or_error evs) \<and>
    \<not> invalid_calls_share_response (take (alternating_pattern t) (rev (filter is_action evs)))"
proof -
  have "is_action e \<Longrightarrow> \<not> is_observation_or_error e" for e by (cases e) simp_all
  then have c: "collect_loop is_observation_or_error n (rev evs) [] [] =
      (take n (rev (filter is_action evs)), take n (rev (filter is_observation_or_error evs)))" for n
    by (subst collect_loop_eq) (auto simp: rev_filter)
  have z: "alternating_pattern t - 2 = 0" using assms by simp
  show ?thesis
    unfolding is_stuck_alternating_action_observation_def Let_def c prod.case z by auto
qed

section \<open>Witnesses\<close>

definition sample_detector :: detector_env where
  "sample_detector = \<lparr>json_loads = (\<lambda>s. None), tools_map = Inl RuntimeErr\<rparr>"

text \<open>Four identical calls with identical answers, and three with the same error.\<close>

definition sample_loop :: "event list" where
  "sample_loop =
     [sample_message ''u'' SourceUser ''go'',
      sample_action ''a1'' ''c1'' ''r1'', sample_observation ''o1'' ''c1'',
      sample_action ''a2'' ''c2'' ''r2'', sample_observation ''o2'' ''c2'',
      sample_action ''a3'' ''c3'' ''r3'', sample_observation ''o3'' ''c3'',
      sample_action ''a4'' ''c4'' ''r4'', sample_observation ''o4'' ''c4'']"

definition sample_errors :: "event list" where
  "sample_errors =
     [sample_message ''u'' SourceUser ''go'',
      sample_action ''a1'' ''c1'' ''r1'', sample_error ''e1'' ''c1'' ''bad'',
      sample_action ''a2'' ''c2'' ''r2'', sample_error ''e2'' ''c2'' ''bad'',
      sample_action ''a3'' ''c3'' ''r3'', sample_error ''e3'' ''c3'' ''bad'']"

theorem repeating_action_observation_iff_witness:
  "(let (acts, obs) = collect_actions_and_observations sample_loop (action_observation default_thresholds)
    in is_stuck_repeating_action_observation sample_detector default_thresholds acts obs)"
proof -
  have "1 \<le> action_observation default_thresholds" by (simp add: default_thresholds_def)
  from repeating_action_observation_iff [OF this, of sample_loop sample_detector] show ?thesis
    by (simp add: default_thresholds_def sample_loop_def sample_defs invalid_response_ids_def Let_def
        List.map_filter_simps numeral_eq_Suc)
qed

theorem nudge_once_per_error_witness:
  "\<exists>nudge. get_action_error_nudge sample_detector default_thresholds sample_errors None =
      Inr (Some nudge, Some ''e3'') \<and>
    get_action_error_nudge sample_detector default_thresholds sample_errors (Some ''e3'') =
      Inr (None, Some ''e3'')"
proof -
  have t: "1 \<le> action_error default_thresholds" by (simp add: default_thresholds_def)
  have first: "map_sum id (\<lambda>(n, s). (n \<noteq> None, s))
      (get_action_error_nudge sample_detector default_thresholds sample_errors None) = Inr (True, Some ''e3'')"
    by code_simp
  then obtain nudge where "get_action_error_nudge sample_detector default_thresholds sample_errors None =
      Inr (Some nudge, Some ''e3'')"
    by (cases "get_action_error_nudge sample_detector default_thresholds sample_errors None") auto
  with nudge_once_per_error [OF t, of sample_detector sample_errors None] show ?thesis by auto
qed

theorem action_error_streak_counts_witness:
  "action_error_streak sample_detector
     (map ActionEvent [sample_action_event ''a2'' ''c2'' ''r2'' [], sample_action_event ''a1'' ''c1'' ''r1'' []])
     [sample_error ''e2'' ''c2'' ''bad'', sample_error ''e1'' ''c1'' ''bad''] = 2"
proof -
  let ?a = "[sample_action_event ''a2'' ''c2'' ''r2'' [], sample_action_event ''a1'' ''c1'' ''r1'' []]"
  let ?o = "[sample_error ''e2'' ''c2'' ''bad'', sample_error ''e1'' ''c1'' ''bad'']"
  let ?err = "\<lambda>i c. \<lparr>event_id = i, timestamp = [], source = SourceAgent, parent_id = None,
      obs_tool_name = ''terminal'', obs_tool_call_id = c, error = ''bad'',
      classification = None, validation_errors = None\<rparr>"
  let ?e = "?err ''e2'' ''c2''"
  have "fails_alike sample_detector (hd ?a) ?e ?o (hd ?a)"
    by (rule fails_alikeI [of ?e]) (simp_all add: sample_defs same_error_action_def)
  moreover have "fails_alike sample_detector (hd ?a) ?e ?o (?a ! 1)"
    by (rule fails_alikeI [of "?err ''e1'' ''c1''"]) (simp_all add: sample_defs same_error_action_def)
  ultimately have "list_all (fails_alike sample_detector (hd ?a) ?e ?o) ?a" by simp
  with action_error_streak_counts [of "map ActionEvent ?a" sample_detector ?o, THEN conjunct2, rule_format, of ?a ?e]
  show ?thesis by (simp add: sample_defs)
qed

theorem user_message_unsticks_witness:
  "\<not> is_stuck sample_detector default_thresholds (sample_loop @ [sample_message ''v'' SourceUser ''stop''])"
  by (rule user_message_unsticks)
     (simp_all add: valid_thresholds_def default_thresholds_def sample_message_def)

theorem alternating_threshold_too_small_witness:
  "is_stuck_alternating_action_observation sample_detector (default_thresholds\<lparr>alternating_pattern := 1\<rparr>)
     [sample_action ''a1'' ''c1'' ''r1'', sample_observation ''o1'' ''c1'']"
proof -
  have "alternating_pattern (default_thresholds\<lparr>alternating_pattern := 1\<rparr>) \<le> 2" by simp
  from alternating_threshold_too_small [OF this] show ?thesis
    by (simp add: sample_defs invalid_calls_share_response_def invalid_response_ids_def List.map_filter_simps)
qed

end
