(* ===== verification/Agent_Run.thy ===== *)
theory Agent_Run
  imports Agent_Safety Stuck_Detector
begin

text \<open>
  Running a conversation (\<open>run\<close>, \<open>send_message\<close>, \<open>pause\<close> and \<open>condense\<close> of
  \<open>conversation/impl/local_conversation.py\<close>): the loop around the agent's step, with its stop hooks,
  stuck detection, limits and errors.

  The state lock is held during a turn of the loop and free between two turns; what other threads do
  there is a list of functions on the conversation, one for each gap. The fuel of the loop bounds its
  turns; a step that does not return is \<open>None\<close> like a loop that has not ended. The agent has no
  \<open>agent_context\<close>, so messages activate no skills.
\<close>

section \<open>Operations beside the loop\<close>

record run_env =
  agent_of :: agent_env
  detector :: "(detector_env \<times> stuck_detection_thresholds) option"
  max_iteration_per_run :: int
  budget_exceeded :: "conversation \<Rightarrow> bool"

abbreviation cenv :: "run_env \<Rightarrow> conversation_env" where
  "cenv env \<equiv> conv_env (agent_of env)"

definition emit_other :: "run_env \<Rightarrow> string \<Rightarrow> source_type \<Rightarrow> conversation \<Rightarrow> unit conv_op" where
  "emit_other env cls src w =
     (case new_base (cenv env) src w of (b, w1) \<Rightarrow> emit (agent_of env) (OtherEvent cls b) w1)"

definition send_message :: "run_env \<Rightarrow> message \<Rightarrow> string option \<Rightarrow> conversation \<Rightarrow> unit conv_op" where
  "send_message env m sndr w =
     (if role m \<noteq> RoleUser then (Inl AssertionError, w)
      else with_lock (cenv env) (\<lambda>w.
        bind_op (if status_of w \<in> {FINISHED, STUCK} then set_status (cenv env) IDLE w else (Inr (), w)) (\<lambda>_ w1.
          case new_base (cenv env) SourceUser w1 of
            (b, w2) \<Rightarrow> emit (agent_of env) (MessageEvent (message_event_of b m None\<lparr>sender := sndr\<rparr>)) w2)) w)"

definition pause :: "run_env \<Rightarrow> conversation \<Rightarrow> unit conv_op" where
  "pause env w =
     (if status_of w = PAUSED then (Inr (), w)
      else with_lock (cenv env) (\<lambda>w.
        if status_of w \<in> {IDLE, RUNNING} then
          bind_op (set_status (cenv env) PAUSED w) (\<lambda>_ w1. emit_other env ''PauseEvent'' SourceUser w1)
        else (Inr (), w)) w)"

definition with_lock_opt ::
  "conversation_env \<Rightarrow> (conversation \<Rightarrow> 'a conv_op option) \<Rightarrow> conversation \<Rightarrow> 'a conv_op option" where
  "with_lock_opt env body w =
     map_option (\<lambda>(r, w1). bind_op (on_state (state_exit (write_error env)) w1) (\<lambda>_ w2. (r, w2)))
       (body (w\<lparr>conv_state := state_enter (conv_state w)\<rparr>))"

definition condense_now :: "run_env \<Rightarrow> conversation \<Rightarrow> unit conv_op option" where
  "condense_now env w =
     (if \<not> can_condense_on_request (agent_of env) then Some (Inl ValueError, w)
      else
        (case emit_condensation_request (agent_of env) w of
           (Inl e, w1) \<Rightarrow> Some (Inl e, w1)
         | (Inr _, w1) \<Rightarrow> with_lock_opt (cenv env) (agent_step (agent_of env)) w1))"

section \<open>A turn of the loop\<close>

datatype turn = Break | Continue nat

definition check_stuck_or_nudge :: "run_env \<Rightarrow> conversation \<Rightarrow> bool conv_op" where
  "check_stuck_or_nudge env w =
     (case detector env of
        None \<Rightarrow> (Inr False, w)
      | Some (d, t) \<Rightarrow>
          bind_op (active_branch (log_of (cenv env)) (conv_files w) (conv_state w) None, w) (\<lambda>evs w.
          bind_op (get_action_error_nudge d t evs (last_nudged w), w) (\<lambda>(nudge, last) w.
            (let w1 = w\<lparr>last_nudged := last\<rparr>
             in case nudge of
                  Some s \<Rightarrow> bind_op (emit_text (agent_of env) SourceEnvironment RoleUser s w1) (\<lambda>_ w2. (Inr False, w2))
                | None \<Rightarrow>
                    if is_stuck d t evs then bind_op (set_status (cenv env) STUCK w1) (\<lambda>_ w2. (Inr True, w2))
                    else (Inr False, w1)))))"

definition STOP_FEEDBACK_PREFIX :: string where
  "STOP_FEEDBACK_PREFIX = ''[Stop hook feedback]''"

definition finished_turn :: "run_env \<Rightarrow> nat \<Rightarrow> conversation \<Rightarrow> turn conv_op" where
  "finished_turn env iteration w =
     (case processor (cenv env) of
        None \<Rightarrow> (Inr Break, w)
      | Some p \<Rightarrow>
          bind_op (processor_run_stop (cenv env) p ''agent_finished'' w) (\<lambda>(should_stop, feedback) w1.
            if should_stop then (Inr Break, w1)
            else
              bind_op
                (case feedback of
                   Some (c # cs) \<Rightarrow>
                     emit_text (agent_of env) SourceEnvironment RoleUser (STOP_FEEDBACK_PREFIX @ '' '' @ (c # cs)) w1
                 | _ \<Rightarrow> (Inr (), w1))
                (\<lambda>_ w2. bind_op (set_status (cenv env) RUNNING w2) (\<lambda>_ w3. (Inr (Continue iteration), w3)))))"

definition emit_run_limit_error :: "run_env \<Rightarrow> conversation \<Rightarrow> unit conv_op" where
  "emit_run_limit_error env w =
     bind_op (set_status (cenv env) ERROR w) (\<lambda>_ w1. emit_other env ''ConversationErrorEvent'' SourceEnvironment w1)"

text \<open>What follows the step: waiting for confirmation, the budget, the number of iterations.\<close>

definition after_step :: "run_env \<Rightarrow> nat \<Rightarrow> conversation \<Rightarrow> turn conv_op" where
  "after_step env iteration w =
     (if status_of w = WAITING_FOR_CONFIRMATION then (Inr Break, w)
      else if budget_exceeded env w \<and> status_of w \<noteq> FINISHED then
        bind_op (emit_run_limit_error env w) (\<lambda>_ w1. (Inr Break, w1))
      else if int iteration \<ge> max_iteration_per_run env then
        if status_of w = FINISHED then (Inr Break, w)
        else bind_op (emit_run_limit_error env w) (\<lambda>_ w1. (Inr Break, w1))
      else (Inr (Continue iteration), w))"

definition step_turn :: "run_env \<Rightarrow> nat \<Rightarrow> conversation \<Rightarrow> turn conv_op option" where
  "step_turn env iteration w =
     (case (if status_of w = WAITING_FOR_CONFIRMATION then set_status (cenv env) RUNNING w else (Inr (), w)) of
        (Inl e, w1) \<Rightarrow> Some (Inl e, w1)
      | (Inr _, w1) \<Rightarrow>
          map_option (\<lambda>o1. bind_op o1 (\<lambda>_ w2. after_step env (Suc iteration) w2)) (agent_step (agent_of env) w1))"

definition turn_body :: "run_env \<Rightarrow> nat \<Rightarrow> conversation \<Rightarrow> turn conv_op option" where
  "turn_body env iteration w =
     (if status_of w \<in> {PAUSED, STUCK} then Some (Inr Break, w)
      else if status_of w = FINISHED then Some (finished_turn env iteration w)
      else
        (case check_stuck_or_nudge env w of
           (Inl e, w1) \<Rightarrow> Some (Inl e, w1)
         | (Inr True, w1) \<Rightarrow> Some (Inr (Continue iteration), w1)
         | (Inr False, w1) \<Rightarrow> step_turn env iteration w1))"

definition run_turn :: "run_env \<Rightarrow> nat \<Rightarrow> conversation \<Rightarrow> turn conv_op option" where
  "run_turn env iteration w = with_lock_opt (cenv env) (turn_body env iteration) w"

section \<open>The loop\<close>

text \<open>The last error event among those appended since the run began, searched backwards.\<close>

fun latest_conversation_error :: "run_env \<Rightarrow> conversation \<Rightarrow> nat \<Rightarrow> nat \<Rightarrow> event_base option result" where
  "latest_conversation_error env w since 0 = Inr None"
| "latest_conversation_error env w since (Suc i) =
     (if i < since then Inr None
      else
        bind_result (fst (get_single_item (log_of (cenv env)) (conv_files w) (event_log_of (conv_state w)) (int i))) (\<lambda>e.
          case e of
            OtherEvent cls b \<Rightarrow>
              if cls = ''ConversationErrorEvent'' then Inr (Some b) else latest_conversation_error env w since i
          | _ \<Rightarrow> latest_conversation_error env w since i))"

definition agent_already_surfaced_error :: "run_env \<Rightarrow> nat \<Rightarrow> conversation \<Rightarrow> bool result" where
  "agent_already_surfaced_error env since w =
     bind_result (latest_conversation_error env w since (el_length (event_log_of (conv_state w)))) (\<lambda>found.
       Inr (case found of Some b \<Rightarrow> source b = SourceAgent | None \<Rightarrow> False))"

text \<open>
  The exception handlers of \<open>_run\<close>. Both end by raising \<open>ConversationRunError\<close>; an exception of a
  handler itself gets out in its place.
\<close>

definition handle_run_error :: "run_env \<Rightarrow> nat \<Rightarrow> py_error \<Rightarrow> conversation \<Rightarrow> unit conv_op" where
  "handle_run_error env since e w =
     bind_op
       (with_lock (cenv env) (\<lambda>w.
          bind_op (set_status (cenv env) ERROR w) (\<lambda>_ w1.
            if e = LLMAuthenticationError then emit_other env ''ConversationErrorEvent'' SourceEnvironment w1
            else
              bind_op (agent_already_surfaced_error env since w1, w1) (\<lambda>surfaced w1.
                if surfaced then (Inr (), w1)
                else emit_other env ''ConversationErrorEvent'' SourceEnvironment w1))) w)
       (\<lambda>_ w1. (Inl ConversationRunError, w1))"

definition interfere :: "(conversation \<Rightarrow> conversation) list \<Rightarrow> conversation \<Rightarrow> conversation" where
  "interfere others w = (case others of [] \<Rightarrow> w | f # _ \<Rightarrow> f w)"

fun run_loop ::
  "run_env \<Rightarrow> nat \<Rightarrow> nat \<Rightarrow> nat \<Rightarrow> (conversation \<Rightarrow> conversation) list \<Rightarrow> conversation \<Rightarrow> unit conv_op option" where
  "run_loop env since 0 iteration others w = None"
| "run_loop env since (Suc fuel) iteration others w =
     (case run_turn env iteration (interfere others w) of
        None \<Rightarrow> None
      | Some (Inl e, w1) \<Rightarrow> Some (handle_run_error env since e w1)
      | Some (Inr Break, w1) \<Rightarrow> Some (Inr (), w1)
      | Some (Inr (Continue iteration'), w1) \<Rightarrow> run_loop env since fuel iteration' (tl others) w1)"

definition begin_run :: "run_env \<Rightarrow> conversation \<Rightarrow> unit conv_op" where
  "begin_run env = with_lock (cenv env) (\<lambda>w.
     if status_of w \<in> {IDLE, PAUSED, ERROR, STUCK} then set_status (cenv env) RUNNING w else (Inr (), w))"

definition run_conversation ::
  "run_env \<Rightarrow> nat \<Rightarrow> (conversation \<Rightarrow> conversation) list \<Rightarrow> conversation \<Rightarrow> unit conv_op option" where
  "run_conversation env fuel others w =
     (case begin_run env w of
        (Inl e, w1) \<Rightarrow> Some (Inl e, w1)
      | (Inr _, w1) \<Rightarrow> run_loop env (el_length (event_log_of (conv_state w1))) fuel 0 others w1)"

section \<open>What a turn does to the status\<close>

lemma status_on_state:
  "on_state (setattr werr name upd) w = (r, w') \<Longrightarrow> status_of w' = execution_status (upd (base (conv_state w)))"
  by (simp add: on_state_setattr)

lemma set_status_status: "status_of (snd (set_status env x w)) = x"
proof -
  obtain r w' where 1: "set_status env x w = (r, w')" by fastforce
  from status_on_state [OF this [unfolded set_status_def]] 1 show ?thesis by simp
qed

lemma emit_status [simp]: "status_of (snd (emit env e w)) = status_of w"
  using on_event_handled [of "conv_env env" e w, OF prod.collapse [symmetric]] by (simp add: emit_def handled_def)

lemma emit_text_status [simp]: "status_of (snd (emit_text env src r t w)) = status_of w"
  by (simp add: emit_text_def case_prod_beta)

lemma emit_other_status [simp]: "status_of (snd (emit_other env cls src w)) = status_of w"
  by (simp add: emit_other_def case_prod_beta)

lemma state_exit_base: "base (conv_state (snd (on_state (state_exit werr) w))) = base (conv_state w)"
proof -
  obtain r s where 1: "state_exit werr (conv_state w) = (r, s)" by fastforce
  from state_exit_state [OF this] 1 show ?thesis by (simp add: on_state_def)
qed

lemma state_enter_base [simp]: "base (state_enter s) = base s"
  by (simp add: state_enter_def)

lemma state_exit_no_error: "fst (state_exit (\<lambda>_. None) s) = Inr ()"
  by (simp add: state_exit_def save_base_state_def Let_def)

lemma with_lock_status:
  "status_of (snd (with_lock env body w)) = status_of (snd (body (w\<lparr>conv_state := state_enter (conv_state w)\<rparr>)))"
proof -
  obtain r w1 where 1: "body (w\<lparr>conv_state := state_enter (conv_state w)\<rparr>) = (r, w1)" by fastforce
  obtain r2 w2 where 2: "on_state (state_exit (write_error env)) w1 = (r2, w2)" by fastforce
  have "status_of w2 = status_of w1" using state_exit_base [of "write_error env" w1] 2 by simp
  then show ?thesis using 1 2 by (cases r2) (simp_all add: with_lock_def)
qed

lemma with_lock_opt_cases:
  assumes "with_lock_opt env body w = Some (r, w')"
  obtains r1 w1 where "body (w\<lparr>conv_state := state_enter (conv_state w)\<rparr>) = Some (r1, w1)"
    "r = r1 \<or> (\<exists>e. r = Inl e)" "status_of w' = status_of w1"
proof -
  obtain r1 w1 where 1: "body (w\<lparr>conv_state := state_enter (conv_state w)\<rparr>) = Some (r1, w1)"
    "bind_op (on_state (state_exit (write_error env)) w1) (\<lambda>_ w2. (r1, w2)) = (r, w')"
    using assms by (auto simp: with_lock_opt_def)
  obtain r2 w2 where 2: "on_state (state_exit (write_error env)) w1 = (r2, w2)" by fastforce
  have "status_of w2 = status_of w1" using state_exit_base [of "write_error env" w1] 2 by simp
  then show ?thesis using that [OF 1(1)] 1(2) 2 by (cases r2) auto
qed

lemma run_stop_status: "processor_run_stop ce p reason w = (r, w') \<Longrightarrow> status_of w' = status_of w"
proof -
  assume r: "processor_run_stop ce p reason w = (r, w')"
  show ?thesis
  proof (cases "has_hooks_for_event (hm_config (hp_manager p)) STOP_EVENT")
    case True
    show ?thesis
    proof (cases "manager_run_stop (hp_env p) (hp_runner p) (hp_manager p) (hooks_run w) reason")
      case (Inr x)
      obtain should rs where x: "x = (should, rs)" by fastforce
      obtain r1 w1 where 1: "emit_hook_execution_events ce (emit_hook_events p) rs (count_runs rs w) = (r1, w1)" by fastforce
      then have "status_of w1 = status_of w"
        using emit_hook_execution_events_spec [OF 1] by (simp add: hooks_only_def handled_def)
      then show ?thesis using r True Inr x 1 by (cases r1) (simp_all add: processor_run_stop_def)
    qed (use r True in \<open>simp add: processor_run_stop_def\<close>)
  qed (use r in \<open>simp add: processor_run_stop_def\<close>)
qed

lemma finished_turn_spec:
  assumes "finished_turn env it w = (Inr t, w')" "status_of w = FINISHED"
  shows "t = Break \<and> status_of w' = FINISHED \<or> t = Continue it \<and> status_of w' = RUNNING"
proof (cases "processor (cenv env)")
  case (Some p)
  obtain should feedback w1 where 1: "processor_run_stop (cenv env) p ''agent_finished'' w = (Inr (should, feedback), w1)"
    using assms(1) Some by (auto simp: finished_turn_def bind_op_Inr_iff)
  have 2: "if should then t = Break \<and> w' = w1
      else \<exists>w2. t = Continue it \<and> set_status (cenv env) RUNNING w2 = (Inr (), w')"
    using assms(1) Some 1 by (cases should) (auto simp: finished_turn_def bind_op_Inr_iff)
  show ?thesis
    using 2 run_stop_status [OF 1] assms(2) set_status_status [of "cenv env" RUNNING] by (auto split: if_splits) (metis snd_conv)
qed (use assms in \<open>simp add: finished_turn_def\<close>)

lemma check_stuck_status:
  assumes "check_stuck_or_nudge env w = (Inr stuck, w')"
  shows "status_of w' = (if stuck then STUCK else status_of w)"
proof (cases "detector env")
  case (Some dt)
  obtain d t where dt: "dt = (d, t)" by fastforce
  obtain evs where evs: "active_branch (log_of (cenv env)) (conv_files w) (conv_state w) None = Inr evs"
    using assms Some dt by (auto simp: check_stuck_or_nudge_def bind_op_Inr_iff)
  obtain nudge l where nudge: "get_action_error_nudge d t evs (last_nudged w) = Inr (nudge, l)"
    using assms Some dt evs by (auto simp: check_stuck_or_nudge_def bind_op_Inr_iff)
  show ?thesis
  proof (cases nudge)
    case None
    then show ?thesis
      using assms Some dt evs nudge set_status_status [of "cenv env" STUCK "w\<lparr>last_nudged := l\<rparr>"]
      by (auto simp: check_stuck_or_nudge_def bind_op_Inr_iff Let_def split: if_splits)
  next
    case (Some s)
    then show ?thesis
      using assms \<open>detector env = Some dt\<close> dt evs nudge emit_text_status [of "agent_of env" SourceEnvironment RoleUser s "w\<lparr>last_nudged := l\<rparr>"]
      by (auto simp: check_stuck_or_nudge_def bind_op_Inr_iff Let_def split: if_splits)
  qed
qed (use assms in \<open>simp add: check_stuck_or_nudge_def\<close>)

lemma limit_error_status: "status_of (snd (emit_run_limit_error env w)) = ERROR"
proof -
  obtain r w1 where 1: "set_status (cenv env) ERROR w = (r, w1)" by fastforce
  then have "status_of w1 = ERROR" using set_status_status [of "cenv env" ERROR w] by simp
  then show ?thesis using 1 by (cases r) (simp_all add: emit_run_limit_error_def)
qed

lemma after_step_spec:
  assumes "after_step env k w = (Inr t, w')"
  shows "t = Break \<and> status_of w' \<in> {WAITING_FOR_CONFIRMATION, FINISHED, ERROR} \<or> t = Continue k \<and> int k < max_iteration_per_run env"
  using assms limit_error_status [of env w]
  by (auto simp: after_step_def bind_op_Inr_iff split: if_splits)

text \<open>A turn ends the run in one of five states, or goes on with a smaller rank.\<close>

definition settled :: "conversation_execution_status \<Rightarrow> bool" where
  "settled x \<longleftrightarrow> x \<in> {PAUSED, STUCK, FINISHED, WAITING_FOR_CONFIRMATION, ERROR}"

fun status_rank :: "conversation_execution_status \<Rightarrow> nat" where
  "status_rank PAUSED = 0"
| "status_rank STUCK = 0"
| "status_rank FINISHED = 2"
| "status_rank _ = 1"

lemma status_rank_le: "status_rank x \<le> 2"
  by (cases x) simp_all

lemma turn_body_spec:
  assumes "turn_body env it w = Some (Inr t, w')"
  shows "t = Break \<and> settled (status_of w') \<or>
    t = Continue it \<and> status_rank (status_of w') < status_rank (status_of w) \<or>
    t = Continue (Suc it) \<and> int (Suc it) < max_iteration_per_run env \<and> 0 < status_rank (status_of w)"
proof -
  consider (halt) "status_of w \<in> {PAUSED, STUCK}" | (finished) "status_of w = FINISHED"
    | (go) "status_of w \<notin> {PAUSED, STUCK, FINISHED}" by blast
  then show ?thesis
  proof cases
    case halt
    then show ?thesis using assms by (auto simp: turn_body_def settled_def)
  next
    case finished
    then have "finished_turn env it w = (Inr t, w')" using assms by (simp add: turn_body_def)
    from finished_turn_spec [OF this finished] show ?thesis using finished by (auto simp: settled_def)
  next
    case go
    then have rank: "status_rank (status_of w) = 1" by (cases "status_of w") auto
    obtain stuck w1 where 1: "check_stuck_or_nudge env w = (Inr stuck, w1)"
      using assms go by (auto simp: turn_body_def split: sum.splits prod.splits)
    show ?thesis
    proof (cases stuck)
      case True
      then have "t = Continue it \<and> w' = w1" using assms go 1 by (simp add: turn_body_def)
      then show ?thesis using check_stuck_status [OF 1] True rank by simp
    next
      case False
      then have "step_turn env it w1 = Some (Inr t, w')" using assms go 1 by (simp add: turn_body_def)
      then obtain w2 where "after_step env (Suc it) w2 = (Inr t, w')"
        by (auto simp: step_turn_def bind_op_Inr_iff split: sum.splits prod.splits)
      from after_step_spec [OF this] show ?thesis using rank by (auto simp: settled_def)
    qed
  qed
qed

lemma run_turn_spec:
  assumes "run_turn env it w = Some (Inr t, w')"
  shows "t = Break \<and> settled (status_of w') \<or>
    t = Continue it \<and> status_rank (status_of w') < status_rank (status_of w) \<or>
    t = Continue (Suc it) \<and> int (Suc it) < max_iteration_per_run env \<and> 0 < status_rank (status_of w)"
proof -
  obtain w1 where 1: "turn_body env it (w\<lparr>conv_state := state_enter (conv_state w)\<rparr>) = Some (Inr t, w1)"
    "status_of w' = status_of w1"
    by (rule with_lock_opt_cases [OF assms [unfolded run_turn_def]]) auto
  from turn_body_spec [OF 1(1)] show ?thesis using 1(2) by simp
qed

lemma handle_run_error_spec: "\<exists>e'. fst (handle_run_error env since e w) = Inl e'" "status_of (snd (handle_run_error env since e w)) = ERROR"
proof -
  let ?body = "\<lambda>w. bind_op (set_status (cenv env) ERROR w) (\<lambda>_ w1.
            if e = LLMAuthenticationError then emit_other env ''ConversationErrorEvent'' SourceEnvironment w1
            else
              bind_op (agent_already_surfaced_error env since w1, w1) (\<lambda>surfaced w1.
                if surfaced then (Inr (), w1)
                else emit_other env ''ConversationErrorEvent'' SourceEnvironment w1))"
  have body: "status_of (snd (?body v)) = ERROR" for v
  proof -
    obtain r v1 where 1: "set_status (cenv env) ERROR v = (r, v1)" by fastforce
    then have v1: "status_of v1 = ERROR" using set_status_status [of "cenv env" ERROR v] by simp
    show ?thesis
      using 1 v1 by (cases r; cases "agent_already_surfaced_error env since v1") simp_all
  qed
  obtain r w1 where 1: "with_lock (cenv env) ?body w = (r, w1)" by fastforce
  have "status_of w1 = ERROR" using with_lock_status [of "cenv env" ?body w] 1 body by simp
  then show "\<exists>e'. fst (handle_run_error env since e w) = Inl e'" "status_of (snd (handle_run_error env since e w)) = ERROR"
    using 1 by (cases r; simp add: handle_run_error_def)+
qed

section \<open>The turns of a run\<close>

text \<open>The iteration and the conversation each turn begins with.\<close>

fun turn_starts ::
  "run_env \<Rightarrow> nat \<Rightarrow> nat \<Rightarrow> (conversation \<Rightarrow> conversation) list \<Rightarrow> conversation \<Rightarrow> (nat \<times> conversation) list" where
  "turn_starts env 0 it others w = []"
| "turn_starts env (Suc n) it others w =
     (it, interfere others w) #
     (case run_turn env it (interfere others w) of
        Some (Inr (Continue it'), w1) \<Rightarrow> turn_starts env n it' (tl others) w1
      | _ \<Rightarrow> [])"

lemma turn_starts_stop:
  assumes "\<nexists>it' w1. run_turn env it (interfere others w) = Some (Inr (Continue it'), w1)"
  shows "turn_starts env (Suc n) it others w = [(it, interfere others w)]"
proof (cases "run_turn env it (interfere others w)")
  case (Some x)
  then show ?thesis using assms by (cases x; cases "fst x") (auto split: turn.splits)
qed simp

definition turns_left :: "run_env \<Rightarrow> nat \<Rightarrow> (conversation \<Rightarrow> conversation) list \<Rightarrow> conversation \<Rightarrow> nat" where
  "turns_left env it others w =
     3 * nat (max_iteration_per_run env - int it) + (if others = [] then status_rank (status_of w) else 2 * length others + 2)"

lemma turns_left_decreases:
  assumes "run_turn env it (interfere others w) = Some (Inr (Continue it'), w1)"
  shows "turns_left env it' (tl others) w1 < turns_left env it others w"
proof -
  let ?m = "max_iteration_per_run env"
  have step: "3 * nat (?m - int it') + status_rank (status_of w1) < 3 * nat (?m - int it) + status_rank (status_of (interfere others w))"
    "nat (?m - int it') \<le> nat (?m - int it)"
    using run_turn_spec [OF assms] status_rank_le [of "status_of w1"] by auto
  show ?thesis
    using step status_rank_le [of "status_of (interfere others w)"]
    by (cases others; cases "tl others") (auto simp: turns_left_def interfere_def)
qed

lemma turn_starts_length: "length (turn_starts env n it others w) \<le> Suc (turns_left env it others w)"
proof (induction env n it others w rule: turn_starts.induct)
  case (2 env n it others w)
  show ?case
  proof (cases "\<exists>it' w1. run_turn env it (interfere others w) = Some (Inr (Continue it'), w1)")
    case True
    then obtain it' w1 where t: "run_turn env it (interfere others w) = Some (Inr (Continue it'), w1)" by blast
    then show ?thesis using 2 turns_left_decreases [OF t] by fastforce
  qed (use turn_starts_stop in simp)
qed simp

lemma turn_starts_bound:
  "(i, v) \<in> set (turn_starts env n it others w) \<Longrightarrow> i = it \<or> int i < max_iteration_per_run env"
proof (induction env n it others w rule: turn_starts.induct)
  case (2 env n it others w)
  show ?case
  proof (cases "\<exists>it' w1. run_turn env it (interfere others w) = Some (Inr (Continue it'), w1)")
    case True
    then obtain it' w1 where t: "run_turn env it (interfere others w) = Some (Inr (Continue it'), w1)" by blast
    then show ?thesis using 2 run_turn_spec [OF t] by fastforce
  next
    case False
    then show ?thesis using 2(2) by (simp only: turn_starts_stop [OF False]) simp
  qed
qed simp

text \<open>With fuel for one turn more than there can be, the loop ends if its turns do.\<close>

lemma run_loop_ends:
  assumes "length (turn_starts env fuel it others w) < fuel"
    and "\<forall>(i, v) \<in> set (turn_starts env fuel it others w). run_turn env i v \<noteq> None"
  shows "\<exists>r w'. run_loop env since fuel it others w = Some (r, w') \<and>
    (if r = Inr () then settled (status_of w') else status_of w' = ERROR)"
  using assms
proof (induction env fuel it others w rule: turn_starts.induct)
  case (2 env n it others w)
  then obtain r1 w1 where 1: "run_turn env it (interfere others w) = Some (r1, w1)" by force
  show ?case
  proof (cases r1)
    case (Inl e)
    then show ?thesis using 1 handle_run_error_spec [of env since e w1] by (cases "handle_run_error env since e w1") auto
  next
    case (Inr t)
    then show ?thesis
    proof (cases t)
      case Break
      then show ?thesis using 1 Inr run_turn_spec [of env it "interfere others w" t w1] by simp
    next
      case (Continue it')
      have "length (turn_starts env n it' (tl others) w1) < n"
        "\<forall>(i, v) \<in> set (turn_starts env n it' (tl others) w1). run_turn env i v \<noteq> None"
        using 2(2,3) 1 Inr Continue by auto
      then show ?thesis using 2(1) [OF 1 refl Inr Continue] 1 Inr Continue by simp
    qed
  qed
qed simp

section \<open>Pausing and condensing\<close>

lemma counters_emit_other [simp]: "counters (snd (emit_other env cls src w)) = counters w"
  by (simp add: emit_other_def case_prod_beta)

lemma counters_with_lock:
  assumes "\<And>w. counters (snd (body w)) = counters w"
  shows "counters (snd (with_lock env body w)) = counters w"
proof -
  let ?w = "w\<lparr>conv_state := state_enter (conv_state w)\<rparr>"
  obtain r w1 where 1: "body ?w = (r, w1)" by fastforce
  then have "counters w1 = counters w" using assms [of ?w] by simp
  then show ?thesis
    using 1 counters_bind_op [of "on_state (state_exit (write_error env)) w1" w1 "\<lambda>_ w2. (r, w2)"] by (simp add: with_lock_def)
qed

lemma pause_spec:
  assumes "status_of w \<in> {IDLE, RUNNING, PAUSED}"
  shows "status_of (snd (pause env w)) = PAUSED" "counters (snd (pause env w)) = counters w"
proof -
  have "status_of (snd (bind_op (set_status (cenv env) PAUSED v) (\<lambda>_ w1. emit_other env ''PauseEvent'' SourceUser w1))) = PAUSED" for v
  proof -
    obtain r v1 where 1: "set_status (cenv env) PAUSED v = (r, v1)" by fastforce
    then show ?thesis using set_status_status [of "cenv env" PAUSED v] by (cases r) simp_all
  qed
  then show "status_of (snd (pause env w)) = PAUSED" using assms by (auto simp: pause_def with_lock_status)
  show "counters (snd (pause env w)) = counters w"
    by (auto simp: pause_def intro!: counters_with_lock counters_bind_op)
qed

lemma paused_turn:
  assumes "write_error (cenv env) = (\<lambda>_. None)" "status_of w = PAUSED"
  shows "\<exists>w'. run_turn env it w = Some (Inr Break, w') \<and> status_of w' = PAUSED \<and> counters w' = counters w"
proof -
  let ?w = "w\<lparr>conv_state := state_enter (conv_state w)\<rparr>"
  obtain w' where w': "on_state (state_exit (\<lambda>_. None)) ?w = (Inr (), w')"
    using state_exit_no_error [of "state_enter (conv_state w)"]
    by (cases "state_exit (\<lambda>_. None) (state_enter (conv_state w))") (simp add: on_state_def)
  have "status_of w' = PAUSED" using state_exit_base [of "\<lambda>_. None" ?w] w' assms(2) by simp
  moreover have "counters w' = counters w" using counters_of(2) [of "state_exit (\<lambda>_. None)" ?w] w' by simp
  ultimately show ?thesis using w' assms by (simp add: run_turn_def with_lock_opt_def turn_body_def)
qed

section \<open>Properties\<close>

text \<open>C6: A run ends. If the single turns return, the loop stops, whatever other threads do to the
  conversation between its turns and however often a stop hook sends a finished agent back: three
  turns of fuel per iteration and two per interference are enough. The agent is stepped at most the
  configured number of times, once if that is not positive. A run that returns leaves the
  conversation paused, stuck, finished, waiting for confirmation or in error; one that raises leaves
  it in error.\<close>

theorem run_settles:
  assumes "write_error (cenv env) = (\<lambda>_. None)"
    and "3 * nat (max_iteration_per_run env) + 2 * length others + 4 \<le> fuel"
    and "\<forall>(i, v) \<in> set (turn_starts env fuel 0 others (snd (begin_run env w))). run_turn env i v \<noteq> None"
  shows "\<exists>r w'. run_conversation env fuel others w = Some (r, w') \<and>
    (if r = Inr () then status_of w' \<in> {PAUSED, STUCK, FINISHED, WAITING_FOR_CONFIRMATION, ERROR} else status_of w' = ERROR) \<and>
    (\<forall>(i, v) \<in> set (turn_starts env fuel 0 others (snd (begin_run env w))). int i < max 1 (max_iteration_per_run env))"
proof -
  obtain r0 w0 where b: "begin_run env w = (r0, w0)" by fastforce
  have "r0 = Inr ()"
  proof -
    let ?w = "w\<lparr>conv_state := state_enter (conv_state w)\<rparr>"
    obtain w1 where "(if status_of ?w \<in> {IDLE, PAUSED, ERROR, STUCK} then set_status (cenv env) RUNNING ?w else (Inr (), ?w)) = (Inr (), w1)"
      using set_status_done [OF assms(1), of RUNNING ?w] by (cases "status_of ?w \<in> {IDLE, PAUSED, ERROR, STUCK}") auto
    moreover have "fst (on_state (state_exit (write_error (cenv env))) w1) = Inr ()"
      using assms(1) state_exit_no_error [of "conv_state w1"] by (cases "state_exit (\<lambda>_. None) (conv_state w1)") (simp add: on_state_def)
    ultimately show ?thesis
      using b by (simp add: begin_run_def with_lock_def bind_op_def split: sum.splits prod.splits)
  qed
  have "turns_left env 0 others w0 + 1 < fuel"
    using assms(2) status_rank_le [of "status_of w0"] by (simp add: turns_left_def)
  then have "length (turn_starts env fuel 0 others w0) < fuel" using turn_starts_length [of env fuel 0 others w0] by simp
  from run_loop_ends [OF this, of "el_length (event_log_of (conv_state w0))"]
  show ?thesis
    using b \<open>r0 = Inr ()\<close> assms(3) turn_starts_bound [of _ _ env fuel 0 others w0]
    by (fastforce simp: run_conversation_def settled_def)
qed

text \<open>C30: Pausing works. If a user pauses an idle or running conversation between two turns of its run,
  the next turn ends the run, without a call of the LLM or a tool, and leaves it paused.\<close>

theorem pause_stops_run:
  assumes "write_error (cenv env) = (\<lambda>_. None)" "status_of w \<in> {IDLE, RUNNING, PAUSED}"
  shows "\<exists>w'. run_loop env since (Suc fuel) it ((\<lambda>w. snd (pause env w)) # others) w = Some (Inr (), w') \<and>
    status_of w' = PAUSED \<and> counters w' = counters w"
proof -
  note paused = pause_spec [OF assms(2), of env]
  obtain w' where "run_turn env it (snd (pause env w)) = Some (Inr Break, w')" "status_of w' = PAUSED"
    "counters w' = counters (snd (pause env w))"
    using paused_turn [OF assms(1) paused(1)] by blast
  then show ?thesis using paused(2) by (simp add: interfere_def)
qed

text \<open>C32: A request for condensation runs the pending actions of the branch, also those that wait for the
  user's confirmation: the status is not looked at, and the step that is to condense executes what
  is pending first.\<close>

theorem condense_runs_pending_actions:
  assumes "silent (cenv env)" "reliable (log_of (cenv env))" "at_head (cenv env) w br"
    and "can_condense_on_request (agent_of env)" "get_unmatched_actions br \<noteq> []"
    and "\<And>p. storable (log_of (cenv env)) (with_parent p (CondensationRequest (fst (new_base (cenv env) SourceEnvironment w))))"
    and "emit_condensation_request (agent_of env) w = (Inr (), w1)"
  shows "status_of w1 = status_of w \<and>
    (\<exists>b. active_branch (log_of (cenv env)) (conv_files w1) (conv_state w1) None = Inr (br @ [CondensationRequest b])) \<and>
    condense_now env w = with_lock_opt (cenv env) (execute_actions (agent_of env) (get_unmatched_actions br)) w1"
proof -
  let ?e = "CondensationRequest (fst (new_base (cenv env) SourceEnvironment w))"
  let ?w = "snd (new_base (cenv env) SourceEnvironment w)"
  have emit: "on_event (cenv env) ?e ?w = (Inr (), w1)"
    using assms(7) by (simp add: emit_condensation_request_def emit_def case_prod_beta)
  have e: "ev_parent_id ?e = None" "\<not> is_user_event ?e" "\<not> is_state_update ?e" by (simp_all add: new_base_def split: prod.splits)
  obtain p where p: "at_head (cenv env) w1 (br @ [with_parent p ?e])"
    using on_event_branch [OF assms(1,2) at_head_same_place [OF assms(3) new_base_same(1)] e assms(6) emit] by blast
  have "get_unmatched_actions (br @ [with_parent p ?e]) = get_unmatched_actions br"
    unfolding get_unmatched_pending by (subst pending_actions_append) (simp_all add: filter_id_conv)
  moreover have "active_branch (log_of (cenv env)) (conv_files w1) (state_enter (conv_state w1)) None = Inr (br @ [with_parent p ?e])"
    using p at_head_same_place [OF p, of "w1\<lparr>conv_state := state_enter (conv_state w1)\<rparr>"]
    by (simp add: at_head_def same_place_def same_tree_def state_enter_def)
  ultimately have "with_lock_opt (cenv env) (agent_step (agent_of env)) w1 =
      with_lock_opt (cenv env) (execute_actions (agent_of env) (get_unmatched_actions br)) w1"
    using assms(5) by (simp add: with_lock_opt_def agent_step_def)
  moreover have "status_of w1 = status_of w"
    using on_event_handled [OF emit] by (simp add: handled_def)
  ultimately show ?thesis using p assms(4,7) by (auto simp: condense_now_def at_head_def)
qed

section \<open>Witnesses\<close>

definition sample_run :: run_env where
  "sample_run = \<lparr>agent_of = sample_agent ''eeeeeeee'', detector = None, max_iteration_per_run = 1,
     budget_exceeded = (\<lambda>_. False)\<rparr>"

lemma sample_run_env: "write_error (cenv sample_run) = (\<lambda>_. None)" "cenv sample_run = conv_env (sample_agent ''eeeeeeee'')"
  by (simp_all add: sample_run_def sample_agent_def)

definition sample_waiting :: conversation where
  "sample_waiting =
     agent_conversation\<lparr>conv_state := agent_state\<lparr>base := (base agent_state)\<lparr>execution_status := WAITING_FOR_CONFIRMATION\<rparr>\<rparr>\<rparr>"

lemma sample_run_computed:
  "list_all (\<lambda>(i, v). \<not> Option.is_none (run_turn sample_run i v))
     (turn_starts sample_run 7 0 [] (snd (begin_run sample_run agent_conversation)))"
  "map_option fst (run_conversation sample_run 7 [] agent_conversation) = Some (Inr ())"
  "status_of agent_conversation = IDLE"
  "fst (emit_condensation_request (sample_agent ''eeeeeeee'') sample_waiting) = Inr ()"
  unfolding atomize_conj by code_simp

theorem run_settles_witness:
  "\<exists>w'. run_conversation sample_run 7 [] agent_conversation = Some (Inr (), w') \<and>
     status_of w' \<in> {PAUSED, STUCK, FINISHED, WAITING_FOR_CONFIRMATION, ERROR}"
proof -
  have turns: "\<forall>(i, v) \<in> set (turn_starts sample_run 7 0 [] (snd (begin_run sample_run agent_conversation))). run_turn sample_run i v \<noteq> None"
    using sample_run_computed(1) by (auto simp: list_all_iff Option.is_none_def)
  obtain w' where w': "run_conversation sample_run 7 [] agent_conversation = Some (Inr (), w')"
    using sample_run_computed(2) by auto
  have "3 * nat (max_iteration_per_run sample_run) + 2 * length ([] :: (conversation \<Rightarrow> conversation) list) + 4 \<le> 7"
    by (simp add: sample_run_def)
  from run_settles [OF sample_run_env(1) this turns] w' show ?thesis by auto
qed

theorem pause_stops_run_witness:
  "\<exists>w'. run_loop sample_run 0 1 0 [\<lambda>w. snd (pause sample_run w)] agent_conversation = Some (Inr (), w') \<and> status_of w' = PAUSED"
  using pause_stops_run [OF sample_run_env(1), of agent_conversation 0 0 0 "[]"] sample_run_computed(3) by auto

theorem condense_runs_pending_actions_witness:
  "\<exists>w w1. status_of w = WAITING_FOR_CONFIRMATION \<and> status_of w1 = WAITING_FOR_CONFIRMATION \<and>
     condense_now sample_run w = with_lock_opt (cenv sample_run) (execute_actions (agent_of sample_run) (get_unmatched_actions sample_branch)) w1 \<and>
     get_unmatched_actions sample_branch = [sample_action_event ''cccccccc'' ''c1'' ''r1'' []]"
proof -
  let ?w = sample_waiting
  have agent: "agent_of sample_run = sample_agent ''eeeeeeee''" by (simp add: sample_run_def)
  have "same_place agent_conversation ?w" by (simp add: same_place_def same_tree_def sample_waiting_def agent_conversation_def)
  then have head: "at_head (cenv sample_run) ?w sample_branch"
    unfolding sample_run_env(2) by (rule at_head_same_place [OF agent_at_head])
  obtain w1 where w1: "emit_condensation_request (agent_of sample_run) ?w = (Inr (), w1)"
    using sample_run_computed(4) unfolding agent by (metis prod.collapse)
  have "CondensationRequest (fst (new_base (cenv sample_run) SourceEnvironment ?w)) = sample_condense_event"
    by (simp add: sample_run_env(2) new_base_def sample_condense_event_def sample_agent_def)
  then have st: "storable (log_of (cenv sample_run)) (with_parent p (CondensationRequest (fst (new_base (cenv sample_run) SourceEnvironment ?w))))" for p
    using sample_answers_storable(2) [of "''eeeeeeee''" p] by (simp add: sample_run_env(2))
  have env: "silent (cenv sample_run)" "reliable (log_of (cenv sample_run))" "can_condense_on_request (agent_of sample_run)"
    using sample_silent agent_log_list
    by (simp_all add: sample_run_env(2) can_condense_on_request_def agent) (simp_all add: sample_agent_def)
  have "get_unmatched_actions sample_branch \<noteq> []" by (simp add: sample_pending)
  from condense_runs_pending_actions [OF env(1,2) head env(3) this st w1]
  show ?thesis using sample_pending by (intro exI [of _ ?w] exI [of _ w1]) (simp add: sample_waiting_def)
qed

end
