(* ===== verification/Edit_History.thy ===== *)
theory Edit_History
  imports Event_Log Tool_Calls
begin

text \<open>
  The history the file editor undoes edits with (\<open>utils/history.py\<close> and \<open>utils/file_cache.py\<close> of
  \<open>openhands-tools/openhands/tools/file_editor\<close>): a cache with one JSON file per key in a directory,
  which evicts what was not used for longest, and on it per edited file a bounded list of contents
  with a metadata entry.

  The files of the directory are a list in the order of their modification times, which every read
  and write of a file renews. A key stands for the file its hash names, so different keys are taken
  to have different hashes. Parsing what \<open>json.dumps\<close> wrote gives the value back.
\<close>

section \<open>The file cache\<close>

text \<open>The values the history stores: contents, and the metadata of a path.\<close>

datatype cached = CText string | CMeta "nat list" nat

text \<open>\<open>json.dumps\<close> escapes quotes, backslashes and everything outside printable ASCII.\<close>

definition dump_char :: "char \<Rightarrow> string" where
  "dump_char c =
     (if c = CHR 0x22 \<or> c = backslash then [backslash, c]
      else if is_control c \<or> 0x7F \<le> (of_char c :: nat) then escape_control_char c
      else [c])"

definition dump_string :: "string \<Rightarrow> string" where
  "dump_string s = CHR 0x22 # concat (map dump_char s) @ [CHR 0x22]"

fun dump_cached :: "cached \<Rightarrow> string" where
  "dump_cached (CText s) = dump_string s"
| "dump_cached (CMeta es n) =
     ''{\"entries\": ['' @ join_with '', '' (map show_nat es) @ ''], \"counter\": '' @ show_nat n @ ''}''"

definition cache_text :: "string \<Rightarrow> cached \<Rightarrow> string" where
  "cache_text key v = ''{\"key\": '' @ dump_string key @ '', \"value\": '' @ dump_cached v @ ''}''"

definition file_size :: "string \<times> cached \<Rightarrow> int" where
  "file_size kv = int (length (cache_text (fst kv) (snd kv)))"

record file_cache =
  cache_files :: "(string \<times> cached) list"
  size_limit :: "int option"
  current_size :: int

definition total_size :: "(string \<times> cached) list \<Rightarrow> int" where
  "total_size fs = (\<Sum>f\<leftarrow>fs. file_size f)"

definition new_cache :: "int option \<Rightarrow> (string \<times> cached) list \<Rightarrow> file_cache" where
  "new_cache limit fs = \<lparr>cache_files = fs, size_limit = limit, current_size = total_size fs\<rparr>"

abbreviation others :: "string \<Rightarrow> (string \<times> cached) list \<Rightarrow> (string \<times> cached) list" where
  "others key \<equiv> filter (\<lambda>f. fst f \<noteq> key)"

definition evict_oldest :: "string \<Rightarrow> file_cache \<Rightarrow> (unit, file_cache) outcome" where
  "evict_oldest exclude c =
     (case others exclude (cache_files c) of
        [] \<Rightarrow> (Inl ValueError, c)
      | f # _ \<Rightarrow> (Inr (), c\<lparr>cache_files := others (fst f) (cache_files c), current_size := current_size c - file_size f\<rparr>))"

lemma evict_oldest_shorter:
  "evict_oldest key c = (Inr x, c') \<Longrightarrow> length (cache_files c') < length (cache_files c)"
proof (cases "others key (cache_files c)")
  case (Cons f fs)
  then have "f \<in> set (cache_files c)" using filter_eq_ConsD [OF Cons] by auto
  then have "length (others (fst f) (cache_files c)) < length (cache_files c)"
    by (intro length_filter_less [of f]) auto
  moreover assume "evict_oldest key c = (Inr x, c')"
  ultimately show ?thesis using Cons by (auto simp: evict_oldest_def)
qed (simp add: evict_oldest_def)

text \<open>The loops of \<open>set\<close>, which make room for \<open>extra\<close> more bytes.\<close>

function evict_while :: "string \<Rightarrow> int \<Rightarrow> int \<Rightarrow> file_cache \<Rightarrow> (unit, file_cache) outcome" where
  "evict_while key extra limit c =
     (if current_size c + extra > limit \<and> length (cache_files c) > 1 then
        (case evict_oldest key c of
           (Inl e, c') \<Rightarrow> (Inl e, c')
         | (Inr _, c') \<Rightarrow> evict_while key extra limit c')
      else (Inr (), c))"
  by pat_completeness auto
termination
  by (relation "measure (\<lambda>(_, _, _, c). length (cache_files c))") (auto dest!: evict_oldest_shorter [OF sym])

declare evict_while.simps [simp del]

definition cache_set :: "string \<Rightarrow> cached \<Rightarrow> file_cache \<Rightarrow> (unit, file_cache) outcome" where
  "cache_set key v c =
     (let content_size = file_size (key, v);
          evicted =
            (case size_limit c of
               None \<Rightarrow> (Inr (), c)
             | Some limit \<Rightarrow>
                 (case map_of (cache_files c) key of
                    Some old \<Rightarrow>
                      (let size_diff = content_size - file_size (key, old)
                       in if size_diff > 0 then evict_while key size_diff limit c else (Inr (), c))
                  | None \<Rightarrow> evict_while key content_size limit c))
      in bind_op evicted (\<lambda>_ c1.
           let c2 = (case map_of (cache_files c1) key of
                       Some old \<Rightarrow> c1\<lparr>current_size := current_size c1 - file_size (key, old)\<rparr>
                     | None \<Rightarrow> c1)
           in (Inr (), c2\<lparr>cache_files := others key (cache_files c2) @ [(key, v)],
                          current_size := current_size c2 + content_size\<rparr>)))"

text \<open>Reading a file renews its modification time.\<close>

definition cache_get :: "string \<Rightarrow> file_cache \<Rightarrow> cached option \<times> file_cache" where
  "cache_get key c =
     (case map_of (cache_files c) key of
        None \<Rightarrow> (None, c)
      | Some v \<Rightarrow> (Some v, c\<lparr>cache_files := others key (cache_files c) @ [(key, v)]\<rparr>))"

definition cache_delete :: "string \<Rightarrow> file_cache \<Rightarrow> file_cache" where
  "cache_delete key c =
     (case map_of (cache_files c) key of
        None \<Rightarrow> c
      | Some v \<Rightarrow> c\<lparr>cache_files := others key (cache_files c), current_size := current_size c - file_size (key, v)\<rparr>)"

definition cache_clear :: "file_cache \<Rightarrow> file_cache" where
  "cache_clear c = c\<lparr>cache_files := [], current_size := 0\<rparr>"

definition cache_contains :: "string \<Rightarrow> file_cache \<Rightarrow> bool" where
  "cache_contains key c \<longleftrightarrow> map_of (cache_files c) key \<noteq> None"

section \<open>The history manager\<close>

record history_manager =
  max_history_per_file :: int
  cache :: file_cache

definition new_history :: "int \<Rightarrow> (string \<times> cached) list \<Rightarrow> history_manager" where
  "new_history n fs = \<lparr>max_history_per_file = n, cache = new_cache None fs\<rparr>"

definition metadata_key :: "string \<Rightarrow> string" where
  "metadata_key path = path @ ''.metadata''"

definition history_key :: "string \<Rightarrow> nat \<Rightarrow> string" where
  "history_key path counter = path @ ''.'' @ show_nat counter"

text \<open>\<open>self.cache.get(metadata_key, {"entries": [], "counter": 0})\<close> and its two items.\<close>

definition get_metadata :: "string \<Rightarrow> file_cache \<Rightarrow> (nat list \<times> nat, file_cache) outcome" where
  "get_metadata path c =
     (case cache_get (metadata_key path) c of
        (None, c') \<Rightarrow> (Inr ([], 0), c')
      | (Some (CMeta entries counter), c') \<Rightarrow> (Inr (entries, counter), c')
      | (Some (CText _), c') \<Rightarrow> (Inl TypeErr, c'))"

fun trim_entries :: "string \<Rightarrow> int \<Rightarrow> nat list \<Rightarrow> file_cache \<Rightarrow> (nat list, file_cache) outcome" where
  "trim_entries path n [] c = (if 0 > n then Inl IndexError else Inr [], c)"
| "trim_entries path n (old # entries) c =
     (if int (length (old # entries)) > n then trim_entries path n entries (cache_delete (history_key path old) c)
      else (Inr (old # entries), c))"

definition on_cache :: "(file_cache \<Rightarrow> ('a, file_cache) outcome) \<Rightarrow> history_manager \<Rightarrow> ('a, history_manager) outcome" where
  "on_cache f h = (case f (cache h) of (r, c) \<Rightarrow> (r, h\<lparr>cache := c\<rparr>))"

definition add_history :: "string \<Rightarrow> string \<Rightarrow> history_manager \<Rightarrow> (unit, history_manager) outcome" where
  "add_history path content h = on_cache (\<lambda>c.
     bind_op (get_metadata path c) (\<lambda>(entries, counter) c1.
     bind_op (cache_set (history_key path counter) (CText content) c1) (\<lambda>_ c2.
     bind_op (trim_entries path (max_history_per_file h) (entries @ [counter]) c2) (\<lambda>entries' c3.
       cache_set (metadata_key path) (CMeta entries' (Suc counter)) c3)))) h"

definition pop_last_history :: "string \<Rightarrow> history_manager \<Rightarrow> (cached option, history_manager) outcome" where
  "pop_last_history path h = on_cache (\<lambda>c.
     bind_op (get_metadata path c) (\<lambda>(entries, counter) c1.
       if entries = [] then (Inr None, c1)
       else
         (let key = history_key path (last entries);
              (content, c2) = cache_get key c1;
              c3 = (if content = None then c2 else cache_delete key c2)
          in bind_op (cache_set (metadata_key path) (CMeta (butlast entries) counter) c3) (\<lambda>_ c4. (Inr content, c4))))) h"

definition clear_history :: "string \<Rightarrow> history_manager \<Rightarrow> (unit, history_manager) outcome" where
  "clear_history path h = on_cache (\<lambda>c.
     bind_op (get_metadata path c) (\<lambda>(entries, counter) c1.
       cache_set (metadata_key path) (CMeta [] 0) (fold (\<lambda>k. cache_delete (history_key path k)) entries c1))) h"

fun collect_history :: "string \<Rightarrow> nat list \<Rightarrow> file_cache \<Rightarrow> cached list \<times> file_cache" where
  "collect_history path [] c = ([], c)"
| "collect_history path (k # entries) c =
     (let (content, c1) = cache_get (history_key path k) c;
          (contents, c2) = collect_history path entries c1
      in (case content of Some v \<Rightarrow> v # contents | None \<Rightarrow> contents, c2))"

definition get_all_history :: "string \<Rightarrow> history_manager \<Rightarrow> (cached list, history_manager) outcome" where
  "get_all_history path h = on_cache (\<lambda>c.
     bind_op (get_metadata path c) (\<lambda>(entries, counter) c1.
       case collect_history path entries c1 of (contents, c2) \<Rightarrow> (Inr contents, c2))) h"

section \<open>The cache as a map\<close>

abbreviation look :: "file_cache \<Rightarrow> string \<Rightarrow> cached option" where
  "look c \<equiv> map_of (cache_files c)"

definition cache_ok :: "file_cache \<Rightarrow> bool" where
  "cache_ok c \<longleftrightarrow> distinct (map fst (cache_files c)) \<and> current_size c = total_size (cache_files c)"

lemma map_of_others [simp]: "map_of (others key fs) = (map_of fs)(key := None)"
  by (induction fs) (auto simp: fun_eq_iff)

lemma others_absent [simp]: "map_of fs key = None \<Longrightarrow> others key fs = fs"
  by (induction fs) (auto split: if_splits)

lemma distinct_others: "distinct (map fst fs) \<Longrightarrow> distinct (map fst (others key fs))"
  by (induction fs) auto

lemma total_size_simps [simp]:
  "total_size [] = 0" "total_size (f # fs) = file_size f + total_size fs" "total_size (fs @ gs) = total_size fs + total_size gs"
  by (simp_all add: total_size_def)

lemma total_size_others:
  "distinct (map fst fs) \<Longrightarrow> map_of fs key = Some v \<Longrightarrow> total_size (others key fs) = total_size fs - file_size (key, v)"
proof (induction fs)
  case (Cons f fs)
  then have "map_of fs key = None" if "fst f = key" using that by (auto simp: map_of_eq_None_iff)
  then show ?case using Cons by (cases f) auto
qed simp

lemma key_not_in_others [simp]: "key \<notin> fst ` set (others key fs)"
  by auto

lemma single_add_removed [simp]: "[key \<mapsto> v] ++ m(key := None) = m(key \<mapsto> v)"
  by (auto simp: fun_eq_iff map_add_def split: option.splits)

lemma total_take_drop: "total_size (take j fs) + total_size (drop j fs) = total_size fs"
  by (metis append_take_drop_id total_size_simps(3))

lemma moved_ok:
  assumes "distinct (map fst fs)"
  shows "distinct (map fst (others key fs @ [(key, v)]))"
  using distinct_others [OF assms] by auto

lemma cache_get_spec:
  assumes "cache_ok c" "cache_get key c = (v, c')"
  shows "v = look c key" "look c' = look c" "cache_ok c'" "size_limit c' = size_limit c"
proof -
  have "v = look c key \<and> look c' = look c \<and> cache_ok c' \<and> size_limit c' = size_limit c"
  proof (cases "look c key")
    case (Some w)
    then have "c' = c\<lparr>cache_files := others key (cache_files c) @ [(key, w)]\<rparr>" "v = Some w"
      using assms(2) by (simp_all add: cache_get_def)
    then show ?thesis
      using Some assms(1) total_size_others [of "cache_files c" key w] moved_ok [of "cache_files c" key w]
      by (simp add: cache_ok_def fun_upd_idem)
  qed (use assms in \<open>simp add: cache_get_def\<close>)
  then show "v = look c key" "look c' = look c" "cache_ok c'" "size_limit c' = size_limit c" by simp_all
qed

lemma cache_delete_spec:
  assumes "cache_ok c"
  shows "look (cache_delete key c) = (look c)(key := None)" "cache_ok (cache_delete key c)"
    "size_limit (cache_delete key c) = size_limit c"
proof -
  have "look (cache_delete key c) = (look c)(key := None) \<and> cache_ok (cache_delete key c) \<and>
    size_limit (cache_delete key c) = size_limit c"
  proof (cases "look c key")
    case (Some w)
    then show ?thesis
      using assms total_size_others [of "cache_files c" key w] distinct_others [of "cache_files c" key]
      by (simp add: cache_delete_def cache_ok_def)
  qed (use assms in \<open>simp add: cache_delete_def fun_upd_idem\<close>)
  then show "look (cache_delete key c) = (look c)(key := None)" "cache_ok (cache_delete key c)"
    "size_limit (cache_delete key c) = size_limit c" by simp_all
qed

text \<open>The body of \<open>set\<close> behind its evictions.\<close>

definition store_file :: "string \<Rightarrow> cached \<Rightarrow> file_cache \<Rightarrow> file_cache" where
  "store_file key v c =
     c\<lparr>cache_files := others key (cache_files c) @ [(key, v)],
       current_size := current_size c - (case look c key of Some old \<Rightarrow> file_size (key, old) | None \<Rightarrow> 0) + file_size (key, v)\<rparr>"

lemma store_file_spec:
  assumes "cache_ok c"
  shows "look (store_file key v c) = (look c)(key \<mapsto> v)" "cache_ok (store_file key v c)"
    "size_limit (store_file key v c) = size_limit c"
proof -
  have d: "distinct (map fst (cache_files c))" using assms by (simp add: cache_ok_def)
  show "look (store_file key v c) = (look c)(key \<mapsto> v)" "size_limit (store_file key v c) = size_limit c"
    by (simp_all add: store_file_def)
  show "cache_ok (store_file key v c)"
  proof (cases "look c key")
    case None
    then show ?thesis using assms moved_ok [OF d, of key v] by (simp add: store_file_def cache_ok_def)
  next
    case (Some w)
    then show ?thesis
      using assms moved_ok [OF d, of key v] total_size_others [OF d Some] by (simp add: store_file_def cache_ok_def)
  qed
qed

lemma cache_set_store:
  "cache_set key v c =
     bind_op
       (case size_limit c of
          None \<Rightarrow> (Inr (), c)
        | Some limit \<Rightarrow>
            (let need = file_size (key, v) - (case look c key of Some old \<Rightarrow> file_size (key, old) | None \<Rightarrow> 0)
             in if look c key = None \<or> need > 0 then evict_while key need limit c else (Inr (), c)))
       (\<lambda>_ c1. (Inr (), store_file key v c1))"
proof -
  have step: "(let c2 = (case look c1 key of Some old \<Rightarrow> c1\<lparr>current_size := current_size c1 - file_size (key, old)\<rparr> | None \<Rightarrow> c1)
      in (Inr (), c2\<lparr>cache_files := others key (cache_files c2) @ [(key, v)], current_size := current_size c2 + file_size (key, v)\<rparr>)) =
    (Inr (), store_file key v c1)" for c1
    by (simp add: store_file_def split: option.split)
  show ?thesis
    unfolding cache_set_def step [unfolded Let_def] Let_def by (cases "size_limit c"; cases "look c key") simp_all
qed

lemma cache_set_unlimited:
  "size_limit c = None \<Longrightarrow> cache_set key v c = (Inr (), store_file key v c)"
  by (simp add: cache_set_store)

section \<open>Eviction\<close>

text \<open>What is evicted is the part of the other files that was used longest ago.\<close>

lemma others_drop_first:
  assumes "distinct (map fst fs)" "others key fs = f # gs"
  shows "others key (others (fst f) fs) = gs"
proof -
  have "others key (others (fst f) fs) = others (fst f) (others key fs)" by (simp add: conj_commute)
  also have "\<dots> = gs"
    using distinct_others [OF assms(1), of key] assms(2) by (simp add: filter_True image_iff) (force intro!: filter_True)
  finally show ?thesis .
qed

lemma length_others: "distinct (map fst fs) \<Longrightarrow> f \<in> set fs \<Longrightarrow> length fs = Suc (length (others (fst f) fs))"
proof (induction fs)
  case (Cons g fs)
  show ?case
  proof (cases "g = f")
    case True
    then have "others (fst f) fs = fs" using Cons(2) by (intro filter_True) (auto simp: image_iff)
    then show ?thesis using True by simp
  next
    case False
    then have "fst g \<noteq> fst f" using Cons(2,3) by (auto simp: image_iff)
    then show ?thesis using Cons False by simp
  qed
qed simp

lemma evict_oldest_spec:
  assumes "cache_ok c" "others key (cache_files c) = f # gs"
  shows "\<exists>c'. evict_oldest key c = (Inr (), c') \<and> cache_ok c' \<and> size_limit c' = size_limit c \<and>
    others key (cache_files c') = gs \<and> look c' key = look c key \<and> current_size c' = current_size c - file_size f \<and>
    length (cache_files c) = Suc (length (cache_files c'))"
proof -
  have d: "distinct (map fst (cache_files c))" using assms(1) by (simp add: cache_ok_def)
  have f: "f \<in> set (cache_files c)" "fst f \<noteq> key" using filter_eq_ConsD [OF assms(2)] by auto
  then have "look c (fst f) = Some (snd f)" using d by simp
  from total_size_others [OF d this] show ?thesis
    using assms f distinct_others [OF d, of "fst f"] others_drop_first [OF d assms(2)] length_others [OF d f(1)]
    by (simp add: evict_oldest_def cache_ok_def)
qed

lemma length_others_ge: "distinct (map fst fs) \<Longrightarrow> length fs \<le> Suc (length (others key fs))"
proof (induction fs)
  case (Cons f fs)
  show ?case
  proof (cases "fst f = key")
    case True
    then have "others key fs = fs" using Cons(2) by (intro filter_True) (auto simp: image_iff)
    then show ?thesis by simp
  qed (use Cons in simp)
qed simp

text \<open>The size of the cache if \<open>k\<close> files are evicted in favour of \<open>extra\<close> bytes.\<close>

definition size_after :: "string \<Rightarrow> int \<Rightarrow> file_cache \<Rightarrow> nat \<Rightarrow> int" where
  "size_after key extra c k = current_size c - total_size (take k (others key (cache_files c))) + extra"

lemma evict_while_spec:
  assumes "cache_ok c"
  shows "\<exists>c' k. evict_while key extra limit c = (Inr (), c') \<and> cache_ok c' \<and> size_limit c' = size_limit c \<and>
    others key (cache_files c') = drop k (others key (cache_files c)) \<and> look c' key = look c key \<and>
    current_size c' + extra = size_after key extra c k \<and>
    (size_after key extra c k \<le> limit \<or> length (cache_files c') \<le> 1) \<and>
    (\<forall>j < k. limit < size_after key extra c j)"
  using assms
proof (induction key extra limit c rule: evict_while.induct)
  case (1 key extra limit c)
  show ?case
  proof (cases "limit < current_size c + extra \<and> 1 < length (cache_files c)")
    case False
    then have "evict_while key extra limit c = (Inr (), c)" by (subst evict_while.simps) auto
    then show ?thesis using False 1(2) by (intro exI [of _ c] exI [of _ 0]) (auto simp: size_after_def)
  next
    case True
    then obtain f gs where fs: "others key (cache_files c) = f # gs"
      using length_others_ge [of "cache_files c" key] 1(2) by (cases "others key (cache_files c)") (auto simp: cache_ok_def)
    obtain c1 where c1: "evict_oldest key c = (Inr (), c1)" "cache_ok c1" "size_limit c1 = size_limit c"
      "others key (cache_files c1) = gs" "look c1 key = look c key" "current_size c1 = current_size c - file_size f"
      using evict_oldest_spec [OF 1(2) fs] by blast
    have eq: "evict_while key extra limit c = evict_while key extra limit c1"
      using True c1(1) by (subst evict_while.simps) simp
    have size: "size_after key extra c (Suc j) = size_after key extra c1 j" for j
      by (simp add: size_after_def fs c1(4,6))
    obtain c' k where c': "evict_while key extra limit c1 = (Inr (), c')" "cache_ok c'" "size_limit c' = size_limit c1"
      "others key (cache_files c') = drop k gs" "look c' key = look c1 key"
      "current_size c' + extra = size_after key extra c1 k"
      "size_after key extra c1 k \<le> limit \<or> length (cache_files c') \<le> 1" "\<forall>j < k. limit < size_after key extra c1 j"
      using 1(1) [OF _ c1(1)[symmetric] refl c1(2)] True c1(4) by auto
    have "limit < size_after key extra c j" if "j < Suc k" for j
      using that c'(8) True by (cases j) (simp_all add: size [symmetric] size_after_def [of _ _ _ 0])
    then show ?thesis
      using c' c1(3,5) eq by (intro exI [of _ c'] exI [of _ "Suc k"]) (simp add: fs size)
  qed
qed

section \<open>Keys\<close>

lemma show_nat_no_dot: "CHR ''.'' \<notin> set (show_nat n)"
  using show_nat_digits [of n] by (auto simp: list_all_iff is_digit_def)

lemma dot_split:
  assumes "CHR ''.'' \<notin> set x" "CHR ''.'' \<notin> set y" "p @ ''.'' @ x = q @ ''.'' @ y"
  shows "p = q \<and> x = y"
proof -
  have cut: "takeWhile (\<lambda>c. c \<noteq> CHR ''.'') (a @ CHR ''.'' # b) = a" if "CHR ''.'' \<notin> set a" for a b
    using that by (induction a) auto
  have rev: "rev x @ CHR ''.'' # rev p = rev y @ CHR ''.'' # rev q" using arg_cong [OF assms(3), of rev] by simp
  then have "rev x = rev y" using cut [of "rev x" "rev p"] cut [of "rev y" "rev q"] assms(1,2) by simp
  then show ?thesis using rev by simp
qed

lemma history_key_inject [simp]: "history_key p i = history_key q j \<longleftrightarrow> p = q \<and> i = j"
proof
  assume "history_key p i = history_key q j"
  then have "p = q \<and> show_nat i = show_nat j"
    using dot_split [OF show_nat_no_dot show_nat_no_dot] by (simp add: history_key_def)
  then show "p = q \<and> i = j" by (metis int_of_digits_show_nat)
qed simp

lemma metadata_key_inject [simp]: "metadata_key p = metadata_key q \<longleftrightarrow> p = q"
  by (simp add: metadata_key_def)

lemma metadata_not_history [simp]: "metadata_key p \<noteq> history_key q j" "history_key q j \<noteq> metadata_key p"
proof -
  have "metadata_key p \<noteq> history_key q j"
  proof
    assume "metadata_key p = history_key q j"
    then have "p @ ''.'' @ ''metadata'' = q @ ''.'' @ show_nat j" by (simp add: metadata_key_def history_key_def)
    then have "show_nat j = ''metadata''" using dot_split [OF _ show_nat_no_dot, of "''metadata''" p q j] by simp
    then have "list_all is_digit ''metadata''" using show_nat_digits [of j] by simp
    then show False by (simp add: is_digit_def)
  qed
  then show "metadata_key p \<noteq> history_key q j" "history_key q j \<noteq> metadata_key p" by auto
qed

section \<open>The history of a path as a stack\<close>

type_synonym cache_map = "string \<Rightarrow> cached option"

definition entries_of :: "cache_map \<Rightarrow> string \<Rightarrow> nat list" where
  "entries_of m p = (case m (metadata_key p) of Some (CMeta es n) \<Rightarrow> es | _ \<Rightarrow> [])"

definition counter_of :: "cache_map \<Rightarrow> string \<Rightarrow> nat" where
  "counter_of m p = (case m (metadata_key p) of Some (CMeta es n) \<Rightarrow> n | _ \<Rightarrow> 0)"

fun text_of :: "cached option \<Rightarrow> string" where
  "text_of (Some (CText t)) = t"
| "text_of _ = []"

definition stack_of :: "cache_map \<Rightarrow> string \<Rightarrow> string list" where
  "stack_of m p = map (\<lambda>k. text_of (m (history_key p k))) (entries_of m p)"

definition path_ok :: "nat \<Rightarrow> cache_map \<Rightarrow> string \<Rightarrow> bool" where
  "path_ok n m p \<longleftrightarrow>
     (\<forall>t. m (metadata_key p) \<noteq> Some (CText t)) \<and> distinct (entries_of m p) \<and> length (entries_of m p) \<le> n \<and>
     (\<forall>k \<in> set (entries_of m p). k < counter_of m p \<and> (\<exists>t. m (history_key p k) = Some (CText t))) \<and>
     (\<forall>k. m (history_key p k) \<noteq> None \<longrightarrow> k \<in> set (entries_of m p))"

definition agree_off :: "string \<Rightarrow> cache_map \<Rightarrow> cache_map \<Rightarrow> bool" where
  "agree_off p m m' \<longleftrightarrow> (\<forall>q. q \<noteq> p \<longrightarrow>
     m' (metadata_key q) = m (metadata_key q) \<and> (\<forall>k. m' (history_key q k) = m (history_key q k)))"

lemma agree_off_stays:
  assumes "agree_off p m m'" "q \<noteq> p"
  shows "stack_of m' q = stack_of m q" "path_ok n m' q = path_ok n m q"
  using assms by (simp_all add: agree_off_def stack_of_def path_ok_def entries_of_def counter_of_def)

lemma agree_off_all:
  assumes "agree_off p m m'" "\<forall>q. path_ok n m q" "path_ok n m' p" "stack_of m' p = s"
  shows "\<forall>q. path_ok n m' q" "stack_of m' = (stack_of m)(p := s)"
proof -
  show "\<forall>q. path_ok n m' q"
  proof
    fix q
    show "path_ok n m' q" using assms agree_off_stays(2) [OF assms(1), of q] by (cases "q = p") auto
  qed
  show "stack_of m' = (stack_of m)(p := s)" using agree_off_stays(1) [OF assms(1)] assms(4) by (auto simp: fun_eq_iff)
qed

text \<open>The cache with one map in place of another.\<close>

definition cache_is :: "file_cache \<Rightarrow> cache_map \<Rightarrow> bool" where
  "cache_is c m \<longleftrightarrow> cache_ok c \<and> size_limit c = None \<and> look c = m"

lemma cache_is_get: "cache_is c m \<Longrightarrow> cache_get k c = (v, c') \<Longrightarrow> v = m k \<and> cache_is c' m"
  using cache_get_spec [of c k v c'] by (auto simp: cache_is_def)

lemma cache_is_delete: "cache_is c m \<Longrightarrow> cache_is (cache_delete k c) (m(k := None))"
  using cache_delete_spec [of c k] by (auto simp: cache_is_def)

lemma cache_is_set: "cache_is c m \<Longrightarrow> \<exists>c'. cache_set k v c = (Inr (), c') \<and> cache_is c' (m(k \<mapsto> v))"
  using store_file_spec [of c k v] cache_set_unlimited [of c k v] by (auto simp: cache_is_def)

lemma get_metadata_spec:
  assumes "cache_is c m" "path_ok n m p"
  shows "\<exists>c'. get_metadata p c = (Inr (entries_of m p, counter_of m p), c') \<and> cache_is c' m"
proof -
  obtain v c' where g: "cache_get (metadata_key p) c = (v, c')" by fastforce
  then have "v = m (metadata_key p)" "cache_is c' m" using cache_is_get [OF assms(1) g] by auto
  then show ?thesis
    using g assms(2)
    by (auto simp: get_metadata_def path_ok_def entries_of_def counter_of_def split: option.splits cached.splits)
qed

definition without :: "string \<Rightarrow> nat list \<Rightarrow> cache_map \<Rightarrow> cache_map" where
  "without p ks m key = (if key \<in> history_key p ` set ks then None else m key)"

lemma without_simps [simp]:
  "without p [] m = m"
  "without p (k # ks) m = without p ks (m(history_key p k := None))"
  "without p ks m (metadata_key q) = m (metadata_key q)"
  "without p ks m (history_key q k) = (if q = p \<and> k \<in> set ks then None else m (history_key q k))"
  by (auto simp: without_def fun_eq_iff)

lemma trim_entries_spec:
  assumes "cache_is c m" "0 \<le> n"
  shows "\<exists>c'. trim_entries p n es c = (Inr (last_n (nat n) es), c') \<and> cache_is c' (without p (take (length es - nat n) es) m)"
  using assms
proof (induction p n es c arbitrary: m rule: trim_entries.induct)
  case (2 path n old entries c)
  show ?case
  proof (cases "int (length (old # entries)) > n")
    case True
    then have "length (old # entries) - nat n = Suc (length entries - nat n)" using 2(3) by simp
    then show ?thesis using 2(1) [OF True cache_is_delete [OF 2(2)] 2(3)] True by (simp add: last_n_def fun_upd_def)
  next
    case False
    then have "length (old # entries) - nat n = 0" by simp
    then show ?thesis using False 2(2) by (simp add: last_n_def)
  qed
qed (simp add: last_n_def)

lemma add_history_map:
  assumes "\<forall>q. path_ok n m q"
    and "m' = without p (take (Suc (length (entries_of m p)) - n) (entries_of m p @ [counter_of m p])) (m(history_key p (counter_of m p) \<mapsto> CText t))"
    and "m'' = m'(metadata_key p \<mapsto> CMeta (last_n n (entries_of m p @ [counter_of m p])) (Suc (counter_of m p)))"
  shows "\<forall>q. path_ok n m'' q" "stack_of m'' = (stack_of m)(p := last_n n (stack_of m p @ [t]))"
proof -
  let ?es = "entries_of m p @ [counter_of m p]" and ?d = "Suc (length (entries_of m p)) - n"
  have p: "path_ok n m p" using assms(1) by simp
  have d: "distinct ?es" using p by (auto simp: path_ok_def)
  have e: "entries_of m'' p = drop ?d ?es" "counter_of m'' p = Suc (counter_of m p)"
    by (simp_all add: entries_of_def counter_of_def assms(3) last_n_def)
  have disj: "set (take ?d ?es) \<inter> set (drop ?d ?es) = {}" using d by (rule set_take_disj_set_drop_if_distinct) simp
  have look: "m'' (history_key p k) = (if k \<in> set (take ?d ?es) then None else if k = counter_of m p then Some (CText t) else m (history_key p k))" for k
    by (simp add: assms(2,3))
  have kept: "m'' (history_key p k) = (if k = counter_of m p then Some (CText t) else m (history_key p k))" if "k \<in> set (drop ?d ?es)" for k
    using look [of k] disj that by auto
  have sub: "k \<in> set (drop ?d ?es) \<Longrightarrow> k \<in> set (entries_of m p) \<or> k = counter_of m p" for k
    using in_set_dropD [of k ?d ?es] by auto
  have cover: "k \<in> set (take ?d ?es) \<or> k \<in> set (drop ?d ?es)" if "k \<in> set ?es" for k
    using that by (metis Un_iff append_take_drop_id set_append)
  have "path_ok n m'' p"
    unfolding path_ok_def e
  proof (intro conjI allI ballI impI)
    show "m'' (metadata_key p) \<noteq> Some (CText x)" for x by (simp add: assms(3))
    show "distinct (drop ?d ?es)" using d by (rule distinct_drop)
    show "length (drop ?d ?es) \<le> n" by simp
    show "k < Suc (counter_of m p)" if "k \<in> set (drop ?d ?es)" for k
      using sub [OF that] p by (auto simp: path_ok_def)
    show "\<exists>x. m'' (history_key p k) = Some (CText x)" if "k \<in> set (drop ?d ?es)" for k
      using sub [OF that] kept [OF that] p by (auto simp: path_ok_def)
    show "k \<in> set (drop ?d ?es)" if "m'' (history_key p k) \<noteq> None" for k
      using that look [of k] cover [of k] p by (auto simp: path_ok_def split: if_splits)
  qed
  moreover have "stack_of m'' p = last_n n (stack_of m p @ [t])"
  proof -
    let ?f = "\<lambda>k. if k = counter_of m p then t else text_of (m (history_key p k))"
    have "map (\<lambda>k. text_of (m'' (history_key p k))) (drop ?d ?es) = map ?f (drop ?d ?es)"
      using kept by (intro map_cong) auto
    moreover have "map ?f (entries_of m p) = stack_of m p"
      unfolding stack_of_def using p by (intro map_cong) (auto simp: path_ok_def)
    ultimately show ?thesis
      unfolding stack_of_def [of m''] e by (simp add: drop_map [symmetric] last_n_def stack_of_def)
  qed
  moreover have "agree_off p m m''" by (simp add: agree_off_def assms(2,3))
  ultimately show "\<forall>q. path_ok n m'' q" "stack_of m'' = (stack_of m)(p := last_n n (stack_of m p @ [t]))"
    using agree_off_all assms(1) by blast+
qed

text \<open>Entries at the end of a history are dropped with their contents.\<close>

lemma drop_history_map:
  assumes "\<forall>q. path_ok n m q" "entries_of m p = keep @ gone" "keep = [] \<or> counter = counter_of m p"
    and "m'' = (without p gone m)(metadata_key p \<mapsto> CMeta keep counter)"
  shows "\<forall>q. path_ok n m'' q" "stack_of m'' = (stack_of m)(p := take (length keep) (stack_of m p))"
proof -
  have p: "path_ok n m p" using assms(1) by simp
  have e: "entries_of m'' p = keep" "counter_of m'' p = counter" by (simp_all add: entries_of_def counter_of_def assms(4))
  have look: "m'' (history_key p k) = (if k \<in> set gone then None else m (history_key p k))" for k
    by (simp add: assms(4))
  have "set keep \<inter> set gone = {}" using p assms(2) by (auto simp: path_ok_def)
  then have kept: "k \<in> set keep \<Longrightarrow> m'' (history_key p k) = m (history_key p k)" for k using look [of k] by auto
  have meta: "m'' (metadata_key p) = Some (CMeta keep counter)" by (simp add: assms(4))
  have "path_ok n m'' p"
    unfolding path_ok_def e meta look using p assms(2,3) \<open>set keep \<inter> set gone = {}\<close> by (auto simp: path_ok_def)
  moreover have "stack_of m'' p = take (length keep) (stack_of m p)"
    using kept by (simp add: stack_of_def e assms(2))
  moreover have "agree_off p m m''" by (simp add: agree_off_def assms(4))
  ultimately show "\<forall>q. path_ok n m'' q" "stack_of m'' = (stack_of m)(p := take (length keep) (stack_of m p))"
    using agree_off_all assms(1) by blast+
qed

section \<open>What the manager promises\<close>

definition history_ok :: "history_manager \<Rightarrow> bool" where
  "history_ok h \<longleftrightarrow> 0 \<le> max_history_per_file h \<and> cache_is (cache h) (look (cache h)) \<and>
     (\<forall>p. path_ok (nat (max_history_per_file h)) (look (cache h)) p)"

definition stacks :: "history_manager \<Rightarrow> string \<Rightarrow> string list" where
  "stacks h = stack_of (look (cache h))"

abbreviation history_limit :: "history_manager \<Rightarrow> nat" where
  "history_limit h \<equiv> nat (max_history_per_file h)"

text \<open>A new state of the cache is one of the manager.\<close>

lemma on_cache_ok:
  assumes "f (cache h) = (r, c)" "cache_is c m" "0 \<le> max_history_per_file h" "\<forall>p. path_ok (history_limit h) m p"
  shows "\<exists>h'. on_cache f h = (r, h') \<and> history_ok h' \<and> history_limit h' = history_limit h \<and> stacks h' = stack_of m"
  using assms by (auto simp: on_cache_def history_ok_def stacks_def cache_is_def)

lemma add_history_spec:
  assumes "history_ok h"
  shows "\<exists>h'. add_history p t h = (Inr (), h') \<and> history_ok h' \<and> history_limit h' = history_limit h \<and>
    stacks h' = (stacks h)(p := last_n (history_limit h) (stacks h p @ [t]))"
proof -
  let ?m = "look (cache h)" and ?n = "max_history_per_file h"
  let ?es = "entries_of ?m p" and ?k = "counter_of ?m p"
  have h: "cache_is (cache h) ?m" "0 \<le> ?n" "\<forall>q. path_ok (nat ?n) ?m q" using assms by (simp_all add: history_ok_def)
  obtain c1 where c1: "get_metadata p (cache h) = (Inr (?es, ?k), c1)" "cache_is c1 ?m"
    using get_metadata_spec [OF h(1)] h(3) by blast
  obtain c2 where c2: "cache_set (history_key p ?k) (CText t) c1 = (Inr (), c2)" "cache_is c2 (?m(history_key p ?k \<mapsto> CText t))"
    using cache_is_set [OF c1(2)] by blast
  let ?m3 = "without p (take (Suc (length ?es) - nat ?n) (?es @ [?k])) (?m(history_key p ?k \<mapsto> CText t))"
  obtain c3 where c3: "trim_entries p ?n (?es @ [?k]) c2 = (Inr (last_n (nat ?n) (?es @ [?k])), c3)" "cache_is c3 ?m3"
    using trim_entries_spec [OF c2(2) h(2), of p "?es @ [?k]"] by auto
  let ?m4 = "?m3(metadata_key p \<mapsto> CMeta (last_n (nat ?n) (?es @ [?k])) (Suc ?k))"
  obtain c4 where c4: "cache_set (metadata_key p) (CMeta (last_n (nat ?n) (?es @ [?k])) (Suc ?k)) c3 = (Inr (), c4)" "cache_is c4 ?m4"
    using cache_is_set [OF c3(2)] by blast
  note map = add_history_map [OF h(3) refl refl, of p t]
  show ?thesis
    unfolding add_history_def stacks_def [of h] map(2) [symmetric]
    by (rule on_cache_ok [OF _ c4(2) h(2) map(1)]) (simp add: c1(1) c2(1) c3(1) c4(1))
qed

lemma pop_history_spec:
  assumes "history_ok h"
  shows "\<exists>h'. pop_last_history p h = (Inr (if stacks h p = [] then None else Some (CText (last (stacks h p)))), h') \<and>
    history_ok h' \<and> history_limit h' = history_limit h \<and> stacks h' = (stacks h)(p := butlast (stacks h p))"
proof -
  let ?m = "look (cache h)" and ?n = "max_history_per_file h"
  let ?es = "entries_of ?m p" and ?k = "counter_of ?m p"
  have h: "cache_is (cache h) ?m" "0 \<le> ?n" "\<forall>q. path_ok (nat ?n) ?m q" using assms by (simp_all add: history_ok_def)
  obtain c1 where c1: "get_metadata p (cache h) = (Inr (?es, ?k), c1)" "cache_is c1 ?m"
    using get_metadata_spec [OF h(1)] h(3) by blast
  show ?thesis
  proof (cases "?es = []")
    case True
    then have "stacks h p = []" by (simp add: stacks_def stack_of_def)
    moreover have "\<exists>h'. pop_last_history p h = (Inr None, h') \<and> history_ok h' \<and> history_limit h' = history_limit h \<and> stacks h' = stack_of ?m"
      unfolding pop_last_history_def by (rule on_cache_ok [OF _ c1(2) h(2,3)]) (simp add: c1(1) True)
    ultimately show ?thesis by (simp add: stacks_def fun_upd_idem)
  next
    case False
    let ?l = "last ?es"
    have "path_ok (nat ?n) ?m p" using h(3) by simp
    then obtain t where t: "?m (history_key p ?l) = Some (CText t)" using False last_in_set by (fastforce simp: path_ok_def)
    obtain v c2 where g: "cache_get (history_key p ?l) c1 = (v, c2)" by fastforce
    have v: "v = Some (CText t)" "cache_is c2 ?m" using cache_is_get [OF c1(2) g] t by simp_all
    have c3: "cache_is (cache_delete (history_key p ?l) c2) (without p [?l] ?m)"
      using cache_is_delete [OF v(2), of "history_key p ?l"] by simp
    obtain c4 where c4: "cache_set (metadata_key p) (CMeta (butlast ?es) ?k) (cache_delete (history_key p ?l) c2) = (Inr (), c4)"
      "cache_is c4 ((without p [?l] ?m)(metadata_key p \<mapsto> CMeta (butlast ?es) ?k))"
      using cache_is_set [OF c3] by blast
    have split: "?es = butlast ?es @ [?l]" using False by simp
    note map = drop_history_map [OF h(3) split disjI2 [OF refl] refl]
    have top: "stacks h p \<noteq> []" "last (stacks h p) = t" "take (length (butlast ?es)) (stack_of ?m p) = butlast (stacks h p)"
      using False t by (simp_all add: stacks_def stack_of_def last_map map_butlast [symmetric] butlast_conv_take take_map)
    have "\<exists>h'. pop_last_history p h = (Inr (Some (CText t)), h') \<and> history_ok h' \<and> history_limit h' = history_limit h \<and>
        stacks h' = stack_of ((without p [?l] ?m)(metadata_key p \<mapsto> CMeta (butlast ?es) ?k))"
      unfolding pop_last_history_def
      by (rule on_cache_ok [OF _ c4(2) h(2) map(1)]) (simp add: c1(1) False g v(1) c4(1) Let_def)
    then show ?thesis unfolding map(2) top(3) using top by (simp add: stacks_def)
  qed
qed

lemma fold_delete_spec:
  "cache_is c m \<Longrightarrow> cache_is (fold (\<lambda>k. cache_delete (history_key p k)) ks c) (without p ks m)"
proof (induction ks arbitrary: c m)
  case (Cons k ks)
  show ?case using Cons(1) [OF cache_is_delete [OF Cons(2)]] by (simp add: fun_upd_def)
qed simp

lemma clear_history_spec:
  assumes "history_ok h"
  shows "\<exists>h'. clear_history p h = (Inr (), h') \<and> history_ok h' \<and> history_limit h' = history_limit h \<and>
    stacks h' = (stacks h)(p := [])"
proof -
  let ?m = "look (cache h)" and ?n = "max_history_per_file h"
  let ?es = "entries_of ?m p" and ?k = "counter_of ?m p"
  have h: "cache_is (cache h) ?m" "0 \<le> ?n" "\<forall>q. path_ok (nat ?n) ?m q" using assms by (simp_all add: history_ok_def)
  obtain c1 where c1: "get_metadata p (cache h) = (Inr (?es, ?k), c1)" "cache_is c1 ?m"
    using get_metadata_spec [OF h(1)] h(3) by blast
  obtain c2 where c2: "cache_set (metadata_key p) (CMeta [] 0) (fold (\<lambda>k. cache_delete (history_key p k)) ?es c1) = (Inr (), c2)"
    "cache_is c2 ((without p ?es ?m)(metadata_key p \<mapsto> CMeta [] 0))"
    using cache_is_set [OF fold_delete_spec [OF c1(2)]] by blast
  note map = drop_history_map [OF h(3) append_Nil [symmetric] disjI1 [OF refl] refl, of p 0]
  show ?thesis
    using on_cache_ok [OF _ c2(2) h(2) map(1), of "\<lambda>c. bind_op (get_metadata p c) (\<lambda>(entries, counter) c1.
       cache_set (metadata_key p) (CMeta [] 0) (fold (\<lambda>k. cache_delete (history_key p k)) entries c1))"]
    unfolding clear_history_def map(2) by (simp add: c1(1) c2(1) stacks_def)
qed

lemma collect_history_spec:
  assumes "cache_is c m" "\<forall>k \<in> set ks. \<exists>t. m (history_key p k) = Some (CText t)"
  shows "\<exists>c'. collect_history p ks c = (map (\<lambda>k. CText (text_of (m (history_key p k)))) ks, c') \<and> cache_is c' m"
  using assms
proof (induction ks arbitrary: c)
  case (Cons k ks)
  obtain v c1 where g: "cache_get (history_key p k) c = (v, c1)" by fastforce
  then have v: "v = m (history_key p k)" "cache_is c1 m" using cache_is_get [OF Cons(2) g] by auto
  then obtain c' where "collect_history p ks c1 = (map (\<lambda>k. CText (text_of (m (history_key p k)))) ks, c')" "cache_is c' m"
    using Cons(1) [OF v(2)] Cons(3) by auto
  then show ?case using g v(1) Cons(3) by auto
qed simp

lemma get_all_history_spec:
  assumes "history_ok h"
  shows "\<exists>h'. get_all_history p h = (Inr (map CText (stacks h p)), h') \<and> history_ok h' \<and> history_limit h' = history_limit h \<and>
    stacks h' = stacks h"
proof -
  let ?m = "look (cache h)" and ?n = "max_history_per_file h"
  let ?es = "entries_of ?m p" and ?k = "counter_of ?m p"
  have h: "cache_is (cache h) ?m" "0 \<le> ?n" "\<forall>q. path_ok (nat ?n) ?m q" using assms by (simp_all add: history_ok_def)
  obtain c1 where c1: "get_metadata p (cache h) = (Inr (?es, ?k), c1)" "cache_is c1 ?m"
    using get_metadata_spec [OF h(1)] h(3) by blast
  have "\<forall>k \<in> set ?es. \<exists>t. ?m (history_key p k) = Some (CText t)" using h(3) by (simp add: path_ok_def)
  then obtain c2 where c2: "collect_history p ?es c1 = (map CText (stacks h p), c2)" "cache_is c2 ?m"
    using collect_history_spec [OF c1(2), of ?es p] by (auto simp: stacks_def stack_of_def comp_def)
  show ?thesis
    unfolding get_all_history_def stacks_def [of h]
    by (rule on_cache_ok [OF _ c2(2) h(2,3)]) (simp add: c1(1) c2(1) stacks_def)
qed

section \<open>Histories as bounded stacks\<close>

text \<open>The abstract state: a stack per path, of which a push keeps the last \<open>n\<close> contents.\<close>

datatype history_op = AddHistory string string | PopHistory string | ClearHistory string | AllHistory string

fun stacks_step :: "nat \<Rightarrow> history_op \<Rightarrow> (string \<Rightarrow> string list) \<Rightarrow> string list \<times> (string \<Rightarrow> string list)" where
  "stacks_step n (AddHistory p t) s = ([], s(p := last_n n (s p @ [t])))"
| "stacks_step n (PopHistory p) s = (if s p = [] then [] else [last (s p)], s(p := butlast (s p)))"
| "stacks_step n (ClearHistory p) s = ([], s(p := []))"
| "stacks_step n (AllHistory p) s = (s p, s)"

fun run_stacks :: "nat \<Rightarrow> history_op list \<Rightarrow> (string \<Rightarrow> string list) \<Rightarrow> string list list \<times> (string \<Rightarrow> string list)" where
  "run_stacks n [] s = ([], s)"
| "run_stacks n (x # xs) s =
     (let (r, s1) = stacks_step n x s; (rs, s2) = run_stacks n xs s1 in (r # rs, s2))"

text \<open>A store of histories, over any kind of state and of stored value.\<close>

fun store_step ::
  "(string \<Rightarrow> string \<Rightarrow> 'h \<Rightarrow> (unit, 'h) outcome) \<Rightarrow> (string \<Rightarrow> 'h \<Rightarrow> ('v option, 'h) outcome) \<Rightarrow>
   (string \<Rightarrow> 'h \<Rightarrow> (unit, 'h) outcome) \<Rightarrow> (string \<Rightarrow> 'h \<Rightarrow> ('v list, 'h) outcome) \<Rightarrow>
   history_op \<Rightarrow> 'h \<Rightarrow> ('v list, 'h) outcome" where
  "store_step add pop clear all (AddHistory p t) h = bind_op (add p t h) (\<lambda>_ h1. (Inr [], h1))"
| "store_step add pop clear all (PopHistory p) h = bind_op (pop p h) (\<lambda>v h1. (Inr (case v of None \<Rightarrow> [] | Some x \<Rightarrow> [x]), h1))"
| "store_step add pop clear all (ClearHistory p) h = bind_op (clear p h) (\<lambda>_ h1. (Inr [], h1))"
| "store_step add pop clear all (AllHistory p) h = all p h"

fun run_ops :: "(history_op \<Rightarrow> 'h \<Rightarrow> ('v list, 'h) outcome) \<Rightarrow> history_op list \<Rightarrow> 'h \<Rightarrow> 'v list result list \<times> 'h" where
  "run_ops step [] h = ([], h)"
| "run_ops step (x # xs) h =
     (let (r, h1) = step x h; (rs, h2) = run_ops step xs h1 in (r # rs, h2))"

locale edit_store =
  fixes add :: "string \<Rightarrow> string \<Rightarrow> 'h \<Rightarrow> (unit, 'h) outcome"
    and pop :: "string \<Rightarrow> 'h \<Rightarrow> ('v option, 'h) outcome"
    and clear :: "string \<Rightarrow> 'h \<Rightarrow> (unit, 'h) outcome"
    and all :: "string \<Rightarrow> 'h \<Rightarrow> ('v list, 'h) outcome"
    and ok :: "'h \<Rightarrow> bool"
    and stack :: "'h \<Rightarrow> string \<Rightarrow> string list"
    and limit :: "'h \<Rightarrow> nat"
    and stored :: "string \<Rightarrow> 'v"
  assumes add_law: "ok h \<Longrightarrow> \<exists>h'. add p t h = (Inr (), h') \<and> ok h' \<and> limit h' = limit h \<and>
      stack h' = (stack h)(p := last_n (limit h) (stack h p @ [t]))"
    and pop_law: "ok h \<Longrightarrow> \<exists>h'. pop p h = (Inr (if stack h p = [] then None else Some (stored (last (stack h p)))), h') \<and>
      ok h' \<and> limit h' = limit h \<and> stack h' = (stack h)(p := butlast (stack h p))"
    and clear_law: "ok h \<Longrightarrow> \<exists>h'. clear p h = (Inr (), h') \<and> ok h' \<and> limit h' = limit h \<and> stack h' = (stack h)(p := [])"
    and all_law: "ok h \<Longrightarrow> \<exists>h'. all p h = (Inr (map stored (stack h p)), h') \<and> ok h' \<and> limit h' = limit h \<and> stack h' = stack h"
begin

lemma step_refines:
  assumes "ok h" "stacks_step (limit h) x (stack h) = (r, s')"
  shows "\<exists>h'. store_step add pop clear all x h = (Inr (map stored r), h') \<and> ok h' \<and> limit h' = limit h \<and> stack h' = s'"
proof (cases x)
  case (AddHistory p t)
  then show ?thesis using add_law [OF assms(1), of p t] assms(2) by auto
next
  case (PopHistory p)
  then show ?thesis using pop_law [OF assms(1), of p] assms(2) by (auto split: if_splits)
next
  case (ClearHistory p)
  then show ?thesis using clear_law [OF assms(1), of p] assms(2) by auto
next
  case (AllHistory p)
  then show ?thesis using all_law [OF assms(1), of p] assms(2) by auto
qed

lemma run_refines:
  assumes "ok h" "run_stacks (limit h) xs (stack h) = (rs, s')"
  shows "\<exists>h'. run_ops (store_step add pop clear all) xs h = (map (\<lambda>r. Inr (map stored r)) rs, h') \<and>
    ok h' \<and> limit h' = limit h \<and> stack h' = s'"
  using assms
proof (induction xs arbitrary: h rs)
  case (Cons x xs)
  obtain r s1 where s1: "stacks_step (limit h) x (stack h) = (r, s1)" by fastforce
  obtain rs2 where rs2: "run_stacks (limit h) xs s1 = (rs2, s')" "rs = r # rs2"
    using Cons(3) s1 by (auto split: prod.splits)
  obtain h1 where h1: "store_step add pop clear all x h = (Inr (map stored r), h1)" "ok h1" "limit h1 = limit h" "stack h1 = s1"
    using step_refines [OF Cons(2) s1] by blast
  obtain h2 where "run_ops (store_step add pop clear all) xs h1 = (map (\<lambda>r. Inr (map stored r)) rs2, h2)" "ok h2" "limit h2 = limit h" "stack h2 = s'"
    using Cons(1) [OF h1(2)] rs2(1) h1(3,4) by metis
  then show ?case using h1(1) rs2(2) by simp
qed simp

end

interpretation hm: edit_store add_history pop_last_history clear_history get_all_history history_ok stacks history_limit CText
  by unfold_locales (rule add_history_spec pop_history_spec clear_history_spec get_all_history_spec; assumption)+

lemma new_history_ok:
  assumes "0 \<le> n"
  shows "history_ok (new_history n [])" "stacks (new_history n []) = (\<lambda>_. [])" "history_limit (new_history n []) = nat n"
  using assms
  by (simp_all add: history_ok_def new_history_def new_cache_def cache_is_def cache_ok_def path_ok_def entries_of_def
      stacks_def stack_of_def fun_eq_iff)

lemma history_files_bound:
  assumes "history_ok h"
  shows "card {k. cache_contains (history_key p k) (cache h)} \<le> history_limit h"
proof -
  let ?es = "entries_of (look (cache h)) p"
  have p: "path_ok (history_limit h) (look (cache h)) p" using assms by (simp add: history_ok_def)
  have "card {k. cache_contains (history_key p k) (cache h)} \<le> card (set ?es)"
    using p by (intro card_mono) (auto simp: cache_contains_def path_ok_def)
  also have "\<dots> \<le> length ?es" by (rule card_length)
  finally show ?thesis using p by (simp add: path_ok_def)
qed

section \<open>Properties\<close>

text \<open>C21: The history manager is a bounded stack per path. Any sequence of its operations on a new
  manager over an empty directory gives what stacks of the last \<open>n\<close> contents give, none raises,
  at most \<open>n\<close> contents of a path lie in the directory, and the cache knows their total size.\<close>

theorem history_refines_stacks:
  assumes "0 \<le> n"
  shows "\<exists>h. run_ops (store_step add_history pop_last_history clear_history get_all_history) xs (new_history n []) =
      (map (\<lambda>r. Inr (map CText r)) (fst (run_stacks (nat n) xs (\<lambda>_. []))), h) \<and>
    stacks h = snd (run_stacks (nat n) xs (\<lambda>_. [])) \<and>
    (\<forall>p. card {k. cache_contains (history_key p k) (cache h)} \<le> nat n) \<and>
    current_size (cache h) = total_size (cache_files (cache h))"
proof -
  note new = new_history_ok [OF assms]
  obtain rs s' where r: "run_stacks (nat n) xs (\<lambda>_. []) = (rs, s')" by fastforce
  obtain h where "run_ops (store_step add_history pop_last_history clear_history get_all_history) xs (new_history n []) =
      (map (\<lambda>r. Inr (map CText r)) rs, h)" "history_ok h" "history_limit h = nat n" "stacks h = s'"
    using hm.run_refines [OF new(1), unfolded new(2,3), OF r] by blast
  moreover from this have "current_size (cache h) = total_size (cache_files (cache h))"
    by (simp add: history_ok_def cache_is_def cache_ok_def)
  ultimately show ?thesis using r history_files_bound [of h] by auto
qed

theorem history_refines_stacks_witness:
  "\<exists>h. run_ops (store_step add_history pop_last_history clear_history get_all_history)
      [AddHistory ''/a'' ''x'', AddHistory ''/a'' ''y'', AddHistory ''/b'' ''u'', AddHistory ''/a'' ''z'', AllHistory ''/a'',
       PopHistory ''/a'', PopHistory ''/a'', PopHistory ''/a'', PopHistory ''/b''] (new_history 2 []) =
    ([Inr [], Inr [], Inr [], Inr [], Inr [CText ''y'', CText ''z''],
      Inr [CText ''z''], Inr [CText ''y''], Inr [], Inr [CText ''u'']], h)"
  using history_refines_stacks [of 2 "[AddHistory ''/a'' ''x'', AddHistory ''/a'' ''y'', AddHistory ''/b'' ''u'',
      AddHistory ''/a'' ''z'', AllHistory ''/a'', PopHistory ''/a'', PopHistory ''/a'', PopHistory ''/a'', PopHistory ''/b'']"]
  by (auto simp: last_n_def)

text \<open>C39: A cache with a size limit evicts the files used longest ago, as many as the new file needs and
  no more, and never the file written. The limit then holds, unless a single other file is left or
  the new content is no larger than the one it replaces: the loop stops at one file, so the limit
  can be passed although evicting that file would keep it.\<close>

theorem cache_set_within_limit:
  assumes "cache_ok c" "size_limit c = Some limit"
  shows "\<exists>c' k. cache_set key v c = (Inr (), c') \<and> cache_ok c' \<and>
    cache_files c' = drop k (others key (cache_files c)) @ [(key, v)] \<and>
    (current_size c' \<le> limit \<or> length (cache_files c') \<le> 2 \<or>
     (\<exists>old. look c key = Some old \<and> file_size (key, v) \<le> file_size (key, old))) \<and>
    (\<forall>j < k. limit < total_size (drop j (others key (cache_files c)) @ [(key, v)]))"
proof -
  let ?os = "others key (cache_files c)"
  let ?old = "case look c key of Some old \<Rightarrow> file_size (key, old) | None \<Rightarrow> 0"
  let ?need = "file_size (key, v) - ?old"
  have d: "distinct (map fst (cache_files c))" using assms(1) by (simp add: cache_ok_def)
  have "current_size c - ?old = total_size ?os"
    using assms(1) total_size_others [OF d, of key] by (cases "look c key") (simp_all add: cache_ok_def)
  then have after: "size_after key ?need c j = total_size (drop j ?os @ [(key, v)])" for j
    using total_take_drop [of j ?os] by (simp add: size_after_def)
  show ?thesis
  proof (cases "look c key = None \<or> ?need > 0")
    case False
    then obtain old where old: "look c key = Some old" "file_size (key, v) \<le> file_size (key, old)" by auto
    moreover have "cache_set key v c = (Inr (), store_file key v c)" using old assms(2) by (simp add: cache_set_store Let_def)
    ultimately show ?thesis
      using store_file_spec(2) [OF assms(1), of key v]
      by (intro exI [of _ "store_file key v c"] exI [of _ 0]) (simp add: store_file_def)
  next
    case True
    obtain c1 k where c1: "evict_while key ?need limit c = (Inr (), c1)" "cache_ok c1" "others key (cache_files c1) = drop k ?os"
      "current_size c1 + ?need = size_after key ?need c k" "size_after key ?need c k \<le> limit \<or> length (cache_files c1) \<le> 1"
      "\<forall>j < k. limit < size_after key ?need c j" "look c1 key = look c key"
      using evict_while_spec [OF assms(1), of key ?need limit] by blast
    have "cache_set key v c = (Inr (), store_file key v c1)" using True assms(2) c1(1) by (auto simp: cache_set_store Let_def)
    moreover have "length (cache_files (store_file key v c1)) \<le> 2" if "length (cache_files c1) \<le> 1"
      using that le_trans [OF length_filter_le that] by (simp add: store_file_def)
    moreover have "current_size (store_file key v c1) = size_after key ?need c k"
      using c1(4,7) by (simp add: store_file_def)
    ultimately show ?thesis
      using store_file_spec(2) [OF c1(2), of key v] c1(3,5,6)
      by (intro exI [of _ "store_file key v c1"] exI [of _ k]) (auto simp: store_file_def after)
  qed
qed

theorem cache_set_within_limit_witness:
  "\<exists>c'. cache_set ''b'' (CText ''xxxxx'') (new_cache (Some 30) [(''a'', CText ''yyyyy'')]) = (Inr (), c') \<and>
     cache_files c' = [(''a'', CText ''yyyyy''), (''b'', CText ''xxxxx'')] \<and> current_size c' > 30"
proof -
  let ?c = "new_cache (Some 30) [(''a'', CText ''yyyyy'')]"
  have c: "cache_ok ?c" "size_limit ?c = Some 30" by (simp_all add: new_cache_def cache_ok_def)
  have "map_prod id (\<lambda>c. (cache_files c, current_size c > 30)) (cache_set ''b'' (CText ''xxxxx'') ?c) =
      (Inr (), [(''a'', CText ''yyyyy''), (''b'', CText ''xxxxx'')], True)" by code_simp
  then show ?thesis using cache_set_within_limit [OF c, of "''b''" "CText ''xxxxx''"] by auto
qed

end
