(* ===== verification/File_Editor.thy ===== *)
theory File_Editor
  imports Edit_History Apply_Patch Hooks
begin

text \<open>
  The file editor of \<open>openhands-tools/openhands/tools/file_editor\<close>: the encodings of
  \<open>utils/encoding.py\<close>, the commands of \<open>editor.py\<close> and the executor of \<open>impl.py\<close>, with
  \<open>is_host_absolute_path\<close> of \<open>utils/path.py\<close>.

  The disk maps directory entries, named by their canonical absolute paths, to files, which are bytes,
  directories, and symbolic links, which hold the entry they point to. Which entry a path names, with
  its parent directories resolved but not its last component, is a parameter, as no modelled operation
  changes a directory or a link to one; a link in the last component is followed on the disk, when
  reading and when resolving a path, while writing replaces the entry of the path itself, so a link
  becomes a file. Which accesses fail is a parameter, as are the codecs, the detector of encodings,
  the test for binary files, home directories, data URLs and the messages of errors. A file is decoded as a whole, and the encoding of a
  file is detected anew where the code may find it in its cache by the modification time. The paths
  are those of POSIX.
\<close>

section \<open>Errors and the state\<close>

datatype editor_command = ViewCommand | CreateCommand | StrReplaceCommand | InsertCommand | UndoCommand

text \<open>\<open>ToolError\<close> with its subclasses, and the exceptions the executor does not catch.\<close>

datatype editor_error =
    ParameterMissing string string
  | ParameterInvalid string
  | FileValidationFailed
  | ToolFailure
  | Uncaught py_error

fun is_tool_error :: "editor_error \<Rightarrow> bool" where
  "is_tool_error (Uncaught _) = False"
| "is_tool_error _ = True"

type_synonym 'a editor_result = "editor_error + 'a"

datatype node = FileNode string | DirNode | LinkNode string

record editor_state =
  nodes :: "(string, node) fmap"
  edits :: history_manager

type_synonym 'a editor_op = "'a editor_result \<times> editor_state"

definition bind_editor :: "'a editor_result \<Rightarrow> ('a \<Rightarrow> 'b editor_result) \<Rightarrow> 'b editor_result" where
  "bind_editor m f = (case m of Inl e \<Rightarrow> Inl e | Inr x \<Rightarrow> f x)"

definition then_editor :: "'a editor_op \<Rightarrow> ('a \<Rightarrow> editor_state \<Rightarrow> 'b editor_op) \<Rightarrow> 'b editor_op" where
  "then_editor m f = (case m of (Inl e, st) \<Rightarrow> (Inl e, st) | (Inr x, st) \<Rightarrow> f x st)"

definition on_edits :: "(history_manager \<Rightarrow> ('a, history_manager) outcome) \<Rightarrow> editor_state \<Rightarrow> 'a editor_op" where
  "on_edits f st =
     (case f (edits st) of
        (Inl e, h) \<Rightarrow> (Inl (Uncaught e), st\<lparr>edits := h\<rparr>)
      | (Inr x, h) \<Rightarrow> (Inr x, st\<lparr>edits := h\<rparr>))"

record editor_env =
  max_file_size :: nat
  located :: "string \<Rightarrow> string"
  user_home :: "string \<Rightarrow> string option"
  open_failure :: "string \<Rightarrow> py_error option"
  list_failure :: "string \<Rightarrow> string option"
  write_refused :: "string \<Rightarrow> bool"
  looks_binary :: "string \<Rightarrow> bool"
  charset_guess :: "string \<Rightarrow> (bool \<times> string) option"
  decoded :: "string \<Rightarrow> string \<Rightarrow> string option"
  encoded :: "string \<Rightarrow> string \<Rightarrow> string option"
  data_url :: "string \<Rightarrow> string \<Rightarrow> string"
  error_message :: "editor_error \<Rightarrow> string"
  refusal_message :: "editor_command \<Rightarrow> string \<Rightarrow> string"
  truncation_env :: fs_env

text \<open>
  Following links: \<open>Path.resolve\<close>, and what opening a path does. A chain of more than 40 links, or a loop,
  leads nowhere.
\<close>

fun follow :: "(string, node) fmap \<Rightarrow> nat \<Rightarrow> string \<Rightarrow> string" where
  "follow disk 0 entry = entry"
| "follow disk (Suc n) entry =
     (case fmlookup disk entry of Some (LinkNode target) \<Rightarrow> follow disk n target | _ \<Rightarrow> entry)"

definition MAX_LINKS :: nat where
  "MAX_LINKS = 40"

definition resolve_entry :: "editor_env \<Rightarrow> editor_state \<Rightarrow> string \<Rightarrow> string" where
  "resolve_entry env st p = follow (nodes st) MAX_LINKS (located env p)"

definition node_at :: "editor_env \<Rightarrow> editor_state \<Rightarrow> string \<Rightarrow> node option" where
  "node_at env st p =
     (case fmlookup (nodes st) (resolve_entry env st p) of Some (LinkNode _) \<Rightarrow> None | x \<Rightarrow> x)"

definition is_dir :: "editor_env \<Rightarrow> editor_state \<Rightarrow> string \<Rightarrow> bool" where
  "is_dir env st p \<longleftrightarrow> node_at env st p = Some DirNode"

section \<open>Paths\<close>

text \<open>\<open>str(Path(s))\<close>: two leading slashes stay, three or more are one.\<close>

definition path_str :: "string \<Rightarrow> string" where
  "path_str s =
     (let root = (if prefix ''//'' s \<and> \<not> prefix ''///'' s then ''//'' else if prefix ''/'' s then ''/'' else []);
          t = root @ join_with ''/'' (path_parts s)
      in if t = [] then ''.'' else t)"

definition path_suffix :: "string \<Rightarrow> string" where
  "path_suffix p =
     (case rev (path_parts p) of
        [] \<Rightarrow> []
      | name # _ \<Rightarrow>
          (let r = takeWhile (\<lambda>c. c \<noteq> CHR ''.'') (rev name); i = length name - length r - 1
           in if length r < length name \<and> 0 < i \<and> r \<noteq> [] then drop i name else []))"

text \<open>A path that begins with a tilde counts as absolute if the home directory is.\<close>

definition is_host_absolute_path :: "editor_env \<Rightarrow> string \<Rightarrow> bool editor_result" where
  "is_host_absolute_path env p =
     (let v = strip p
      in if v = [] then Inr False
         else if prefix ''/'' v then Inr True
         else (case path_parts v of
                 (CHR ''~'' # user) # _ \<Rightarrow>
                   (case user_home env user of
                      None \<Rightarrow> Inl (Uncaught RuntimeErr)
                    | Some home \<Rightarrow> Inr (prefix ''/'' home))
               | _ \<Rightarrow> Inr False))"

definition IMAGE_EXTENSIONS :: "string list" where
  "IMAGE_EXTENSIONS = [''.png'', ''.jpg'', ''.jpeg'', ''.gif'', ''.webp'', ''.bmp'']"

definition is_image_path :: "string \<Rightarrow> bool" where
  "is_image_path p \<longleftrightarrow> lower (path_suffix p) \<in> set IMAGE_EXTENSIONS"

section \<open>Encodings\<close>

definition DEFAULT_ENCODING :: string where
  "DEFAULT_ENCODING = ''utf-8''"

definition has_control_char :: "string \<Rightarrow> bool" where
  "has_control_char s = list_ex (\<lambda>c. let n = of_char c :: nat in n \<le> 8 \<or> 14 \<le> n \<and> n \<le> 31 \<or> n = 127) s"

definition TEXT_DECODE_CANDIDATES :: "string list" where
  "TEXT_DECODE_CANDIDATES = [''utf-8'', ''cp1252'', ''latin-1'', ''cp1251'']"

definition TEXT_DECODE_ALIASES :: "string \<Rightarrow> string option" where
  "TEXT_DECODE_ALIASES = map_of
     [(''windows-1251'', ''cp1251''), (''windows-1252'', ''cp1252''), (''iso-8859-1'', ''latin-1''), (''iso-8859-15'', ''latin-1'')]"

definition BOM_UTF8 :: string where
  "BOM_UTF8 = [CHR 0xEF, CHR 0xBB, CHR 0xBF]"

text \<open>At most the first megabyte of a file is looked at.\<close>

definition sample_of :: "string \<Rightarrow> string" where
  "sample_of raw = (if int (length raw) \<le> 1048576 then raw else take 1048576 raw)"

definition read_text :: "editor_env \<Rightarrow> string \<Rightarrow> string \<Rightarrow> string option" where
  "read_text env encoding raw = map_option universal_newlines (decoded env encoding raw)"

definition detect_encoding :: "editor_env \<Rightarrow> string \<Rightarrow> string" where
  "detect_encoding env raw =
     (let raw_data = sample_of raw
      in if prefix BOM_UTF8 raw_data then ''utf-8-sig''
         else if decoded env DEFAULT_ENCODING raw_data \<noteq> None then DEFAULT_ENCODING
         else (case charset_guess env raw_data of
                 Some (True, encoding) \<Rightarrow>
                   if encoding = [] \<or> lower encoding = ''ascii'' then DEFAULT_ENCODING else encoding
               | _ \<Rightarrow> DEFAULT_ENCODING))"

definition best_guess_encoding :: "editor_env \<Rightarrow> string \<Rightarrow> string option" where
  "best_guess_encoding env raw =
     (case charset_guess env (sample_of raw) of
        None \<Rightarrow> None
      | Some (_, encoding) \<Rightarrow>
          if encoding = [] then None
          else
            (let normalized = map (\<lambda>c. if c = CHR ''_'' then CHR ''-'' else c) (lower encoding)
             in case TEXT_DECODE_ALIASES normalized of
                  Some a \<Rightarrow> Some a
                | None \<Rightarrow> if normalized \<in> set TEXT_DECODE_CANDIDATES then Some normalized else None))"

text \<open>The first candidate that gives clean text; a second occurrence of one changes nothing.\<close>

definition recover_encoding :: "editor_env \<Rightarrow> string \<Rightarrow> string option" where
  "recover_encoding env raw =
     (let guess = (case best_guess_encoding env raw of None \<Rightarrow> [] | Some g \<Rightarrow> [g])
      in find (\<lambda>c. case read_text env c raw of None \<Rightarrow> False | Some t \<Rightarrow> \<not> has_control_char t)
           (DEFAULT_ENCODING # guess @ TEXT_DECODE_CANDIDATES))"

definition encoding_of :: "editor_env \<Rightarrow> string \<Rightarrow> string" where
  "encoding_of env raw =
     (let encoding = detect_encoding env raw
      in if encoding = DEFAULT_ENCODING then (case recover_encoding env raw of None \<Rightarrow> encoding | Some r \<Rightarrow> r)
         else encoding)"

text \<open>\<open>with_encoding\<close>: the encoding of the file at a path, or the default. The file is opened before any
  handler of errors.\<close>

definition get_encoding :: "editor_env \<Rightarrow> editor_state \<Rightarrow> string \<Rightarrow> string editor_result" where
  "get_encoding env st p =
     (case node_at env st p of
        Some (FileNode raw) \<Rightarrow>
          (case open_failure env p of Some e \<Rightarrow> Inl (Uncaught e) | None \<Rightarrow> Inr (encoding_of env raw))
      | _ \<Rightarrow> Inr DEFAULT_ENCODING)"

definition resolve_text_encoding :: "editor_env \<Rightarrow> editor_state \<Rightarrow> string \<Rightarrow> string \<Rightarrow> string option editor_result" where
  "resolve_text_encoding env st p raw =
     bind_editor (get_encoding env st p) (\<lambda>encoding.
       Inr (case read_text env encoding raw of
              None \<Rightarrow> None
            | Some t \<Rightarrow> if has_control_char t then None else Some encoding))"

section \<open>Reading and writing\<close>

definition validate_file :: "editor_env \<Rightarrow> editor_state \<Rightarrow> string \<Rightarrow> unit editor_result" where
  "validate_file env st p =
     (case node_at env st p of
        Some (FileNode raw) \<Rightarrow>
          if length raw > max_file_size env then Inl FileValidationFailed
          else if looks_binary env raw \<and> \<not> is_image_path p then
            bind_editor (resolve_text_encoding env st p raw) (\<lambda>e. if e = None then Inl FileValidationFailed else Inr ())
          else Inr ()
      | _ \<Rightarrow> Inr ())"

text \<open>The lines of a text as iterating over a file gives them, each with its line feed.\<close>

fun file_lines :: "string \<Rightarrow> string list" where
  "file_lines [] = []"
| "file_lines (c # cs) =
     (if c = CHR 0x0A then [c] # file_lines cs
      else (case file_lines cs of [] \<Rightarrow> [[c]] | l # ls \<Rightarrow> (c # l) # ls))"

text \<open>The lines from \<open>start\<close> to \<open>end\<close>, counted from 1.\<close>

definition line_range :: "int \<Rightarrow> int \<Rightarrow> string list \<Rightarrow> string list" where
  "line_range first_line last_line ls =
     map snd (filter (\<lambda>(i, _). first_line \<le> i \<and> i \<le> last_line) (zip [1..int (length ls)] ls))"

definition open_text :: "editor_env \<Rightarrow> editor_state \<Rightarrow> string \<Rightarrow> string \<Rightarrow> string option" where
  "open_text env st p encoding =
     (case node_at env st p of
        Some (FileNode raw) \<Rightarrow> if open_failure env p = None then read_text env encoding raw else None
      | _ \<Rightarrow> None)"

definition read_file :: "editor_env \<Rightarrow> editor_state \<Rightarrow> string \<Rightarrow> (int \<times> int) option \<Rightarrow> string editor_result" where
  "read_file env st p lines =
     bind_editor (get_encoding env st p) (\<lambda>encoding.
     bind_editor (validate_file env st p) (\<lambda>_.
       case open_text env st p encoding of
         None \<Rightarrow> Inl ToolFailure
       | Some t \<Rightarrow>
           Inr (case lines of
                  None \<Rightarrow> t
                | Some (first_line, last_line) \<Rightarrow> concat (line_range first_line last_line (file_lines t)))))"

text \<open>Counting lines has no handler: text that cannot be decoded raises.\<close>

definition count_lines :: "editor_env \<Rightarrow> editor_state \<Rightarrow> string \<Rightarrow> nat editor_result" where
  "count_lines env st p =
     bind_editor (get_encoding env st p) (\<lambda>encoding.
       case open_text env st p encoding of
         None \<Rightarrow> Inl (Uncaught (if is_dir env st p \<or> node_at env st p = None then OtherException else ValueError))
       | Some t \<Rightarrow> Inr (length (file_lines t)))"

text \<open>The new content is written beside the path and moved over its entry, which fails for a directory.\<close>

definition atomic_write :: "editor_env \<Rightarrow> string \<Rightarrow> string \<Rightarrow> string \<Rightarrow> editor_state \<Rightarrow> unit editor_op" where
  "atomic_write env p text encoding st =
     (let e = (if encoding \<noteq> DEFAULT_ENCODING \<and> encoded env encoding text = None then DEFAULT_ENCODING else encoding)
      in case encoded env e text of
           None \<Rightarrow> (Inl ToolFailure, st)
         | Some raw \<Rightarrow>
             if write_refused env p \<or> fmlookup (nodes st) (located env p) = Some DirNode then (Inl ToolFailure, st)
             else (Inr (), st\<lparr>nodes := fmupd (located env p) (FileNode raw) (nodes st)\<rparr>))"

definition write_text :: "editor_env \<Rightarrow> string \<Rightarrow> string \<Rightarrow> editor_state \<Rightarrow> unit editor_op" where
  "write_text env p text st =
     (case bind_editor (get_encoding env st p) (\<lambda>e. bind_editor (validate_file env st p) (\<lambda>_. Inr e)) of
        Inl err \<Rightarrow> (Inl err, st)
      | Inr encoding \<Rightarrow> atomic_write env p text encoding st)"

section \<open>Output\<close>

definition SNIPPET_CONTEXT_WINDOW :: nat where
  "SNIPPET_CONTEXT_WINDOW = 4"

definition MAX_RESPONSE_LEN_CHAR :: int where
  "MAX_RESPONSE_LEN_CHAR = 16000"

definition TEXT_FILE_CONTENT_TRUNCATED_NOTICE :: string where
  "TEXT_FILE_CONTENT_TRUNCATED_NOTICE =
     ''<response clipped><NOTE>Due to the max output limit, only part of this file has been shown to you. You should retry this tool after you have searched inside the file with `grep -n` in order to find the line numbers of what you are looking for.</NOTE>''"

definition DIRECTORY_CONTENT_TRUNCATED_NOTICE :: string where
  "DIRECTORY_CONTENT_TRUNCATED_NOTICE =
     ''<response clipped><NOTE>Due to the max output limit, only part of this directory has been shown to you. You should use `ls -la` instead to view large directories incrementally.</NOTE>''"

definition clip :: "editor_env \<Rightarrow> string \<Rightarrow> string \<Rightarrow> string" where
  "clip env notice s = snd (maybe_truncate (truncation_env env) Map.empty s (Some MAX_RESPONSE_LEN_CHAR) notice None ''output'')"

text \<open>\<open>f"{n:6}"\<close>.\<close>

definition pad6 :: "nat \<Rightarrow> string" where
  "pad6 n = replicate (6 - length (show_nat n)) CHR '' '' @ show_nat n"

definition number_lines :: "nat \<Rightarrow> string list \<Rightarrow> string list" where
  "number_lines start ls = map (\<lambda>(i, l). pad6 i @ CHR 0x09 # l) (zip [start..<start + length ls] ls)"

definition make_output :: "editor_env \<Rightarrow> string \<Rightarrow> string \<Rightarrow> nat \<Rightarrow> string" where
  "make_output env content description start =
     (let ls = split_lines (clip env TEXT_FILE_CONTENT_TRUNCATED_NOTICE content);
          ls' = (if last ls = [] then butlast ls else ls);
          numbered = join_lines (number_lines start ls')
      in ''Here's the result of running `cat -n` on '' @ description @ '':'' @ newline @
         (if numbered = [] then [] else numbered @ newline))"

section \<open>The commands\<close>

fun command_name :: "editor_command \<Rightarrow> string" where
  "command_name ViewCommand = ''view''"
| "command_name CreateCommand = ''create''"
| "command_name StrReplaceCommand = ''str_replace''"
| "command_name InsertCommand = ''insert''"
| "command_name UndoCommand = ''undo_edit''"

record editor_action =
  ea_command :: editor_command
  ea_path :: string
  ea_file_text :: "string option"
  ea_old_str :: "string option"
  ea_new_str :: "string option"
  ea_insert_line :: "int option"
  ea_view_range :: "int list option"

record editor_observation =
  eo_command :: editor_command
  eo_text :: string
  eo_images :: "string list"
  eo_is_error :: bool
  eo_path :: "string option"
  eo_prev_exist :: bool
  eo_old_content :: "string option"
  eo_new_content :: "string option"

definition from_text :: "editor_command \<Rightarrow> string \<Rightarrow> editor_observation" where
  "from_text cmd text =
     \<lparr>eo_command = cmd, eo_text = text, eo_images = [], eo_is_error = False, eo_path = None, eo_prev_exist = True,
      eo_old_content = None, eo_new_content = None\<rparr>"

definition error_observation :: "editor_command \<Rightarrow> string \<Rightarrow> editor_observation" where
  "error_observation cmd text = (from_text cmd text)\<lparr>eo_is_error := True\<rparr>"

text \<open>\<open>re.finditer\<close> for a literal: the places of its occurrences from the left that do not overlap. The
  empty string occurs at every place and at the end.\<close>

function occurrences_from :: "string \<Rightarrow> nat \<Rightarrow> string \<Rightarrow> nat list" where
  "occurrences_from pat i [] = (if pat = [] then [i] else [])"
| "occurrences_from pat i (c # cs) =
     (if prefix pat (c # cs) then
        i # occurrences_from pat (i + max 1 (length pat)) (drop (max 1 (length pat)) (c # cs))
      else occurrences_from pat (Suc i) cs)"
  by pat_completeness auto
termination
  by (relation "measure (\<lambda>(_, _, s). length s)") auto

definition occurrences :: "string \<Rightarrow> string \<Rightarrow> nat list" where
  "occurrences pat s = occurrences_from pat 0 s"

text \<open>Where \<open>str_replace\<close> looks: for the string, or for the stripped one if that is nowhere.\<close>

definition find_target :: "string \<Rightarrow> string \<Rightarrow> string \<times> nat list" where
  "find_target old_str content =
     (let found = occurrences old_str content
      in if found = [] then (strip old_str, occurrences (strip old_str) content) else (old_str, found))"

definition str_replace :: "editor_env \<Rightarrow> string \<Rightarrow> string \<Rightarrow> string \<Rightarrow> editor_state \<Rightarrow> editor_observation editor_op" where
  "str_replace env p old_str new_str st =
     (case bind_editor (get_encoding env st p) (\<lambda>_. bind_editor (validate_file env st p) (\<lambda>_. read_file env st p None)) of
        Inl e \<Rightarrow> (Inl e, st)
      | Inr content \<Rightarrow>
          (case find_target old_str content of
             (target, [idx]) \<Rightarrow>
               (let line = length (filter (\<lambda>c. c = CHR 0x0A) (take idx content)) + 1;
                    replaced = take idx content @ new_str @ drop (idx + length target) content;
                    first_line = line - SNIPPET_CONTEXT_WINDOW;
                    last_line = line + SNIPPET_CONTEXT_WINDOW + length (filter (\<lambda>c. c = CHR 0x0A) new_str)
                in then_editor (write_text env p replaced st) (\<lambda>_ st1.
                   then_editor (on_edits (add_history p content) st1) (\<lambda>_ st2.
                     case read_file env st2 p (Some (int first_line + 1, int last_line)) of
                       Inl e \<Rightarrow> (Inl e, st2)
                     | Inr snippet \<Rightarrow>
                         (Inr ((from_text StrReplaceCommand
                                  (''The file '' @ p @ '' has been edited. '' @
                                   make_output env snippet (''a snippet of '' @ p) (first_line + 1) @
                                   ''Review the changes and make sure they are as expected. Edit the file again if necessary.''))
                               \<lparr>eo_path := Some p, eo_old_content := Some content, eo_new_content := Some replaced\<rparr>),
                          st2))))
           | _ \<Rightarrow> (Inl ToolFailure, st)))"

definition insert_text :: "editor_env \<Rightarrow> string \<Rightarrow> int \<Rightarrow> string \<Rightarrow> editor_state \<Rightarrow> editor_observation editor_op" where
  "insert_text env p insert_line new_str st =
     (case bind_editor (get_encoding env st p) (\<lambda>encoding.
           bind_editor (validate_file env st p) (\<lambda>_.
           bind_editor (count_lines env st p) (\<lambda>n.
             if insert_line < 0 \<or> insert_line > int n then Inl (ParameterInvalid ''insert_line'')
             else (case open_text env st p encoding of
                     None \<Rightarrow> Inl (Uncaught ValueError)
                   | Some t \<Rightarrow> Inr (file_lines t))))) of
        Inl e \<Rightarrow> (Inl e, st)
      | Inr ls \<Rightarrow>
          (let k = nat insert_line;
               inserted = split_lines new_str;
               new_lines = take k ls @ map (\<lambda>l. l @ newline) inserted @ drop k ls;
               first_line = k - SNIPPET_CONTEXT_WINDOW;
               last_line = min (length ls + length inserted) (k + SNIPPET_CONTEXT_WINDOW + length inserted)
           in then_editor (write_text env p (concat new_lines) st) (\<lambda>_ st1.
                case read_file env st1 p (Some (int first_line + 1, int last_line)) of
                  Inl e \<Rightarrow> (Inl e, st1)
                | Inr snippet \<Rightarrow>
                    then_editor (on_edits (add_history p (concat ls)) st1) (\<lambda>_ st2.
                      case read_file env st2 p None of
                        Inl e \<Rightarrow> (Inl e, st2)
                      | Inr replaced \<Rightarrow>
                          (Inr ((from_text InsertCommand
                                   (''The file '' @ p @ '' has been edited. '' @
                                    make_output env snippet ''a snippet of the edited file'' (max 1 (k + 1 - SNIPPET_CONTEXT_WINDOW)) @
                                    ''Review the changes and make sure they are as expected (correct indentation, no duplicate lines, etc). Edit the file again if necessary.''))
                                \<lparr>eo_path := Some p, eo_old_content := Some (concat ls), eo_new_content := Some replaced\<rparr>),
                           st2)))))"

text \<open>A history that gives anything but a text cannot be written.\<close>

definition undo_edit :: "editor_env \<Rightarrow> string \<Rightarrow> editor_state \<Rightarrow> editor_observation editor_op" where
  "undo_edit env p st =
     (case read_file env st p None of
        Inl e \<Rightarrow> (Inl e, st)
      | Inr current \<Rightarrow>
          then_editor (on_edits (pop_last_history p) st) (\<lambda>old st1.
            case old of
              None \<Rightarrow> (Inl ToolFailure, st1)
            | Some (CMeta _ _) \<Rightarrow> (Inl ToolFailure, st1)
            | Some (CText old_text) \<Rightarrow>
                then_editor (write_text env p old_text st1) (\<lambda>_ st2.
                  (Inr ((from_text UndoCommand (''Last edit to '' @ p @ '' undone successfully. '' @ make_output env old_text p 1))
                        \<lparr>eo_path := Some p, eo_old_content := Some current, eo_new_content := Some old_text\<rparr>),
                   st2))))"

definition create_file :: "editor_env \<Rightarrow> string \<Rightarrow> string \<Rightarrow> editor_state \<Rightarrow> editor_observation editor_op" where
  "create_file env p file_text st =
     then_editor (write_text env p file_text st) (\<lambda>_ st1.
     then_editor (on_edits (add_history p file_text) st1) (\<lambda>_ st2.
       (Inr ((from_text CreateCommand (''File created successfully at: '' @ p))
             \<lparr>eo_path := Some p, eo_new_content := Some file_text, eo_prev_exist := False\<rparr>),
        st2)))"

subsection \<open>Viewing\<close>

definition child_path :: "string \<Rightarrow> string \<Rightarrow> string" where
  "child_path p name = (if suffix ''/'' p then p @ name else p @ ''/'' @ name)"

definition dir_names :: "editor_env \<Rightarrow> editor_state \<Rightarrow> string \<Rightarrow> string list" where
  "dir_names env st p =
     (if is_dir env st p then
        (let d = child_path (resolve_entry env st p) []
         in map (drop (length d))
              (filter (\<lambda>entry. prefix d entry \<and> entry \<noteq> d \<and> CHR ''/'' \<notin> set (drop (length d) entry))
                (sorted_list_of_fset (fmdom (nodes st)))))
      else [])"

definition to_posix_path :: "string \<Rightarrow> string" where
  "to_posix_path = map (\<lambda>c. if c = backslash then CHR ''/'' else c)"

definition format_directory_entry :: "editor_env \<Rightarrow> editor_state \<Rightarrow> string \<Rightarrow> string \<Rightarrow> string" where
  "format_directory_entry env st root entry =
     (let display =
            (if entry = root then to_posix_path root
             else to_posix_path root @ ''/'' @ to_posix_path (drop (length (child_path root [])) entry))
      in if is_dir env st entry then display @ ''/'' else display)"

text \<open>The visible children of a directory, sorted by path.\<close>

definition visible_children :: "editor_env \<Rightarrow> editor_state \<Rightarrow> string \<Rightarrow> string list" where
  "visible_children env st p =
     sort (map (child_path p) (filter (\<lambda>n. \<not> prefix ''.'' n) (dir_names env st p)))"

definition list_directory_for_view :: "editor_env \<Rightarrow> editor_state \<Rightarrow> string \<Rightarrow> string list" where
  "list_directory_for_view env st p =
     map (format_directory_entry env st p)
       (p # concat (map (\<lambda>item. item #
              (if is_dir env st item \<and> list_failure env item = None then visible_children env st item else []))
            (visible_children env st p)))"

definition count_hidden_children :: "editor_env \<Rightarrow> editor_state \<Rightarrow> string \<Rightarrow> nat" where
  "count_hidden_children env st p = length (filter (prefix ''.'') (dir_names env st p))"

abbreviation quote :: string where
  "quote \<equiv> [CHR 0x27]"

definition view_directory :: "editor_env \<Rightarrow> string \<Rightarrow> int list option \<Rightarrow> editor_state \<Rightarrow> editor_observation editor_result" where
  "view_directory env p view_range st =
     (if view_range \<noteq> None \<and> view_range \<noteq> Some [] then Inl (ParameterInvalid ''view_range'')
      else (case list_failure env p of
              Some msg \<Rightarrow> Inr ((error_observation ViewCommand msg)\<lparr>eo_path := Some p\<rparr>)
            | None \<Rightarrow>
                (let hidden = count_hidden_children env st p;
                     msg = (''Here'' @ quote @ ''s the files and directories up to 2 levels deep in '' @ p @
                            '', excluding hidden items:'' @ newline @ join_lines (list_directory_for_view env st p)) #
                           (if hidden > 0
                            then [newline @ show_nat hidden @
                                  '' hidden files/directories in this directory are excluded. You can use '' @ quote @ ''ls -la '' @ p @
                                  quote @ '' to see them.'']
                            else [])
                 in Inr ((from_text ViewCommand (clip env DIRECTORY_CONTENT_TRUNCATED_NOTICE (join_lines msg)))\<lparr>eo_path := Some p\<rparr>))))"

definition view_image :: "editor_env \<Rightarrow> string \<Rightarrow> editor_state \<Rightarrow> editor_observation editor_result" where
  "view_image env p st =
     (case (node_at env st p, open_failure env p) of
        (Some (FileNode raw), None) \<Rightarrow>
          Inr ((from_text ViewCommand (''Image file '' @ p @ '' read successfully. Displaying image content.''))
               \<lparr>eo_images := [data_url env p raw], eo_path := Some p\<rparr>)
      | _ \<Rightarrow> Inl ToolFailure)"

text \<open>The lines of a \<open>view_range\<close> and the warning that it ends behind the file.\<close>

definition checked_range :: "int list \<Rightarrow> nat \<Rightarrow> (int \<times> int \<times> string) editor_result" where
  "checked_range view_range num_lines =
     (case view_range of
        [first_line, last_line] \<Rightarrow>
          if first_line < 1 \<or> first_line > int num_lines then Inl (ParameterInvalid ''view_range'')
          else
            (let (last_line', warning) =
                   (if last_line = -1 then (int num_lines, [])
                    else if last_line > int num_lines then
                      (int num_lines,
                       ''NOTE: We only show up to '' @ show_nat num_lines @ '' since there'' @ quote @ ''re only '' @ show_nat num_lines @
                       '' lines in this file.'' @ newline)
                    else (last_line, []))
             in if last_line' < first_line then Inl (ParameterInvalid ''view_range'')
                else Inr (first_line, last_line', warning))
      | _ \<Rightarrow> Inl (ParameterInvalid ''view_range''))"

definition normalize_lines :: "string \<Rightarrow> string" where
  "normalize_lines content = join_lines (split_lines content)"

definition view_text :: "editor_env \<Rightarrow> string \<Rightarrow> int list option \<Rightarrow> editor_state \<Rightarrow> editor_observation editor_result" where
  "view_text env p view_range st =
     bind_editor (validate_file env st p) (\<lambda>_.
     bind_editor (case count_lines env st p of Inl (Uncaught ValueError) \<Rightarrow> Inl ToolFailure | r \<Rightarrow> r) (\<lambda>num_lines.
       case view_range of
         Some (x # xs) \<Rightarrow>
           bind_editor (checked_range (x # xs) num_lines) (\<lambda>(first_line, last_line, warning).
           bind_editor (read_file env st p (Some (first_line, last_line))) (\<lambda>content.
             Inr ((from_text ViewCommand (warning @ make_output env (normalize_lines content) p (nat first_line)))\<lparr>eo_path := Some p\<rparr>)))
       | _ \<Rightarrow>
           bind_editor (read_file env st p None) (\<lambda>content.
             Inr ((from_text ViewCommand (make_output env content p 1))\<lparr>eo_path := Some p\<rparr>))))"

definition view_path :: "editor_env \<Rightarrow> string \<Rightarrow> int list option \<Rightarrow> editor_state \<Rightarrow> editor_observation editor_result" where
  "view_path env p view_range st =
     (if is_dir env st p then view_directory env p view_range st
      else if is_image_path p then view_image env p st
      else view_text env p view_range st)"

section \<open>Dispatch\<close>

definition validate_path :: "editor_env \<Rightarrow> editor_state \<Rightarrow> editor_command \<Rightarrow> string \<Rightarrow> unit editor_result" where
  "validate_path env st cmd p =
     bind_editor (is_host_absolute_path env p) (\<lambda>absolute.
       if \<not> absolute then Inl (ParameterInvalid ''path'')
       else if cmd = CreateCommand \<and> node_at env st p \<noteq> None then Inl (ParameterInvalid ''path'')
       else if cmd \<noteq> CreateCommand \<and> node_at env st p = None then Inl (ParameterInvalid ''path'')
       else if cmd \<noteq> ViewCommand \<and> is_dir env st p then Inl (ParameterInvalid ''path'')
       else Inr ())"

definition required :: "editor_command \<Rightarrow> string \<Rightarrow> 'a option \<Rightarrow> 'a editor_result" where
  "required cmd name v = (case v of None \<Rightarrow> Inl (ParameterMissing (command_name cmd) name) | Some x \<Rightarrow> Inr x)"

definition call_editor :: "editor_env \<Rightarrow> editor_action \<Rightarrow> editor_state \<Rightarrow> editor_observation editor_op" where
  "call_editor env a st =
     (let p = path_str (ea_path a); cmd = ea_command a
      in case validate_path env st cmd p of
           Inl e \<Rightarrow> (Inl e, st)
         | Inr _ \<Rightarrow>
             (case cmd of
                ViewCommand \<Rightarrow> (view_path env p (ea_view_range a) st, st)
              | CreateCommand \<Rightarrow>
                  then_editor (required cmd ''file_text'' (ea_file_text a), st) (\<lambda>t st. create_file env p t st)
              | StrReplaceCommand \<Rightarrow>
                  then_editor (required cmd ''old_str'' (ea_old_str a), st) (\<lambda>old st.
                  then_editor (required cmd ''new_str'' (ea_new_str a), st) (\<lambda>new st.
                    if new = old then (Inl (ParameterInvalid ''new_str''), st) else str_replace env p old new st))
              | InsertCommand \<Rightarrow>
                  then_editor (required cmd ''insert_line'' (ea_insert_line a), st) (\<lambda>i st.
                  then_editor (required cmd ''new_str'' (ea_new_str a), st) (\<lambda>new st. insert_text env p i new st))
              | UndoCommand \<Rightarrow> undo_edit env p st))"

text \<open>
  The executor. The allowed files are resolved when it is made, an empty list standing for no
  restriction; the path of a call is resolved when the call comes.
\<close>

definition new_executor :: "editor_env \<Rightarrow> editor_state \<Rightarrow> string list \<Rightarrow> string list option" where
  "new_executor env st files =
     (if files = [] then None else Some (map (\<lambda>f. resolve_entry env st (path_str f)) files))"

definition allowed_path :: "editor_env \<Rightarrow> editor_state \<Rightarrow> string list option \<Rightarrow> string \<Rightarrow> bool" where
  "allowed_path env st allowed p \<longleftrightarrow>
     (case allowed of None \<Rightarrow> True | Some files \<Rightarrow> resolve_entry env st (path_str p) \<in> set files)"

definition execute_editor ::
  "editor_env \<Rightarrow> string list option \<Rightarrow> editor_action \<Rightarrow> editor_state \<Rightarrow> editor_observation editor_op" where
  "execute_editor env allowed a st =
     (if ea_command a \<noteq> ViewCommand \<and> \<not> allowed_path env st allowed (ea_path a) then
        (Inr (error_observation (ea_command a) (refusal_message env (ea_command a) (ea_path a))), st)
      else (case call_editor env a st of
              (Inl e, st') \<Rightarrow>
                if is_tool_error e then (Inr (error_observation (ea_command a) (error_message env e)), st') else (Inl e, st')
            | ok \<Rightarrow> ok))"

definition new_editor :: "(string, node) fmap \<Rightarrow> editor_state" where
  "new_editor disk = \<lparr>nodes = disk, edits = new_history 10 []\<rparr>"

end
