(* ===== verification/Editor_Edits.thy ===== *)
theory Editor_Edits
  imports File_Editor
begin

text \<open>
  What the commands of the file editor do: where \<open>str_replace\<close> replaces, what \<open>insert\<close> writes, that
  edits can be undone, and which files a call can change.
\<close>

section \<open>Plumbing\<close>

lemma bind_editor_simps [simp]:
  "bind_editor (Inl e) f = Inl e" "bind_editor (Inr x) f = f x"
  by (simp_all add: bind_editor_def)

lemma bind_editor_Inr_iff: "bind_editor m f = Inr y \<longleftrightarrow> (\<exists>x. m = Inr x \<and> f x = Inr y)"
  by (cases m) auto

lemma then_editor_simps [simp]:
  "then_editor (Inl e, st) f = (Inl e, st)" "then_editor (Inr x, st) f = f x st"
  by (simp_all add: then_editor_def)

lemma then_editor_Inr_iff:
  "then_editor m f = (Inr y, st') \<longleftrightarrow> (\<exists>x st. m = (Inr x, st) \<and> f x st = (Inr y, st'))"
  by (cases m; cases "fst m") (auto simp: then_editor_def)

section \<open>Occurrences\<close>

lemma occurrences_none: "pat \<noteq> [] \<Longrightarrow> occurrences_from pat i s = [] \<longleftrightarrow> \<not> sublist pat s"
proof (induction pat i s rule: occurrences_from.induct)
  case (2 pat i c cs)
  then show ?case by (cases "prefix pat (c # cs)") (auto simp: sublist_Cons_right)
qed simp

text \<open>The text is cut by its only occurrence.\<close>

definition splits_once :: "string \<Rightarrow> string \<Rightarrow> string \<Rightarrow> string \<Rightarrow> bool" where
  "splits_once target s pre post \<longleftrightarrow>
     s = pre @ target @ post \<and>
     (if target = [] then s = []
      else (\<forall>j < length pre. \<not> prefix target (drop j s)) \<and> \<not> sublist target post)"

lemma occurrences_one:
  assumes "pat \<noteq> []"
  shows "occurrences_from pat i s = [k] \<longleftrightarrow> (\<exists>pre post. splits_once pat s pre post \<and> k = i + length pre)"
  using assms
proof (induction pat i s rule: occurrences_from.induct)
  case (1 pat i)
  then show ?case by (simp add: splits_once_def)
next
  case (2 pat i c cs)
  let ?s = "c # cs"
  show ?case
  proof (cases "prefix pat ?s")
    case True
    then obtain post where post: "?s = pat @ post" by (auto elim: prefixE)
    have "max 1 (length pat) = length pat" using 2(3) by (cases pat) auto
    then have "drop (max 1 (length pat)) ?s = post" using post by simp
    then have "occurrences_from pat i ?s = i # occurrences_from pat (i + max 1 (length pat)) post" using True by simp
    moreover have "splits_once pat ?s pre post' \<longleftrightarrow> pre = [] \<and> post' = post \<and> \<not> sublist pat post" for pre post'
    proof
      assume once: "splits_once pat ?s pre post'"
      then have "\<forall>j < length pre. \<not> prefix pat (drop j ?s)"
        using 2(3) by (auto simp only: splits_once_def if_False split: if_splits)
      then have "pre = []" using True by (metis drop_0 length_greater_0_conv)
      then show "pre = [] \<and> post' = post \<and> \<not> sublist pat post" using once post 2(3) by (simp add: splits_once_def)
    qed (use 2(3) post in \<open>auto simp: splits_once_def\<close>)
    ultimately show ?thesis using occurrences_none [OF 2(3)] by auto
  next
    case False
    have "splits_once pat ?s pre post \<longleftrightarrow> (\<exists>pre'. pre = c # pre' \<and> splits_once pat cs pre' post)" for pre post
    proof (cases pre)
      case Nil
      then show ?thesis using False 2(3) by (auto simp: splits_once_def)
    next
      case (Cons d pre')
      then show ?thesis
        using False 2(3) by (auto simp: splits_once_def less_Suc_eq_0_disj)
    qed
    then have "(\<exists>pre post. splits_once pat ?s pre post \<and> k = i + length pre) \<longleftrightarrow>
        (\<exists>pre post. splits_once pat cs pre post \<and> k = Suc i + length pre)"
      by (metis add_Suc add_Suc_right length_Cons)
    then show ?thesis using 2(2) [OF False 2(3)] False by simp
  qed
qed

lemma occurrences_empty_pattern: "length (occurrences_from [] i s) = Suc (length s)"
  by (induction s arbitrary: i) auto

lemma occurrences_single:
  "occurrences target s = [k] \<longleftrightarrow> (\<exists>pre post. splits_once target s pre post \<and> k = length pre)"
proof (cases "target = []")
  case True
  have "occurrences [] s = [k] \<longleftrightarrow> s = [] \<and> k = 0"
    using occurrences_empty_pattern [of 0 s] by (cases s) (auto simp: occurrences_def)
  then show ?thesis using True by (auto simp: splits_once_def)
qed (use occurrences_one [of target 0 s k] in \<open>simp add: occurrences_def\<close>)

lemma splits_once_unique:
  assumes "splits_once t s a b" "splits_once t s c d"
  shows "a = c \<and> b = d"
proof -
  have "occurrences t s = [length a]" "occurrences t s = [length c]" using assms occurrences_single by blast+
  then show ?thesis using assms by (simp add: splits_once_def)
qed

lemma occurrences_nil: "occurrences pat s = [] \<longleftrightarrow> \<not> sublist pat s"
proof (cases "pat = []")
  case True
  have "occurrences_from [] 0 s \<noteq> []" using occurrences_empty_pattern [of 0 s] by fastforce
  then show ?thesis using True by (simp add: occurrences_def)
qed (use occurrences_none [of pat 0 s] in \<open>simp add: occurrences_def\<close>)

section \<open>Reading and writing\<close>

lemma read_file_whole:
  "read_file env st p None = Inr t \<longleftrightarrow>
     (\<exists>e. get_encoding env st p = Inr e \<and> validate_file env st p = Inr () \<and> open_text env st p e = Some t)"
  by (auto simp: read_file_def bind_editor_Inr_iff split: option.splits)

lemma read_file_range: "read_file env st p None = Inr t \<Longrightarrow> \<exists>s. read_file env st p (Some r) = Inr s"
  by (cases r) (auto simp: read_file_def bind_editor_Inr_iff split: option.splits)

lemma read_file_range_error: "read_file env st p (Some r) = Inl e \<longleftrightarrow> read_file env st p None = Inl e"
  unfolding read_file_def
  by (cases r; cases "get_encoding env st p"; cases "validate_file env st p") (auto split: option.split)

lemma concat_file_lines [simp]: "concat (file_lines s) = s"
  by (induction s) (auto split: list.splits)

lemma node_at_edits [simp]: "node_at env (st\<lparr>edits := h\<rparr>) p = node_at env st p"
  by (simp add: node_at_def resolve_entry_def)

lemma follow_no_link: "\<nexists>t. fmlookup disk k = Some (LinkNode t) \<Longrightarrow> follow disk n k = k"
  by (cases n) (auto split: option.split node.split)

lemma node_at_write [simp]:
  "node_at env (st\<lparr>nodes := fmupd (located env p) (FileNode raw) (nodes st)\<rparr>) p = Some (FileNode raw)"
  by (simp add: node_at_def resolve_entry_def follow_no_link)

lemma get_encoding_edits [simp]: "get_encoding env (st\<lparr>edits := h\<rparr>) p = get_encoding env st p"
  unfolding get_encoding_def node_at_edits ..

lemma validate_file_edits [simp]: "validate_file env (st\<lparr>edits := h\<rparr>) p = validate_file env st p"
  unfolding validate_file_def resolve_text_encoding_def node_at_edits get_encoding_edits ..

lemma open_text_edits [simp]: "open_text env (st\<lparr>edits := h\<rparr>) p e = open_text env st p e"
  unfolding open_text_def node_at_edits ..

lemma read_file_edits [simp]: "read_file env (st\<lparr>edits := h\<rparr>) p r = read_file env st p r"
  unfolding read_file_def get_encoding_edits validate_file_edits open_text_edits ..

text \<open>A write fails and changes nothing, or replaces the one node of its path.\<close>

lemma write_text_cases:
  assumes "write_text env p t st = (r, st')"
  obtains e where "r = Inl e" "st' = st"
    | raw where "r = Inr ()" "st' = st\<lparr>nodes := fmupd (located env p) (FileNode raw) (nodes st)\<rparr>"
  using assms
  by (auto simp: write_text_def atomic_write_def Let_def split: sum.splits option.splits if_splits)

lemma on_edits_add:
  assumes "history_ok (edits st)"
  obtains h where "on_edits (add_history p t) st = (Inr (), st\<lparr>edits := h\<rparr>)" "history_ok h"
    "history_limit h = history_limit (edits st)"
    "stacks h = (stacks (edits st))(p := last_n (history_limit (edits st)) (stacks (edits st) p @ [t]))"
proof -
  obtain h where h: "add_history p t (edits st) = (Inr (), h)" "history_ok h" "history_limit h = history_limit (edits st)"
    "stacks h = (stacks (edits st))(p := last_n (history_limit (edits st)) (stacks (edits st) p @ [t]))"
    using hm.add_law [OF assms] by blast
  show thesis by (rule that [OF _ h(2-4)]) (simp add: on_edits_def h(1))
qed

lemma on_edits_pop:
  assumes "history_ok (edits st)"
  obtains h where "on_edits (pop_last_history p) st =
      (Inr (if stacks (edits st) p = [] then None else Some (CText (last (stacks (edits st) p)))), st\<lparr>edits := h\<rparr>)" "history_ok h"
    "history_limit h = history_limit (edits st)" "stacks h = (stacks (edits st))(p := butlast (stacks (edits st) p))"
proof -
  obtain h where h: "pop_last_history p (edits st) =
      (Inr (if stacks (edits st) p = [] then None else Some (CText (last (stacks (edits st) p)))), h)" "history_ok h"
    "history_limit h = history_limit (edits st)" "stacks h = (stacks (edits st))(p := butlast (stacks (edits st) p))"
    using hm.pop_law [OF assms] by blast
  show thesis by (rule that [OF _ h(2-4)]) (simp add: on_edits_def h(1))
qed

text \<open>The history after an edit that remembered the content \<open>t\<close> of \<open>p\<close>.\<close>

definition remembered :: "string \<Rightarrow> string \<Rightarrow> history_manager \<Rightarrow> history_manager \<Rightarrow> bool" where
  "remembered p t h h' \<longleftrightarrow> history_ok h' \<and> history_limit h' = history_limit h \<and>
     stacks h' = (stacks h)(p := last_n (history_limit h) (stacks h p @ [t]))"

section \<open>Replacing\<close>

definition target_of :: "string \<Rightarrow> string \<Rightarrow> string" where
  "target_of old_str content = (if sublist old_str content then old_str else strip old_str)"

lemma find_target_occurrences:
  "find_target old_str content = (target_of old_str content, occurrences (target_of old_str content) content)"
  by (simp add: find_target_def target_of_def occurrences_nil)

lemma cut_middle: "s = pre @ t @ post \<Longrightarrow> take (length pre) s @ x @ drop (length pre + length t) s = pre @ x @ post"
  by simp

lemma str_replace_outcome:
  assumes "history_ok (edits st)" "read_file env st p None = Inr content"
    and "splits_once (target_of old_str content) content pre post"
  shows "case write_text env p (pre @ new_str @ post) st of
      (Inl e, _) \<Rightarrow> str_replace env p old_str new_str st = (Inl e, st)
    | (Inr _, st1) \<Rightarrow>
        (\<exists>r h. str_replace env p old_str new_str st = (r, st1\<lparr>edits := h\<rparr>) \<and> remembered p content (edits st) h \<and>
          (\<forall>t. read_file env st1 p None = Inr t \<longrightarrow> (\<exists>obs. r = Inr obs)) \<and>
          (\<forall>e. read_file env st1 p None = Inl e \<longrightarrow> r = Inl e) \<and>
          (\<forall>obs. r = Inr obs \<longrightarrow> \<not> eo_is_error obs \<and> eo_path obs = Some p \<and> eo_old_content obs = Some content \<and>
             eo_new_content obs = Some (pre @ new_str @ post)))"
proof -
  let ?new = "pre @ new_str @ post"
  have occ: "occurrences (target_of old_str content) content = [length pre]"
    using assms(3) occurrences_single by blast
  have cut: "take (length pre) content @ new_str @ drop (length pre + length (target_of old_str content)) content = ?new"
    using assms(3) unfolding splits_once_def by (intro cut_middle) (rule conjunct1)
  obtain e where ready: "get_encoding env st p = Inr e" "validate_file env st p = Inr ()"
    using assms(2) read_file_whole by blast
  obtain r1 st1 where w: "write_text env p ?new st = (r1, st1)" by fastforce
  then show ?thesis
  proof (cases rule: write_text_cases)
    case (1 e1)
    then show ?thesis
      using w ready assms(2) by (simp add: str_replace_def find_target_occurrences occ cut Let_def)
  next
    case (2 raw)
    have "history_ok (edits st1)" "edits st1 = edits st" using assms(1) 2(2) by simp_all
    then obtain h where h: "on_edits (add_history p content) st1 = (Inr (), st1\<lparr>edits := h\<rparr>)" "remembered p content (edits st) h"
      using on_edits_add [of st1 p content] unfolding remembered_def by metis
    obtain i j message where r: "str_replace env p old_str new_str st =
        (case read_file env st1 p (Some (i, j)) of
           Inl e \<Rightarrow> (Inl e, st1\<lparr>edits := h\<rparr>)
         | Inr snippet \<Rightarrow> (Inr ((from_text StrReplaceCommand (message snippet))
             \<lparr>eo_path := Some p, eo_old_content := Some content, eo_new_content := Some ?new\<rparr>), st1\<lparr>edits := h\<rparr>))"
    proof (rule that)
      let ?line = "length (filter (\<lambda>c. c = CHR 0x0A) (take (length pre) content)) + 1"
      let ?message = "\<lambda>snippet. ''The file '' @ p @ '' has been edited. '' @
        make_output env snippet (''a snippet of '' @ p) (?line - SNIPPET_CONTEXT_WINDOW + 1) @
        ''Review the changes and make sure they are as expected. Edit the file again if necessary.''"
      have read_after: "read_file env (st1\<lparr>edits := h\<rparr>) p rng = read_file env st1 p rng" for rng by simp
      show "str_replace env p old_str new_str st =
        (case read_file env st1 p (Some (int (?line - SNIPPET_CONTEXT_WINDOW) + 1,
            int (?line + SNIPPET_CONTEXT_WINDOW + length (filter (\<lambda>c. c = CHR 0x0A) new_str)))) of
           Inl e \<Rightarrow> (Inl e, st1\<lparr>edits := h\<rparr>)
         | Inr snippet \<Rightarrow> (Inr ((from_text StrReplaceCommand (?message snippet))
             \<lparr>eo_path := Some p, eo_old_content := Some content, eo_new_content := Some ?new\<rparr>), st1\<lparr>edits := h\<rparr>))"
        unfolding str_replace_def ready assms(2) bind_editor_def sum.case find_target_occurrences occ list.case prod.case
          Let_def cut then_editor_def w 2(1) h(1) read_after by (rule refl)
    qed
    show ?thesis
    proof (cases "read_file env st1 p (Some (i, j))")
      case (Inl e1)
      then have "read_file env st1 p None = Inl e1" by (simp add: read_file_range_error)
      then show ?thesis using r Inl w 2(1) h(2) by auto
    next
      case (Inr snippet)
      then have "read_file env st1 p None \<noteq> Inl e" for e using read_file_range_error [of env st1 p "(i, j)" e] by simp
      then show ?thesis using r Inr w 2(1) h(2) by (auto simp: from_text_def)
    qed
  qed
qed

lemma str_replace_ambiguous:
  assumes "read_file env st p None = Inr content" "\<nexists>pre post. splits_once (target_of old_str content) content pre post"
  shows "str_replace env p old_str new_str st = (Inl ToolFailure, st)"
proof -
  obtain e where ready: "get_encoding env st p = Inr e" "validate_file env st p = Inr ()"
    using assms(1) read_file_whole by blast
  have "occurrences (target_of old_str content) content \<noteq> [k]" for k using assms(2) occurrences_single by blast
  then show ?thesis
    using ready assms(1) by (simp add: str_replace_def find_target_occurrences split: list.splits)
qed

section \<open>Inserting\<close>

lemma concat_split_lines: "concat (map (\<lambda>l. l @ newline) (split_lines s)) = s @ newline"
  by (induction s) (auto simp: newline_def split: list.splits)

lemma insert_text_outcome:
  assumes "history_ok (edits st)" "read_file env st p None = Inr content"
    and "0 \<le> k" "k \<le> int (length (file_lines content))"
    and "before = concat (take (nat k) (file_lines content))" "after = concat (drop (nat k) (file_lines content))"
  shows "case write_text env p (before @ new_str @ newline @ after) st of
      (Inl e, _) \<Rightarrow> insert_text env p k new_str st = (Inl e, st)
    | (Inr _, st1) \<Rightarrow>
        (case read_file env st1 p None of
           Inl e \<Rightarrow> insert_text env p k new_str st = (Inl e, st1)
         | Inr t \<Rightarrow>
             (\<exists>obs h. insert_text env p k new_str st = (Inr obs, st1\<lparr>edits := h\<rparr>) \<and> remembered p content (edits st) h \<and>
                \<not> eo_is_error obs \<and> eo_path obs = Some p \<and> eo_old_content obs = Some content \<and> eo_new_content obs = Some t))"
proof -
  let ?ls = "file_lines content"
  have written: "concat (take (nat k) ?ls @ map (\<lambda>l. l @ newline) (split_lines new_str) @ drop (nat k) ?ls) =
      before @ new_str @ newline @ after"
    using assms(5,6) by (simp add: concat_split_lines)
  obtain e where ready: "get_encoding env st p = Inr e" "validate_file env st p = Inr ()" "open_text env st p e = Some content"
    using assms(2) read_file_whole by blast
  have count: "count_lines env st p = Inr (length ?ls)" by (simp add: count_lines_def ready)
  obtain r1 st1 where w: "write_text env p (before @ new_str @ newline @ after) st = (r1, st1)" by fastforce
  then show ?thesis
  proof (cases rule: write_text_cases)
    case (1 e1)
    then show ?thesis
      using w ready count assms(3,4) written by (simp add: insert_text_def Let_def not_less)
  next
    case (2 raw)
    have "history_ok (edits st1)" "edits st1 = edits st" using assms(1) 2(2) by simp_all
    then obtain h where h: "on_edits (add_history p content) st1 = (Inr (), st1\<lparr>edits := h\<rparr>)" "remembered p content (edits st) h"
      using on_edits_add [of st1 p content] unfolding remembered_def by metis
    obtain lines where l: "insert_text env p k new_str st =
        (case read_file env st1 p (Some lines) of
           Inl e \<Rightarrow> (Inl e, st1)
         | Inr snippet \<Rightarrow>
             (case read_file env st1 p None of
                Inl e \<Rightarrow> (Inl e, st1\<lparr>edits := h\<rparr>)
              | Inr t \<Rightarrow>
                  (Inr ((from_text InsertCommand
                           (''The file '' @ p @ '' has been edited. '' @
                            make_output env snippet ''a snippet of the edited file'' (max 1 (nat k + 1 - SNIPPET_CONTEXT_WINDOW)) @
                            ''Review the changes and make sure they are as expected (correct indentation, no duplicate lines, etc). Edit the file again if necessary.''))
                        \<lparr>eo_path := Some p, eo_old_content := Some content, eo_new_content := Some t\<rparr>), st1\<lparr>edits := h\<rparr>)))"
      using w 2(1) ready count assms(3,4) written h(1)
      by (simp add: insert_text_def Let_def not_less cong: sum.case_cong)
    show ?thesis
    proof (cases "read_file env st1 p (Some lines)")
      case (Inl e1)
      then have "read_file env st1 p None = Inl e1" by (simp add: read_file_range_error)
      then show ?thesis using w 2(1) l Inl by simp
    next
      case (Inr snippet)
      then obtain t where t: "read_file env st1 p None = Inr t"
        using read_file_range_error [of env st1 p lines] by (cases "read_file env st1 p None") auto
      show ?thesis
        unfolding w 2(1) prod.case sum.case t using l Inr t h(2)
        by (intro exI conjI) (auto simp: from_text_def)
    qed
  qed
qed

section \<open>Undoing\<close>

text \<open>A text that is written in UTF-8 and read back as it is.\<close>

definition plain_text :: "editor_env \<Rightarrow> string \<Rightarrow> bool" where
  "plain_text env t \<longleftrightarrow>
     (case encoded env DEFAULT_ENCODING t of
        None \<Rightarrow> False
      | Some raw \<Rightarrow>
          decoded env DEFAULT_ENCODING raw = Some t \<and> decoded env DEFAULT_ENCODING (sample_of raw) \<noteq> None \<and>
          \<not> prefix BOM_UTF8 (sample_of raw) \<and> length raw \<le> max_file_size env \<and>
          universal_newlines t = t \<and> \<not> has_control_char t)"

definition plain_file :: "editor_env \<Rightarrow> editor_state \<Rightarrow> string \<Rightarrow> string \<Rightarrow> bool" where
  "plain_file env st p t \<longleftrightarrow>
     open_failure env p = None \<and> read_file env st p None = Inr t \<and>
     (\<exists>raw. node_at env st p = Some (FileNode raw) \<and> encoding_of env raw = DEFAULT_ENCODING)"

lemma plain_encoding:
  assumes "plain_text env t" "encoded env DEFAULT_ENCODING t = Some raw"
  shows "encoding_of env raw = DEFAULT_ENCODING" "read_text env DEFAULT_ENCODING raw = Some t"
  using assms by (auto simp: plain_text_def encoding_of_def detect_encoding_def recover_encoding_def read_text_def Let_def)

lemma write_plain:
  assumes "plain_file env st p t" "plain_text env t'" "\<not> write_refused env p"
  obtains st1 where "write_text env p t' st = (Inr (), st1)" "plain_file env st1 p t'" "edits st1 = edits st"
    "\<forall>k. k \<noteq> located env p \<longrightarrow> fmlookup (nodes st1) k = fmlookup (nodes st) k"
proof -
  obtain raw0 where f: "open_failure env p = None" "read_file env st p None = Inr t" "node_at env st p = Some (FileNode raw0)"
    "encoding_of env raw0 = DEFAULT_ENCODING"
    using assms(1) by (auto simp: plain_file_def)
  obtain raw where raw: "encoded env DEFAULT_ENCODING t' = Some raw" "length raw \<le> max_file_size env" "\<not> has_control_char t'"
    using assms(2) by (auto simp: plain_text_def split: option.splits)
  let ?st = "st\<lparr>nodes := fmupd (located env p) (FileNode raw) (nodes st)\<rparr>"
  have "get_encoding env st p = Inr DEFAULT_ENCODING" "fmlookup (nodes st) (located env p) \<noteq> Some DirNode"
    using f follow_no_link [of "nodes st" "located env p" MAX_LINKS]
    by (auto simp: get_encoding_def node_at_def resolve_entry_def)
  moreover have "validate_file env st p = Inr ()" using f(2) read_file_whole by blast
  ultimately have written: "write_text env p t' st = (Inr (), ?st)"
    using assms(3) raw(1) by (simp add: write_text_def atomic_write_def)
  have node: "node_at env ?st p = Some (FileNode raw)" by simp
  note enc = plain_encoding [OF assms(2) raw(1)]
  have get: "get_encoding env ?st p = Inr DEFAULT_ENCODING" using node f(1) enc(1) by (simp add: get_encoding_def)
  then have "validate_file env ?st p = Inr ()"
    using node raw(2,3) enc(2) by (simp add: validate_file_def resolve_text_encoding_def)
  then have "read_file env ?st p None = Inr t'"
    using get node f(1) enc(2) by (simp add: read_file_def open_text_def)
  then have "plain_file env ?st p t'" using node f(1) enc(1) by (simp add: plain_file_def)
  then show thesis using that [OF written] by simp
qed

lemma plain_file_edits [simp]: "plain_file env (st\<lparr>edits := h\<rparr>) p t = plain_file env st p t"
  by (simp add: plain_file_def)

datatype edit = Replace string string | InsertAt int string

fun perform_edit :: "editor_env \<Rightarrow> string \<Rightarrow> edit \<Rightarrow> editor_state \<Rightarrow> editor_observation editor_op" where
  "perform_edit env p (Replace pat new) st = str_replace env p pat new st"
| "perform_edit env p (InsertAt k new) st = insert_text env p k new st"

text \<open>What an edit makes of a text.\<close>

fun edit_result :: "edit \<Rightarrow> string \<Rightarrow> string option" where
  "edit_result (Replace pat new) t =
     (case occurrences (target_of pat t) t of
        [i] \<Rightarrow> Some (take i t @ new @ drop (i + length (target_of pat t)) t)
      | _ \<Rightarrow> None)"
| "edit_result (InsertAt k new) t =
     (if 0 \<le> k \<and> k \<le> int (length (file_lines t))
      then Some (concat (take (nat k) (file_lines t)) @ new @ newline @ concat (drop (nat k) (file_lines t)))
      else None)"

fun edit_texts :: "edit list \<Rightarrow> string \<Rightarrow> string list option" where
  "edit_texts [] t = Some [t]"
| "edit_texts (e # es) t = (case edit_result e t of None \<Rightarrow> None | Some t' \<Rightarrow> map_option ((#) t) (edit_texts es t'))"

fun run_edits :: "editor_env \<Rightarrow> string \<Rightarrow> edit list \<Rightarrow> editor_state \<Rightarrow> editor_state option" where
  "run_edits env p [] st = Some st"
| "run_edits env p (e # es) st = (case perform_edit env p e st of (Inr _, st') \<Rightarrow> run_edits env p es st' | _ \<Rightarrow> None)"

fun undo_times :: "editor_env \<Rightarrow> string \<Rightarrow> nat \<Rightarrow> editor_state \<Rightarrow> editor_state option" where
  "undo_times env p 0 st = Some st"
| "undo_times env p (Suc n) st = (case undo_edit env p st of (Inr _, st') \<Rightarrow> undo_times env p n st' | _ \<Rightarrow> None)"

lemma undo_times_last:
  "undo_times env p n st = Some st1 \<Longrightarrow> undo_edit env p st1 = (Inr obs, st2) \<Longrightarrow> undo_times env p (Suc n) st = Some st2"
proof (induction n arbitrary: st)
  case (Suc n)
  obtain r st' where u: "undo_edit env p st = (r, st')" by fastforce
  then obtain x where "r = Inr x" "undo_times env p n st' = Some st1" using Suc(2) by (cases r) auto
  then show ?case using Suc(1) [OF _ Suc(3), of st'] u by simp
qed simp

lemma edit_plain:
  assumes "plain_file env st p t" "history_ok (edits st)" "\<not> write_refused env p"
    and "edit_result e t = Some t'" "plain_text env t'"
  obtains obs st' where "perform_edit env p e st = (Inr obs, st')" "plain_file env st' p t'"
    "remembered p t (edits st) (edits st')" "\<forall>k. k \<noteq> located env p \<longrightarrow> fmlookup (nodes st') k = fmlookup (nodes st) k"
proof -
  have read: "read_file env st p None = Inr t" using assms(1) by (simp add: plain_file_def)
  obtain st1 where w: "write_text env p t' st = (Inr (), st1)" "plain_file env st1 p t'" "edits st1 = edits st"
    "\<forall>k. k \<noteq> located env p \<longrightarrow> fmlookup (nodes st1) k = fmlookup (nodes st) k"
    using write_plain [OF assms(1,5,3)] by blast
  have read1: "read_file env st1 p None = Inr t'" using w(2) by (simp add: plain_file_def)
  have "\<exists>obs h. perform_edit env p e st = (Inr obs, st1\<lparr>edits := h\<rparr>) \<and> remembered p t (edits st) h"
  proof (cases e)
    case (Replace pat new)
    then obtain i where i: "occurrences (target_of pat t) t = [i]" "t' = take i t @ new @ drop (i + length (target_of pat t)) t"
      using assms(4) by (auto split: list.splits)
    then obtain pre post where s: "splits_once (target_of pat t) t pre post" "i = length pre"
      using occurrences_single by blast
    then have "t' = pre @ new @ post"
      using i(2) cut_middle [of t pre "target_of pat t" post new] by (simp only: splits_once_def)
    then have "write_text env p (pre @ new @ post) st = (Inr (), st1)" using w(1) by simp
    then show ?thesis
      using str_replace_outcome [OF assms(2) read s(1), of new] Replace read1 by auto
  next
    case (InsertAt k new)
    let ?b = "concat (take (nat k) (file_lines t))" and ?a = "concat (drop (nat k) (file_lines t))"
    have k: "0 \<le> k" "k \<le> int (length (file_lines t))" "t' = ?b @ new @ newline @ ?a"
      using assms(4) InsertAt by (auto split: if_splits)
    then have "write_text env p (?b @ new @ newline @ ?a) st = (Inr (), st1)" using w(1) by simp
    then show ?thesis
      using insert_text_outcome [OF assms(2) read k(1,2) refl refl, of new] InsertAt read1 by auto
  qed
  then show thesis using that w by auto
qed

lemma undo_plain:
  assumes "plain_file env st p t" "history_ok (edits st)" "\<not> write_refused env p"
    and "stacks (edits st) p \<noteq> []" "last (stacks (edits st) p) = t'" "plain_text env t'"
  obtains obs st' where "undo_edit env p st = (Inr obs, st')" "plain_file env st' p t'"
    "history_ok (edits st')" "history_limit (edits st') = history_limit (edits st)"
    "stacks (edits st') = (stacks (edits st))(p := butlast (stacks (edits st) p))"
    "\<forall>k. k \<noteq> located env p \<longrightarrow> fmlookup (nodes st') k = fmlookup (nodes st) k"
proof -
  have read: "read_file env st p None = Inr t" using assms(1) by (simp add: plain_file_def)
  obtain h where h: "on_edits (pop_last_history p) st = (Inr (Some (CText t')), st\<lparr>edits := h\<rparr>)" "history_ok h"
    "history_limit h = history_limit (edits st)" "stacks h = (stacks (edits st))(p := butlast (stacks (edits st) p))"
    using on_edits_pop [OF assms(2), of p] assms(4,5) by auto
  obtain st1 where w: "write_text env p t' (st\<lparr>edits := h\<rparr>) = (Inr (), st1)" "plain_file env st1 p t'" "edits st1 = h"
    "\<forall>k. k \<noteq> located env p \<longrightarrow> fmlookup (nodes st1) k = fmlookup (nodes st) k"
    using write_plain [of env "st\<lparr>edits := h\<rparr>" p t t'] assms(1,3,6) by auto
  obtain obs where "undo_edit env p st = (Inr obs, st1)" using h(1) w(1) read by (simp add: undo_edit_def)
  then show thesis using that w h by auto
qed

lemma last_n_snoc_step:
  assumes "Suc n \<le> L"
  shows "last_n (L - n) (last_n L (s @ [x])) \<noteq> []" "last (last_n (L - n) (last_n L (s @ [x]))) = x"
    "butlast (last_n (L - n) (last_n L (s @ [x]))) = last_n (L - Suc n) s"
proof -
  have eq: "last_n (L - n) (last_n L (s @ [x])) = last_n (L - Suc n) s @ [x]"
  proof -
    have "last_n (L - n) (last_n L (s @ [x])) = last_n (L - n) (s @ [x])"
      using assms by (cases "Suc (length s) \<le> L") (simp_all add: last_n_def add.commute)
    also have "\<dots> = last_n (L - Suc n) s @ [x]" using assms by (simp add: last_n_def)
    finally show ?thesis .
  qed
  then show "last_n (L - n) (last_n L (s @ [x])) \<noteq> []" "last (last_n (L - n) (last_n L (s @ [x]))) = x"
    "butlast (last_n (L - n) (last_n L (s @ [x]))) = last_n (L - Suc n) s" by simp_all
qed

lemma edits_undone:
  assumes "history_ok (edits st)" "\<not> write_refused env p" "plain_file env st p t"
    and "edit_texts es t = Some ts" "\<forall>x \<in> set ts. plain_text env x" "length es \<le> history_limit (edits st)"
  shows "\<exists>st1 st2. run_edits env p es st = Some st1 \<and> read_file env st1 p None = Inr (last ts) \<and>
    undo_times env p (length es) st1 = Some st2 \<and> plain_file env st2 p t \<and> history_ok (edits st2) \<and>
    history_limit (edits st2) = history_limit (edits st) \<and>
    stacks (edits st2) p = last_n (history_limit (edits st) - length es) (stacks (edits st) p) \<and>
    (\<forall>k. k \<noteq> located env p \<longrightarrow> fmlookup (nodes st1) k = fmlookup (nodes st) k \<and> fmlookup (nodes st2) k = fmlookup (nodes st) k)"
  using assms
proof (induction es arbitrary: st t ts)
  case Nil
  have "length (stacks (edits st) p) \<le> history_limit (edits st)"
    using Nil(1) by (simp add: history_ok_def path_ok_def stacks_def stack_of_def)
  then show ?case using Nil by (auto simp: last_n_def plain_file_def)
next
  case (Cons e es)
  let ?L = "history_limit (edits st)"
  obtain t1 ts1 where t1: "edit_result e t = Some t1" "edit_texts es t1 = Some ts1" "ts = t # ts1"
    using Cons(5) by (auto split: option.splits)
  have "ts1 \<noteq> []" "hd ts1 = t1" using t1(2) by (cases es; auto split: option.splits)+
  then have "plain_text env t1" "plain_text env t" using Cons(6) t1(3) hd_in_set by fastforce+
  obtain obs st' where e: "perform_edit env p e st = (Inr obs, st')" "plain_file env st' p t1" "remembered p t (edits st) (edits st')"
    "\<forall>k. k \<noteq> located env p \<longrightarrow> fmlookup (nodes st') k = fmlookup (nodes st) k"
    using edit_plain [OF Cons(4,2,3) t1(1) \<open>plain_text env t1\<close>] by blast
  have s': "history_ok (edits st')" "history_limit (edits st') = ?L" "stacks (edits st') p = last_n ?L (stacks (edits st) p @ [t])"
    using e(3) by (simp_all add: remembered_def)
  obtain st1 st2 where r: "run_edits env p es st' = Some st1" "read_file env st1 p None = Inr (last ts1)"
    "undo_times env p (length es) st1 = Some st2" "plain_file env st2 p t1" "history_ok (edits st2)" "history_limit (edits st2) = ?L"
    "stacks (edits st2) p = last_n (?L - length es) (stacks (edits st') p)"
    "\<forall>k. k \<noteq> located env p \<longrightarrow> fmlookup (nodes st1) k = fmlookup (nodes st') k \<and> fmlookup (nodes st2) k = fmlookup (nodes st') k"
    using Cons(1) [OF s'(1) Cons(3) e(2) t1(2)] Cons(6,7) t1(3) s'(2) by auto
  have "Suc (length es) \<le> ?L" using Cons(7) by simp
  note top = last_n_snoc_step [OF this, of "stacks (edits st) p" t, folded s'(3), folded r(7)]
  obtain obs2 st3 where u: "undo_edit env p st2 = (Inr obs2, st3)" "plain_file env st3 p t" "history_ok (edits st3)"
    "history_limit (edits st3) = ?L" "stacks (edits st3) p = last_n (?L - Suc (length es)) (stacks (edits st) p)"
    "\<forall>k. k \<noteq> located env p \<longrightarrow> fmlookup (nodes st3) k = fmlookup (nodes st2) k"
    using undo_plain [OF r(4,5) Cons(3) top(1,2) \<open>plain_text env t\<close>] r(6) top(3) by (metis fun_upd_same)
  have "undo_times env p (length (e # es)) st1 = Some st3" using undo_times_last [OF r(3) u(1)] by simp
  then show ?case
    using e(1,4) r(1,2,8) u t1(3) \<open>ts1 \<noteq> []\<close> by (intro exI [of _ st1] exI [of _ st3]) simp
qed

section \<open>What a call can change\<close>

definition only_node :: "editor_env \<Rightarrow> string \<Rightarrow> editor_state \<Rightarrow> editor_state \<Rightarrow> bool" where
  "only_node env p st st' \<longleftrightarrow>
     (\<forall>k. k \<noteq> located env p \<longrightarrow> fmlookup (nodes st') k = fmlookup (nodes st) k) \<and>
     (fmlookup (nodes st') (located env p) = fmlookup (nodes st) (located env p) \<or>
      (\<exists>raw. fmlookup (nodes st') (located env p) = Some (FileNode raw)))"

lemma only_node_refl [simp, intro]: "only_node env p st st"
  by (simp add: only_node_def)

lemma only_node_write [intro]:
  assumes "only_node env p st st1"
  shows "only_node env p st (snd (write_text env p t st1))"
proof -
  obtain r st2 where w: "write_text env p t st1 = (r, st2)" by fastforce
  then show ?thesis by (cases rule: write_text_cases) (use assms w in \<open>simp_all add: only_node_def\<close>)
qed

lemma only_node_edits [intro]: "only_node env p st st1 \<Longrightarrow> only_node env p st (snd (on_edits f st1))"
  by (auto simp: only_node_def on_edits_def split: prod.splits sum.splits)

lemma only_node_then [intro]:
  assumes "only_node env p st (snd m)" "\<And>x st1. only_node env p st st1 \<Longrightarrow> only_node env p st (snd (f x st1))"
  shows "only_node env p st (snd (then_editor m f))"
  using assms by (cases m; cases "fst m") auto

lemma only_node_single:
  assumes "\<And>i. only_node env p st (snd (f i))"
  shows "only_node env p st (snd (case is of [] \<Rightarrow> (x, st) | [i] \<Rightarrow> f i | i # j # js \<Rightarrow> (x, st)))"
  using assms by (auto split: list.split)

lemma only_node_sum:
  "(\<And>e. only_node env p st (snd (f e))) \<Longrightarrow> (\<And>x. only_node env p st (snd (g x))) \<Longrightarrow>
   only_node env p st (snd (case s of Inl e \<Rightarrow> f e | Inr x \<Rightarrow> g x))"
  by (cases s) simp_all

lemmas only_node_rules = only_node_sum only_node_single only_node_then only_node_write only_node_edits

lemma commands_only_node:
  "only_node env p st (snd (create_file env p t st))"
  "only_node env p st (snd (str_replace env p pat new st))"
  "only_node env p st (snd (insert_text env p i new st))"
  "only_node env p st (snd (undo_edit env p st))"
proof -
  show "only_node env p st (snd (create_file env p t st))"
    unfolding create_file_def by (intro only_node_rules) simp_all
  show "only_node env p st (snd (str_replace env p pat new st))"
    unfolding str_replace_def Let_def find_target_occurrences prod.case by (intro only_node_rules) simp_all
  show "only_node env p st (snd (insert_text env p i new st))"
    unfolding insert_text_def Let_def by (intro only_node_rules) simp_all
  have case_old: "only_node env p st (snd (case old of None \<Rightarrow> a | Some (CMeta es n) \<Rightarrow> a | Some (CText s) \<Rightarrow> f s))"
    if "only_node env p st (snd a)" "\<And>s. only_node env p st (snd (f s))" for old a and f :: "string \<Rightarrow> editor_observation editor_op"
    using that by (simp split: option.split cached.split)
  show "only_node env p st (snd (undo_edit env p st))"
    unfolding undo_edit_def by (intro only_node_rules case_old) simp_all
qed

lemma call_only_node: "only_node env (path_str (ea_path a)) st (snd (call_editor env a st))"
proof -
  have fixed: "only_node env p st (snd (then_editor (required cmd name v, st) f))"
    if "\<And>x. only_node env p st (snd (f x st))" for p cmd name and v :: "'v option" and f :: "'v \<Rightarrow> editor_state \<Rightarrow> editor_observation editor_op"
    using that by (cases v) (simp_all add: required_def)
  show ?thesis
    unfolding call_editor_def Let_def
    by (auto split: sum.split editor_command.split intro!: fixed commands_only_node)
qed

section \<open>A sample editor\<close>

definition sample_editor :: editor_env where
  "sample_editor =
     \<lparr>max_file_size = 100, located = id, user_home = (\<lambda>_. None), open_failure = (\<lambda>_. None), list_failure = (\<lambda>_. None),
      write_refused = (\<lambda>_. False), looks_binary = (\<lambda>_. False), charset_guess = (\<lambda>_. None), decoded = (\<lambda>_. Some),
      encoded = (\<lambda>_. Some), data_url = (\<lambda>_ _. []), error_message = (\<lambda>_. ''failed''), refusal_message = (\<lambda>_ _. ''refused''),
      truncation_env = \<lparr>hash8 = id, path_join = (@), write_ok = (\<lambda>_. True)\<rparr>\<rparr>"

definition sample_disk :: editor_state where
  "sample_disk = new_editor (fmap_of_list [(''/w/a'', FileNode (''one'' @ newline @ ''two'' @ newline)), (''/w/b'', FileNode ''x'')])"

section \<open>Properties\<close>

text \<open>C22: Replacing is exact. If the text asked for occurs in the file, or else its stripped form, and only
  one place is found for it from the left without overlaps, the file becomes the text before it, the
  new text as it was given, and the text behind it, and the old content joins the history, and the call
  succeeds unless the new content cannot be read back; if it cannot be written nothing changes. With no such place or with several the call fails and changes
  nothing.\<close>

theorem str_replace_exact:
  assumes "history_ok (edits st)" "read_file env st p None = Inr content"
    and "target = (if sublist pat content then pat else strip pat)"
  shows "if \<exists>pre post. splits_once target content pre post then
      \<exists>pre post. splits_once target content pre post \<and>
        (case write_text env p (pre @ new @ post) st of
           (Inl e, _) \<Rightarrow> str_replace env p pat new st = (Inl e, st)
         | (Inr _, st1) \<Rightarrow>
             (\<exists>r h. str_replace env p pat new st = (r, st1\<lparr>edits := h\<rparr>) \<and>
               stacks h = (stacks (edits st))(p := last_n (history_limit (edits st)) (stacks (edits st) p @ [content])) \<and>
               (\<forall>e. r = Inl e \<longleftrightarrow> read_file env st1 p None = Inl e) \<and>
               (\<forall>obs. r = Inr obs \<longrightarrow> eo_old_content obs = Some content \<and> eo_new_content obs = Some (pre @ new @ post))))
    else str_replace env p pat new st = (Inl ToolFailure, st)"
proof (cases "\<exists>pre post. splits_once target content pre post")
  case True
  then obtain pre post where s: "splits_once target content pre post" by blast
  have "target_of pat content = target" using assms(3) by (simp add: target_of_def)
  note out = str_replace_outcome [OF assms(1,2), of pat pre post new, unfolded this, OF s]
  obtain r1 st1 where w: "write_text env p (pre @ new @ post) st = (r1, st1)" by fastforce
  have main: "case write_text env p (pre @ new @ post) st of
           (Inl e, _) \<Rightarrow> str_replace env p pat new st = (Inl e, st)
         | (Inr _, st1) \<Rightarrow>
             (\<exists>r h. str_replace env p pat new st = (r, st1\<lparr>edits := h\<rparr>) \<and>
               stacks h = (stacks (edits st))(p := last_n (history_limit (edits st)) (stacks (edits st) p @ [content])) \<and>
               (\<forall>e. r = Inl e \<longleftrightarrow> read_file env st1 p None = Inl e) \<and>
               (\<forall>obs. r = Inr obs \<longrightarrow> eo_old_content obs = Some content \<and> eo_new_content obs = Some (pre @ new @ post)))"
  proof (cases r1)
    case (Inr u)
    obtain r h where o: "str_replace env p pat new st = (r, st1\<lparr>edits := h\<rparr>)" "remembered p content (edits st) h"
      "\<forall>t. read_file env st1 p None = Inr t \<longrightarrow> (\<exists>obs. r = Inr obs)" "\<forall>e. read_file env st1 p None = Inl e \<longrightarrow> r = Inl e"
      "\<forall>obs. r = Inr obs \<longrightarrow> eo_old_content obs = Some content \<and> eo_new_content obs = Some (pre @ new @ post)"
      using out unfolding w Inr by auto
    have "r = Inl e \<longleftrightarrow> read_file env st1 p None = Inl e" for e
      using o(3,4) by (cases "read_file env st1 p None") auto
    then show ?thesis unfolding w Inr prod.case sum.case using o(1,2,5) unfolding remembered_def by blast
  qed (use out w in simp)
  show ?thesis unfolding if_P [OF True] by (intro exI [of _ pre] exI [of _ post] conjI s main)
next
  case False
  then show ?thesis using str_replace_ambiguous [OF assms(2), of pat new] assms(3) by (simp add: target_of_def)
qed

lemma sample_disk_facts:
  "history_ok (edits sample_disk)" "history_limit (edits sample_disk) = 10" "stacks (edits sample_disk) = (\<lambda>_. [])"
  using new_history_ok [of 10] by (simp_all add: sample_disk_def new_editor_def)

lemma sample_editor_computed:
  "read_file sample_editor sample_disk ''/w/a'' None = Inr (''one'' @ newline @ ''two'' @ newline)"
  "map_prod id (\<lambda>st. fmlookup (nodes st) ''/w/a'') (write_text sample_editor ''/w/a'' (''one'' @ newline @ ''  2'' @ newline) sample_disk) =
     (Inr (), Some (FileNode (''one'' @ newline @ ''  2'' @ newline)))"
  "occurrences ''two'' (''one'' @ newline @ ''two'' @ newline) = [4]"
  "occurrences '' two '' (''one'' @ newline @ ''two'' @ newline) = []"
  "strip '' two '' = ''two''"
  "encoding_of sample_editor (''one'' @ newline @ ''two'' @ newline) = DEFAULT_ENCODING"
  "edit_texts [Replace '' two '' ''  2'', InsertAt 2 ''3''] (''one'' @ newline @ ''two'' @ newline) =
     Some [''one'' @ newline @ ''two'' @ newline, ''one'' @ newline @ ''  2'' @ newline, ''one'' @ newline @ ''  2'' @ newline @ ''3'' @ newline]"
  "plain_text sample_editor (''one'' @ newline @ ''two'' @ newline)"
  "plain_text sample_editor (''one'' @ newline @ ''  2'' @ newline)"
  "plain_text sample_editor (''one'' @ newline @ ''  2'' @ newline @ ''3'' @ newline)"
  "map_prod id (\<lambda>st. read_file sample_editor st ''/w/a'' None)
     (write_text sample_editor ''/w/a'' ((''one'' @ newline @ ''two'' @ newline) @ ''3'' @ newline) sample_disk) =
     (Inr (), Inr ((''one'' @ newline @ ''two'' @ newline) @ ''3'' @ newline))"
  unfolding atomize_conj by code_simp

abbreviation sample_text :: string where
  "sample_text \<equiv> ''one'' @ newline @ ''two'' @ newline"

lemma sample_plain_file: "plain_file sample_editor sample_disk ''/w/a'' sample_text"
  using sample_editor_computed(1,6)
  by (simp add: plain_file_def node_at_def resolve_entry_def follow_no_link sample_disk_def new_editor_def)
    (simp add: sample_editor_def follow_no_link)

theorem str_replace_exact_witness:
  "\<exists>r st1 h. write_text sample_editor ''/w/a'' (''one'' @ newline @ ''  2'' @ newline) sample_disk = (Inr (), st1) \<and>
     str_replace sample_editor ''/w/a'' '' two '' ''  2'' sample_disk = (r, st1\<lparr>edits := h\<rparr>) \<and>
     stacks h ''/w/a'' = [sample_text]"
proof -
  have "\<not> sublist '' two '' sample_text" using sample_editor_computed(4) occurrences_nil [of "'' two ''"] by simp
  then have target: "''two'' = (if sublist '' two '' sample_text then '' two '' else strip '' two '')"
    using sample_editor_computed(5) by simp
  have once: "splits_once ''two'' sample_text (''one'' @ newline) newline"
  proof -
    obtain pre post where "splits_once ''two'' sample_text pre post" "length pre = 4"
      using sample_editor_computed(3) occurrences_single [of "''two''" sample_text 4] by auto
    moreover from this have "sample_text = pre @ ''two'' @ post" by (simp add: splits_once_def)
    ultimately show ?thesis by (simp add: newline_def append_eq_append_conv2 numeral_eq_Suc length_Suc_conv) auto
  qed
  obtain st1 where w: "write_text sample_editor ''/w/a'' ((''one'' @ newline) @ ''  2'' @ newline) sample_disk = (Inr (), st1)"
    using sample_editor_computed(2) by (cases "write_text sample_editor ''/w/a'' (''one'' @ newline @ ''  2'' @ newline) sample_disk") auto
  have "\<exists>pre post. splits_once ''two'' sample_text pre post" using once by blast
  note str_replace_exact [OF sample_disk_facts(1) sample_editor_computed(1) target, of "''  2''", unfolded if_P [OF this]]
  then obtain pre post where "splits_once ''two'' sample_text pre post" and
    out: "case write_text sample_editor ''/w/a'' (pre @ ''  2'' @ post) sample_disk of
           (Inl e, _) \<Rightarrow> str_replace sample_editor ''/w/a'' '' two '' ''  2'' sample_disk = (Inl e, sample_disk)
         | (Inr _, st1) \<Rightarrow>
             (\<exists>r h. str_replace sample_editor ''/w/a'' '' two '' ''  2'' sample_disk = (r, st1\<lparr>edits := h\<rparr>) \<and>
               stacks h = (stacks (edits sample_disk))(''/w/a'' :=
                 last_n (history_limit (edits sample_disk)) (stacks (edits sample_disk) ''/w/a'' @ [sample_text])) \<and>
               (\<forall>e. r = Inl e \<longleftrightarrow> read_file sample_editor st1 ''/w/a'' None = Inl e) \<and>
               (\<forall>obs. r = Inr obs \<longrightarrow> eo_old_content obs = Some sample_text \<and> eo_new_content obs = Some (pre @ ''  2'' @ post)))"
    by (elim exE conjE) (rule that)
  then have "pre = ''one'' @ newline" "post = newline" using splits_once_unique [OF once] by auto
  then obtain r h where "str_replace sample_editor ''/w/a'' '' two '' ''  2'' sample_disk = (r, st1\<lparr>edits := h\<rparr>)"
    "stacks h ''/w/a'' = [sample_text]"
    using out w by (auto simp: sample_disk_facts(2,3) last_n_def)
  then show ?thesis using w by (intro exI [of _ r] exI [of _ st1] exI [of _ h]) simp
qed

text \<open>C23: Inserting is exact. For a line from 0 to the number of lines the file becomes its first lines, the
  new text with a line feed, and the other lines, the old content joins the history, and the call
  succeeds with the old and the new content; if it cannot be written nothing changes, and if the new
  content cannot be read back the call fails with that error, the file written and nothing to undo. A
  last line without a line feed is joined with what is inserted behind it. Other line numbers are
  refused.\<close>

theorem insert_exact:
  assumes "history_ok (edits st)" "read_file env st p None = Inr content" "ls = file_lines content"
  shows "if 0 \<le> k \<and> k \<le> int (length ls) then
      (case write_text env p (concat (take (nat k) ls) @ new @ newline @ concat (drop (nat k) ls)) st of
         (Inl e, _) \<Rightarrow> insert_text env p k new st = (Inl e, st)
       | (Inr _, st1) \<Rightarrow>
           (case read_file env st1 p None of
              Inl e \<Rightarrow> insert_text env p k new st = (Inl e, st1)
            | Inr t \<Rightarrow>
                (\<exists>obs h. insert_text env p k new st = (Inr obs, st1\<lparr>edits := h\<rparr>) \<and>
                   stacks h = (stacks (edits st))(p := last_n (history_limit (edits st)) (stacks (edits st) p @ [content])) \<and>
                   \<not> eo_is_error obs \<and> eo_path obs = Some p \<and> eo_old_content obs = Some content \<and> eo_new_content obs = Some t)))
    else insert_text env p k new st = (Inl (ParameterInvalid ''insert_line''), st)"
proof (cases "0 \<le> k \<and> k \<le> int (length ls)")
  case True
  let ?t = "concat (take (nat k) ls) @ new @ newline @ concat (drop (nat k) ls)"
  note out = insert_text_outcome [OF assms(1,2), of k _ _ new, unfolded assms(3) [symmetric], OF _ _ refl refl]
  obtain r1 st1 where w: "write_text env p ?t st = (r1, st1)" by fastforce
  show ?thesis
    unfolding if_P [OF True] using out True unfolding w
    by (cases r1; cases "read_file env st1 p None") (auto simp: remembered_def)
next
  case False
  obtain e where ready: "get_encoding env st p = Inr e" "validate_file env st p = Inr ()" "open_text env st p e = Some content"
    using assms(2) read_file_whole by blast
  then have "count_lines env st p = Inr (length ls)" using assms(3) by (simp add: count_lines_def)
  then show ?thesis using ready False by (auto simp: insert_text_def)
qed

theorem insert_exact_witness:
  "insert_text sample_editor ''/w/a'' 3 ''x'' sample_disk = (Inl (ParameterInvalid ''insert_line''), sample_disk) \<and>
   (\<exists>obs st'. insert_text sample_editor ''/w/a'' 2 ''3'' sample_disk = (Inr obs, st') \<and>
      stacks (edits st') ''/w/a'' = [sample_text] \<and> eo_old_content obs = Some sample_text \<and>
      eo_new_content obs = Some (sample_text @ ''3'' @ newline))"
proof -
  let ?ls = "file_lines sample_text"
  have n: "length ?ls = 2" by code_simp
  then have ls: "concat (take (nat 2) ?ls) @ ''3'' @ newline @ concat (drop (nat 2) ?ls) = sample_text @ ''3'' @ newline"
    using concat_file_lines [of sample_text] by (simp del: concat_file_lines)
  note exact = insert_exact [OF sample_disk_facts(1) sample_editor_computed(1) refl]
  obtain st1 where w: "write_text sample_editor ''/w/a'' (sample_text @ ''3'' @ newline) sample_disk = (Inr (), st1)"
    "read_file sample_editor st1 ''/w/a'' None = Inr (sample_text @ ''3'' @ newline)"
    using sample_editor_computed(11)
    by (cases "write_text sample_editor ''/w/a'' (sample_text @ ''3'' @ newline) sample_disk") auto
  have "0 \<le> (2 :: int) \<and> 2 \<le> int (length ?ls)" unfolding n by simp
  from exact [of 2 "''3''", unfolded if_P [OF this] ls w prod.case sum.case]
  have "\<exists>obs st'. insert_text sample_editor ''/w/a'' 2 ''3'' sample_disk = (Inr obs, st') \<and>
      stacks (edits st') ''/w/a'' = [sample_text] \<and> eo_old_content obs = Some sample_text \<and>
      eo_new_content obs = Some (sample_text @ ''3'' @ newline)"
    by (elim exE conjE) (auto simp: sample_disk_facts(2,3) last_n_def)
  moreover have "insert_text sample_editor ''/w/a'' 3 ''x'' sample_disk = (Inl (ParameterInvalid ''insert_line''), sample_disk)"
    using exact [of 3 "''x''"] unfolding n by simp
  ultimately show ?thesis by blast
qed

text \<open>C20: Edits can be undone. As many replacements and insertions in a UTF-8 file as the history holds,
  each applicable to what the one before left, all succeed and give the texts they describe; undoing
  as often gives the original text again, and no other file changes on the way.\<close>

theorem undo_restores_text:
  assumes "history_ok (edits st)" "\<not> write_refused env p" "plain_file env st p t"
    and "edit_texts es t = Some ts" "\<forall>x \<in> set ts. plain_text env x" "length es \<le> history_limit (edits st)"
  shows "\<exists>st1 st2. run_edits env p es st = Some st1 \<and> read_file env st1 p None = Inr (last ts) \<and>
    undo_times env p (length es) st1 = Some st2 \<and> read_file env st2 p None = Inr t \<and>
    (\<forall>k. k \<noteq> located env p \<longrightarrow> fmlookup (nodes st1) k = fmlookup (nodes st) k \<and> fmlookup (nodes st2) k = fmlookup (nodes st) k)"
  using edits_undone [OF assms] unfolding plain_file_def by blast

theorem undo_restores_text_witness:
  "\<exists>st1 st2. run_edits sample_editor ''/w/a'' [Replace '' two '' ''  2'', InsertAt 2 ''3''] sample_disk = Some st1 \<and>
     read_file sample_editor st1 ''/w/a'' None = Inr (''one'' @ newline @ ''  2'' @ newline @ ''3'' @ newline) \<and>
     undo_times sample_editor ''/w/a'' 2 st1 = Some st2 \<and> read_file sample_editor st2 ''/w/a'' None = Inr sample_text"
proof -
  have "\<not> write_refused sample_editor ''/w/a''" by (simp add: sample_editor_def)
  note restored = undo_restores_text [OF sample_disk_facts(1) this sample_plain_file sample_editor_computed(7)]
  have two: "length [Replace '' two '' ''  2'', InsertAt 2 ''3''] = 2" by simp
  have "\<forall>x \<in> set [sample_text, ''one'' @ newline @ ''  2'' @ newline, ''one'' @ newline @ ''  2'' @ newline @ ''3'' @ newline].
      plain_text sample_editor x"
    using sample_editor_computed(8-10) by (simp del: append.simps append_Cons)
  then obtain st1 st2 where "run_edits sample_editor ''/w/a'' [Replace '' two '' ''  2'', InsertAt 2 ''3''] sample_disk = Some st1"
    "read_file sample_editor st1 ''/w/a'' None = Inr (last [sample_text, ''one'' @ newline @ ''  2'' @ newline, ''one'' @ newline @ ''  2'' @ newline @ ''3'' @ newline])"
    "undo_times sample_editor ''/w/a'' 2 st1 = Some st2" "read_file sample_editor st2 ''/w/a'' None = Inr sample_text"
    using restored unfolding two sample_disk_facts(2) by fastforce
  then show ?thesis by (intro exI [of _ st1] exI [of _ st2]) (simp only: last.simps list.distinct if_False if_True simp_thms)
qed

text \<open>C24: A call of the executor changes at most one directory entry, the one its path names, not when it
  views, and, where files are restricted, only if that path resolves to an allowed file. If the entry
  is no symbolic link it is itself the allowed file. A link is replaced by a file of the new content,
  and its target keeps the old: the allowed file is then not what changes. No \<open>ToolError\<close> escapes.\<close>

theorem editor_changes_one_file:
  assumes "execute_editor env allowed a st = (r, st')"
  shows "(\<forall>k. fmlookup (nodes st') k \<noteq> fmlookup (nodes st) k \<longrightarrow>
        k = located env (path_str (ea_path a)) \<and> ea_command a \<noteq> ViewCommand \<and>
        (\<exists>raw. fmlookup (nodes st') k = Some (FileNode raw)) \<and>
        (\<forall>files. allowed = Some files \<longrightarrow>
           resolve_entry env st (path_str (ea_path a)) \<in> set files \<and>
           ((\<nexists>target. fmlookup (nodes st) k = Some (LinkNode target)) \<longrightarrow> k \<in> set files))) \<and>
    (ea_command a = ViewCommand \<longrightarrow> st' = st) \<and> (\<forall>e. r = Inl e \<longrightarrow> \<not> is_tool_error e)"
proof (cases "ea_command a \<noteq> ViewCommand \<and> \<not> allowed_path env st allowed (ea_path a)")
  case True
  then show ?thesis using assms by (auto simp: execute_editor_def)
next
  case False
  let ?p = "path_str (ea_path a)"
  obtain r1 where call: "call_editor env a st = (r1, st')" and r: "\<forall>e. r = Inl e \<longrightarrow> \<not> is_tool_error e"
    using assms False by (cases "call_editor env a st") (auto simp: execute_editor_def split: sum.splits if_splits)
  have only: "only_node env ?p st st'" using call_only_node [of env a st] call by simp
  have view: "st' = st" if "ea_command a = ViewCommand"
    using call that by (auto simp: call_editor_def Let_def split: sum.splits)
  have allowed: "resolve_entry env st ?p \<in> set files" if "allowed = Some files" "ea_command a \<noteq> ViewCommand" for files
    using False that by (simp add: allowed_path_def)
  have "resolve_entry env st ?p = located env ?p" if "\<nexists>t. fmlookup (nodes st) (located env ?p) = Some (LinkNode t)"
    using that by (simp add: resolve_entry_def follow_no_link)
  then show ?thesis using only view r allowed unfolding only_node_def by metis
qed

definition sample_edit_action :: editor_action where
  "sample_edit_action = \<lparr>ea_command = InsertCommand, ea_path = ''/w//a'', ea_file_text = None, ea_old_str = None,
     ea_new_str = Some ''x'', ea_insert_line = Some 0, ea_view_range = None\<rparr>"

text \<open>The path named is a link to the one allowed file.\<close>

definition sample_links :: editor_state where
  "sample_links = new_editor (fmap_of_list [(''/w/a'', LinkNode ''/w/b''), (''/w/b'', FileNode ''x'')])"

theorem editor_changes_one_file_witness:
  "\<exists>r st'. execute_editor sample_editor (new_executor sample_editor sample_links [''/w/b'']) sample_edit_action sample_links = (r, st') \<and>
     \<not> isl r \<and> fmlookup (nodes st') ''/w/b'' = Some (FileNode ''x'') \<and>
     fmlookup (nodes st') ''/w/a'' = Some (FileNode (''x'' @ newline @ ''x''))"
proof -
  let ?run = "execute_editor sample_editor (new_executor sample_editor sample_links [''/w/b'']) sample_edit_action sample_links"
  obtain r st' where e: "?run = (r, st')" by fastforce
  have "isl (fst ?run) = False" "fmlookup (nodes (snd ?run)) ''/w/a'' = Some (FileNode (''x'' @ newline @ ''x''))"
    "located sample_editor (path_str (ea_path sample_edit_action)) = ''/w/a''"
    "fmlookup (nodes sample_links) ''/w/b'' = Some (FileNode ''x'')"
    unfolding atomize_conj by code_simp
  moreover from this(3) have "fmlookup (nodes st') ''/w/b'' = fmlookup (nodes sample_links) ''/w/b''"
    using editor_changes_one_file [OF e] by auto
  ultimately show ?thesis using e by auto
qed

end
