(* ===== verification/Spec2Isabelle.thy ===== *)
theory Spec2Isabelle
  imports Condenser Parallel_Executor Patch_Roundtrip Agent_Run Editor_Edits
begin

text \<open>
  A verification library for the core of the OpenHands software agent SDK
  (\<open>openhands-sdk/openhands/sdk\<close>). File names below are relative to that directory.

  \<^bold>\<open>The program.\<close> A conversation is an append-only log of events (\<open>event/\<close>), one file per event
  (\<open>conversation/event_store.py\<close>). The events form a tree; the conversation state
  (\<open>conversation/state.py\<close>) keeps a movable HEAD in it and a cached \<^emph>\<open>view\<close> of the active branch
  (\<open>context/view\<close>): the events the LLM is shown, in which every tool call has its answer and
  batches and tool loops are whole. When the view grows too large a condenser
  (\<open>context/condenser\<close>) forgets a range of it and puts a summary in its place, by appending one more
  event. The actions the LLM asks for are checked for confirmation (\<open>security/\<close>), run in parallel
  under locks on their resources (\<open>agent/parallel_executor.py\<close>,
  \<open>conversation/resource_lock_manager.py\<close>, \<open>conversation/fifo_lock.py\<close>) and watched by a detector of
  loops (\<open>conversation/stuck_detector.py\<close>). Around this, the agent (\<open>agent/agent.py\<close>) steps: it reads
  the answer of the LLM, repairs its tool calls (\<open>agent/utils.py\<close>) and runs them; every event passes
  the hooks (\<open>hooks/\<close>) on its way into the log; and \<open>LocalConversation.run\<close> repeats the step until the
  conversation settles.

  \<^bold>\<open>The theories\<close>, in the order of their imports.
  \<^item> \<^emph>\<open>Prelude\<close>: exceptions as values (\<open>py_error\<close>, \<open>'a result\<close>), their sequencing with and without a
    state, Python's slices, \<open>insert\<close> and the search for an index, and lemmas on lists and
    subsequences.
  \<^item> \<^emph>\<open>Security_Risk\<close> (\<open>security/risk.py\<close>): the levels and their partial order. \<open>UNKNOWN\<close> cannot be
    compared, so each comparison is fallible.
  \<^item> \<^emph>\<open>Events\<close> (\<open>event/\<close>, the part of \<open>llm/message.py\<close> they use): one record per event class, one
    datatype constructor each in \<open>event\<close>; \<open>to_llm_message\<close> class by class, \<open>events_to_messages\<close>, and
    \<open>Condensation.apply\<close>.
  \<^item> \<^emph>\<open>View_Properties\<close> (\<open>context/view/properties\<close>, \<open>manipulation_indices.py\<close>): the four properties
    of a view, each with its enforcement (\<open>ba_\<close>, \<open>tm_\<close>, \<open>ou_\<close>, \<open>tl_enforce\<close>) and its manipulation
    indices.
  \<^item> \<^emph>\<open>View_Model\<close> (\<open>context/view/view.py\<close>): \<open>from_events\<close>, \<open>append_event\<close>, \<open>enforce_properties\<close>,
    indexing.
  \<^item> \<^emph>\<open>Text_Utils\<close> (\<open>utils/truncate.py\<close>, \<open>__str__\<close> of the event classes) and \<^emph>\<open>Py_Float\<close>: the
    texts a condenser sends, and the product of an integer and a float with its rounding.
  \<^item> \<^emph>\<open>Condenser\<close> (\<open>context/condenser\<close>): token counts, the search for a prefix, the range to forget,
    the hard reset with its retries, the synchronous and the asynchronous rolling condenser, the
    identity and the pipeline.
  \<^item> \<^emph>\<open>Stuck_Detector\<close> (\<open>conversation/stuck_detector.py\<close>): the five patterns, the comparison of
    events and the nudge before an error loop is stuck.
  \<^item> \<^emph>\<open>Event_Log\<close> (\<open>conversation/event_store.py\<close>, \<open>persistence_const.py\<close>): file names, scanning,
    reading by index and identifier, sequence numbers, branches of the tree, appending with length
    markers, and \<open>log_step\<close>, the interleaving of several processes on one directory.
  \<^item> \<^emph>\<open>Fifo_Lock\<close> (\<open>conversation/fifo_lock.py\<close>): the reentrant fair lock and \<open>lock_step\<close>, the
    interleaving of its threads at the granularity of its internal mutex.
  \<^item> \<^emph>\<open>Error_Classification\<close> (\<open>event/error_classification.py\<close>): the codes and texts of failures.
  \<^item> \<^emph>\<open>Conversation_State\<close> (\<open>conversation/state.py\<close> and, of \<open>impl/local_conversation.py\<close>, navigation
    and the answers to pending actions): HEAD, appends, the cached view, automatic saving, blocked
    actions and messages, opening and resuming; \<open>conv_step\<close> are the operations in any order.
  \<^item> \<^emph>\<open>Security\<close> (\<open>security/\<close> and the confirmation check of \<open>agent/agent.py\<close>): policies, analyzers, the
    ensemble, the check itself with its audit event.
  \<^item> \<^emph>\<open>Resource_Locks\<close> (\<open>conversation/resource_lock_manager.py\<close>): lock objects with addresses,
    reference counts, acquisition in sorted order, timeouts; \<open>manager_step\<close> interleaves the threads.
  \<^item> \<^emph>\<open>Parallel_Executor\<close> (\<open>agent/parallel_executor.py\<close>): the batch, its workers and the guarded run
    of a call.
  \<^item> \<^emph>\<open>Apply_Patch\<close> (\<open>openhands-tools/openhands/tools/apply_patch\<close>): parser, tolerant search, commit and
    executor of the patch tool; \<^emph>\<open>Patch_Sections\<close>, \<^emph>\<open>Patch_Safety\<close> and \<^emph>\<open>Patch_Roundtrip\<close> prove what an
    update does, what can fail and that printed edits are carried out.
  \<^item> \<^emph>\<open>Edit_History\<close> and \<^emph>\<open>File_Editor\<close> (\<open>openhands-tools/openhands/tools/file_editor\<close>): the cache of
    files with the undo histories on it, the choice of an encoding, the commands of the editor and
    its executor; \<^emph>\<open>Editor_Edits\<close> proves what edits do and that they can be undone.
  \<^item> \<^emph>\<open>Tool_Calls\<close> (\<open>agent/utils.py\<close>): sanitizing, parsing and repairing the arguments of a call, the
    aliases of tools and the terminal commands that stand in for missing ones.
  \<^item> \<^emph>\<open>Hooks\<close> (\<open>hooks/config.py\<close>, \<open>executor.py\<close>, \<open>manager.py\<close>): which hooks run and what their results
    decide. \<^emph>\<open>Callbacks\<close> (\<open>hooks/conversation_hooks.py\<close> and the callbacks of
    \<open>impl/local_conversation.py\<close>): the path of an event through its hooks into the state;
    \<^emph>\<open>Callback_Branch\<close> proves where it leaves the active branch.
  \<^item> \<^emph>\<open>Agent_Step\<close> (\<open>agent/agent.py\<close>, \<open>response_dispatch.py\<close>, \<open>critic_mixin.py\<close>): the step of the
    agent; \<^emph>\<open>Agent_Safety\<close> proves what it guarantees.
  \<^item> \<^emph>\<open>Agent_Run\<close> (\<open>impl/local_conversation.py\<close>): \<open>send_message\<close>, \<open>run\<close>, \<open>pause\<close>, \<open>condense\<close>.
  \<^item> This theory: what spans the components.

  \<^bold>\<open>Interfaces.\<close> The locale \<open>view_property\<close> with its extension \<open>cuttable_property\<close> is what the view
  relies on in a property: enforcement names only events of the view, the indices always exist, and
  between two of them the view may be cut. All four properties interpret it; that enforcing shrinks
  the view, so that it ends, is proved once in it. The locale \<open>condenser_contract\<close> is what the agent
  relies on in a condenser; \<open>condenser_pipeline\<close> is a sublocale of it, and both rolling condensers,
  the identity and a pipeline of them interpret it. The locale \<open>fair_mutex\<close> is what the lock manager
  relies on in a lock (exclusion, and that a free lock with waiters can be taken by one of them);
  the FIFO lock interprets it, and that ordered acquisition makes progress is proved in it. The
  locale \<open>edit_store\<close> is what the file editor relies on in a history; the history manager interprets
  it.

  \<^bold>\<open>What is shown.\<close>
  \<^item> Views: a view can be built from every history, calls and answers match, batches and tool loops are
    whole or absent, and enforcement ends in a fixed point. Manipulation indices are exactly the
    positions between which nothing is pending, no tool loop goes on and no two adjacent actions share
    their response; where batches and loops have no gaps, deleting between two of them keeps every
    property.
  \<^item> Condensation: the range it forgets lies between manipulation indices behind the protected
    prefix; applying it keeps the view properties, the system prompt and what the configuration
    promises on size; from the history to the rebuilt history exactly the range goes, unless batches or
    loops with gaps make enforcement drop more.
  \<^item> Log: no process loses or overwrites an event of another; an append either changes no file or adds
    one event; names read back; branches end and come in order.
  \<^item> State: the cached view is the replay of the active branch, an append extends that branch by one
    event, a restart restores all that the saved file keeps (without a cipher secrets are redacted in it),
    and pending actions are answered once.
  \<^item> Concurrency: the lock is fair, never lost and never held twice; the lock manager excludes threads
    per key, never raises, keeps exact counts and does not deadlock; a batch answers each call.
  \<^item> Detection and security: each pattern against a direct specification of it; with the ensemble of
    analyzers the confirmation check fails closed; classifications are consistent.
  \<^item> Patches: an update carries out its sections in order where they fit; a patch is applied as a whole
    or changes no file; the executor stays in the workspace; printing edits and applying them is exact.
  \<^item> File editor: the history is a bounded stack per path; replacing and inserting are exact; undoing
    restores the text; a call changes at most the directory entry it names, which is the allowed file
    itself unless it is a symbolic link to one.
  \<^item> Calls, hooks, agent: repairing calls is sound and idempotent; a tool runs only if no hook blocks
    it and the policy has let it pass; a batch is answered in order; a blocked message ends the run; a
    run settles within a bounded number of turns whatever other threads do, and a pause stops it.

  \<^bold>\<open>Parameters, bounds and fuel.\<close> Code outside the repository is an argument: the LLM and its token
  counter, identifiers and clocks (\<open>condenser_runtime\<close>), the JSON parser and the tools' schemas, tools
  and their runners, analyzers other than the ensemble and the LLM analyzer, the callback that receives
  the audit of a confirmation, and what the fields of a conversation read back as after saving. Writes
  to files may fail as a function of the path says; the delete of an old length marker may fail
  unnoticed. The directory entry a path names is a parameter, the symbolic links found there are not:
  they are followed at most 40 times, as the operating system does. Fuel is used for one loop, the
  turns of \<open>run\<close>, because a turn may wait for ever and other threads may reset the conversation: any
  fuel of at least three times the iteration limit, twice the number of interferences and four is
  proved to be enough. The other loops of the code are functions with a measure
  (the prefix search by the size of its interval, the walk to the root by the events not yet seen,
  enforcement by the length of the view, the widening window by what is left of the log), except
  the walk from HEAD towards the cached leaf, which the code does not guard against cycles and which
  is a partial function with the value \<open>None\<close> where it does not return; it is proved to return in every
  reachable state. A reentrant depth and reference counts are natural numbers, as Python's integers
  are unbounded. Floats are rationals rounded to 53 bits. Waiting times are not numbers: a wait may
  end by notification or by its timeout at any step.

  \<^bold>\<open>Not modelled.\<close> The LLM client (\<open>llm/llm.py\<close>), the ACP agent, remote conversations, the agent server,
  workspaces, MCP and observability are mostly I/O around third-party libraries. Of the agent its
  initialisation and of local conversations forking, rerunning, switching the LLM and loading plugins
  are left out, as is every asyncio variant except that of the condenser. The other tools of
  \<open>openhands-tools\<close> run shells and browsers; the metrics, the pattern analyzers of \<open>security/\<close> and the
  conversation lease are not modelled. Rich-text rendering is display only. Messages of exceptions
  are left out; where the code stores the text of one, it is a parameter.
\<close>

section \<open>Lemmas that join the components\<close>

lemma append_events_snoc:
  "append_events v (es @ [e]) = bind_result (append_events v es) (\<lambda>v'. append_event v' e)"
proof (induction es arbitrary: v)
  case Nil
  then show ?case by (cases "append_event v e") simp_all
next
  case (Cons x es)
  then show ?case by (cases "append_event v x") simp_all
qed

lemma batch_ids_snoc: "\<not> is_action e \<Longrightarrow> batch_ids (es @ [e]) r = batch_ids es r"
  by (cases e) (auto simp: batch_ids_def)

lemma tool_loops_from_snoc:
  "\<not> is_action e \<Longrightarrow> \<not> is_observation_base e \<Longrightarrow>
   tool_loops_from loops current (es @ [e]) = tool_loops_from loops current es"
proof (induction loops current es rule: tool_loops_from.induct)
  case (1 loops current)
  then show ?case by (cases e) (auto split: option.splits)
qed (auto split: option.splits)

lemma tool_loops_snoc:
  "\<not> is_action e \<Longrightarrow> \<not> is_observation_base e \<Longrightarrow> tool_loops (es @ [e]) = tool_loops es"
  by (simp add: tool_loops_def tool_loops_from_snoc)

text \<open>An event outside the tool protocol does not change what the history demands of a view.\<close>

lemma history_snoc:
  assumes "\<not> is_action e" "\<not> is_observation_base e"
  shows "satisfies_all cur (es @ [e]) = satisfies_all cur es" "view_shape cur (es @ [e]) = view_shape cur es"
  using assms
  by (simp_all add: satisfies_all_iff enforce_iff batch_ids_snoc tool_loops_snoc view_shape_def loops_embedded_def)

section \<open>Properties\<close>

text \<open>C1: From history to history. The view of a history needs no repair, the identifiers of its
  events are distinct, and the condenser condenses it. Then the events the condensation forgets are the
  ones of a non-empty range between two manipulation indices of the view. When the condensation is
  appended to the history and the view is built anew, that succeeds: the range is cut out, the summary
  stands in its place, the properties are enforced on the result, and no request is pending any more.
  Every property holds of the new view, and its events are among those of the cut view, in order.
  If moreover no batch and no tool loop has a gap in the old view, every call stands before its
  answer, and no tool loop of the history holds the identifier of the summary, then enforcement drops
  nothing, and the new view is exactly the cut view. Without that enforcement can drop more: when the error of
  a rejected call stands between the calls of a response, a manipulation index lies inside the batch,
  and what the cut leaves of the batch is dropped as well.\<close>

theorem condensation_end_to_end:
  assumes v: "append_events empty_view es = Inr v" and ok: "satisfies_all (events v) es"
    and d: "distinct (map ev_id (events v))"
    and k: "get_condensation rt c v a n = (Inr k, n') \<or> aget_condensation rt c v a n = (Inr k, n')"
  shows "from_events es = Inr v \<and>
    (\<exists>S i j v'. manipulation_indices v = Inr S \<and> int i \<in> S \<and> int j \<in> S \<and> i < j \<and> j \<le> length (events v) \<and>
       forgotten_event_ids k = ev_id ` set (take (j - i) (drop i (events v))) \<and>
       from_events (es @ [Condensation k]) = Inr v' \<and>
       events v' = enforce_events (condensed i j k (events v)) (es @ [Condensation k]) \<and>
       subseq (events v') (condensed i j k (events v)) \<and>
       satisfies_all (events v') (es @ [Condensation k]) \<and> \<not> unhandled_condensation_request v' \<and>
       (view_shape (events v) es \<and> (\<forall>l \<in> set (tool_loops es). summary_id (event_id k) \<notin> l) \<longrightarrow>
          events v' = condensed i j k (events v)))"
proof -
  let ?es = "es @ [Condensation k]"
  have hist: "satisfies_all cur ?es = satisfies_all cur es" for cur
    using history_snoc(1) [of "Condensation k"] by simp
  obtain S i j where r: "manipulation_indices v = Inr S" "int i \<in> S" "int j \<in> S" "i < j" "j \<le> length (events v)"
      "forgotten_event_ids k = ev_id ` set (take (j - i) (drop i (events v)))"
      "condensed i j k (events v) = (case cond_summary k of None \<Rightarrow> cut_range i j (events v)
        | Some s \<Rightarrow> py_insert i (inserted_summary k s) (cut_range i j (events v)))"
      "append_event v (Condensation k) =
        Inr (v\<lparr>events := condensed i j k (events v), unhandled_condensation_request := False\<rparr>)"
    using condensation_inserted [OF k d] by blast
  let ?v = "enforce_properties (v\<lparr>events := condensed i j k (events v), unhandled_condensation_request := False\<rparr>) ?es"
  have evs: "events ?v = enforce_events (condensed i j k (events v)) ?es" by (simp add: enforce_properties_def)
  have "from_events es = Inr v"
    using v ok by (simp add: from_events_def enforce_properties_def enforce_events_satisfied)
  moreover have "from_events ?es = Inr ?v"
    using v r(8) by (simp add: from_events_def append_events_snoc)
  moreover have "\<not> unhandled_condensation_request ?v" by (simp add: enforce_properties_def)
  moreover have "events ?v = condensed i j k (events v)"
    if "view_shape (events v) es" "\<forall>l \<in> set (tool_loops es). summary_id (event_id k) \<notin> l"
    unfolding evs using condensed_satisfied [OF r(1-4,7) that(1) ok that(2)] by (simp add: enforce_events_satisfied hist)
  ultimately show ?thesis
    using r(1-6) evs enforce_events_subseq enforce_events_satisfies by metis
qed

theorem condensation_end_to_end_witness:
  "\<exists>i j v'. i < j \<and>
     from_events (sample_turns @ [CondensationRequest (sample_base ''q'' SourceAgent), Condensation sample_condensation]) = Inr v' \<and>
     events v' = condensed i j sample_condensation (events sample_request) \<and> \<not> unhandled_condensation_request v'"
proof -
  let ?es = "sample_turns @ [CondensationRequest (sample_base ''q'' SourceAgent)]"
  have v: "append_events empty_view ?es = Inr sample_request"
    by (simp add: sample_turns_def sample_request_def empty_view_def append_event_def sample_defs)
  have "satisfies_all (events sample_request) ?es" "view_shape (events sample_request) ?es"
    using sample_turns_satisfied sample_turns_shape by (simp_all add: history_snoc sample_request_def)
  moreover have "distinct (map ev_id (events sample_request))"
    by (simp add: sample_request_def sample_turns_def sample_defs)
  moreover have "\<forall>l \<in> set (tool_loops ?es). summary_id (event_id sample_condensation) \<notin> l"
    by code_simp
  ultimately show ?thesis
    using condensation_end_to_end [OF v _ _ disjI1 [OF sample_get_condensation]] by fastforce
qed

end
